(* ===== verification/Prelude.thy ===== *)
theory Prelude
  imports Complex_Main "HOL-Library.Word" "HOL-Library.Monad_Syntax" "HOL-Library.AList"
begin

text \<open>
  Shared vocabulary of the development: the machine integer types of the Rust and C sources,
  bounds-checked array access, counted loops in the option monad (where \<open>None\<close> is a panic of
  the thread), little-endian integer encodings, and the generic lemmas the component theories
  use. The collections \<open>array_simps\<close> and \<open>le_simps\<close> gather the rewriting rules for bounds-checked
  access and for the integer encodings.
\<close>

unbundle bit_operations_syntax

named_theorems array_simps
named_theorems le_simps

section \<open>Machine integers and byte strings\<close>

type_synonym u8 = "8 word"
type_synonym u16 = "16 word"
type_synonym u32 = "32 word"
type_synonym u64 = "64 word"
type_synonym bytes = "u8 list"

text \<open>
  A length or an index (\<open>usize\<close>) is a \<open>nat\<close>: it counts elements of an object in memory. A sum on
  \<open>u64\<close> or \<open>u32\<close> values is the word sum, which wraps as a release build does; where a statement
  depends on a sum not wrapping it says so.
\<close>

lemma unat_add_small:
  fixes a b :: "'a::len word"
  assumes "unat a + unat b < 2 ^ LENGTH('a)"
  shows "unat (a + b) = unat a + unat b"
  using assms by (simp add: unat_word_ariths)

lemma xor_cancel_left [simp]: "(a::'a::len word) XOR (a XOR b) = b"
  by (simp flip: xor.assoc)

lemma unat_byte: "unat (a::u8) < 256"
  using unsigned_less [of a, where ?'a = nat] by simp

text \<open>Every byte is one of 256, so a decidable statement about all bytes is checked by evaluation.\<close>

definition all_bytes :: "bytes" where
  "all_bytes = map of_nat [0..<256]"

lemma all_bytes_complete [simp]: "(a::u8) \<in> set all_bytes"
proof -
  have "unat a < 256" using unsigned_less [of a, where ?'a = nat] by simp
  moreover have "a = of_nat (unat a)" by simp
  ultimately show ?thesis unfolding all_bytes_def set_map set_upt by (metis atLeastLessThan_iff imageI le0)
qed

lemma byte_exhaust: "list_all P all_bytes \<Longrightarrow> P (a::u8)"
  by (simp add: list_all_iff)

section \<open>Bounds-checked arrays\<close>

text \<open>Rust's \<open>xs[i]\<close> and \<open>xs[i] = v\<close>: out of range the thread panics.\<close>

definition aget :: "'a list \<Rightarrow> nat \<Rightarrow> 'a option" where
  "aget xs i = (if i < length xs then Some (xs ! i) else None)"

definition aset :: "'a list \<Rightarrow> nat \<Rightarrow> 'a \<Rightarrow> 'a list option" where
  "aset xs i v = (if i < length xs then Some (xs[i := v]) else None)"

lemma aget_in [array_simps]: "i < length xs \<Longrightarrow> aget xs i = Some (xs ! i)"
  by (simp add: aget_def)

lemma aset_in [array_simps]: "i < length xs \<Longrightarrow> aset xs i v = Some (xs[i := v])"
  by (simp add: aset_def)

lemma aget_out [array_simps]: "length xs \<le> i \<Longrightarrow> aget xs i = None"
  by (simp add: aget_def)

lemma aset_SomeD: "aset xs i v = Some ys \<Longrightarrow> i < length xs \<and> ys = xs[i := v]"
  by (auto simp: aset_def split: if_splits)

section \<open>Counted loops\<close>

text \<open>\<open>for x in xs { s = f(x, s)? }\<close>: a panic in the body ends the loop.\<close>

fun for_each :: "'a list \<Rightarrow> ('a \<Rightarrow> 's \<Rightarrow> 's option) \<Rightarrow> 's \<Rightarrow> 's option" where
  "for_each [] f s = Some s"
| "for_each (x # xs) f s = Option.bind (f x s) (for_each xs f)"

text \<open>\<open>for i in lo..hi\<close>.\<close>

definition for_range :: "nat \<Rightarrow> nat \<Rightarrow> (nat \<Rightarrow> 's \<Rightarrow> 's option) \<Rightarrow> 's \<Rightarrow> 's option" where
  "for_range lo hi f s = for_each [lo..<hi] f s"

lemma for_each_append:
  "for_each (xs @ ys) f s = Option.bind (for_each xs f s) (for_each ys f)"
  by (induction xs arbitrary: s) (auto split: bind_split)

lemma for_range_0 [simp]: "hi \<le> lo \<Longrightarrow> for_range lo hi f s = Some s"
  by (simp add: for_range_def)

lemma for_range_Suc:
  "lo \<le> hi \<Longrightarrow> for_range lo (Suc hi) f s = Option.bind (for_range lo hi f s) (f hi)"
  by (auto simp: for_range_def for_each_append split: bind_split)

text \<open>
  The loop rule. The body neither panics nor breaks the indexed invariant \<open>P\<close>; so the loop does
  not panic and ends with \<open>P hi\<close>.
\<close>

lemma for_range_rule:
  assumes "lo \<le> hi" and "P lo s"
    and "\<And>i s. lo \<le> i \<Longrightarrow> i < hi \<Longrightarrow> P i s \<Longrightarrow> \<exists>s'. f i s = Some s' \<and> P (Suc i) s'"
  shows "\<exists>s'. for_range lo hi f s = Some s' \<and> P hi s'"
  using assms
proof (induction "hi - lo" arbitrary: hi)
  case 0
  then show ?case by auto
next
  case (Suc d)
  then obtain h where hi: "hi = Suc h" and lo: "lo \<le> h"
    by (cases hi) auto
  with Suc have "\<exists>s'. for_range lo h f s = Some s' \<and> P h s'" by simp
  then obtain s1 where s1: "for_range lo h f s = Some s1" "P h s1" by blast
  with Suc.prems(3) [of h s1] hi lo obtain s2 where "f h s1 = Some s2" "P hi s2" by auto
  with s1 hi lo show ?case by (simp add: for_range_Suc)
qed

lemma for_each_rule:
  assumes "P [] s"
    and "\<And>ys x s. \<exists>zs. xs = ys @ x # zs \<Longrightarrow> P ys s \<Longrightarrow> \<exists>s'. f x s = Some s' \<and> P (ys @ [x]) s'"
  shows "\<exists>s'. for_each xs f s = Some s' \<and> P xs s'"
  using assms
proof (induction xs rule: rev_induct)
  case Nil
  then show ?case by simp
next
  case (snoc x xs)
  have "\<exists>s'. for_each xs f s = Some s' \<and> P xs s'"
    by (rule snoc.IH [OF snoc.prems(1)]) (use snoc.prems(2) in force)
  then obtain s1 where "for_each xs f s = Some s1" "P xs s1" by blast
  with snoc.prems(2) [of xs x s1] show ?case by (auto simp: for_each_append)
qed

text \<open>\<open>xs.iter().map(f).collect()\<close> where \<open>f\<close> may panic.\<close>

fun mapM :: "('a \<Rightarrow> 'b option) \<Rightarrow> 'a list \<Rightarrow> 'b list option" where
  "mapM f [] = Some []"
| "mapM f (x # xs) = do { y \<leftarrow> f x; ys \<leftarrow> mapM f xs; Some (y # ys) }"

lemma mapM_Some: "(\<And>x. x \<in> set xs \<Longrightarrow> f x = Some (g x)) \<Longrightarrow> mapM f xs = Some (map g xs)"
  by (induction xs) auto

text \<open>A loop that updates every position of an array once, each from its old value.\<close>

lemma for_range_each_cell:
  assumes "\<And>i ys. i < length xs \<Longrightarrow> length ys = length xs \<Longrightarrow> ys ! i = xs ! i \<Longrightarrow>
      f i ys = Some (ys[i := g i (xs ! i)])"
  shows "for_range 0 (length xs) f xs = Some (map (\<lambda>i. g i (xs ! i)) [0..<length xs])"
proof -
  let ?P = "\<lambda>n ys. length ys = length xs \<and> (\<forall>i<length xs. ys ! i = (if i < n then g i (xs ! i) else xs ! i))"
  have "\<exists>ys. for_range 0 (length xs) f xs = Some ys \<and> ?P (length xs) ys"
    by (rule for_range_rule [where P = ?P]) (use assms in \<open>auto simp: nth_list_update less_Suc_eq\<close>)
  then show ?thesis by (auto intro!: nth_equalityI)
qed

section \<open>Decimal numerals\<close>

text \<open>What \<open>format!("{n}")\<close> prints for an unsigned and for a signed integer.\<close>

function show_nat :: "nat \<Rightarrow> string" where
  "show_nat n = (if n < 10 then [char_of (48 + n)] else show_nat (n div 10) @ [char_of (48 + n mod 10)])"
  by pat_completeness auto
termination
  by (relation "measure id") auto

declare show_nat.simps [simp del]

definition show_int :: "int \<Rightarrow> string" where
  "show_int i = (if i < 0 then ''-'' @ show_nat (nat (- i)) else show_nat (nat i))"

section \<open>Results\<close>

text \<open>Rust's \<open>Result\<close> is a sum with the error on the left; \<open>and_then m f\<close> is \<open>f(m?)\<close>.\<close>

named_theorems result_simps

definition and_then :: "'e + 'a \<Rightarrow> ('a \<Rightarrow> 'e + 'b) \<Rightarrow> 'e + 'b" where
  "and_then m f = (case m of Inl e \<Rightarrow> Inl e | Inr x \<Rightarrow> f x)"

lemma and_then_simps [simp, result_simps]: "and_then (Inl e) f = Inl e" "and_then (Inr x) f = f x"
  by (simp_all add: and_then_def)

lemma and_then_Inr: "and_then m f = Inr y \<longleftrightarrow> (\<exists>x. m = Inr x \<and> f x = Inr y)"
  by (simp add: and_then_def split: sum.split)

lemma and_then_Inl: "and_then m f = Inl e \<longleftrightarrow> m = Inl e \<or> (\<exists>x. m = Inr x \<and> f x = Inl e)"
  by (auto simp: and_then_def split: sum.split)

section \<open>Little-endian integers\<close>

text \<open>\<open>to_le_bytes\<close> and \<open>from_le_bytes\<close>: \<open>n\<close> bytes, least significant first.\<close>

fun to_le :: "nat \<Rightarrow> 'a::len word \<Rightarrow> bytes" where
  "to_le 0 w = []"
| "to_le (Suc n) w = ucast w # to_le n (drop_bit 8 w)"

fun from_le :: "bytes \<Rightarrow> 'a::len word" where
  "from_le [] = 0"
| "from_le (b # bs) = ucast b OR push_bit 8 (from_le bs)"

lemma length_to_le [simp]: "length (to_le n w) = n"
  by (induction n arbitrary: w) auto

lemma bit_from_to_le:
  "bit (from_le (to_le n w) :: 'a::len word) i \<longleftrightarrow> i < 8 * n \<and> bit (w::'a word) i"
proof (induction n arbitrary: w i)
  case 0
  then show ?case by simp
next
  case (Suc n)
  have len: "bit w i \<Longrightarrow> i < LENGTH('a)" for w :: "'a word" and i
    by (rule bit_imp_le_length)
  show ?case
    by (cases "i < 8") (auto simp: bit_simps Suc.IH dest: len)
qed

lemma from_to_le [le_simps]:
  assumes "LENGTH('a) \<le> 8 * n"
  shows "from_le (to_le n w) = (w :: 'a::len word)"
proof (rule bit_eqI)
  fix i assume "possible_bit TYPE('a word) i"
  then have "i < LENGTH('a)" by simp
  with assms show "bit (from_le (to_le n w) :: 'a word) i = bit w i"
    by (auto simp: bit_from_to_le)
qed

text \<open>The bits of a decoded integer are the bits of its bytes.\<close>

lemma bit_from_le:
  "bit (from_le bs :: 'a::len word) i \<longleftrightarrow> i < LENGTH('a) \<and> i div 8 < length bs \<and> bit (bs ! (i div 8)) (i mod 8)"
proof (induction bs arbitrary: i)
  case Nil
  then show ?case by simp
next
  case (Cons b bs)
  show ?case
  proof (cases "i < 8")
    case True
    then show ?thesis by (auto simp: bit_simps)
  next
    case False
    then obtain j where j: "i = 8 + j" by (metis le_add_diff_inverse not_less)
    have "\<not> bit b i" using False bit_imp_le_length [of b i] by auto
    then show ?thesis using Cons.IH [of j] by (auto simp: bit_simps j)
  qed
qed

lemma from_le_byte:
  assumes "8 * Suc k \<le> LENGTH('a)" and "k < length bs"
  shows "ucast (drop_bit (8 * k) (from_le bs :: 'a::len word)) = bs ! k"
  using assms by (auto intro!: bit_eqI simp: bit_simps bit_from_le)

lemma to_le_nth: "k < n \<Longrightarrow> to_le n w ! k = ucast (drop_bit (8 * k) w)"
  by (induction n arbitrary: w k) (auto simp: nth_Cons add.commute split: nat.split)

lemma to_from_le [le_simps]:
  assumes "length bs = n" and "8 * n \<le> LENGTH('a)"
  shows "to_le n (from_le bs :: 'a::len word) = bs"
  using assms by (auto intro!: nth_equalityI simp: to_le_nth from_le_byte)

lemma from_le_inj:
  assumes "length as = length bs" "8 * length bs \<le> LENGTH('a)" "(from_le as :: 'a::len word) = from_le bs"
  shows "as = bs"
  using assms to_from_le by metis

section \<open>Rounded division\<close>

text \<open>\<open>usize::div_ceil\<close>\<close>

definition div_ceil :: "nat \<Rightarrow> nat \<Rightarrow> nat" where
  "div_ceil a b = (if a mod b > 0 then a div b + 1 else a div b)"

lemma div_ceil_covers:
  assumes "0 < k"
  shows "n \<le> k * div_ceil n k"
proof (cases "n mod k = 0")
  case True
  then show ?thesis by (simp add: div_ceil_def mod_eq_0_iff_dvd)
next
  case False
  have "n mod k < k" using assms by simp
  then have "n \<le> k * (n div k) + k" using mult_div_mod_eq [of k n] by linarith
  then show ?thesis using False by (simp add: div_ceil_def)
qed

end
