(* ===== verification/GF256.thy ===== *)
theory GF256
  imports Prelude
begin

text \<open>
  The field arithmetic of \<^verbatim>\<open>crates/shardvault-ec/src/gf.rs\<close>: the \<open>exp\<close>/\<open>log\<close> tables, and addition,
  multiplication, inversion and division by table lookup. The reference is multiplication of
  polynomials over two elements modulo \<open>0x11D\<close> (shift and add). The tables are shown to compute
  the reference, and the bytes with these operations form a field: the type \<open>gf8\<close> below is made an
  instance of the library's class \<open>field\<close>, which the matrix and codec theories use.
\<close>

section \<open>The code\<close>

definition POLY :: u16 where
  "POLY = 0x11D"

record gf_tables =
  exp_tab :: bytes
  log_tab :: bytes

text \<open>One round of the first loop of \<open>build_tables\<close>; the state is \<open>(exp, log, x)\<close>.\<close>

definition build_step :: "nat \<Rightarrow> bytes \<times> bytes \<times> u16 \<Rightarrow> (bytes \<times> bytes \<times> u16) option" where
  "build_step i = (\<lambda>(ex, lg, x). do {
     ex \<leftarrow> aset ex i (ucast x);
     lg \<leftarrow> aset lg (unat x) (of_nat i);
     let x = push_bit 1 x;
     let x = (if x AND 0x100 \<noteq> 0 then x XOR POLY else x);
     Some (ex, lg, x) })"

definition build_tables :: "gf_tables option" where
  "build_tables = do {
     (ex, lg, x) \<leftarrow> for_range 0 255 build_step (replicate 512 0, replicate 256 0, 1);
     ex \<leftarrow> for_range 0 255 (\<lambda>i ex. do { v \<leftarrow> aget ex i; aset ex (255 + i) v }) ex;
     Some \<lparr>exp_tab = ex, log_tab = lg\<rparr> }"

text \<open>The tables are built on first use and shared; every use sees the same value.\<close>

definition tables :: "gf_tables option" where
  "tables = build_tables"

definition gf_add :: "u8 \<Rightarrow> u8 \<Rightarrow> u8" where
  "gf_add a b = a XOR b"

definition gf_mul :: "u8 \<Rightarrow> u8 \<Rightarrow> u8 option" where
  "gf_mul a b = (if a = 0 \<or> b = 0 then Some 0 else do {
     t \<leftarrow> tables;
     la \<leftarrow> aget (log_tab t) (unat a);
     lb \<leftarrow> aget (log_tab t) (unat b);
     aget (exp_tab t) (unat la + unat lb) })"

definition gf_inv :: "u8 \<Rightarrow> u8 option" where
  "gf_inv a = (if a = 0 then Some 0 else do {
     t \<leftarrow> tables;
     la \<leftarrow> aget (log_tab t) (unat a);
     if unat la \<le> 255 then aget (exp_tab t) (255 - unat la) else None })"

definition gf_div :: "u8 \<Rightarrow> u8 \<Rightarrow> u8 option" where
  "gf_div a b = do { ib \<leftarrow> gf_inv b; gf_mul a ib }"

section \<open>The reference: polynomials modulo \<open>0x11D\<close>\<close>

text \<open>Multiplication by the polynomial \<open>x\<close>.\<close>

definition xtime :: "u8 \<Rightarrow> u8" where
  "xtime a = push_bit 1 a XOR (if bit a 7 then 0x1D else 0)"

text \<open>Shift and add.\<close>

definition gmul :: "u8 \<Rightarrow> u8 \<Rightarrow> u8" where
  "gmul a b = foldr (\<lambda>i acc. (if bit a i then (xtime ^^ i) b else 0) XOR acc) [0..<8] 0"

lemma xtime_xor: "xtime (a XOR b) = xtime a XOR xtime b"
  by (auto simp: xtime_def bit_simps ac_simps intro!: bit_eqI)

lemma xtime_0 [simp]: "xtime 0 = 0"
  by (simp add: xtime_def)

lemma xtime_pow_xor: "(xtime ^^ i) (a XOR b) = (xtime ^^ i) a XOR (xtime ^^ i) b"
  by (induction i) (auto simp: xtime_xor)

lemma xtime_pow_0 [simp]: "(xtime ^^ i) 0 = 0"
  by (induction i) auto

text \<open>A map that is additive over exclusive or is determined by its values on the eight single bits.\<close>

lemma bit_foldr_single_bits:
  "distinct is \<Longrightarrow> n < 8 \<Longrightarrow>
    bit (foldr (\<lambda>i acc. (if P i then push_bit i 1 else 0) XOR acc) is (0::u8)) n \<longleftrightarrow> n \<in> set is \<and> P n"
  by (induction "is") (auto simp: bit_simps)

lemma byte_bits: "(a::u8) = foldr (\<lambda>i acc. (if bit a i then push_bit i 1 else 0) XOR acc) [0..<8] 0"
  by (rule bit_eqI) (simp add: bit_foldr_single_bits)

lemma additive_0: "(\<And>a b. f (a XOR b) = f a XOR f b) \<Longrightarrow> f (0::u8) = (0::u8)"
  by (metis xor_self_eq)

lemma additive_foldr:
  assumes "\<And>a b. f (a XOR b) = f a XOR (f b :: u8)"
  shows "f (foldr (\<lambda>i acc. (if P i then g i else 0) XOR acc) is (0::u8))
    = foldr (\<lambda>i acc. (if P i then f (g i) else 0) XOR acc) is 0"
  by (induction "is") (simp_all add: assms additive_0 [of f, OF assms])

lemma additive_ext:
  assumes "\<And>a b. f (a XOR b) = f a XOR (f b :: u8)" and "\<And>a b. g (a XOR b) = g a XOR (g b :: u8)"
    and "list_all (\<lambda>i. f (push_bit i 1) = g (push_bit i 1)) [0..<8]"
  shows "f (a::u8) = g a"
proof -
  have bits: "foldr (\<lambda>i acc. (if bit a i then f (push_bit i 1) else 0) XOR acc) is 0 =
      foldr (\<lambda>i acc. (if bit a i then g (push_bit i 1) else 0) XOR acc) is 0"
    if "set is \<subseteq> set [0..<8]" for "is"
    using that assms(3) by (induction "is") (auto simp: list_all_iff)
  show ?thesis
    by (subst (1 2) byte_bits)
      (use bits in \<open>simp only: additive_foldr [of f, OF assms(1)] additive_foldr [of g, OF assms(2)]\<close>)
qed

lemma xtime_8: "(xtime ^^ 8) b = (xtime ^^ 4) b XOR (xtime ^^ 3) b XOR (xtime ^^ 2) b XOR b"
proof (rule additive_ext [where f = "xtime ^^ 8"])
  show "list_all (\<lambda>i. (xtime ^^ 8) (push_bit i 1) = (xtime ^^ 4) (push_bit i 1)
      XOR (xtime ^^ 3) (push_bit i 1) XOR (xtime ^^ 2) (push_bit i 1) XOR push_bit i 1) [0..<8]"
    by code_simp
qed (simp_all add: xtime_pow_xor ac_simps)

lemma gmul_unfold:
  "gmul a b = (if bit a 0 then b else 0) XOR (if bit a 1 then xtime b else 0)
     XOR (if bit a 2 then (xtime ^^ 2) b else 0) XOR (if bit a 3 then (xtime ^^ 3) b else 0)
     XOR (if bit a 4 then (xtime ^^ 4) b else 0) XOR (if bit a 5 then (xtime ^^ 5) b else 0)
     XOR (if bit a 6 then (xtime ^^ 6) b else 0) XOR (if bit a 7 then (xtime ^^ 7) b else 0)"
proof -
  have "[0..<8] = [0, 1, 2, 3, 4, 5, 6, 7]" by code_simp
  then show ?thesis by (simp add: gmul_def del: upt_eq_Nil_conv)
qed

lemma foldr_bits_xor:
  "foldr (\<lambda>i acc. (if bit (a XOR b) i then g i else 0) XOR acc) is (0::u8) =
   foldr (\<lambda>i acc. (if bit a i then g i else 0) XOR acc) is 0 XOR
   foldr (\<lambda>i acc. (if bit b i then g i else 0) XOR acc) is 0"
  by (induction "is") (auto simp: bit_simps ac_simps)

lemma foldr_single_bit:
  "distinct is \<Longrightarrow> k < 8 \<Longrightarrow>
    foldr (\<lambda>i acc. (if bit (push_bit k 1 :: u8) i then g i else 0) XOR acc) is (0::u8)
      = (if k \<in> set is then g k else 0)"
  by (induction "is") (auto simp: bit_simps)

lemma gmul_xor_left: "gmul (a XOR b) c = gmul a c XOR gmul b c"
  by (simp only: gmul_def foldr_bits_xor)

lemma gmul_xor_right: "gmul c (a XOR b) = gmul c a XOR gmul c b"
  by (simp add: gmul_unfold xtime_pow_xor xtime_xor ac_simps)

lemma gmul_0_left [simp]: "gmul 0 b = 0" and gmul_0_right [simp]: "gmul a 0 = 0"
  by (simp_all add: gmul_unfold)

lemma gmul_single_bit: "k < 8 \<Longrightarrow> gmul (push_bit k 1) b = (xtime ^^ k) b"
  unfolding gmul_def by (subst foldr_single_bit) simp_all

lemma gmul_1_left: "gmul 1 b = b"
  using gmul_single_bit [of 0 b] by simp

lemma gmul_xtime: "gmul (xtime a) b = xtime (gmul a b)"
proof (rule additive_ext [where f = "\<lambda>a. gmul (xtime a) b"])
  have low: "list_all (\<lambda>i. xtime (push_bit i 1) = push_bit (Suc i) 1) [0..<7]" by code_simp
  have top: "xtime (push_bit 7 1) = 0x1D" by code_simp
  have red: "gmul 0x1D b = (xtime ^^ 8) b"
    unfolding xtime_8 gmul_unfold by (simp add: bit_simps ac_simps)
  show "list_all (\<lambda>i. gmul (xtime (push_bit i 1)) b = xtime (gmul (push_bit i 1) b)) [0..<8]"
    unfolding list_all_iff
  proof
    fix i :: nat assume "i \<in> set [0..<8]"
    then consider "i < 7" | "i = 7" by fastforce
    then show "gmul (xtime (push_bit i 1)) b = xtime (gmul (push_bit i 1) b)"
    proof cases
      case 1
      then have "xtime (push_bit i 1) = push_bit (Suc i) 1" using low by (simp add: list_all_iff)
      with 1 show ?thesis by (simp only: gmul_single_bit) (simp add: gmul_single_bit)
    next
      case 2
      then show ?thesis by (simp only: top red gmul_single_bit) (simp add: gmul_single_bit eval_nat_numeral)
    qed
  qed
qed (simp_all add: gmul_xor_left xtime_xor)

section \<open>Powers of the generator\<close>

definition gpow :: "nat \<Rightarrow> u8" where
  "gpow i = (xtime ^^ i) 1"

lemma gpow_0 [simp]: "gpow 0 = 1" and gpow_Suc: "gpow (Suc i) = xtime (gpow i)"
  by (simp_all add: gpow_def)

lemma gmul_gpow: "gmul (gpow i) b = (xtime ^^ i) b"
  by (induction i) (simp_all add: gpow_Suc gmul_1_left gmul_xtime)

lemma gmul_gpow_gpow: "gmul (gpow i) (gpow j) = gpow (i + j)"
  by (simp add: gmul_gpow) (simp add: gpow_def funpow_add)

fun iter_xtime :: "nat \<Rightarrow> u8 \<Rightarrow> u8" where
  "iter_xtime 0 x = x" | "iter_xtime (Suc n) x = iter_xtime n (xtime x)"

lemma gpow_iter: "gpow i = iter_xtime i 1"
proof -
  have "iter_xtime n x = (xtime ^^ n) x" for n x
    by (induction n arbitrary: x) (simp_all add: funpow_swap1)
  then show ?thesis by (simp add: gpow_def)
qed

lemma gpow_255: "gpow 255 = 1"
  unfolding gpow_iter by code_simp
lemma gpow_fac: "gpow 85 \<noteq> 1" "gpow 51 \<noteq> 1" "gpow 15 \<noteq> 1"
  unfolding gpow_iter by code_simp+

lemma gpow_mult_1: "gpow d = 1 \<Longrightarrow> gpow (d * k) = 1"
proof (induction k)
  case (Suc k)
  then have "gpow (d + d * k) = gmul 1 1" by (simp flip: gmul_gpow_gpow)
  then show ?case by (simp add: gmul_1_left)
qed simp

lemma gpow_add_255: "gpow (255 * k + i) = gpow i"
  using gmul_gpow_gpow [of "255 * k" i] gpow_mult_1 [OF gpow_255, of k] by (simp add: gmul_1_left)

lemma gpow_mod: "gpow (i mod 255) = gpow i"
  using gpow_add_255 [of "i div 255" "i mod 255"] by simp

lemma gpow_order:
  assumes "0 < d" "d < 255" shows "gpow d \<noteq> 1"
proof
  assume one: "gpow d = 1"
  define g where "g = gcd d 255"
  have "list_all (\<lambda>g. g dvd 255 \<longrightarrow> g dvd 85 \<or> g dvd 51 \<or> g dvd 15) [1..<255::nat]" by code_simp
  moreover have "g dvd 255" "0 < g" "g < 255"
    using assms by (auto simp: g_def intro: order_le_less_trans [OF gcd_le1_nat])
  ultimately have dvd: "g dvd 85 \<or> g dvd 51 \<or> g dvd 15" by (simp add: list_all_iff)
  obtain x y where "d * x = 255 * y + g" using bezout_nat [of d 255] assms unfolding g_def by auto
  then have "gpow g = 1" using gpow_mult_1 [OF one, of x] gpow_add_255 [of y g] by simp
  then have "gpow n = 1" if "g dvd n" for n using that gpow_mult_1 by (auto elim!: dvdE)
  with dvd gpow_fac show False by auto
qed

lemma gpow_inj:
  assumes "i < 255" "j < 255" "gpow i = gpow j" shows "i = j"
proof -
  have *: False if "i < j" "j < 255" "gpow i = gpow j" for i j
  proof -
    have "gpow (255 - i + i) = gpow (255 - i + j)"
      by (simp only: that(3) flip: gmul_gpow_gpow)
    moreover have "255 - i + j = 255 * 1 + (j - i)" using that by simp
    ultimately have "gpow (j - i) = 1" using that gpow_255 by (simp only: gpow_add_255) simp
    moreover have "0 < j - i" "j - i < 255" using that by auto
    ultimately show False using gpow_order by blast
  qed
  show ?thesis using *[of i j] *[of j i] assms by (cases i j rule: linorder_cases) auto
qed

lemma gpow_nonzero: "gpow i \<noteq> 0"
proof
  assume "gpow i = 0"
  then have "gpow (255 - i mod 255 + i mod 255) = 0"
    by (simp only: gpow_mod gmul_0_right flip: gmul_gpow_gpow)
  moreover have "255 - i mod 255 + i mod 255 = 255" by (simp add: less_imp_le)
  ultimately show False using gpow_255 by simp
qed

lemma gpow_surj:
  assumes "a \<noteq> 0" obtains i where "i < 255" "a = gpow i"
proof -
  have "card (gpow ` {..<255}) = 255" by (subst card_image) (auto intro: inj_onI gpow_inj)
  moreover have "card (UNIV - {0 :: u8}) = 255" by (simp add: card_Diff_singleton card_word)
  moreover have "gpow ` {..<255} \<subseteq> UNIV - {0}" using gpow_nonzero by auto
  ultimately have "gpow ` {..<255} = UNIV - {0}" by (intro card_subset_eq) auto
  with assms have "a \<in> gpow ` {..<255}" by auto
  then show ?thesis using that by auto
qed

section \<open>The tables\<close>

lemma unat_ucast_u8_u16 [simp]: "unat (ucast (a::u8) :: u16) = unat a"
  using unsigned_less [of a, where ?'a = nat] by (simp add: unsigned_ucast_eq take_bit_nat_eq_self)

lemma ucast_u16_u8_id [simp]: "ucast (ucast (a::u8) :: u16) = a"
  by (rule bit_eqI) (auto simp: bit_simps)

lemma table_step_xtime:
  "(let x = push_bit 1 (ucast a :: u16) in if x AND 0x100 \<noteq> 0 then x XOR POLY else x) = ucast (xtime a)"
  by (rule byte_exhaust [where P = "\<lambda>a. (let x = push_bit 1 (ucast a :: u16) in
        if x AND 0x100 \<noteq> 0 then x XOR POLY else x) = ucast (xtime a)"]) code_simp

lemma build_loop1:
  "\<exists>ex lg. for_range 0 255 build_step (replicate 512 0, replicate 256 0, 1) = Some (ex, lg, ucast (gpow 255))
     \<and> length ex = 512 \<and> length lg = 256
     \<and> (\<forall>j<255. ex ! j = gpow j \<and> lg ! unat (gpow j) = of_nat j)"
proof -
  let ?P = "\<lambda>i (ex, lg, x). x = ucast (gpow i) \<and> length ex = 512 \<and> length lg = 256
     \<and> (\<forall>j<i. ex ! j = gpow j \<and> lg ! unat (gpow j) = of_nat j)"
  have "\<exists>s. for_range 0 255 build_step (replicate 512 0, replicate 256 0, 1) = Some s \<and> ?P 255 s"
  proof (rule for_range_rule [where P = ?P])
    fix i :: nat and s :: "bytes \<times> bytes \<times> u16" assume i: "i < 255" and P: "?P i s"
    obtain ex lg x where s: "s = (ex, lg, x)" by (cases s)
    have neq: "unat (gpow i) \<noteq> unat (gpow j)" if "j < i" for j
      using that i gpow_inj [of i j] by (auto simp flip: word_unat_eq_iff)
    show "\<exists>s'. build_step i s = Some s' \<and> ?P (Suc i) s'"
      using P i unat_byte [of "gpow i"] table_step_xtime [of "gpow i"]
      by (auto simp: s build_step_def array_simps less_Suc_eq gpow_Suc Let_def nth_list_update neq)
  qed auto
  then show ?thesis by auto
qed

lemma build_loop2:
  assumes "length ex = 512" "\<forall>j<255. ex ! j = gpow j"
  shows "\<exists>ex'. for_range 0 255 (\<lambda>i ex. do { v \<leftarrow> aget ex i; aset ex (255 + i) v }) ex = Some ex'
     \<and> length ex' = 512 \<and> (\<forall>j<510. ex' ! j = gpow j)"
proof -
  let ?P = "\<lambda>i ex. length ex = 512 \<and> (\<forall>j<255 + i. ex ! j = gpow j)"
  have "\<exists>s. for_range 0 255 (\<lambda>i ex. do { v \<leftarrow> aget ex i; aset ex (255 + i) v }) ex = Some s \<and> ?P 255 s"
  proof (rule for_range_rule [where P = ?P])
    fix i :: nat and s assume i: "i < 255" and P: "?P i s"
    have "gpow (255 + i) = gpow i" using gpow_add_255 [of 1 i] by simp
    with P i show "\<exists>s'. (do { v \<leftarrow> aget s i; aset s (255 + i) v }) = Some s' \<and> ?P (Suc i) s'"
      by (auto simp: array_simps less_Suc_eq nth_list_update)
  qed (use assms in auto)
  then show ?thesis by auto
qed

lemma tables_spec:
  "\<exists>t. tables = Some t \<and> length (exp_tab t) = 512 \<and> length (log_tab t) = 256
     \<and> (\<forall>j<510. exp_tab t ! j = gpow j) \<and> (\<forall>j<255. log_tab t ! unat (gpow j) = of_nat j)"
proof -
  obtain ex lg where 1: "for_range 0 255 build_step (replicate 512 0, replicate 256 0, 1)
       = Some (ex, lg, ucast (gpow 255))"
      "length ex = 512" "length lg = 256" "\<forall>j<255. ex ! j = gpow j \<and> lg ! unat (gpow j) = of_nat j"
    using build_loop1 by blast
  obtain ex' where 2: "for_range 0 255 (\<lambda>i ex. do { v \<leftarrow> aget ex i; aset ex (255 + i) v }) ex = Some ex'"
      "length ex' = 512" "\<forall>j<510. ex' ! j = gpow j"
    using build_loop2 [of ex] 1 by blast
  show ?thesis using 1 2 by (simp add: tables_def build_tables_def)
qed

section \<open>The code computes the reference\<close>

lemma gf_mul_eq [simp]: "gf_mul a b = Some (gmul a b)"
proof (cases "a = 0 \<or> b = 0")
  case False
  then obtain i j where ij: "i < 255" "a = gpow i" "j < 255" "b = gpow j" by (metis gpow_surj)
  obtain t where t: "tables = Some t" "length (exp_tab t) = 512" "length (log_tab t) = 256"
      "\<forall>j<510. exp_tab t ! j = gpow j" "\<forall>j<255. log_tab t ! unat (gpow j) = of_nat j"
    using tables_spec by blast
  have "unat (of_nat i :: u8) = i" "unat (of_nat j :: u8) = j"
    using ij by (simp_all add: unat_of_nat)
  then show ?thesis
    using False ij t(2-5) by (simp add: gf_mul_def t(1) array_simps unat_byte gmul_gpow_gpow)
qed (auto simp: gf_mul_def)

definition ginv :: "u8 \<Rightarrow> u8" where
  "ginv a = the (gf_inv a)"

lemma gf_inv_gpow:
  assumes "i < 255" shows "gf_inv (gpow i) = Some (gpow (255 - i))"
proof -
  obtain t where t: "tables = Some t" "length (exp_tab t) = 512" "length (log_tab t) = 256"
      "\<forall>j<510. exp_tab t ! j = gpow j" "\<forall>j<255. log_tab t ! unat (gpow j) = of_nat j"
    using tables_spec by blast
  have "unat (of_nat i :: u8) = i" using assms by (simp add: unat_of_nat)
  then show ?thesis
    using assms t(2-5) gpow_nonzero by (simp add: gf_inv_def t(1) array_simps unat_byte)
qed

lemma gf_inv_0: "gf_inv 0 = Some 0"
  by (simp add: gf_inv_def)

lemma ginv_gpow: "i < 255 \<Longrightarrow> ginv (gpow i) = gpow (255 - i)" and ginv_0 [simp]: "ginv 0 = 0"
  by (simp_all add: ginv_def gf_inv_gpow gf_inv_0)

lemma gf_inv_eq [simp]: "gf_inv a = Some (ginv a)"
proof (cases "a = 0")
  case False
  then obtain i where "i < 255" "a = gpow i" by (rule gpow_surj)
  then show ?thesis by (simp add: ginv_def gf_inv_gpow)
qed (simp add: ginv_def gf_inv_0)

lemma gmul_ginv: "a \<noteq> 0 \<Longrightarrow> gmul a (ginv a) = 1"
proof -
  assume "a \<noteq> 0"
  then obtain i where "i < 255" "a = gpow i" by (rule gpow_surj)
  then show ?thesis by (simp add: ginv_gpow gmul_gpow_gpow gpow_255)
qed

lemma gmul_commute: "gmul a b = gmul b a"
proof (cases "a = 0 \<or> b = 0")
  case False
  then obtain i j where "a = gpow i" "b = gpow j" by (metis gpow_surj)
  then show ?thesis by (simp add: gmul_gpow_gpow add.commute)
qed auto

lemma gmul_assoc: "gmul (gmul a b) c = gmul a (gmul b c)"
proof (cases "a = 0 \<or> b = 0 \<or> c = 0")
  case False
  then obtain i j k where "a = gpow i" "b = gpow j" "c = gpow k" by (metis gpow_surj)
  then show ?thesis by (simp add: gmul_gpow_gpow add.assoc)
qed auto

section \<open>The field\<close>

datatype gf8 = GF (byte_of: u8)

instantiation gf8 :: field
begin

definition "0 = GF 0"
definition "1 = GF 1"
definition "a + b = GF (gf_add (byte_of a) (byte_of b))"
definition "a - b = GF (gf_add (byte_of a) (byte_of b))"
definition "- a = (a :: gf8)"
definition "a * b = GF (gmul (byte_of a) (byte_of b))"
definition "inverse a = GF (ginv (byte_of a))"
definition "divide a b = (a * inverse b :: gf8)"

instance
proof
  fix a b c :: gf8
  note defs = zero_gf8_def one_gf8_def plus_gf8_def minus_gf8_def uminus_gf8_def times_gf8_def
    inverse_gf8_def divide_gf8_def gf_add_def
  show "a * b * c = a * (b * c)" by (simp add: defs gmul_assoc)
  show "a * b = b * a" by (simp add: defs gmul_commute)
  show "1 * a = a" by (simp add: defs gmul_1_left)
  show "a + b + c = a + (b + c)" by (simp add: defs ac_simps)
  show "a + b = b + a" by (simp add: defs ac_simps)
  show "0 + a = a" by (simp add: defs)
  show "- a + a = 0" by (simp add: defs)
  show "a - b = a + - b" by (simp add: defs)
  show "(a + b) * c = a * c + b * c" by (simp add: defs gmul_xor_left)
  show "(0 :: gf8) \<noteq> 1" by (simp add: defs)
  show "a \<noteq> 0 \<Longrightarrow> inverse a * a = 1"
    using gmul_ginv [of "byte_of a"] by (cases a) (simp add: defs gmul_commute)
  show "a div b = a * inverse b" by (simp add: defs)
  show "inverse (0 :: gf8) = 0" by (simp add: defs)
qed

end

text \<open>How the code's byte operations read in the field.\<close>

lemma GF_add: "GF (gf_add a b) = GF a + GF b" and GF_xor: "GF (a XOR b) = GF a + GF b"
  by (simp_all add: plus_gf8_def gf_add_def)

lemma GF_mul: "GF (gmul a b) = GF a * GF b"
  by (simp add: times_gf8_def)

lemma GF_inv: "GF (ginv a) = inverse (GF a)"
  by (simp add: inverse_gf8_def)

lemma GF_0 [simp]: "GF 0 = 0" and GF_1 [simp]: "GF 1 = 1"
  by (simp_all add: zero_gf8_def one_gf8_def)

lemma GF_eq_0 [simp]: "GF a = 0 \<longleftrightarrow> a = 0"
  by (metis gf8.inject GF_0)

lemma byte_of_eq_0 [simp]: "byte_of a = 0 \<longleftrightarrow> a = 0"
  by (cases a) simp

lemmas GF_simps = GF_add GF_xor GF_mul GF_inv

lemma gf8_uminus [simp]: "- a = (a :: gf8)"
  by (simp add: uminus_gf8_def)

lemma gf8_add_self [simp]: "a + a = (0 :: gf8)"
  using add.right_inverse [of a] by simp

section \<open>Properties\<close>

text \<open>
  C17. The tables are built without an index out of range, the logarithm and the exponential invert
  each other, and multiplication by table lookup never panics and is the product of polynomials
  modulo \<open>0x11D\<close>, for all pairs of bytes.
\<close>

theorem gf_mul_tables_correct:
  "\<exists>t. tables = Some t
     \<and> (\<forall>a. a \<noteq> 0 \<longrightarrow> exp_tab t ! unat (log_tab t ! unat a) = a)
     \<and> (\<forall>i<255. unat (log_tab t ! unat (exp_tab t ! i)) = i)
     \<and> (\<forall>a b. gf_mul a b = Some (gmul a b))"
proof -
  obtain t where t: "tables = Some t"
      "\<forall>j<510. exp_tab t ! j = gpow j" "\<forall>j<255. log_tab t ! unat (gpow j) = of_nat j"
    using tables_spec by blast
  have un: "unat (of_nat i :: u8) = i" if "i < 255" for i using that by (simp add: unat_of_nat)
  have "exp_tab t ! unat (log_tab t ! unat a) = a" if nz: "a \<noteq> 0" for a
  proof -
    obtain i where "i < 255" "a = gpow i" using nz by (rule gpow_surj)
    with t un show ?thesis by simp
  qed
  moreover have "unat (log_tab t ! unat (exp_tab t ! i)) = i" if "i < 255" for i
    using that t un by simp
  ultimately show ?thesis using t(1) by auto
qed

theorem gf_mul_tables_correct_witness:
  "\<exists>t. tables = Some t \<and> exp_tab t ! unat (log_tab t ! unat (7::u8)) = 7
     \<and> unat (log_tab t ! unat (exp_tab t ! 100)) = 100 \<and> gf_mul 7 9 = Some (gmul 7 9)"
proof -
  obtain t where t: "tables = Some t" "\<forall>a. a \<noteq> 0 \<longrightarrow> exp_tab t ! unat (log_tab t ! unat a) = a"
      "\<forall>i<255. unat (log_tab t ! unat (exp_tab t ! i)) = i" "\<forall>a b. gf_mul a b = Some (gmul a b)"
    using gf_mul_tables_correct by blast
  have "exp_tab t ! unat (log_tab t ! unat (7::u8)) = 7" by (rule t(2) [rule_format]) simp
  moreover have "unat (log_tab t ! unat (exp_tab t ! 100)) = 100" by (rule t(3) [rule_format]) simp
  ultimately show ?thesis using t(1,4) by blast
qed

text \<open>
  The laws of the field: multiplication commutes and associates, distributes over addition, has
  the unit 1, every byte but 0 has an inverse, and dividing by 0 gives 0; none of the operations
  panics.
\<close>

theorem gf_field_laws:
  "gf_mul a b = gf_mul b a
   \<and> Option.bind (gf_mul a b) (\<lambda>x. gf_mul x c) = Option.bind (gf_mul b c) (gf_mul a)
   \<and> gf_mul a (gf_add b c) = do { x \<leftarrow> gf_mul a b; y \<leftarrow> gf_mul a c; Some (gf_add x y) }
   \<and> gf_mul a 1 = Some a
   \<and> (a \<noteq> 0 \<longrightarrow> Option.bind (gf_inv a) (gf_mul a) = Some 1 \<and> gf_div a a = Some 1)
   \<and> gf_div a 0 = Some 0"
proof (intro conjI)
  show "gf_mul a b = gf_mul b a" by (simp add: gmul_commute)
qed (simp_all add: gf_div_def gf_add_def gmul_assoc gmul_xor_right gmul_commute [of a 1] gmul_1_left
    gmul_ginv)

theorem gf_field_laws_witness:
  "(2::u8) \<noteq> 0 \<and> Option.bind (gf_inv 2) (gf_mul 2) = Some 1 \<and> gf_div 2 2 = Some 1"
  using gf_field_laws [of 2 1 1] by (simp only: gf_inv_eq) simp

end
