(* ===== verification/LinAlg.thy ===== *)
theory LinAlg
  imports Complex_Main
begin

text \<open>
  Linear algebra on matrices given as functions of row and column, over any field: row operations,
  kernels, inverses and Vandermonde matrices. The matrix code of the codec is shown correct against
  these notions.
\<close>

section \<open>Row combinations\<close>

text \<open>Every one of the \<open>n\<close> rows of \<open>A\<close> is a combination of the rows of \<open>B\<close> (on \<open>m\<close> columns).\<close>

definition spans :: "nat \<Rightarrow> nat \<Rightarrow> (nat \<Rightarrow> nat \<Rightarrow> 'a::field) \<Rightarrow> (nat \<Rightarrow> nat \<Rightarrow> 'a) \<Rightarrow> bool" where
  "spans n m A B \<longleftrightarrow> (\<exists>P. \<forall>r<n. \<forall>c<m. A r c = (\<Sum>t<n. P r t * B t c))"

definition row_eqv :: "nat \<Rightarrow> nat \<Rightarrow> (nat \<Rightarrow> nat \<Rightarrow> 'a::field) \<Rightarrow> (nat \<Rightarrow> nat \<Rightarrow> 'a) \<Rightarrow> bool" where
  "row_eqv n m A B \<longleftrightarrow> spans n m A B \<and> spans n m B A"

lemma spans_two:
  assumes "\<And>r. r < n \<Longrightarrow> s r < n \<and> u r < n"
    and "\<And>r c. r < n \<Longrightarrow> c < m \<Longrightarrow> A r c = x r * B (s r) c + y r * B (u r) c"
  shows "spans n m A B"
proof -
  let ?P = "\<lambda>r t. (if t = s r then x r else 0) + (if t = u r then y r else 0)"
  have "(\<Sum>t<n. ?P r t * B t c) = A r c" if "r < n" "c < m" for r c
  proof -
    have "(\<Sum>t<n. ?P r t * B t c)
        = (\<Sum>t<n. if t = s r then x r * B t c else 0) + (\<Sum>t<n. if t = u r then y r * B t c else 0)"
      by (subst sum.distrib [symmetric], rule sum.cong) (auto simp: distrib_right)
    also have "\<dots> = A r c" using assms [of r] that by (simp add: sum.delta)
    finally show ?thesis .
  qed
  then have "\<forall>r<n. \<forall>c<m. A r c = (\<Sum>t<n. ?P r t * B t c)" by simp
  then show ?thesis unfolding spans_def by (intro exI [where x = ?P])
qed

lemma spans_refl: "spans n m A A"
  by (rule spans_two [where s = id and u = id and x = "\<lambda>_. 1" and y = "\<lambda>_. 0"]) auto

lemma spans_trans:
  assumes "spans n m A B" "spans n m B C" shows "spans n m A C"
proof -
  from assms obtain P Q where P: "\<forall>r<n. \<forall>c<m. A r c = (\<Sum>t<n. P r t * B t c)"
    and Q: "\<forall>r<n. \<forall>c<m. B r c = (\<Sum>t<n. Q r t * C t c)" unfolding spans_def by blast
  have "A r c = (\<Sum>s<n. (\<Sum>t<n. P r t * Q t s) * C s c)" if "r < n" "c < m" for r c
  proof -
    have "A r c = (\<Sum>t<n. \<Sum>s<n. P r t * Q t s * C s c)"
      using that P Q by (simp add: sum_distrib_left mult.assoc)
    also have "\<dots> = (\<Sum>s<n. \<Sum>t<n. P r t * Q t s * C s c)" by (rule sum.swap)
    finally show ?thesis by (simp add: sum_distrib_right)
  qed
  then show ?thesis unfolding spans_def by (intro exI [where x = "\<lambda>r s. \<Sum>t<n. P r t * Q t s"]) blast
qed

lemma row_eqv_refl: "row_eqv n m A A"
  by (simp add: row_eqv_def spans_refl)

lemma row_eqv_trans: "row_eqv n m A B \<Longrightarrow> row_eqv n m B C \<Longrightarrow> row_eqv n m A C"
  unfolding row_eqv_def by (blast intro: spans_trans)

lemma row_eqv_equal: "(\<And>r c. r < n \<Longrightarrow> c < m \<Longrightarrow> A r c = B r c) \<Longrightarrow> row_eqv n m A B"
  unfolding row_eqv_def
  by (auto intro!: spans_two [where s = id and u = id and x = "\<lambda>_. 1" and y = "\<lambda>_. 0"])

subsection \<open>The row operations of Gauss-Jordan elimination\<close>

lemma row_eqv_swap:
  assumes "p < n" "q < n"
    and "\<And>r c. r < n \<Longrightarrow> c < m \<Longrightarrow> A' r c = (if r = p then A q c else if r = q then A p c else A r c)"
  shows "row_eqv n m A' A"
  unfolding row_eqv_def
proof
  let ?s = "\<lambda>r. if r = p then q else if r = q then p else r"
  show "spans n m A' A"
    by (rule spans_two [where s = ?s and u = ?s and x = "\<lambda>_. 1" and y = "\<lambda>_. 0"]) (use assms in auto)
  show "spans n m A A'"
    by (rule spans_two [where s = ?s and u = ?s and x = "\<lambda>_. 1" and y = "\<lambda>_. 0"]) (use assms in auto)
qed

lemma row_eqv_scale:
  assumes "p < n" "f \<noteq> (0::'a::field)"
    and "\<And>r c. r < n \<Longrightarrow> c < m \<Longrightarrow> A' r c = (if r = p then A r c * f else A r c)"
  shows "row_eqv n m A' A"
  unfolding row_eqv_def
proof
  show "spans n m A' A"
    by (rule spans_two [where s = id and u = id and x = "\<lambda>r. if r = p then f else 1" and y = "\<lambda>_. 0"])
      (use assms in auto)
  show "spans n m A A'"
    by (rule spans_two [where s = id and u = id and x = "\<lambda>r. if r = p then inverse f else 1"
          and y = "\<lambda>_. 0"]) (use assms in \<open>auto simp: field_simps\<close>)
qed

lemma row_eqv_eliminate:
  assumes "p < n"
    and "\<And>r c. r < n \<Longrightarrow> c < m \<Longrightarrow> A' r c = (if r = p then A r c else A r c + f r * A p c)"
  shows "row_eqv n m A' (A :: nat \<Rightarrow> nat \<Rightarrow> 'a::field)"
  unfolding row_eqv_def
proof
  show "spans n m A' A"
    by (rule spans_two [where s = id and u = "\<lambda>_. p" and x = "\<lambda>_. 1" and y = "\<lambda>r. if r = p then 0 else f r"])
      (use assms in auto)
  show "spans n m A A'"
    by (rule spans_two [where s = id and u = "\<lambda>_. p" and x = "\<lambda>_. 1" and y = "\<lambda>r. if r = p then 0 else - f r"])
      (use assms in auto)
qed

section \<open>Kernels and inverses\<close>

definition nonsingular :: "nat \<Rightarrow> (nat \<Rightarrow> nat \<Rightarrow> 'a::field) \<Rightarrow> bool" where
  "nonsingular n M \<longleftrightarrow> (\<forall>x. (\<forall>r<n. (\<Sum>c<n. M r c * x c) = 0) \<longrightarrow> (\<forall>c<n. x c = 0))"

definition inverse_of :: "nat \<Rightarrow> (nat \<Rightarrow> nat \<Rightarrow> 'a::field) \<Rightarrow> (nat \<Rightarrow> nat \<Rightarrow> 'a) \<Rightarrow> bool" where
  "inverse_of n M B \<longleftrightarrow> (\<forall>r<n. \<forall>c<n. (\<Sum>t<n. B r t * M t c) = (if r = c then 1 else 0)
     \<and> (\<Sum>t<n. M r t * B t c) = (if r = c then 1 else 0))"

text \<open>The matrix \<open>M\<close> with the identity to its right, as elimination starts with it.\<close>

definition augmented :: "nat \<Rightarrow> (nat \<Rightarrow> nat \<Rightarrow> 'a::field) \<Rightarrow> nat \<Rightarrow> nat \<Rightarrow> 'a" where
  "augmented n M r c = (if c < n then M r c else if c = n + r then 1 else 0)"

lemma sum_mult_delta:
  fixes n :: nat and f :: "nat \<Rightarrow> 'a::field"
  shows "(\<Sum>t<n. f t * (if t = c then 1 else 0)) = (if c < n then f c else 0)"
  "(\<Sum>t<n. f t * (if c = t then 1 else 0)) = (if c < n then f c else 0)"
proof -
  have "(\<Sum>t<n. f t * (if t = c then 1 else 0)) = (\<Sum>t<n. if t = c then f t else 0)" by (rule sum.cong) auto
  then show "(\<Sum>t<n. f t * (if t = c then 1 else 0)) = (if c < n then f c else 0)"
    by (simp add: sum.delta)
  then show "(\<Sum>t<n. f t * (if c = t then 1 else 0)) = (if c < n then f c else 0)"
    by (simp add: eq_commute)
qed

lemma spans_kernel:
  assumes "spans n m A B" "k \<le> m" "\<And>r. r < n \<Longrightarrow> (\<Sum>c<k. B r c * x c) = 0" "r < n"
  shows "(\<Sum>c<k. A r c * x c) = 0"
proof -
  from assms(1) obtain P where P: "\<forall>r<n. \<forall>c<m. A r c = (\<Sum>t<n. P r t * B t c)" unfolding spans_def by blast
  have "(\<Sum>c<k. A r c * x c) = (\<Sum>c<k. \<Sum>t<n. P r t * (B t c * x c))"
    using P assms by (auto simp: sum_distrib_right mult.assoc intro!: sum.cong)
  also have "\<dots> = (\<Sum>t<n. P r t * (\<Sum>c<k. B t c * x c))"
    by (subst sum.swap) (simp add: sum_distrib_left)
  finally show ?thesis using assms by simp
qed

text \<open>When the left half has become the identity, the right half is the two-sided inverse.\<close>

lemma eliminated_inverse:
  assumes eqv: "row_eqv n (2 * n) A (augmented n M)"
    and id: "\<And>r c. r < n \<Longrightarrow> c < n \<Longrightarrow> A r c = (if r = c then 1 else 0)"
  shows "inverse_of n M (\<lambda>r c. A r (n + c))"
proof -
  from eqv obtain P Q where
      P: "\<forall>r<n. \<forall>c<2*n. A r c = (\<Sum>t<n. P r t * augmented n M t c)"
    and Q: "\<forall>r<n. \<forall>c<2*n. augmented n M r c = (\<Sum>t<n. Q r t * A t c)"
    unfolding row_eqv_def spans_def by blast
  have right: "A r (n + c) = P r c" if "r < n" "c < n" for r c
    using P [rule_format, of r "n + c"] that by (simp add: augmented_def sum_mult_delta)
  have M: "M r c = Q r c" if "r < n" "c < n" for r c
  proof -
    have "M r c = (\<Sum>t<n. Q r t * A t c)" using Q [rule_format, of r c] that by (simp add: augmented_def)
    also have "\<dots> = (\<Sum>t<n. Q r t * (if t = c then 1 else 0))" by (rule sum.cong) (use that id in auto)
    finally show ?thesis using that by (simp add: sum_mult_delta)
  qed
  have l: "(\<Sum>t<n. A r (n + t) * M t c) = (if r = c then 1 else 0)" if "r < n" "c < n" for r c
  proof -
    have "(\<Sum>t<n. A r (n + t) * M t c) = A r c"
      using P [rule_format, of r c] that right by (simp add: augmented_def)
    then show ?thesis using id that by simp
  qed
  have "(\<Sum>t<n. M r t * A t (n + c)) = (if r = c then 1 else 0)" if "r < n" "c < n" for r c
    using Q [rule_format, of r "n + c"] that M by (auto simp: augmented_def)
  with l show ?thesis unfolding inverse_of_def by simp
qed

text \<open>
  A nonsingular matrix always has a pivot: with the first \<open>col\<close> columns reduced and no nonzero entry
  at or below the diagonal in column \<open>col\<close>, the kernel would hold a nonzero vector.
\<close>

lemma pivot_exists:
  fixes A M :: "nat \<Rightarrow> nat \<Rightarrow> 'a::field"
  assumes ns: "nonsingular n M" and eqv: "row_eqv n (2 * n) A (augmented n M)" and col: "col < n"
    and red: "\<And>r c. r < n \<Longrightarrow> c < col \<Longrightarrow> A r c = (if r = c then 1 else 0)"
  shows "\<exists>r. col \<le> r \<and> r < n \<and> A r col \<noteq> 0"
proof (rule ccontr)
  assume "\<not> ?thesis"
  then have zero: "\<And>r. col \<le> r \<Longrightarrow> r < n \<Longrightarrow> A r col = 0" by blast
  define x where "x c = (if c = col then 1 else if c < col then - A c col else 0)" for c
  have A0: "(\<Sum>c<n. A r c * x c) = 0" if "r < n" for r
  proof -
    have "(\<Sum>c<n. A r c * x c) = (\<Sum>c<Suc col. A r c * x c)"
      by (rule sum.mono_neutral_right) (use col in \<open>auto simp: x_def\<close>)
    also have "\<dots> = (\<Sum>c<col. - A c col * (if r = c then 1 else 0)) + A r col"
      using that red by (simp add: x_def mult.commute)
    also have "(\<Sum>c<col. - A c col * (if r = c then 1 else 0)) = (if r < col then - A r col else 0)"
      by (simp only: sum_mult_delta)
    finally show ?thesis using zero that by (auto split: if_splits)
  qed
  have "(\<Sum>c<n. M r c * x c) = 0" if "r < n" for r
    using spans_kernel [of n "2 * n" "augmented n M" A n x r] eqv A0 that
    by (auto simp: row_eqv_def augmented_def)
  with ns have "x col = 0" using col unfolding nonsingular_def by blast
  then show False by (simp add: x_def)
qed

lemma inverse_of_nonsingular:
  assumes "inverse_of n M B" shows "nonsingular n M" "nonsingular n B"
proof -
  have *: "nonsingular n M" if "\<And>r c. r < n \<Longrightarrow> c < n \<Longrightarrow> (\<Sum>t<n. B r t * M t c) = (if r = c then 1 else 0)"
    for M B :: "nat \<Rightarrow> nat \<Rightarrow> 'a"
    unfolding nonsingular_def
  proof (intro allI impI)
    fix x c assume x: "\<forall>r<n. (\<Sum>c<n. M r c * x c) = 0" and c: "c < n"
    have "x c = (\<Sum>s<n. (\<Sum>t<n. B c t * M t s) * x s)"
      using that c by (simp add: if_distrib [of "\<lambda>z. z * _"] sum.delta' cong: if_cong)
    also have "\<dots> = (\<Sum>t<n. \<Sum>s<n. B c t * (M t s * x s))"
      by (subst sum.swap) (simp add: sum_distrib_right mult.assoc)
    also have "\<dots> = 0" using x by (simp flip: sum_distrib_left)
    finally show "x c = 0" .
  qed
  from assms show "nonsingular n M" "nonsingular n B" unfolding inverse_of_def
    by (auto intro!: * [of B M] * [of M B])
qed

lemma inverse_of_solve:
  assumes "inverse_of n M B" "\<And>r. r < n \<Longrightarrow> y r = (\<Sum>c<n. M r c * x c)" "t < n"
  shows "(\<Sum>r<n. B t r * y r) = x t"
proof -
  have "(\<Sum>r<n. B t r * y r) = (\<Sum>c<n. \<Sum>r<n. B t r * M r c * x c)"
    using assms(2) by (subst sum.swap) (simp add: sum_distrib_left mult.assoc)
  also have "\<dots> = (\<Sum>c<n. (\<Sum>r<n. B t r * M r c) * x c)" by (simp add: sum_distrib_right)
  also have "\<dots> = (\<Sum>c<n. x c * (if t = c then 1 else 0))"
    by (rule sum.cong) (use assms(1,3) in \<open>auto simp: inverse_of_def\<close>)
  finally show ?thesis using assms(3) by (simp only: sum_mult_delta if_True)
qed

lemma nonsingular_product:
  assumes "nonsingular n M" "nonsingular n B"
    and "\<And>r c. r < n \<Longrightarrow> c < n \<Longrightarrow> C r c = (\<Sum>t<n. M r t * B t c)"
  shows "nonsingular n C"
  unfolding nonsingular_def
proof (intro allI impI)
  fix x c assume x: "\<forall>r<n. (\<Sum>c<n. C r c * x c) = 0" and c: "c < n"
  have "(\<Sum>t<n. M r t * (\<Sum>c<n. B t c * x c)) = 0" if "r < n" for r
  proof -
    have "(\<Sum>c<n. C r c * x c) = (\<Sum>c<n. \<Sum>t<n. M r t * (B t c * x c))"
      using assms(3) that by (simp add: sum_distrib_right mult.assoc)
    also have "\<dots> = (\<Sum>t<n. M r t * (\<Sum>c<n. B t c * x c))"
      by (subst sum.swap) (simp add: sum_distrib_left)
    finally show ?thesis using x that by simp
  qed
  then have "\<forall>t<n. (\<Sum>c<n. B t c * x c) = 0"
    using assms(1) [unfolded nonsingular_def, rule_format, of "\<lambda>t. \<Sum>c<n. B t c * x c"] by blast
  then show "x c = 0" using assms(2) c unfolding nonsingular_def by blast
qed

section \<open>Vandermonde matrices\<close>

text \<open>A polynomial of degree below \<open>n\<close> with \<open>n\<close> distinct roots is zero, coefficient by coefficient.\<close>

text \<open>The coefficients of the quotient by \<open>X - a\<close>, by synthetic division.\<close>

definition quotient :: "(nat \<Rightarrow> 'a::field) \<Rightarrow> 'a \<Rightarrow> nat \<Rightarrow> nat \<Rightarrow> 'a" where
  "quotient x a n j = (\<Sum>i=Suc j..n. x i * a ^ (i - j - 1))"

lemma quotient_step:
  assumes "j < n"
  shows "quotient x a n j = x (Suc j) + a * quotient x a n (Suc j)"
proof -
  have "quotient x a n j = x (Suc j) + (\<Sum>i=Suc (Suc j)..n. x i * a ^ (i - j - 1))"
    using assms by (simp add: quotient_def sum.atLeast_Suc_atMost)
  also have "(\<Sum>i=Suc (Suc j)..n. x i * a ^ (i - j - 1)) = a * quotient x a n (Suc j)"
    unfolding quotient_def sum_distrib_left
  proof (rule sum.cong)
    fix i assume "i \<in> {Suc (Suc j)..n}"
    then have "i - j - 1 = Suc (i - Suc j - 1)" by auto
    then show "x i * a ^ (i - j - 1) = a * (x i * a ^ (i - Suc j - 1))" by simp
  qed simp
  finally show ?thesis .
qed

lemma distinct_roots_zero:
  fixes p :: "nat \<Rightarrow> 'a::field"
  assumes "inj_on p {..<n}" "\<And>r. r < n \<Longrightarrow> (\<Sum>i<n. x i * p r ^ i) = 0" "i < n"
  shows "x i = 0"
  using assms
proof (induction n arbitrary: x i)
  case (Suc n)
  show ?case
  proof (cases "n = 0")
    case True
    with Suc.prems show ?thesis by simp
  next
    case False
    let ?b = "quotient x (p n) n"
    have root: "(\<Sum>i\<le>n. x i * p r ^ i) = 0" if "r \<le> n" for r
      using Suc.prems(2) [of r] that by (simp add: lessThan_Suc_atMost)
    have "(\<Sum>j<n. ?b j * p r ^ j) = 0" if "r < n" for r
    proof -
      have "(p r - p n) * (\<Sum>j<n. ?b j * p r ^ j) = 0"
        using polyfun_diff [of n x "p r" "p n"] False root [of r] root [of n] that by (simp add: quotient_def)
      moreover have "p r \<noteq> p n" using Suc.prems(1) that by (auto simp: inj_on_def)
      ultimately show ?thesis by simp
    qed
    then have "?b j = 0" if "j \<le> n" for j
      using Suc.IH [of ?b j] that inj_on_subset [OF Suc.prems(1)] by (cases "j = n") (simp_all add: quotient_def)
    then have high: "x (Suc j) = 0" if "j < n" for j using quotient_step [OF that, of x "p n"] that by simp
    then have "(\<Sum>i\<le>n. x i * p n ^ i) = x 0" by (simp add: sum.atMost_shift)
    then have "x 0 = 0" using root [of n] by simp
    with high Suc.prems(3) show ?thesis by (cases i) auto
  qed
qed simp

lemma vandermonde_nonsingular:
  fixes p :: "nat \<Rightarrow> 'a::field"
  assumes "inj_on p {..<n}" and V: "\<And>r c. r < n \<Longrightarrow> c < n \<Longrightarrow> V r c = p r ^ c"
  shows "nonsingular n V"
  unfolding nonsingular_def
proof (intro allI impI)
  fix x c assume x: "\<forall>r<n. (\<Sum>c<n. V r c * x c) = 0" and c: "c < n"
  have "(\<Sum>i<n. x i * p r ^ i) = 0" if "r < n" for r
    using x V that by (simp add: mult.commute)
  then show "x c = 0" using distinct_roots_zero assms(1) c by blast
qed

end
