(* ===== verification/Matrix.thy ===== *)
theory Matrix
  imports GF256 LinAlg
begin

text \<open>
  The dense matrices of \<^verbatim>\<open>crates/shardvault-ec/src/matrix.rs\<close>: a flat byte vector in row-major order,
  multiplication, inversion by Gauss-Jordan elimination, and the systematic Vandermonde encoding
  matrix. Every function is in the option monad, \<open>None\<close> being a panic (an index out of range or a
  failed assertion); \<open>matrix_invert\<close> returns the code's own \<open>Option\<close> inside it. The lemmas read a
  well-shaped matrix as a function into the field \<open>gf8\<close> and show: no operation panics, inversion
  finds the two-sided inverse exactly of the nonsingular matrices, and every choice of \<open>k\<close> rows of
  the encoding matrix is nonsingular, for all \<open>k + m \<le> 255\<close>.
\<close>

section \<open>The code\<close>

record matrix =
  rows :: nat
  cols :: nat
  cells :: bytes

definition matrix_new :: "nat \<Rightarrow> nat \<Rightarrow> matrix" where
  "matrix_new r c = \<lparr>rows = r, cols = c, cells = replicate (r * c) 0\<rparr>"

definition matrix_get :: "matrix \<Rightarrow> nat \<Rightarrow> nat \<Rightarrow> u8 option" where
  "matrix_get m r c = aget (cells m) (r * cols m + c)"

definition matrix_set :: "matrix \<Rightarrow> nat \<Rightarrow> nat \<Rightarrow> u8 \<Rightarrow> matrix option" where
  "matrix_set m r c v = do { d \<leftarrow> aset (cells m) (r * cols m + c) v; Some (m\<lparr>cells := d\<rparr>) }"

definition matrix_identity :: "nat \<Rightarrow> matrix option" where
  "matrix_identity n = for_range 0 n (\<lambda>i m. matrix_set m i i 1) (matrix_new n n)"

text \<open>The accumulator loop that \<open>mul\<close> and \<open>reconstruct\<close> share: the sum of \<open>f k * g k\<close>.\<close>

definition dot :: "nat \<Rightarrow> (nat \<Rightarrow> u8 option) \<Rightarrow> (nat \<Rightarrow> u8 option) \<Rightarrow> u8 option" where
  "dot n f g = for_range 0 n (\<lambda>k acc. do {
     x \<leftarrow> f k; y \<leftarrow> g k; p \<leftarrow> gf_mul x y; Some (gf_add acc p) }) 0"

definition matrix_mul :: "matrix \<Rightarrow> matrix \<Rightarrow> matrix option" where
  "matrix_mul a b = (if cols a \<noteq> rows b then None else
     for_range 0 (rows a) (\<lambda>r out.
       for_range 0 (cols b) (\<lambda>c out. do {
         acc \<leftarrow> dot (cols a) (matrix_get a r) (\<lambda>k. matrix_get b k c);
         matrix_set out r c acc }) out) (matrix_new (rows a) (cols b)))"

text \<open>\<open>invert\<close>: the augmented matrix, then one round per column.\<close>

definition build_augmented :: "matrix \<Rightarrow> nat \<Rightarrow> matrix option" where
  "build_augmented m n = for_range 0 n (\<lambda>r aug. do {
     aug \<leftarrow> for_range 0 n (\<lambda>c aug. do { v \<leftarrow> matrix_get m r c; matrix_set aug r c v }) aug;
     matrix_set aug r (n + r) 1 }) (matrix_new n (2 * n))"

fun find_pivot :: "matrix \<Rightarrow> nat \<Rightarrow> nat list \<Rightarrow> nat option option" where
  "find_pivot aug col [] = Some None"
| "find_pivot aug col (r # rs) = do {
     v \<leftarrow> matrix_get aug r col;
     if v \<noteq> 0 then Some (Some r) else find_pivot aug col rs }"

definition swap_rows :: "matrix \<Rightarrow> nat \<Rightarrow> nat \<Rightarrow> nat \<Rightarrow> matrix option" where
  "swap_rows aug n pivot col = for_range 0 (2 * n) (\<lambda>c aug. do {
     tmp \<leftarrow> matrix_get aug pivot c;
     v \<leftarrow> matrix_get aug col c;
     aug \<leftarrow> matrix_set aug pivot c v;
     matrix_set aug col c tmp }) aug"

definition scale_row :: "matrix \<Rightarrow> nat \<Rightarrow> nat \<Rightarrow> u8 \<Rightarrow> matrix option" where
  "scale_row aug n col pv_inv = for_range 0 (2 * n) (\<lambda>c aug. do {
     v \<leftarrow> matrix_get aug col c;
     p \<leftarrow> gf_mul v pv_inv;
     matrix_set aug col c p }) aug"

definition eliminate_row :: "matrix \<Rightarrow> nat \<Rightarrow> nat \<Rightarrow> nat \<Rightarrow> matrix option" where
  "eliminate_row aug n col r = (if r = col then Some aug else do {
     factor \<leftarrow> matrix_get aug r col;
     if factor = 0 then Some aug else
       for_range 0 (2 * n) (\<lambda>c aug. do {
         x \<leftarrow> matrix_get aug r c;
         y \<leftarrow> matrix_get aug col c;
         p \<leftarrow> gf_mul factor y;
         matrix_set aug r c (gf_add x p) }) aug })"

definition eliminate_column :: "matrix \<Rightarrow> nat \<Rightarrow> nat \<Rightarrow> nat \<Rightarrow> matrix option" where
  "eliminate_column aug n col pivot = do {
     aug \<leftarrow> (if pivot \<noteq> col then swap_rows aug n pivot col else Some aug);
     pv \<leftarrow> matrix_get aug col col;
     pv_inv \<leftarrow> gf_inv pv;
     aug \<leftarrow> scale_row aug n col pv_inv;
     for_range 0 n (\<lambda>r aug. eliminate_row aug n col r) aug }"

text \<open>The column loop with its early return: \<open>Some None\<close> is the code's \<open>return None\<close>.\<close>

fun eliminate :: "nat \<Rightarrow> nat list \<Rightarrow> matrix \<Rightarrow> matrix option option" where
  "eliminate n [] aug = Some (Some aug)"
| "eliminate n (col # cs) aug = do {
     pivot \<leftarrow> find_pivot aug col [col..<n];
     (case pivot of
        None \<Rightarrow> Some None
      | Some p \<Rightarrow> do { aug \<leftarrow> eliminate_column aug n col p; eliminate n cs aug }) }"

definition right_half :: "matrix \<Rightarrow> nat \<Rightarrow> matrix option" where
  "right_half aug n = for_range 0 n (\<lambda>r out.
     for_range 0 n (\<lambda>c out. do { v \<leftarrow> matrix_get aug r (n + c); matrix_set out r c v }) out)
     (matrix_new n n)"

definition matrix_invert :: "matrix \<Rightarrow> matrix option option" where
  "matrix_invert m = (if rows m \<noteq> cols m then Some None else do {
     let n = rows m;
     aug \<leftarrow> build_augmented m n;
     res \<leftarrow> eliminate n [0..<n] aug;
     (case res of
        None \<Rightarrow> Some None
      | Some aug \<Rightarrow> do { out \<leftarrow> right_half aug n; Some (Some out) }) })"

text \<open>The rows of the full Vandermonde matrix: row \<open>i\<close> holds the powers of the point \<open>i + 1\<close>.\<close>

definition vandermonde_row :: "nat \<Rightarrow> nat \<Rightarrow> matrix \<Rightarrow> matrix option" where
  "vandermonde_row k i v = do {
     let point = (of_nat i :: u8) + 1;
     (v, x) \<leftarrow> for_range 0 k (\<lambda>c (v, x). do {
        v \<leftarrow> matrix_set v i c x;
        x \<leftarrow> gf_mul x point;
        Some (v, x) }) (v, 1);
     Some v }"

definition vandermonde :: "nat \<Rightarrow> nat \<Rightarrow> matrix option" where
  "vandermonde k n = for_range 0 n (vandermonde_row k) (matrix_new n k)"

definition top_block :: "nat \<Rightarrow> matrix \<Rightarrow> matrix option" where
  "top_block k v = for_range 0 k (\<lambda>r top.
     for_range 0 k (\<lambda>c top. do { x \<leftarrow> matrix_get v r c; matrix_set top r c x }) top) (matrix_new k k)"

definition vandermonde_systematic :: "nat \<Rightarrow> nat \<Rightarrow> matrix option" where
  "vandermonde_systematic k m = (if k + m > 255 then None else do {
     v \<leftarrow> vandermonde k (k + m);
     top \<leftarrow> top_block k v;
     inv \<leftarrow> matrix_invert top;
     top_inv \<leftarrow> inv;
     matrix_mul v top_inv })"

section \<open>Well-shaped matrices as functions into the field\<close>

definition shape :: "matrix \<Rightarrow> nat \<Rightarrow> nat \<Rightarrow> bool" where
  "shape m r c \<longleftrightarrow> rows m = r \<and> cols m = c \<and> length (cells m) = r * c"

definition elt :: "matrix \<Rightarrow> nat \<Rightarrow> nat \<Rightarrow> gf8" where
  "elt m r c = GF (cells m ! (r * cols m + c))"

definition mset :: "matrix \<Rightarrow> nat \<Rightarrow> nat \<Rightarrow> u8 \<Rightarrow> matrix" where
  "mset m r c v = m\<lparr>cells := (cells m)[r * cols m + c := v]\<rparr>"

lemma cell_index_less: "r < n \<Longrightarrow> c < w \<Longrightarrow> r * w + c < n * (w::nat)"
proof -
  assume "r < n" "c < w"
  then have "r * w + c < r * w + w" by simp
  also have "\<dots> = Suc r * w" by simp
  also have "\<dots> \<le> n * w" using \<open>r < n\<close> by (intro mult_le_mono1) simp
  finally show ?thesis .
qed

lemma cell_index_inj:
  assumes "c < w" "c' < w" shows "r * w + c = r' * w + c' \<longleftrightarrow> r = r' \<and> c = (c'::nat)"
proof
  assume eq: "r * w + c = r' * w + c'"
  have "r = (r * w + c) div w" "r' = (r' * w + c') div w" using assms by simp_all
  then have "r = r'" using eq by metis
  with eq show "r = r' \<and> c = c'" by simp
qed simp

lemma shape_new [simp]: "shape (matrix_new r c) r c"
  by (simp add: shape_def matrix_new_def)

lemma elt_new: "r < n \<Longrightarrow> c < w \<Longrightarrow> elt (matrix_new n w) r c = 0"
  by (simp add: elt_def matrix_new_def cell_index_less)

lemma matrix_get_in:
  "shape m n w \<Longrightarrow> r < n \<Longrightarrow> c < w \<Longrightarrow> matrix_get m r c = Some (byte_of (elt m r c))"
  by (auto simp: shape_def matrix_get_def elt_def array_simps cell_index_less)

lemma matrix_set_in:
  "shape m n w \<Longrightarrow> r < n \<Longrightarrow> c < w \<Longrightarrow> matrix_set m r c v = Some (mset m r c v)"
  by (auto simp: shape_def matrix_set_def mset_def array_simps cell_index_less)

lemma shape_mset [simp]: "shape (mset m r c v) n w \<longleftrightarrow> shape m n w"
  by (simp add: shape_def mset_def)

lemma elt_mset:
  "shape m n w \<Longrightarrow> r < n \<Longrightarrow> c < w \<Longrightarrow> r' < n \<Longrightarrow> c' < w \<Longrightarrow>
    elt (mset m r c v) r' c' = (if r' = r \<and> c' = c then GF v else elt m r' c')"
  by (auto simp: shape_def elt_def mset_def nth_list_update cell_index_inj cell_index_less)

lemma matrix_eqI:
  assumes "shape a n w" "shape b n w" "\<And>r c. r < n \<Longrightarrow> c < w \<Longrightarrow> elt a r c = elt b r c"
  shows "a = b"
proof -
  have "cells a ! i = cells b ! i" if "i < n * w" for i
  proof -
    have "0 < w" using that by (cases w) auto
    then have "i div w < n" "i mod w < w" using that by (auto simp: less_mult_imp_div_less)
    from assms(3) [OF this] assms(1,2) show ?thesis by (simp add: elt_def shape_def)
  qed
  with assms(1,2) show ?thesis by (auto simp: shape_def intro!: matrix.equality nth_equalityI)
qed

lemmas matrix_ops = matrix_get_in matrix_set_in elt_mset

text \<open>
  The rule for the loops that fill one row: round \<open>c\<close> writes a value into the cell \<open>(r, c)\<close>, given that
  the cells of row \<open>r\<close> from \<open>c\<close> on and all other rows are as before the loop.
\<close>

lemma fill_row_loop:
  assumes "shape m n w" "r < n" "len \<le> w"
    and "\<And>c m'. c < len \<Longrightarrow> shape m' n w \<Longrightarrow>
      (\<And>r' c'. r' < n \<Longrightarrow> c' < w \<Longrightarrow> r' \<noteq> r \<or> c \<le> c' \<Longrightarrow> elt m' r' c' = elt m r' c') \<Longrightarrow>
      \<exists>v. f c m' = Some (mset m' r c v) \<and> GF v = val c"
  shows "\<exists>m'. for_range 0 len f m = Some m' \<and> shape m' n w \<and>
    (\<forall>r'<n. \<forall>c'<w. elt m' r' c' = (if r' = r \<and> c' < len then val c' else elt m r' c'))"
proof -
  let ?P = "\<lambda>i m'. shape m' n w \<and>
    (\<forall>r'<n. \<forall>c'<w. elt m' r' c' = (if r' = r \<and> c' < i then val c' else elt m r' c'))"
  show ?thesis
  proof (rule for_range_rule [where P = ?P])
    fix c m' assume c: "c < len" and P: "?P c m'"
    obtain v where v: "f c m' = Some (mset m' r c v)" "GF v = val c"
      using assms(4) [OF c, of m'] P by fastforce
    have "?P (Suc c) (mset m' r c v)"
      using P c assms(2,3) v(2) by (auto simp: elt_mset [of m' n w] less_Suc_eq)
    with v(1) show "\<exists>s'. f c m' = Some s' \<and> ?P (Suc c) s'" by blast
  qed (use assms in auto)
qed

text \<open>The rule for the loops over all rows: round \<open>r\<close> changes row \<open>r\<close> only.\<close>

lemma fill_rows_loop:
  assumes "shape m n w" "len \<le> n"
    and "\<And>r m'. r < len \<Longrightarrow> shape m' n w \<Longrightarrow>
      (\<And>r' c'. r' < n \<Longrightarrow> c' < w \<Longrightarrow> elt m' r' c' = (if r' < r then val r' c' else elt m r' c')) \<Longrightarrow>
      \<exists>m''. f r m' = Some m'' \<and> shape m'' n w \<and>
        (\<forall>r'<n. \<forall>c'<w. elt m'' r' c' = (if r' = r then val r c' else elt m' r' c'))"
  shows "\<exists>m'. for_range 0 len f m = Some m' \<and> shape m' n w \<and>
    (\<forall>r'<n. \<forall>c'<w. elt m' r' c' = (if r' < len then val r' c' else elt m r' c'))"
proof -
  let ?P = "\<lambda>i m'. shape m' n w \<and>
    (\<forall>r'<n. \<forall>c'<w. elt m' r' c' = (if r' < i then val r' c' else elt m r' c'))"
  show ?thesis
  proof (rule for_range_rule [where P = ?P])
    fix r m' assume r: "r < len" and P: "?P r m'"
    obtain m'' where m'': "f r m' = Some m''" "shape m'' n w"
        "\<forall>r'<n. \<forall>c'<w. elt m'' r' c' = (if r' = r then val r c' else elt m' r' c')"
      using assms(3) [OF r, of m'] P by blast
    have "?P (Suc r) m''" using P m''(2,3) by (auto simp: less_Suc_eq)
    with m''(1) show "\<exists>s'. f r m' = Some s' \<and> ?P (Suc r) s'" by blast
  qed (use assms in auto)
qed

section \<open>Products\<close>

lemma dot_spec:
  assumes "\<And>k. k < n \<Longrightarrow> f k = Some (byte_of (F k))" "\<And>k. k < n \<Longrightarrow> g k = Some (byte_of (G k))"
  shows "dot n f g = Some (byte_of (\<Sum>k<n. F k * G k))"
proof -
  let ?P = "\<lambda>i acc. GF acc = (\<Sum>k<i. F k * G k)"
  have "\<exists>acc. dot n f g = Some acc \<and> ?P n acc"
    unfolding dot_def
    by (rule for_range_rule [where P = ?P]) (auto simp: assms GF_simps)
  then show ?thesis by (metis gf8.sel)
qed

lemma matrix_mul_spec:
  assumes "shape a n p" "shape b p q"
  shows "\<exists>m. matrix_mul a b = Some m \<and> shape m n q
    \<and> (\<forall>r<n. \<forall>c<q. elt m r c = (\<Sum>k<p. elt a r k * elt b k c))"
proof -
  let ?val = "\<lambda>r c. \<Sum>k<p. elt a r k * elt b k c"
  have dims: "rows a = n" "cols a = p" "rows b = p" "cols b = q" using assms by (auto simp: shape_def)
  let ?row = "\<lambda>r. for_range 0 q (\<lambda>c out. do {
      acc \<leftarrow> dot p (matrix_get a r) (\<lambda>k. matrix_get b k c); matrix_set out r c acc })"
  have row: "\<exists>m''. ?row r m' = Some m'' \<and> shape m'' n q \<and>
        (\<forall>r'<n. \<forall>c'<q. elt m'' r' c' = (if r' = r then ?val r c' else elt m' r' c'))"
    if "r < n" "shape m' n q" for r m'
  proof -
    have "\<exists>m''. ?row r m' = Some m'' \<and> shape m'' n q \<and>
        (\<forall>r'<n. \<forall>c'<q. elt m'' r' c' = (if r' = r \<and> c' < q then ?val r c' else elt m' r' c'))"
    proof (rule fill_row_loop [OF that(2,1) order_refl])
      fix c out assume "c < q" "shape out n q"
      then have "dot p (matrix_get a r) (\<lambda>k. matrix_get b k c) = Some (byte_of (?val r c))"
        using assms that by (intro dot_spec) (auto simp: matrix_get_in)
      then show "\<exists>v. (do { acc \<leftarrow> dot p (matrix_get a r) (\<lambda>k. matrix_get b k c); matrix_set out r c acc })
          = Some (mset out r c v) \<and> GF v = ?val r c"
        using \<open>c < q\<close> \<open>shape out n q\<close> that
        by (auto simp: matrix_set_in intro!: exI [where x = "byte_of (?val r c)"])
    qed
    then show ?thesis by auto
  qed
  have "\<exists>m. for_range 0 n ?row (matrix_new n q) = Some m \<and> shape m n q \<and>
      (\<forall>r'<n. \<forall>c'<q. elt m r' c' = (if r' < n then ?val r' c' else elt (matrix_new n q) r' c'))"
    by (rule fill_rows_loop) (use row in auto)
  then show ?thesis by (auto simp: matrix_mul_def dims)
qed

lemma matrix_identity_spec:
  "\<exists>m. matrix_identity n = Some m \<and> shape m n n \<and> (\<forall>r<n. \<forall>c<n. elt m r c = (if r = c then 1 else 0))"
proof -
  have "\<exists>m. for_range 0 n (\<lambda>i m. matrix_set m i i 1) (matrix_new n n) = Some m \<and> shape m n n \<and>
      (\<forall>r'<n. \<forall>c'<n. elt m r' c' = (if r' < n then (if r' = c' then 1 else 0) else elt (matrix_new n n) r' c'))"
    by (rule fill_rows_loop) (auto simp: matrix_set_in elt_mset elt_new)
  then show ?thesis unfolding matrix_identity_def by auto
qed

section \<open>Inversion\<close>

lemma build_augmented_spec:
  assumes "shape m n n"
  shows "\<exists>aug. build_augmented m n = Some aug \<and> shape aug n (2 * n)
    \<and> (\<forall>r<n. \<forall>c<2 * n. elt aug r c = augmented n (elt m) r c)"
proof -
  let ?w = "2 * n"
  let ?row = "\<lambda>r aug. do {
     aug \<leftarrow> for_range 0 n (\<lambda>c aug. do { v \<leftarrow> matrix_get m r c; matrix_set aug r c v }) aug;
     matrix_set aug r (n + r) 1 }"
  have row: "\<exists>m''. ?row r m' = Some m'' \<and> shape m'' n ?w \<and>
      (\<forall>r'<n. \<forall>c'<?w. elt m'' r' c' = (if r' = r then augmented n (elt m) r c' else elt m' r' c'))"
    if r: "r < n" and sh: "shape m' n ?w"
      and z: "\<And>r' c'. r' < n \<Longrightarrow> c' < ?w \<Longrightarrow>
        elt m' r' c' = (if r' < r then augmented n (elt m) r' c' else elt (matrix_new n ?w) r' c')" for r m'
  proof -
    have "\<exists>m''. for_range 0 n (\<lambda>c aug. do { v \<leftarrow> matrix_get m r c; matrix_set aug r c v }) m' = Some m''
        \<and> shape m'' n ?w \<and>
        (\<forall>r'<n. \<forall>c'<?w. elt m'' r' c' = (if r' = r \<and> c' < n then elt m r c' else elt m' r' c'))"
      by (rule fill_row_loop [OF sh r]) (use assms r in \<open>auto simp: matrix_get_in matrix_set_in\<close>)
    then obtain a where a: "for_range 0 n (\<lambda>c aug. do { v \<leftarrow> matrix_get m r c; matrix_set aug r c v }) m' = Some a"
        "shape a n ?w" "\<forall>r'<n. \<forall>c'<?w. elt a r' c' = (if r' = r \<and> c' < n then elt m r c' else elt m' r' c')"
      by blast
    have "?row r m' = Some (mset a r (n + r) 1)" using a(1,2) r by (simp add: matrix_set_in)
    moreover have "\<forall>r'<n. \<forall>c'<?w. elt (mset a r (n + r) 1) r' c' =
        (if r' = r then augmented n (elt m) r c' else elt m' r' c')"
      using a(2,3) r z by (auto simp: elt_mset augmented_def elt_new)
    ultimately show ?thesis using a(2) by simp
  qed
  have "\<exists>aug. for_range 0 n ?row (matrix_new n ?w) = Some aug \<and> shape aug n ?w \<and>
      (\<forall>r'<n. \<forall>c'<?w. elt aug r' c' =
        (if r' < n then augmented n (elt m) r' c' else elt (matrix_new n ?w) r' c'))"
    by (rule fill_rows_loop) (use row in auto)
  then show ?thesis unfolding build_augmented_def by auto
qed

lemma find_pivot_spec:
  assumes "shape aug n w" "col < w" "set rs \<subseteq> {..<n}"
  shows "\<exists>p. find_pivot aug col rs = Some p \<and>
    (case p of None \<Rightarrow> \<forall>r\<in>set rs. elt aug r col = 0 | Some r \<Rightarrow> r \<in> set rs \<and> elt aug r col \<noteq> 0)"
  using assms(3)
proof (induction rs)
  case (Cons r rs)
  have "matrix_get aug r col = Some (byte_of (elt aug r col))"
    using Cons.prems assms by (simp add: matrix_get_in)
  then show ?case using Cons by (auto split: option.splits)
qed simp

lemma swap_rows_spec:
  assumes sh: "shape aug n (2 * n)" and rc: "p < n" "q < n" "p \<noteq> q"
  shows "\<exists>aug'. swap_rows aug n p q = Some aug' \<and> shape aug' n (2 * n) \<and> (\<forall>r<n. \<forall>c<2 * n.
    elt aug' r c = (if r = p then elt aug q c else if r = q then elt aug p c else elt aug r c))"
proof -
  let ?P = "\<lambda>i a. shape a n (2 * n) \<and> (\<forall>r<n. \<forall>c<2 * n. elt a r c = (if c < i then
    (if r = p then elt aug q c else if r = q then elt aug p c else elt aug r c) else elt aug r c))"
  have "\<exists>a. swap_rows aug n p q = Some a \<and> ?P (2 * n) a"
    unfolding swap_rows_def
  proof (rule for_range_rule [where P = ?P])
    fix i a assume i: "i < 2 * n" and P: "?P i a"
    let ?a = "mset (mset a p i (byte_of (elt a q i))) q i (byte_of (elt a p i))"
    have "?P (Suc i) ?a" using P i rc by (auto simp: elt_mset [of _ n "2 * n"] less_Suc_eq)
    moreover have "(do { tmp \<leftarrow> matrix_get a p i; v \<leftarrow> matrix_get a q i;
        a \<leftarrow> matrix_set a p i v; matrix_set a q i tmp }) = Some ?a"
      using conjunct1 [OF P] i rc by (simp add: matrix_get_in matrix_set_in)
    ultimately show "\<exists>s'. (do { tmp \<leftarrow> matrix_get a p i; v \<leftarrow> matrix_get a q i;
        a \<leftarrow> matrix_set a p i v; matrix_set a q i tmp }) = Some s' \<and> ?P (Suc i) s'" by blast
  qed (use sh in auto)
  then show ?thesis by auto
qed

lemma scale_row_spec:
  assumes sh: "shape aug n (2 * n)" and r: "r < n"
  shows "\<exists>aug'. scale_row aug n r f = Some aug' \<and> shape aug' n (2 * n) \<and> (\<forall>r'<n. \<forall>c<2 * n.
    elt aug' r' c = (if r' = r then elt aug r' c * GF f else elt aug r' c))"
proof -
  have "\<exists>aug'. scale_row aug n r f = Some aug' \<and> shape aug' n (2 * n) \<and> (\<forall>r'<n. \<forall>c<2 * n.
    elt aug' r' c = (if r' = r \<and> c < 2 * n then elt aug r c * GF f else elt aug r' c))"
    unfolding scale_row_def
  proof (rule fill_row_loop [OF sh r order_refl])
    fix c a assume "c < 2 * n" "shape a n (2 * n)"
      "\<And>r' c'. r' < n \<Longrightarrow> c' < 2 * n \<Longrightarrow> r' \<noteq> r \<or> c \<le> c' \<Longrightarrow> elt a r' c' = elt aug r' c'"
    then show "\<exists>v. (do { v \<leftarrow> matrix_get a r c; p \<leftarrow> gf_mul v f; matrix_set a r c p })
        = Some (mset a r c v) \<and> GF v = elt aug r c * GF f"
      using r by (auto simp: matrix_get_in matrix_set_in GF_mul intro!: exI [where x = "gmul (byte_of (elt aug r c)) f"])
  qed
  then show ?thesis by auto
qed

lemma eliminate_row_spec:
  assumes sh: "shape aug n (2 * n)" and r: "r < n" "col < n" "r \<noteq> col"
  shows "\<exists>aug'. eliminate_row aug n col r = Some aug' \<and> shape aug' n (2 * n) \<and> (\<forall>r'<n. \<forall>c<2 * n.
    elt aug' r' c = (if r' = r then elt aug r c + elt aug r col * elt aug col c else elt aug r' c))"
proof (cases "elt aug r col = 0")
  case True
  with sh r show ?thesis by (auto simp: eliminate_row_def matrix_get_in)
next
  case False
  let ?f = "byte_of (elt aug r col)"
  let ?val = "\<lambda>c. elt aug r c + elt aug r col * elt aug col c"
  have "\<exists>aug'. for_range 0 (2 * n) (\<lambda>c aug. do {
         x \<leftarrow> matrix_get aug r c; y \<leftarrow> matrix_get aug col c;
         p \<leftarrow> gf_mul ?f y; matrix_set aug r c (gf_add x p) }) aug = Some aug' \<and> shape aug' n (2 * n) \<and>
      (\<forall>r'<n. \<forall>c<2 * n. elt aug' r' c = (if r' = r \<and> c < 2 * n then ?val c else elt aug r' c))"
  proof (rule fill_row_loop [OF sh r(1) order_refl])
    fix c a assume "c < 2 * n" "shape a n (2 * n)"
      "\<And>r' c'. r' < n \<Longrightarrow> c' < 2 * n \<Longrightarrow> r' \<noteq> r \<or> c \<le> c' \<Longrightarrow> elt a r' c' = elt aug r' c'"
    then show "\<exists>v. (do { x \<leftarrow> matrix_get a r c; y \<leftarrow> matrix_get a col c; p \<leftarrow> gf_mul ?f y;
        matrix_set a r c (gf_add x p) }) = Some (mset a r c v) \<and> GF v = ?val c"
      using r by (auto simp: matrix_get_in matrix_set_in GF_simps
          intro!: exI [where x = "gf_add (byte_of (elt aug r c)) (gmul ?f (byte_of (elt aug col c)))"])
  qed
  then show ?thesis using False sh r by (auto simp: eliminate_row_def matrix_get_in)
qed

text \<open>The state of the elimination before column \<open>col\<close>: the columns to its left are reduced.\<close>

definition reduced :: "nat \<Rightarrow> nat \<Rightarrow> matrix \<Rightarrow> matrix \<Rightarrow> bool" where
  "reduced n col m aug \<longleftrightarrow> shape aug n (2 * n) \<and> row_eqv n (2 * n) (elt aug) (augmented n (elt m))
     \<and> (\<forall>r<n. \<forall>c<col. elt aug r c = (if r = c then 1 else 0))"

lemma eliminate_rows_spec:
  assumes sh: "shape a n (2 * n)" and col: "col < n"
  defines "val \<equiv> \<lambda>r c. if r = col then elt a r c else elt a r c + elt a r col * elt a col c"
  shows "\<exists>a'. for_range 0 n (\<lambda>r aug. eliminate_row aug n col r) a = Some a' \<and> shape a' n (2 * n) \<and> (\<forall>r<n. \<forall>c<2 * n. elt a' r c = val r c)"
proof -
  have "\<exists>a'. for_range 0 n (\<lambda>r aug. eliminate_row aug n col r) a = Some a' \<and> shape a' n (2 * n) \<and>
      (\<forall>r<n. \<forall>c<2 * n. elt a' r c = (if r < n then val r c else elt a r c))"
  proof (rule fill_rows_loop [OF sh order_refl])
    fix r b assume H: "r < n" "shape b n (2 * n)"
      "\<And>r' c'. r' < n \<Longrightarrow> c' < 2 * n \<Longrightarrow> elt b r' c' = (if r' < r then val r' c' else elt a r' c')"
    show "\<exists>m''. eliminate_row b n col r = Some m'' \<and> shape m'' n (2 * n) \<and>
        (\<forall>r'<n. \<forall>c'<2 * n. elt m'' r' c' = (if r' = r then val r c' else elt b r' c'))"
    proof (cases "r = col")
      case True
      then show ?thesis using H by (auto simp: eliminate_row_def val_def)
    next
      case False
      with eliminate_row_spec [OF H(2,1) col] H col show ?thesis by (auto simp: val_def)
    qed
  qed
  then show ?thesis by simp
qed

lemma eliminate_column_spec:
  assumes red: "reduced n col m aug" and col: "col \<le> p" "p < n" and nz: "elt aug p col \<noteq> 0"
  shows "\<exists>aug'. eliminate_column aug n col p = Some aug' \<and> reduced n (Suc col) m aug'"
proof -
  have sh: "shape aug n (2 * n)" and eqv: "row_eqv n (2 * n) (elt aug) (augmented n (elt m))"
    and left: "\<And>r c. r < n \<Longrightarrow> c < col \<Longrightarrow> elt aug r c = (if r = c then 1 else 0)"
    using red by (auto simp: reduced_def)
  have cn: "col < n" "col < 2 * n" using col by auto
  obtain a1 where a1: "(if p \<noteq> col then swap_rows aug n p col else Some aug) = Some a1" "shape a1 n (2 * n)"
      "\<And>r c. r < n \<Longrightarrow> c < 2 * n \<Longrightarrow>
        elt a1 r c = (if r = p then elt aug col c else if r = col then elt aug p c else elt aug r c)"
    using swap_rows_spec [OF sh col(2) cn(1)] sh by (cases "p = col") auto
  have pv: "elt a1 col col \<noteq> 0" using a1(3) [of col col] nz cn col by auto
  let ?f = "ginv (byte_of (elt a1 col col))"
  have f: "GF ?f = inverse (elt a1 col col)" by (simp add: GF_inv)
  obtain a2 where a2: "scale_row a1 n col ?f = Some a2" "shape a2 n (2 * n)"
      "\<And>r c. r < n \<Longrightarrow> c < 2 * n \<Longrightarrow> elt a2 r c = (if r = col then elt a1 r c * GF ?f else elt a1 r c)"
    using scale_row_spec [OF a1(2) cn(1), of ?f] by blast
  obtain a3 where a3: "for_range 0 n (\<lambda>r aug. eliminate_row aug n col r) a2 = Some a3" "shape a3 n (2 * n)"
      "\<And>r c. r < n \<Longrightarrow> c < 2 * n \<Longrightarrow> elt a3 r c = (if r = col then elt a2 r c else elt a2 r c + elt a2 r col * elt a2 col c)"
    using eliminate_rows_spec [OF a2(2) cn(1)] by blast
  have run: "eliminate_column aug n col p = Some a3"
    using a1(1,2) a2(1) a3(1) cn by (simp add: eliminate_column_def matrix_get_in)
  have "row_eqv n (2 * n) (elt a1) (elt aug)" by (rule row_eqv_swap [OF col(2) cn(1)]) (rule a1(3))
  moreover have "row_eqv n (2 * n) (elt a2) (elt a1)"
    by (rule row_eqv_scale [OF cn(1), of "GF ?f"]) (use pv f a2(3) in auto)
  moreover have "row_eqv n (2 * n) (elt a3) (elt a2)"
    by (rule row_eqv_eliminate [OF cn(1), of _ _ _ "\<lambda>r. elt a2 r col"]) (use a3(3) in auto)
  ultimately have eqv3: "row_eqv n (2 * n) (elt a3) (augmented n (elt m))"
    using eqv by (blast intro: row_eqv_trans)
  have c2: "elt a2 col col = 1" using a2(3) cn pv f by simp
  have l2: "elt a2 r c = (if r = c then 1 else 0)" if "r < n" "c < col" for r c
    using that left [of r c] left [of p c] left [of col c] a1(3) [of r c] a2(3) [of r c] col cn by auto
  have "elt a3 r c = (if r = c then 1 else 0)" if "r < n" "c < Suc col" for r c
    using that a3(3) [of r c] c2 l2 [of r c] l2 [of col c] cn by (cases "c = col") auto
  with run a3(2) eqv3 show ?thesis by (auto simp: reduced_def)
qed

lemma eliminate_spec:
  assumes "reduced n col m aug" "col \<le> n"
  shows "\<exists>res. eliminate n [col..<n] aug = Some res \<and>
    (case res of None \<Rightarrow> \<not> nonsingular n (elt m) | Some a \<Rightarrow> reduced n n m a)"
  using assms
proof (induction "n - col" arbitrary: col aug)
  case 0
  then show ?case by simp
next
  case (Suc d)
  then have col: "col < n" and upt: "[col..<n] = col # [Suc col..<n]" by (auto simp: upt_rec)
  have red: "shape aug n (2 * n)" "row_eqv n (2 * n) (elt aug) (augmented n (elt m))"
      "\<And>r c. r < n \<Longrightarrow> c < col \<Longrightarrow> elt aug r c = (if r = c then 1 else 0)"
    using Suc.prems by (auto simp: reduced_def)
  obtain p where p: "find_pivot aug col [col..<n] = Some p"
      "case p of None \<Rightarrow> \<forall>r\<in>set [col..<n]. elt aug r col = 0
        | Some r \<Rightarrow> r \<in> set [col..<n] \<and> elt aug r col \<noteq> 0"
    using find_pivot_spec [OF red(1), of col "[col..<n]"] col by fastforce
  show ?case
  proof (cases p)
    case None
    then have "\<not> nonsingular n (elt m)" using pivot_exists [OF _ red(2) col red(3)] p(2) by auto
    then show ?thesis using None p(1) by (simp add: upt)
  next
    case (Some r)
    then have "col \<le> r" "r < n" "elt aug r col \<noteq> 0" using p(2) by auto
    then obtain a where a: "eliminate_column aug n col r = Some a" "reduced n (Suc col) m a"
      using eliminate_column_spec [OF Suc.prems(1)] by blast
    have "d = n - Suc col" using Suc.hyps(2) by simp
    then show ?thesis using Suc.hyps(1) [OF _ a(2)] col a(1) p(1) Some by (simp add: upt)
  qed
qed

lemma right_half_spec:
  assumes "shape aug n (2 * n)"
  shows "\<exists>out. right_half aug n = Some out \<and> shape out n n \<and> (\<forall>r<n. \<forall>c<n. elt out r c = elt aug r (n + c))"
proof -
  let ?row = "\<lambda>r. for_range 0 n (\<lambda>c out. do { v \<leftarrow> matrix_get aug r (n + c); matrix_set out r c v })"
  have row: "\<exists>m''. ?row r m' = Some m'' \<and> shape m'' n n \<and>
      (\<forall>r'<n. \<forall>c'<n. elt m'' r' c' = (if r' = r \<and> c' < n then elt aug r (n + c') else elt m' r' c'))"
    if "r < n" "shape m' n n" for r m'
    by (rule fill_row_loop [OF that(2,1) order_refl])
      (use assms that in \<open>auto simp: matrix_get_in matrix_set_in\<close>)
  have "\<exists>out. right_half aug n = Some out \<and> shape out n n \<and>
      (\<forall>r<n. \<forall>c<n. elt out r c = (if r < n then elt aug r (n + c) else elt (matrix_new n n) r c))"
    unfolding right_half_def by (rule fill_rows_loop) (use row in \<open>auto split: if_splits\<close>)
  then show ?thesis by auto
qed

text \<open>Inversion never panics; it finds the inverse exactly when the matrix is nonsingular.\<close>

lemma matrix_invert_spec:
  assumes "shape m n n"
  shows "\<exists>res. matrix_invert m = Some res \<and> (case res of None \<Rightarrow> \<not> nonsingular n (elt m)
    | Some b \<Rightarrow> shape b n n \<and> inverse_of n (elt m) (elt b))"
proof -
  obtain aug where aug: "build_augmented m n = Some aug" "shape aug n (2 * n)"
      "\<forall>r<n. \<forall>c<2 * n. elt aug r c = augmented n (elt m) r c"
    using build_augmented_spec [OF assms] by blast
  have "row_eqv n (2 * n) (elt aug) (augmented n (elt m))"
    by (rule row_eqv_equal) (use aug in auto)
  then have "reduced n 0 m aug" using aug by (simp add: reduced_def)
  then obtain res where res: "eliminate n [0..<n] aug = Some res"
      "case res of None \<Rightarrow> \<not> nonsingular n (elt m) | Some a \<Rightarrow> reduced n n m a"
    using eliminate_spec [of n 0 m aug] by auto
  have dims: "rows m = n" "cols m = n" using assms by (auto simp: shape_def)
  show ?thesis
  proof (cases res)
    case None
    then show ?thesis using aug(1) res by (simp add: matrix_invert_def dims Let_def)
  next
    case (Some a)
    then have a: "shape a n (2 * n)" "row_eqv n (2 * n) (elt a) (augmented n (elt m))"
        "\<And>r c. r < n \<Longrightarrow> c < n \<Longrightarrow> elt a r c = (if r = c then 1 else 0)"
      using res(2) by (auto simp: reduced_def)
    obtain out where out: "right_half a n = Some out" "shape out n n"
        "\<forall>r<n. \<forall>c<n. elt out r c = elt a r (n + c)" using right_half_spec [OF a(1)] by blast
    have "inverse_of n (elt m) (elt out)"
      using eliminated_inverse [OF a(2,3)] out(3) by (simp add: inverse_of_def)
    then show ?thesis using aug(1) res(1) Some out by (simp add: matrix_invert_def dims Let_def)
  qed
qed

section \<open>The systematic Vandermonde matrix\<close>

definition point :: "nat \<Rightarrow> gf8" where
  "point i = GF (of_nat i + 1)"

lemma point_inj: "inj_on point {..<255}"
proof (rule inj_onI)
  fix i j assume ij: "i \<in> {..<255}" "j \<in> {..<255}" "point i = point j"
  then have "(of_nat i :: u8) = of_nat j" by (simp add: point_def)
  moreover have "unat (of_nat i :: u8) = i" "unat (of_nat j :: u8) = j" using ij by (auto simp: unat_of_nat)
  ultimately show "i = j" by metis
qed

lemma vandermonde_row_spec:
  assumes "shape v n k" "i < n"
  shows "\<exists>v'. vandermonde_row k i v = Some v' \<and> shape v' n k \<and>
    (\<forall>r<n. \<forall>c<k. elt v' r c = (if r = i then point i ^ c else elt v r c))"
proof -
  let ?P = "\<lambda>c (v', x). GF x = point i ^ c \<and> shape v' n k \<and>
    (\<forall>r<n. \<forall>c'<k. elt v' r c' = (if r = i \<and> c' < c then point i ^ c' else elt v r c'))"
  let ?body = "\<lambda>c (v, x). do { v \<leftarrow> matrix_set v i c x; x \<leftarrow> gf_mul x ((of_nat i :: u8) + 1); Some (v, x) }"
  have "\<exists>s. for_range 0 k ?body (v, 1) = Some s \<and> ?P k s"
  proof (rule for_range_rule [where P = ?P])
    fix c and s :: "matrix \<times> u8" assume c: "c < k" and P: "?P c s"
    obtain v' x where s: "s = (v', x)" by (cases s)
    let ?s = "(mset v' i c x, gmul x (of_nat i + 1))"
    have "?P (Suc c) ?s"
      using P c assms s by (auto simp: elt_mset [of v' n k] less_Suc_eq GF_mul mult.commute simp flip: point_def)
    moreover have "?body c s = Some ?s" using P c assms s by (simp add: matrix_set_in [of v' n k])
    ultimately show "\<exists>s'. ?body c s = Some s' \<and> ?P (Suc c) s'" by blast
  qed (use assms in auto)
  then show ?thesis by (auto simp: vandermonde_row_def Let_def)
qed

lemma vandermonde_spec:
  "\<exists>v. vandermonde k n = Some v \<and> shape v n k \<and> (\<forall>r<n. \<forall>c<k. elt v r c = point r ^ c)"
proof -
  have "\<exists>v. for_range 0 n (vandermonde_row k) (matrix_new n k) = Some v \<and> shape v n k \<and>
      (\<forall>r<n. \<forall>c<k. elt v r c = (if r < n then point r ^ c else elt (matrix_new n k) r c))"
    by (rule fill_rows_loop) (use vandermonde_row_spec in auto)
  then show ?thesis unfolding vandermonde_def by auto
qed

lemma top_block_spec:
  assumes "shape v n k" "k \<le> n"
  shows "\<exists>t. top_block k v = Some t \<and> shape t k k \<and> (\<forall>r<k. \<forall>c<k. elt t r c = elt v r c)"
proof -
  let ?row = "\<lambda>r. for_range 0 k (\<lambda>c top. do { x \<leftarrow> matrix_get v r c; matrix_set top r c x })"
  have row: "\<exists>m''. ?row r m' = Some m'' \<and> shape m'' k k \<and>
      (\<forall>r'<k. \<forall>c'<k. elt m'' r' c' = (if r' = r \<and> c' < k then elt v r c' else elt m' r' c'))"
    if "r < k" "shape m' k k" for r m'
    by (rule fill_row_loop [OF that(2,1) order_refl])
      (use assms that in \<open>auto simp: matrix_get_in matrix_set_in\<close>)
  have "\<exists>t. top_block k v = Some t \<and> shape t k k \<and>
      (\<forall>r<k. \<forall>c<k. elt t r c = (if r < k then elt v r c else elt (matrix_new k k) r c))"
    unfolding top_block_def by (rule fill_rows_loop) (use row in \<open>auto split: if_splits\<close>)
  then show ?thesis by auto
qed

text \<open>
  The encoding matrix: its first \<open>k\<close> rows are the identity, and any \<open>k\<close> distinct rows form a
  nonsingular matrix.
\<close>

definition mds :: "nat \<Rightarrow> nat \<Rightarrow> matrix \<Rightarrow> bool" where
  "mds k m e \<longleftrightarrow> shape e (k + m) k \<and> (\<forall>r<k. \<forall>c<k. elt e r c = (if r = c then 1 else 0))
     \<and> (\<forall>s. inj_on s {..<k} \<longrightarrow> s ` {..<k} \<subseteq> {..<k + m} \<longrightarrow> nonsingular k (\<lambda>r. elt e (s r)))"

lemma vandermonde_systematic_spec:
  assumes "k + m \<le> 255"
  shows "\<exists>e. vandermonde_systematic k m = Some e \<and> mds k m e"
proof -
  obtain v where v: "vandermonde k (k + m) = Some v" "shape v (k + m) k"
      "\<forall>r<k + m. \<forall>c<k. elt v r c = point r ^ c" using vandermonde_spec by blast
  obtain t where t: "top_block k v = Some t" "shape t k k" "\<forall>r<k. \<forall>c<k. elt t r c = elt v r c"
    using top_block_spec [OF v(2)] by auto
  have sub: "nonsingular k (\<lambda>r. elt v (s r))" if "inj_on s {..<k}" "s ` {..<k} \<subseteq> {..<k + m}" for s
  proof (rule vandermonde_nonsingular [where p = "point \<circ> s"])
    have "s ` {..<k} \<subseteq> {..<255}" using that assms by auto
    then show "inj_on (point \<circ> s) {..<k}" using that(1) point_inj by (meson comp_inj_on inj_on_subset)
  qed (use v(3) that in auto)
  have "nonsingular k (elt t)" using sub [of id] t(3) by (auto simp: nonsingular_def)
  then obtain b where b: "matrix_invert t = Some (Some b)" "shape b k k" "inverse_of k (elt t) (elt b)"
    using matrix_invert_spec [OF t(2)] by (auto split: option.splits)
  obtain e where e: "matrix_mul v b = Some e" "shape e (k + m) k"
      "\<forall>r<k + m. \<forall>c<k. elt e r c = (\<Sum>i<k. elt v r i * elt b i c)"
    using matrix_mul_spec [OF v(2) b(2)] by blast
  have "elt e r c = (if r = c then 1 else 0)" if "r < k" "c < k" for r c
    using e(3) b(3) t(3) that by (simp add: inverse_of_def)
  moreover have "nonsingular k (\<lambda>r. elt e (s r))" if "inj_on s {..<k}" "s ` {..<k} \<subseteq> {..<k + m}" for s
    by (rule nonsingular_product [OF sub [OF that] inverse_of_nonsingular(2) [OF b(3)]])
      (use e(3) that in auto)
  ultimately have "mds k m e" using e(2) by (simp add: mds_def)
  moreover have "vandermonde_systematic k m = Some e"
    using assms v(1) t(1) b(1) e(1) by (simp add: vandermonde_systematic_def)
  ultimately show ?thesis by blast
qed

section \<open>Properties\<close>

lemma inverse_of_products:
  assumes "shape m n n" "shape b n n" "inverse_of n (elt m) (elt b)"
  shows "matrix_mul m b = matrix_identity n" "matrix_mul b m = matrix_identity n"
proof -
  obtain i where i: "matrix_identity n = Some i" "shape i n n" "\<forall>r<n. \<forall>c<n. elt i r c = (if r = c then 1 else 0)"
    using matrix_identity_spec by blast
  have *: "matrix_mul x y = Some i" if "shape x n n" "shape y n n"
      "\<forall>r<n. \<forall>c<n. (\<Sum>t<n. elt x r t * elt y t c) = (if r = c then 1 else 0)" for x y
    using matrix_mul_spec [OF that(1,2)] matrix_eqI [OF _ i(2)] i(3) that(3) by auto
  show "matrix_mul m b = matrix_identity n" "matrix_mul b m = matrix_identity n"
    using * [of m b] * [of b m] assms i(1) by (auto simp: inverse_of_def)
qed

text \<open>
  C16. Inverting a well-shaped square matrix never panics; it returns nothing exactly when the matrix
  is singular, and otherwise a matrix whose products with the argument, on both sides, are the
  identity.
\<close>

theorem matrix_invert_correct:
  assumes "shape m n n"
  shows "\<exists>res. matrix_invert m = Some res \<and> (res = None \<longleftrightarrow> \<not> nonsingular n (elt m))
    \<and> (\<forall>b. res = Some b \<longrightarrow> matrix_mul m b = matrix_identity n \<and> matrix_mul b m = matrix_identity n)"
proof -
  obtain res where res: "matrix_invert m = Some res" "case res of None \<Rightarrow> \<not> nonsingular n (elt m)
      | Some b \<Rightarrow> shape b n n \<and> inverse_of n (elt m) (elt b)"
    using matrix_invert_spec [OF assms] by blast
  then show ?thesis
    using inverse_of_products [OF assms] inverse_of_nonsingular(1) [of n "elt m"]
    by (cases res) auto
qed

theorem matrix_invert_correct_witness:
  "shape \<lparr>rows = 2, cols = 2, cells = [1, 2, 3, 4]\<rparr> 2 2 \<and>
   (\<exists>res. matrix_invert \<lparr>rows = 2, cols = 2, cells = [1, 2, 3, 4]\<rparr> = Some res
      \<and> (\<forall>b. res = Some b \<longrightarrow> matrix_mul \<lparr>rows = 2, cols = 2, cells = [1, 2, 3, 4]\<rparr> b = matrix_identity 2))"
proof -
  have sh: "shape \<lparr>rows = 2, cols = 2, cells = [1, 2, 3, 4]\<rparr> 2 2" by (simp add: shape_def)
  with matrix_invert_correct [OF sh] show ?thesis by blast
qed

end
