(* ===== verification/ReedSolomon.thy ===== *)
theory ReedSolomon
  imports Matrix
begin

text \<open>
  The codec of \<^verbatim>\<open>crates/shardvault-ec/src/rs.rs\<close>: construction with precomputed multiplication tables,
  encoding of parity shards, and reconstruction of missing shards from any \<open>k\<close> survivors. The
  contract the striping layer relies on is the locale \<open>erasure_code\<close>; the codec is shown to meet it
  for all \<open>k \<ge> 1\<close>, \<open>m \<ge> 1\<close>, \<open>k + m \<le> 255\<close>.
\<close>

section \<open>The code\<close>

datatype ec_error = TooFewShards | InconsistentShards

record reed_solomon =
  rs_k :: nat
  rs_m :: nat
  encode_matrix :: matrix
  mul_tables :: "bytes list list"

definition build_mul_table :: "u8 \<Rightarrow> bytes option" where
  "build_mul_table coeff = mapM (\<lambda>x. gf_mul coeff (of_nat x)) [0..<256]"

definition rs_new :: "nat \<Rightarrow> nat \<Rightarrow> reed_solomon option" where
  "rs_new k m = (if \<not> k \<ge> 1 then None else if \<not> m \<ge> 1 then None else if \<not> k + m \<le> 255 then None else do {
     e \<leftarrow> vandermonde_systematic k m;
     tabs \<leftarrow> mapM (\<lambda>j. mapM (\<lambda>i. do {
        coeff \<leftarrow> matrix_get e (k + j) i;
        build_mul_table coeff }) [0..<k]) [0..<m];
     Some \<lparr>rs_k = k, rs_m = m, encode_matrix = e, mul_tables = tabs\<rparr> })"

definition data_shard_count :: "reed_solomon \<Rightarrow> nat" where
  "data_shard_count rs = rs_k rs"

definition parity_shard_count :: "reed_solomon \<Rightarrow> nat" where
  "parity_shard_count rs = rs_m rs"

definition shard_count :: "reed_solomon \<Rightarrow> nat" where
  "shard_count rs = rs_k rs + rs_m rs"

text \<open>The inner loop of \<open>encode\<close>: one data shard is folded into one parity shard.\<close>

definition xor_table :: "bytes \<Rightarrow> bytes \<Rightarrow> bytes \<Rightarrow> bytes option" where
  "xor_table table d par = for_range 0 (length par) (\<lambda>pos par. do {
     b \<leftarrow> aget d pos;
     t \<leftarrow> aget table (unat b);
     out \<leftarrow> aget par pos;
     aset par pos (out XOR t) }) par"

definition encode_parity :: "reed_solomon \<Rightarrow> bytes list \<Rightarrow> nat \<Rightarrow> nat \<Rightarrow> bytes option" where
  "encode_parity rs data_shards shard_len j =
     for_range 0 (length data_shards) (\<lambda>i par. do {
       d \<leftarrow> aget data_shards i;
       row \<leftarrow> aget (mul_tables rs) j;
       table \<leftarrow> aget row i;
       xor_table table d par }) (replicate shard_len 0)"

definition rs_encode :: "reed_solomon \<Rightarrow> bytes list \<Rightarrow> bytes list option" where
  "rs_encode rs data_shards = (if length data_shards \<noteq> rs_k rs then None else do {
     d0 \<leftarrow> aget data_shards 0;
     let shard_len = length d0;
     if \<not> list_all (\<lambda>s. length s = shard_len) data_shards then None
     else mapM (encode_parity rs data_shards shard_len) [0..<rs_m rs] })"

text \<open>\<open>shards[i].is_some()\<close> and \<open>shards[i].as_ref().unwrap()\<close>.\<close>

definition present :: "bytes option list \<Rightarrow> nat \<Rightarrow> bool" where
  "present shards i = (case aget shards i of Some (Some s) \<Rightarrow> True | _ \<Rightarrow> False)"

definition shard_at :: "bytes option list \<Rightarrow> nat \<Rightarrow> bytes option" where
  "shard_at shards i = Option.bind (aget shards i) id"

definition sub_matrix :: "matrix \<Rightarrow> nat \<Rightarrow> nat list \<Rightarrow> matrix option" where
  "sub_matrix e k survivors = for_range 0 (length survivors) (\<lambda>r sub. do {
     si \<leftarrow> aget survivors r;
     for_range 0 k (\<lambda>c sub. do { v \<leftarrow> matrix_get e si c; matrix_set sub r c v }) sub }) (matrix_new k k)"

text \<open>The coefficients of a missing shard over the survivors, and the shard they rebuild.\<close>

definition rebuild_coeffs :: "matrix \<Rightarrow> nat \<Rightarrow> matrix \<Rightarrow> nat \<Rightarrow> bytes option" where
  "rebuild_coeffs e k minv mi = mapM (\<lambda>j. dot k (matrix_get e mi) (\<lambda>t. matrix_get minv t j)) [0..<k]"

definition add_scaled :: "u8 \<Rightarrow> bytes \<Rightarrow> nat \<Rightarrow> bytes \<Rightarrow> bytes option" where
  "add_scaled coeff s shard_len rebuilt = for_range 0 shard_len (\<lambda>pos rebuilt. do {
     x \<leftarrow> aget s pos;
     p \<leftarrow> gf_mul coeff x;
     out \<leftarrow> aget rebuilt pos;
     aset rebuilt pos (out XOR p) }) rebuilt"

definition rebuild_shard :: "bytes option list \<Rightarrow> nat list \<Rightarrow> bytes \<Rightarrow> nat \<Rightarrow> bytes option" where
  "rebuild_shard shards survivors coeffs shard_len =
     for_range 0 (length survivors) (\<lambda>j rebuilt. do {
       si \<leftarrow> aget survivors j;
       coeff \<leftarrow> aget coeffs j;
       if coeff = 0 then Some rebuilt else do {
         s \<leftarrow> shard_at shards si;
         add_scaled coeff s shard_len rebuilt } }) (replicate shard_len 0)"

definition rs_reconstruct :: "reed_solomon \<Rightarrow> bytes option list \<Rightarrow> (ec_error + bytes option list) option" where
  "rs_reconstruct rs shards = (let n = rs_k rs + rs_m rs; k = rs_k rs in
     if length shards \<noteq> n then Some (Inl InconsistentShards) else
     let survivors = filter (present shards) [0..<n] in
     if length survivors < k then Some (Inl TooFewShards) else do {
       let survivors = take k survivors;
       s0 \<leftarrow> aget survivors 0;
       first \<leftarrow> shard_at shards s0;
       let shard_len = length first;
       lens \<leftarrow> mapM (\<lambda>i. map_option length (shard_at shards i)) survivors;
       if list_ex (\<lambda>l. l \<noteq> shard_len) lens then Some (Inl InconsistentShards) else do {
         sub \<leftarrow> sub_matrix (encode_matrix rs) k survivors;
         res \<leftarrow> matrix_invert sub;
         (case res of
            None \<Rightarrow> Some (Inl InconsistentShards)
          | Some minv \<Rightarrow> do {
              shards \<leftarrow> for_each (filter (\<lambda>i. \<not> present shards i) [0..<n]) (\<lambda>mi shards. do {
                coeffs \<leftarrow> rebuild_coeffs (encode_matrix rs) k minv mi;
                rebuilt \<leftarrow> rebuild_shard shards survivors coeffs shard_len;
                aset shards mi (Some rebuilt) }) shards;
              Some (Inr shards) }) } })"

section \<open>Construction and encoding\<close>

definition wf_rs :: "reed_solomon \<Rightarrow> bool" where
  "wf_rs rs \<longleftrightarrow> 1 \<le> rs_k rs \<and> 1 \<le> rs_m rs \<and> rs_k rs + rs_m rs \<le> 255 \<and> mds (rs_k rs) (rs_m rs) (encode_matrix rs)
     \<and> mul_tables rs = map (\<lambda>j. map (\<lambda>i. map (\<lambda>x.
           gmul (byte_of (elt (encode_matrix rs) (rs_k rs + j) i)) (of_nat x)) [0..<256]) [0..<rs_k rs]) [0..<rs_m rs]"

lemma rs_new_spec:
  assumes "1 \<le> k" "1 \<le> m" "k + m \<le> 255"
  shows "\<exists>rs. rs_new k m = Some rs \<and> wf_rs rs \<and> rs_k rs = k \<and> rs_m rs = m"
proof -
  obtain e where e: "vandermonde_systematic k m = Some e" "mds k m e"
    using vandermonde_systematic_spec [OF assms(3)] by blast
  have sh: "shape e (k + m) k" using e(2) by (simp add: mds_def)
  let ?row = "\<lambda>j. map (\<lambda>i. map (\<lambda>x. gmul (byte_of (elt e (k + j) i)) (of_nat x)) [0..<256]) [0..<k]"
  have tab: "build_mul_table c = Some (map (\<lambda>x. gmul c (of_nat x)) [0..<256])" for c
    unfolding build_mul_table_def by (rule mapM_Some) simp
  have "mapM (\<lambda>j. mapM (\<lambda>i. do { coeff \<leftarrow> matrix_get e (k + j) i; build_mul_table coeff }) [0..<k]) [0..<m]
      = Some (map ?row [0..<m])"
    by (intro mapM_Some) (auto simp: matrix_get_in [OF sh] tab simp del: upt_Suc)
  then show ?thesis using assms e by (simp add: rs_new_def wf_rs_def)
qed

lemma rs_new_Some: "rs_new k m = Some rs \<Longrightarrow> wf_rs rs \<and> rs_k rs = k \<and> rs_m rs = m"
  using rs_new_spec [of k m] by (auto simp: rs_new_def split: if_splits)

lemma xor_table_spec:
  assumes "length d = length par" "table = map (\<lambda>x. gmul c (of_nat x)) [0..<256]"
  shows "xor_table table d par = Some (map (\<lambda>i. par ! i XOR gmul c (d ! i)) [0..<length par])"
  unfolding xor_table_def
  by (rule for_range_each_cell) (use assms unat_byte in \<open>auto simp: array_simps\<close>)

text \<open>
  A code word: \<open>k + m\<close> shards of one length, every byte of which is the combination of the data bytes
  at the same position that its row of the encoding matrix prescribes.
\<close>

definition codeword :: "reed_solomon \<Rightarrow> nat \<Rightarrow> bytes list \<Rightarrow> bool" where
  "codeword rs len w \<longleftrightarrow> length w = rs_k rs + rs_m rs \<and> (\<forall>s\<in>set w. length s = len)
     \<and> (\<forall>i<rs_k rs + rs_m rs. \<forall>pos<len.
          GF (w ! i ! pos) = (\<Sum>t<rs_k rs. elt (encode_matrix rs) i t * GF (w ! t ! pos)))"

lemma encode_parity_spec:
  assumes "wf_rs rs" "length ds = rs_k rs" "\<forall>d\<in>set ds. length d = len" "j < rs_m rs"
  shows "\<exists>p. encode_parity rs ds len j = Some p \<and> length p = len \<and>
    (\<forall>pos<len. GF (p ! pos) = (\<Sum>t<rs_k rs. elt (encode_matrix rs) (rs_k rs + j) t * GF (ds ! t ! pos)))"
proof -
  let ?P = "\<lambda>i p. length p = len \<and>
    (\<forall>pos<len. GF (p ! pos) = (\<Sum>t<i. elt (encode_matrix rs) (rs_k rs + j) t * GF (ds ! t ! pos)))"
  have "\<exists>p. encode_parity rs ds len j = Some p \<and> ?P (length ds) p"
    unfolding encode_parity_def
  proof (rule for_range_rule [where P = ?P])
    fix i p assume i: "i < length ds" and P: "?P i p"
    let ?c = "byte_of (elt (encode_matrix rs) (rs_k rs + j) i)"
    let ?p = "map (\<lambda>pos. p ! pos XOR gmul ?c (ds ! i ! pos)) [0..<length p]"
    have "xor_table (mul_tables rs ! j ! i) (ds ! i) p = Some ?p"
      by (rule xor_table_spec) (use assms i P in \<open>auto simp: wf_rs_def\<close>)
    moreover have "?P (Suc i) ?p" using P by (simp add: GF_simps)
    ultimately show "\<exists>s'. (do { d \<leftarrow> aget ds i; row \<leftarrow> aget (mul_tables rs) j;
        table \<leftarrow> aget row i; xor_table table d p }) = Some s' \<and> ?P (Suc i) s'"
      using assms i by (auto simp: array_simps wf_rs_def)
  qed auto
  then show ?thesis using assms(2) by simp
qed

lemma rs_encode_spec:
  assumes wf: "wf_rs rs" and ds: "length ds = rs_k rs" "\<forall>d\<in>set ds. length d = len"
  shows "\<exists>ps. rs_encode rs ds = Some ps \<and> length ps = rs_m rs \<and> codeword rs len (ds @ ps)"
proof -
  let ?k = "rs_k rs" and ?e = "encode_matrix rs"
  define ps where "ps = map (\<lambda>j. the (encode_parity rs ds len j)) [0..<rs_m rs]"
  have par: "encode_parity rs ds len j = Some (ps ! j)" "length (ps ! j) = len"
      "\<And>pos. pos < len \<Longrightarrow> GF (ps ! j ! pos) = (\<Sum>t<?k. elt ?e (?k + j) t * GF (ds ! t ! pos))"
    if "j < rs_m rs" for j
    using encode_parity_spec [OF wf ds that] that by (auto simp: ps_def)
  have lps: "length ps = rs_m rs" by (simp add: ps_def)
  have "mapM (encode_parity rs ds len) [0..<rs_m rs] = Some (map ((!) ps) [0..<rs_m rs])"
    by (rule mapM_Some) (use par(1) in auto)
  then have all: "mapM (encode_parity rs ds len) [0..<rs_m rs] = Some ps" by (simp only: map_nth flip: lps)
  obtain d0 ds' where d0: "ds = d0 # ds'" using wf ds(1) by (cases ds) (auto simp: wf_rs_def)
  have run: "rs_encode rs ds = Some ps"
    using ds all by (simp add: rs_encode_def d0 aget_def list_all_iff)
  have "GF ((ds @ ps) ! i ! pos) = (\<Sum>t<?k. elt ?e i t * GF ((ds @ ps) ! t ! pos))"
    if "i < ?k + rs_m rs" "pos < len" for i pos
  proof -
    have "(\<Sum>t<?k. elt ?e i t * GF ((ds @ ps) ! t ! pos)) = (\<Sum>t<?k. elt ?e i t * GF (ds ! t ! pos))"
      using ds(1) by (simp add: nth_append)
    moreover have "(\<Sum>t<?k. elt ?e i t * GF (ds ! t ! pos)) = GF (ds ! i ! pos)" if "i < ?k"
    proof -
      have "(\<Sum>t<?k. elt ?e i t * GF (ds ! t ! pos)) = (\<Sum>t<?k. GF (ds ! t ! pos) * (if i = t then 1 else 0))"
        by (rule sum.cong) (use wf that in \<open>auto simp: wf_rs_def mds_def\<close>)
      then show ?thesis using that by (simp only: sum_mult_delta if_True)
    qed
    ultimately show ?thesis using that ds(1) par(3) [of "i - ?k" pos] by (auto simp: nth_append)
  qed
  moreover have "\<forall>s\<in>set (ds @ ps). length s = len" using ds(2) par(2) lps by (auto simp: in_set_conv_nth)
  ultimately show ?thesis using run ds(1) lps by (auto simp: codeword_def)
qed

section \<open>Reconstruction\<close>

lemma sub_matrix_spec:
  assumes e: "shape e n k" and sv: "length sv = k" "set sv \<subseteq> {..<n}"
  shows "\<exists>sub. sub_matrix e k sv = Some sub \<and> shape sub k k \<and> (\<forall>r<k. \<forall>c<k. elt sub r c = elt e (sv ! r) c)"
proof -
  let ?row = "\<lambda>r sub. do { si \<leftarrow> aget sv r;
     for_range 0 k (\<lambda>c sub. do { v \<leftarrow> matrix_get e si c; matrix_set sub r c v }) sub }"
  have row: "\<exists>m''. ?row r m' = Some m'' \<and> shape m'' k k \<and>
      (\<forall>r'<k. \<forall>c'<k. elt m'' r' c' = (if r' = r \<and> c' < k then elt e (sv ! r) c' else elt m' r' c'))"
    if "r < k" "shape m' k k" for r m'
  proof -
    have "sv ! r < n" using sv that(1) nth_mem by fastforce
    have "\<exists>m''. for_range 0 k (\<lambda>c sub. do { v \<leftarrow> matrix_get e (sv ! r) c; matrix_set sub r c v }) m' = Some m''
        \<and> shape m'' k k \<and>
      (\<forall>r'<k. \<forall>c'<k. elt m'' r' c' = (if r' = r \<and> c' < k then elt e (sv ! r) c' else elt m' r' c'))"
      by (rule fill_row_loop [OF that(2,1) order_refl])
        (use e that \<open>sv ! r < n\<close> in \<open>auto simp: matrix_get_in matrix_set_in\<close>)
    then show ?thesis using sv that by (simp add: array_simps)
  qed
  have "\<exists>sub. for_range 0 k ?row (matrix_new k k) = Some sub \<and> shape sub k k \<and>
      (\<forall>r<k. \<forall>c<k. elt sub r c = (if r < k then elt e (sv ! r) c else elt (matrix_new k k) r c))"
    by (rule fill_rows_loop) (use row in \<open>auto split: if_splits\<close>)
  then show ?thesis unfolding sub_matrix_def sv(1) by auto
qed

lemma add_scaled_spec:
  assumes "length s = len" "length rebuilt = len"
  shows "add_scaled c s len rebuilt = Some (map (\<lambda>i. rebuilt ! i XOR gmul c (s ! i)) [0..<len])"
proof -
  have "add_scaled c s (length rebuilt) rebuilt
      = Some (map (\<lambda>i. rebuilt ! i XOR gmul c (s ! i)) [0..<length rebuilt])"
    unfolding add_scaled_def by (rule for_range_each_cell) (use assms in \<open>auto simp: array_simps\<close>)
  then show ?thesis using assms by simp
qed

lemma rebuild_shard_spec:
  assumes "length coeffs = length sv"
    and "\<And>j. j < length sv \<Longrightarrow> \<exists>s. shard_at shards (sv ! j) = Some s \<and> length s = len
      \<and> (\<forall>pos<len. GF (s ! pos) = val j pos)"
  shows "\<exists>b. rebuild_shard shards sv coeffs len = Some b \<and> length b = len \<and>
    (\<forall>pos<len. GF (b ! pos) = (\<Sum>j<length sv. GF (coeffs ! j) * val j pos))"
  unfolding rebuild_shard_def
proof (rule for_range_rule)
  let ?P = "\<lambda>i b. length b = len \<and> (\<forall>pos<len. GF (b ! pos) = (\<Sum>j<i. GF (coeffs ! j) * val j pos))"
  fix j b assume j: "j < length sv" and P: "?P j b"
  obtain s where s: "shard_at shards (sv ! j) = Some s" "length s = len" "\<forall>pos<len. GF (s ! pos) = val j pos"
    using assms(2) [OF j] by blast
  show "\<exists>s'. (do { si \<leftarrow> aget sv j; coeff \<leftarrow> aget coeffs j;
       if coeff = 0 then Some b else do { s \<leftarrow> shard_at shards si; add_scaled coeff s len b } }) = Some s'
      \<and> ?P (Suc j) s'"
  proof (cases "coeffs ! j = 0")
    case True
    then show ?thesis using P j assms(1) by (simp add: array_simps)
  next
    case False
    then show ?thesis using P j assms(1) s
      by (simp add: array_simps add_scaled_spec GF_simps)
  qed
qed auto

lemma survivors_props:
  assumes "sv = take k (filter (present shards) [0..<n])" "k \<le> length (filter (present shards) [0..<n])"
  shows "length sv = k" "set sv \<subseteq> {..<n}" "distinct sv" "i \<in> set sv \<Longrightarrow> present shards i"
  using assms by (auto dest: in_set_takeD simp: min_absorb2)

lemma present_iff: "present shards i \<longleftrightarrow> i < length shards \<and> (\<exists>s. shards ! i = Some s)"
  by (auto simp: present_def aget_def split: option.splits)

lemma shard_at_in: "i < length shards \<Longrightarrow> shard_at shards i = shards ! i"
  by (simp add: shard_at_def array_simps)

lemma rebuild_missing:
  assumes wf: "wf_rs rs" and cw: "codeword rs len w" and mi: "mi < rs_k rs + rs_m rs"
    and sv: "length sv = rs_k rs" "set sv \<subseteq> {..<rs_k rs + rs_m rs}"
    and inv: "shape iv (rs_k rs) (rs_k rs)" "inverse_of (rs_k rs) (\<lambda>r. elt (encode_matrix rs) (sv ! r)) (elt iv)"
    and sh: "\<And>i. i \<in> set sv \<Longrightarrow> shard_at shards i = Some (w ! i)"
  shows "(do { coeffs \<leftarrow> rebuild_coeffs (encode_matrix rs) (rs_k rs) iv mi;
      rebuild_shard shards sv coeffs len }) = Some (w ! mi)"
proof -
  let ?k = "rs_k rs" and ?e = "encode_matrix rs"
  let ?c = "\<lambda>j. \<Sum>t<?k. elt ?e mi t * elt iv t j"
  have she: "shape ?e (?k + rs_m rs) ?k" using wf by (simp add: wf_rs_def mds_def)
  have coeffs: "rebuild_coeffs ?e ?k iv mi = Some (map (\<lambda>j. byte_of (?c j)) [0..<?k])"
    unfolding rebuild_coeffs_def
    by (intro mapM_Some dot_spec) (use she inv(1) mi in \<open>auto simp: matrix_get_in\<close>)
  have lw: "length (w ! i) = len" if "i < ?k + rs_m rs" for i
    using cw that by (auto simp: codeword_def)
  have svi: "sv ! j < ?k + rs_m rs" "sv ! j \<in> set sv" if "j < ?k" for j
  proof -
    show "sv ! j \<in> set sv" using sv(1) that by simp
    then show "sv ! j < ?k + rs_m rs" using sv(2) by blast
  qed
  obtain b where b: "rebuild_shard shards sv (map (\<lambda>j. byte_of (?c j)) [0..<?k]) len = Some b" "length b = len"
      "\<forall>pos<len. GF (b ! pos) = (\<Sum>j<?k. ?c j * GF (w ! (sv ! j) ! pos))"
    using rebuild_shard_spec [of "map (\<lambda>j. byte_of (?c j)) [0..<?k]" sv shards len
        "\<lambda>j pos. GF (w ! (sv ! j) ! pos)"] sv(1) svi sh lw by auto
  have "GF (b ! pos) = GF (w ! mi ! pos)" if pos: "pos < len" for pos
  proof -
    have "(\<Sum>j<?k. ?c j * GF (w ! (sv ! j) ! pos))
        = (\<Sum>t<?k. \<Sum>j<?k. elt ?e mi t * (elt iv t j * GF (w ! (sv ! j) ! pos)))"
      by (subst sum.swap) (simp add: sum_distrib_right mult.assoc)
    also have "\<dots> = (\<Sum>t<?k. elt ?e mi t * (\<Sum>j<?k. elt iv t j * GF (w ! (sv ! j) ! pos)))"
      by (simp add: sum_distrib_left)
    also have "\<dots> = (\<Sum>t<?k. elt ?e mi t * GF (w ! t ! pos))"
    proof (rule sum.cong)
      fix t assume "t \<in> {..<?k}"
      then have "(\<Sum>j<?k. elt iv t j * GF (w ! (sv ! j) ! pos)) = GF (w ! t ! pos)"
        by (intro inverse_of_solve [OF inv(2)]) (use cw svi pos in \<open>auto simp: codeword_def\<close>)
      then show "elt ?e mi t * (\<Sum>j<?k. elt iv t j * GF (w ! (sv ! j) ! pos)) = elt ?e mi t * GF (w ! t ! pos)"
        by simp
    qed simp
    also have "\<dots> = GF (w ! mi ! pos)" using cw mi pos by (simp add: codeword_def)
    finally show ?thesis using b(3) pos by simp
  qed
  then have "b = w ! mi" using b(2) lw [OF mi] by (intro nth_equalityI) auto
  then show ?thesis using coeffs b(1) by simp
qed

lemma present_count:
  "length (filter (present shards) [0..<length shards]) = length (filter (\<lambda>s. s \<noteq> None) shards)"
proof -
  have "filter (present shards) [0..<length shards] = filter (\<lambda>i. shards ! i \<noteq> None) [0..<length shards]"
    by (rule filter_cong) (auto simp: present_iff)
  moreover have "filter (\<lambda>s. s \<noteq> None) shards = map ((!) shards) (filter (\<lambda>i. shards ! i \<noteq> None) [0..<length shards])"
    using filter_map [of "\<lambda>s. s \<noteq> None" "(!) shards" "[0..<length shards]"] map_nth [of shards]
    by (simp only: comp_def)
  ultimately show ?thesis by simp
qed

text \<open>
  The erasure patterns of a word: as many slots as shards, each holding its shard or nothing.
\<close>

definition erasure_of :: "bytes list \<Rightarrow> bytes option list \<Rightarrow> bool" where
  "erasure_of w shards \<longleftrightarrow> list_all2 (\<lambda>s slot. slot = None \<or> slot = Some s) w shards"

lemma erasure_of_nth:
  "erasure_of w shards \<Longrightarrow> i < length w \<Longrightarrow> shards ! i = None \<or> shards ! i = Some (w ! i)"
  by (auto simp: erasure_of_def list_all2_conv_all_nth)

lemma erasure_of_length: "erasure_of w shards \<Longrightarrow> length shards = length w"
  by (simp add: erasure_of_def list_all2_lengthD)

lemma rebuild_loop:
  assumes wf: "wf_rs rs" and cw: "codeword rs len w" and er: "erasure_of w shards"
    and sv: "length sv = rs_k rs" "set sv \<subseteq> {..<rs_k rs + rs_m rs}" "\<And>i. i \<in> set sv \<Longrightarrow> present shards i"
    and inv: "shape iv (rs_k rs) (rs_k rs)" "inverse_of (rs_k rs) (\<lambda>r. elt (encode_matrix rs) (sv ! r)) (elt iv)"
  shows "for_each (filter (\<lambda>i. \<not> present shards i) [0..<rs_k rs + rs_m rs]) (\<lambda>mi shards. do {
      coeffs \<leftarrow> rebuild_coeffs (encode_matrix rs) (rs_k rs) iv mi;
      rebuilt \<leftarrow> rebuild_shard shards sv coeffs len;
      aset shards mi (Some rebuilt) }) shards = Some (map Some w)"
proof -
  let ?n = "rs_k rs + rs_m rs"
  let ?miss = "filter (\<lambda>i. \<not> present shards i) [0..<?n]"
  let ?body = "\<lambda>mi shards. do { coeffs \<leftarrow> rebuild_coeffs (encode_matrix rs) (rs_k rs) iv mi;
      rebuilt \<leftarrow> rebuild_shard shards sv coeffs len; aset shards mi (Some rebuilt) }"
  let ?P = "\<lambda>ys sh. length sh = ?n \<and> (\<forall>i<?n. sh ! i = (if i \<in> set ys then Some (w ! i) else shards ! i))"
  have n: "length w = ?n" "length shards = ?n" using cw erasure_of_length [OF er] by (auto simp: codeword_def)
  have "\<exists>sh. for_each ?miss ?body shards = Some sh \<and> ?P ?miss sh"
  proof (rule for_each_rule [where P = ?P])
    fix ys mi sh assume ex: "\<exists>zs. ?miss = ys @ mi # zs" and P: "?P ys sh"
    then have "mi \<in> set ?miss" "set ys \<subseteq> set ?miss" by (auto simp del: set_filter)
    then have mi: "mi < ?n" and ys: "\<forall>i\<in>set ys. \<not> present shards i" by auto
    have sha: "shard_at sh i = Some (w ! i)" if "i \<in> set sv" for i
    proof -
      have "i < ?n" "present shards i" "i \<notin> set ys" using that sv(2,3) ys by auto
      then show ?thesis using P erasure_of_nth [OF er, of i] n by (auto simp: shard_at_in present_iff)
    qed
    have "?body mi sh = Some (sh[mi := Some (w ! mi)])"
      using rebuild_missing [OF wf cw mi sv(1,2) inv sha] P mi
      by (auto simp: array_simps bind_eq_Some_conv)
    moreover have "?P (ys @ [mi]) (sh[mi := Some (w ! mi)])" using P mi by (auto simp: nth_list_update)
    ultimately show "\<exists>s'. ?body mi sh = Some s' \<and> ?P (ys @ [mi]) s'" by blast
  qed (use n in auto)
  then obtain sh where sh: "for_each ?miss ?body shards = Some sh" "?P ?miss sh" by blast
  have "sh ! i = Some (w ! i)" if "i < ?n" for i
    using sh(2) that n erasure_of_nth [OF er, of i] by (auto simp: present_iff)
  then have "sh = map Some w" using sh(2) n by (intro nth_equalityI) auto
  then show ?thesis using sh(1) by simp
qed

lemma rs_reconstruct_spec:
  assumes wf: "wf_rs rs" and cw: "codeword rs len w" and er: "erasure_of w shards"
    and enough: "rs_k rs \<le> length (filter (\<lambda>s. s \<noteq> None) shards)"
  shows "rs_reconstruct rs shards = Some (Inr (map Some w))"
proof -
  let ?k = "rs_k rs" and ?n = "rs_k rs + rs_m rs" and ?e = "encode_matrix rs"
  have n: "length w = ?n" "length shards = ?n" using cw erasure_of_length [OF er] by (auto simp: codeword_def)
  have cnt: "length (filter (present shards) [0..<?n]) = length (filter (\<lambda>s. s \<noteq> None) shards)"
    using present_count [of shards] n(2) by simp
  define sv where "sv = take ?k (filter (present shards) [0..<?n])"
  note sv = survivors_props [OF sv_def enough [folded cnt]]
  have sha: "shard_at shards i = Some (w ! i)" "length (w ! i) = len" if "i \<in> set sv" for i
  proof -
    have i: "i < ?n" using that sv(2) by auto
    show "shard_at shards i = Some (w ! i)"
      using sv(4) [OF that] n i erasure_of_nth [OF er, of i] by (auto simp: shard_at_in present_iff)
    show "length (w ! i) = len" using cw i n by (simp add: codeword_def)
  qed
  have k1: "1 \<le> ?k" using wf by (simp add: wf_rs_def)
  then have s0: "sv ! 0 \<in> set sv" using sv(1) by simp
  have lens: "mapM (\<lambda>i. map_option length (shard_at shards i)) sv = Some (map (\<lambda>_. len) sv)"
    by (rule mapM_Some) (simp add: sha)
  have shape_e: "shape ?e ?n ?k" using wf by (simp add: wf_rs_def mds_def)
  obtain sub where sub: "sub_matrix ?e ?k sv = Some sub" "shape sub ?k ?k"
      "\<forall>r<?k. \<forall>c<?k. elt sub r c = elt ?e (sv ! r) c" using sub_matrix_spec [OF shape_e sv(1,2)] by blast
  have "inj_on ((!) sv) {..<?k}" using sv(1,3) by (simp add: inj_on_nth)
  moreover have "sv ! r \<in> {..<?n}" if "r < ?k" for r
    by (rule subsetD [OF sv(2) nth_mem]) (use sv(1) that in simp)
  then have "(!) sv ` {..<?k} \<subseteq> {..<?n}" by auto
  ultimately have "nonsingular ?k (\<lambda>r. elt ?e (sv ! r))" using wf by (simp add: wf_rs_def mds_def)
  then have "nonsingular ?k (elt sub)" using sub(3) by (simp add: nonsingular_def)
  then obtain iv where iv: "matrix_invert sub = Some (Some iv)" "shape iv ?k ?k" "inverse_of ?k (elt sub) (elt iv)"
    using matrix_invert_spec [OF sub(2)] by (auto split: option.splits)
  have inv: "inverse_of ?k (\<lambda>r. elt ?e (sv ! r)) (elt iv)" using iv(3) sub(3) by (simp add: inverse_of_def)
  have "aget sv 0 = Some (sv ! 0)" using sv(1) k1 by (simp add: array_simps)
  with rebuild_loop [OF wf cw er sv(1,2,4) iv(2) inv] show ?thesis
    using n(2) enough cnt lens sub(1) iv(1) sha [OF s0]
    by (simp add: rs_reconstruct_def Let_def list_ex_iff flip: sv_def)
qed

section \<open>The contract of an erasure code\<close>

text \<open>
  What the striping layer asks of a codec: a made codec encodes equal-length data shards, any pattern
  that keeps at least \<open>k\<close> shards is reconstructed to the whole word, and fewer are refused.
\<close>

locale erasure_code =
  fixes make :: "nat \<Rightarrow> nat \<Rightarrow> 'c option"
    and encode :: "'c \<Rightarrow> bytes list \<Rightarrow> bytes list option"
    and reconstruct :: "'c \<Rightarrow> bytes option list \<Rightarrow> (ec_error + bytes option list) option"
  assumes encode_total: "make k m = Some c \<Longrightarrow> length ds = k \<Longrightarrow> \<forall>d\<in>set ds. length d = len \<Longrightarrow>
      \<exists>ps. encode c ds = Some ps \<and> length ps = m \<and> (\<forall>p\<in>set ps. length p = len)"
    and reconstruct_enough: "make k m = Some c \<Longrightarrow> length ds = k \<Longrightarrow> \<forall>d\<in>set ds. length d = len \<Longrightarrow>
      encode c ds = Some ps \<Longrightarrow> erasure_of (ds @ ps) shards \<Longrightarrow>
      k \<le> length (filter (\<lambda>s. s \<noteq> None) shards) \<Longrightarrow> reconstruct c shards = Some (Inr (map Some (ds @ ps)))"
    and reconstruct_too_few: "make k m = Some c \<Longrightarrow> length shards = k + m \<Longrightarrow>
      length (filter (\<lambda>s. s \<noteq> None) shards) < k \<Longrightarrow> reconstruct c shards = Some (Inl TooFewShards)"
begin

text \<open>In terms of losses: up to \<open>m\<close> lost shards are rebuilt, more are reported.\<close>

lemma reconstruct_by_losses:
  assumes mk: "make k m = Some c" and ds: "length ds = k" "\<forall>d\<in>set ds. length d = len"
    and enc: "encode c ds = Some ps" and er: "erasure_of (ds @ ps) shards"
  shows "reconstruct c shards = (if length (filter (\<lambda>s. s = None) shards) \<le> m
    then Some (Inr (map Some (ds @ ps))) else Some (Inl TooFewShards))"
proof -
  have ps: "length ps = m" using encode_total [OF mk ds] enc by auto
  then have n: "length shards = k + m" using erasure_of_length [OF er] ds(1) by simp
  have "length (filter (\<lambda>s. s = None) shards) + length (filter (\<lambda>s. s \<noteq> None) shards) = k + m"
    using sum_length_filter_compl [of "\<lambda>s. s = None" shards] n by simp
  then show ?thesis
    using reconstruct_enough [OF mk ds enc er] reconstruct_too_few [OF mk n] by auto
qed

end

interpretation rs_code: erasure_code rs_new rs_encode rs_reconstruct
proof
  fix k m rs and ds :: "bytes list" and len
  assume mk: "rs_new k m = Some rs" and ds: "length ds = k" "\<forall>d\<in>set ds. length d = len"
  from rs_new_Some [OF mk] have wf: "wf_rs rs" "rs_k rs = k" "rs_m rs = m" by auto
  show "\<exists>ps. rs_encode rs ds = Some ps \<and> length ps = m \<and> (\<forall>p\<in>set ps. length p = len)"
    using rs_encode_spec [OF wf(1), of ds len] ds wf by (auto simp: codeword_def)
next
  fix k m rs and ds ps :: "bytes list" and len shards
  assume mk: "rs_new k m = Some rs" and ds: "length ds = k" "\<forall>d\<in>set ds. length d = len"
    and enc: "rs_encode rs ds = Some ps" and er: "erasure_of (ds @ ps) shards"
    and cnt: "k \<le> length (filter (\<lambda>s. s \<noteq> None) shards)"
  from rs_new_Some [OF mk] have wf: "wf_rs rs" "rs_k rs = k" by auto
  have "codeword rs len (ds @ ps)" using rs_encode_spec [OF wf(1), of ds len] ds wf enc by auto
  from rs_reconstruct_spec [OF wf(1) this er] cnt wf
  show "rs_reconstruct rs shards = Some (Inr (map Some (ds @ ps)))" by simp
next
  fix k m rs and shards :: "bytes option list"
  assume "rs_new k m = Some rs" "length shards = k + m" "length (filter (\<lambda>s. s \<noteq> None) shards) < k"
  then show "rs_reconstruct rs shards = Some (Inl TooFewShards)"
    using rs_new_Some [of k m rs] present_count [of shards] by (simp add: rs_reconstruct_def Let_def)
qed

section \<open>Properties\<close>

text \<open>
  C15. The encoding matrix is built without a panic for all \<open>k + m \<le> 255\<close>; its first \<open>k\<close> rows are the
  identity, and the submatrix of any \<open>k\<close> distinct rows, as \<open>reconstruct\<close> extracts it, is inverted by
  the code.
\<close>

theorem encoding_matrix_mds:
  assumes "k + m \<le> 255"
  shows "\<exists>e. vandermonde_systematic k m = Some e
    \<and> (\<forall>r<k. \<forall>c<k. matrix_get e r c = Some (if r = c then 1 else 0))
    \<and> (\<forall>sv. length sv = k \<and> distinct sv \<and> set sv \<subseteq> {..<k + m} \<longrightarrow>
         (\<exists>sub b. sub_matrix e k sv = Some sub \<and> matrix_invert sub = Some (Some b)))"
proof -
  obtain e where e: "vandermonde_systematic k m = Some e" "mds k m e"
    using vandermonde_systematic_spec [OF assms] by blast
  have sh: "shape e (k + m) k" using e(2) by (simp add: mds_def)
  have top: "matrix_get e r c = Some (if r = c then 1 else 0)" if "r < k" "c < k" for r c
    using e(2) matrix_get_in [OF sh, of r c] that by (auto simp: mds_def one_gf8_def simp del: GF_1)
  have inv: "\<exists>sub b. sub_matrix e k sv = Some sub \<and> matrix_invert sub = Some (Some b)"
    if sv: "length sv = k" "distinct sv" "set sv \<subseteq> {..<k + m}" for sv
  proof -
    obtain sub where sub: "sub_matrix e k sv = Some sub" "shape sub k k"
        "\<forall>r<k. \<forall>c<k. elt sub r c = elt e (sv ! r) c" using sub_matrix_spec [OF sh sv(1,3)] by blast
    have "(!) sv ` {..<k} \<subseteq> {..<k + m}" using sv by (force simp: subset_iff)
    then have "nonsingular k (\<lambda>r. elt e (sv ! r))"
      using e(2) inj_on_nth [OF sv(2), of "{..<k}"] sv(1) by (simp add: mds_def)
    then have "nonsingular k (elt sub)" using sub(3) by (simp add: nonsingular_def)
    then show ?thesis using sub(1) matrix_invert_spec [OF sub(2)] by (auto split: option.splits)
  qed
  show ?thesis using e(1) top inv by blast
qed

theorem encoding_matrix_mds_witness:
  "\<exists>e sub b. vandermonde_systematic 4 3 = Some e \<and> matrix_get e 2 2 = Some 1
     \<and> sub_matrix e 4 [2, 4, 5, 6] = Some sub \<and> matrix_invert sub = Some (Some b)"
proof -
  obtain e where e: "vandermonde_systematic 4 3 = Some e"
      "\<forall>r<4. \<forall>c<4. matrix_get e r c = Some (if r = c then 1 else 0)"
      "\<forall>sv. length sv = 4 \<and> distinct sv \<and> set sv \<subseteq> {..<4 + 3} \<longrightarrow>
         (\<exists>sub b. sub_matrix e 4 sv = Some sub \<and> matrix_invert sub = Some (Some b))"
    using encoding_matrix_mds [of 4 3] by auto
  have "\<exists>sub b. sub_matrix e 4 [2, 4, 5, 6] = Some sub \<and> matrix_invert sub = Some (Some b)"
    by (rule e(3) [rule_format]) auto
  moreover have "matrix_get e 2 2 = Some 1" using e(2) [rule_format, of 2 2] by simp
  ultimately show ?thesis using e(1) by blast
qed

text \<open>
  C3. Erasure coding is exact for every code: for all \<open>k, m \<ge> 1\<close> with \<open>k + m \<le> 255\<close> and all data
  shards of one length, the codec is built and encodes without a panic, and every pattern of lost
  shards is either rebuilt to exactly the original shards (at most \<open>m\<close> lost) or refused with
  \<open>TooFewShards\<close> (more lost): never a wrong answer.
\<close>

theorem rs_erasures_exact:
  assumes "1 \<le> k" "1 \<le> m" "k + m \<le> 255" "length ds = k" "\<forall>d\<in>set ds. length d = len"
  shows "\<exists>rs ps. rs_new k m = Some rs \<and> rs_encode rs ds = Some ps \<and> length ps = m
    \<and> (\<forall>shards. erasure_of (ds @ ps) shards \<longrightarrow>
         rs_reconstruct rs shards = (if length (filter (\<lambda>s. s = None) shards) \<le> m
           then Some (Inr (map Some (ds @ ps))) else Some (Inl TooFewShards)))"
proof -
  obtain rs where rs: "rs_new k m = Some rs" using rs_new_spec [OF assms(1-3)] by blast
  obtain ps where ps: "rs_encode rs ds = Some ps" "length ps = m"
    using rs_code.encode_total [OF rs assms(4,5)] by blast
  show ?thesis using rs ps rs_code.reconstruct_by_losses [OF rs assms(4,5) ps(1)] by blast
qed

theorem rs_erasures_exact_witness:
  "\<exists>rs p. rs_new 2 1 = Some rs \<and> rs_encode rs [[1, 2], [3, 4]] = Some [p]
     \<and> rs_reconstruct rs [None, Some [3, 4], Some p] = Some (Inr [Some [1, 2], Some [3, 4], Some p])
     \<and> rs_reconstruct rs [None, None, Some p] = Some (Inl TooFewShards)"
proof -
  obtain rs ps where r: "rs_new 2 1 = Some rs" "rs_encode rs [[1, 2], [3, 4]] = Some ps" "length ps = 1"
      "\<forall>shards. erasure_of ([[1, 2], [3, 4]] @ ps) shards \<longrightarrow>
         rs_reconstruct rs shards = (if length (filter (\<lambda>s. s = None) shards) \<le> 1
           then Some (Inr (map Some ([[1, 2], [3, 4]] @ ps))) else Some (Inl TooFewShards))"
    using rs_erasures_exact [of 2 1 "[[1, 2], [3, 4]]" 2] by auto
  then obtain p where p: "ps = [p]" by (cases ps) auto
  show ?thesis
    using r(1,2) r(4) [rule_format, of "[None, Some [3, 4], Some p]"] r(4) [rule_format, of "[None, None, Some p]"] p
    by (auto simp: erasure_of_def)
qed

end
