(* ===== verification/Crc32c.thy ===== *)
theory Crc32c
  imports Prelude
begin

text \<open>
  The checksum of \<^verbatim>\<open>csrc/block.c\<close>: CRC-32C with the reflected polynomial \<open>0x82F63B78\<close>, eight lookup
  tables and an update loop that consumes eight bytes at a time. The reference is the bit-serial
  register. The tables and the sliced loop are shown to compute the reference, and the register is
  shown injective, which is what the corruption lemmas of the block layer rest on.
\<close>

section \<open>The code\<close>

definition SV_CRC32C_POLY :: u32 where
  "SV_CRC32C_POLY = 0x82F63B78"

definition crc_bit :: "u32 \<Rightarrow> u32" where
  "crc_bit r = drop_bit 1 r XOR (SV_CRC32C_POLY AND (0 - (r AND 1)))"

text \<open>\<open>sv_crc32c_ensure_tables\<close>: the first table bit by bit, the other seven each from the one before.\<close>

definition crc_table0 :: "u32 list" where
  "crc_table0 = map (\<lambda>b. (crc_bit ^^ 8) (of_nat b)) [0..<256]"

definition crc_next_table :: "u32 list \<Rightarrow> u32 list" where
  "crc_next_table t = map (\<lambda>b. let r = t ! b in drop_bit 8 r XOR crc_table0 ! unat (r AND 0xff)) [0..<256]"

definition sv_crc_tables :: "u32 list list" where
  "sv_crc_tables = map (\<lambda>k. (crc_next_table ^^ k) crc_table0) [0..<8]"

definition crc_slice8 :: "u32 \<Rightarrow> bytes \<Rightarrow> u32" where
  "crc_slice8 crc buf = (let tbl = sv_crc_tables; w = (from_le buf :: u64); c = (ucast crc :: u64) XOR w in
     tbl ! 7 ! unat (c AND 0xff) XOR
     tbl ! 6 ! unat (drop_bit 8 c AND 0xff) XOR
     tbl ! 5 ! unat (drop_bit 16 c AND 0xff) XOR
     tbl ! 4 ! unat (drop_bit 24 c AND 0xff) XOR
     tbl ! 3 ! unat (drop_bit 32 c AND 0xff) XOR
     tbl ! 2 ! unat (drop_bit 40 c AND 0xff) XOR
     tbl ! 1 ! unat (drop_bit 48 c AND 0xff) XOR
     tbl ! 0 ! unat (drop_bit 56 c AND 0xff))"

definition crc_byte :: "u32 \<Rightarrow> u8 \<Rightarrow> u32" where
  "crc_byte crc b = sv_crc_tables ! 0 ! unat ((crc XOR ucast b) AND 0xff) XOR drop_bit 8 crc"

function sv_crc32c_update :: "u32 \<Rightarrow> bytes \<Rightarrow> u32" where
  "sv_crc32c_update crc buf =
     (if length buf \<ge> 8 then sv_crc32c_update (crc_slice8 crc (take 8 buf)) (drop 8 buf)
      else foldl crc_byte crc buf)"
  by pat_completeness auto
termination
  by (relation "measure (\<lambda>(crc, buf). length buf)") auto

declare sv_crc32c_update.simps [simp del]

definition sv_crc32c :: "bytes \<Rightarrow> u32" where
  "sv_crc32c buf = NOT (sv_crc32c_update (NOT 0) buf)"

section \<open>The bit-serial reference\<close>

definition crc_ref_byte :: "u32 \<Rightarrow> u8 \<Rightarrow> u32" where
  "crc_ref_byte crc b = (crc_bit ^^ 8) (crc XOR ucast b)"

definition crc_ref :: "u32 \<Rightarrow> bytes \<Rightarrow> u32" where
  "crc_ref crc buf = foldl crc_ref_byte crc buf"

text \<open>One step of the register, bit by bit.\<close>

lemma bit_u8D: "bit (x::u8) n \<Longrightarrow> n < 8"
  using bit_imp_le_length [of x n] by simp

lemma bit_u32D: "bit (x::u32) n \<Longrightarrow> n < 32"
  using bit_imp_le_length [of x n] by simp

lemma crc_bit_cases: "crc_bit r = (if odd r then drop_bit 1 r XOR SV_CRC32C_POLY else drop_bit 1 r)"
proof (cases "odd r")
  case True
  then have "r AND 1 = 1" by (simp add: and_one_eq odd_iff_mod_2_eq_one)
  then show ?thesis using True by (simp add: crc_bit_def)
next
  case False
  then have "r AND 1 = 0" by (simp add: and_one_eq even_iff_mod_2_eq_zero)
  then show ?thesis using False by (simp add: crc_bit_def)
qed

lemma crc_bit_xor: "crc_bit (a XOR b) = crc_bit a XOR crc_bit b"
proof -
  have "odd (a XOR b) \<longleftrightarrow> odd a \<noteq> odd b" by (simp add: even_xor_iff)
  then show ?thesis by (auto simp: crc_bit_cases drop_bit_xor ac_simps)
qed

lemma crc_bit_0 [simp]: "crc_bit 0 = 0"
  by (simp add: crc_bit_def)

definition crc8 :: "u32 \<Rightarrow> u32" where
  "crc8 = crc_bit ^^ 8"

lemma crc_bit_pow_xor: "(crc_bit ^^ n) (a XOR b) = (crc_bit ^^ n) a XOR (crc_bit ^^ n) b"
  by (induction n) (simp_all add: crc_bit_xor)

lemma crc8_xor: "crc8 (a XOR b) = crc8 a XOR crc8 b"
  by (simp only: crc8_def crc_bit_pow_xor)

lemma crc8_0 [simp]: "crc8 0 = 0"
  using crc8_xor [of 0 0] by simp

lemma crc8_pow_xor: "(crc8 ^^ n) (a XOR b) = (crc8 ^^ n) a XOR (crc8 ^^ n) b"
  by (induction n) (simp_all add: crc8_xor)

text \<open>Low zero bits are shifted out.\<close>

lemma crc_bit_push: "(crc_bit ^^ n) r = drop_bit n r" if "\<And>i. i < n \<Longrightarrow> \<not> bit r i"
  using that
proof (induction n arbitrary: r)
  case (Suc n)
  have "even r" using Suc.prems [of 0] by (simp add: bit_0)
  then have "crc_bit r = drop_bit 1 r" by (simp add: crc_bit_cases)
  moreover have "(crc_bit ^^ n) (drop_bit 1 r) = drop_bit n (drop_bit 1 r)"
    by (rule Suc.IH) (use Suc.prems in \<open>simp add: bit_simps\<close>)
  ultimately show ?case by (simp only: funpow_Suc_right comp_def drop_bit_drop_bit) simp
qed simp

lemma crc_bit_inj: "crc_bit a = crc_bit b \<Longrightarrow> a = b"
proof -
  have ker: "r = 0" if z: "crc_bit r = 0" for r
  proof (cases "odd r")
    case True
    then have "drop_bit 1 r = SV_CRC32C_POLY" using z by (simp add: crc_bit_cases) (metis xor_cancel_left xor.right_neutral)
    then have "bit (drop_bit 1 r) 31 = bit SV_CRC32C_POLY 31" by simp
    moreover have "bit SV_CRC32C_POLY 31" by code_simp
    moreover have "\<not> bit (drop_bit 1 r) 31" by (auto simp: bit_simps dest: bit_u8D bit_u32D)
    ultimately show ?thesis by simp
  next
    case False
    then have d: "drop_bit 1 r = 0" using z by (simp add: crc_bit_cases)
    have "\<not> bit r (Suc i)" for i using arg_cong [OF d, of "\<lambda>w. bit w i"] by (simp add: bit_drop_bit_eq plus_1_eq_Suc del: One_nat_def)
    moreover have "\<not> bit r 0" using False by (simp add: bit_0)
    ultimately have "\<not> bit r i" for i by (cases i) auto
    then show ?thesis by (simp add: bit_eq_iff)
  qed
  assume "crc_bit a = crc_bit b"
  then have "crc_bit (a XOR b) = 0" by (simp add: crc_bit_xor)
  then have "a XOR b = 0" by (rule ker)
  then show "a = b" by (metis xor_cancel_left xor.right_neutral)
qed

lemma crc8_inj: "crc8 a = crc8 b \<Longrightarrow> a = b"
proof -
  have "(crc_bit ^^ n) a = (crc_bit ^^ n) b \<Longrightarrow> a = b" for n
    by (induction n) (auto dest: crc_bit_inj)
  then show "crc8 a = crc8 b \<Longrightarrow> a = b" unfolding crc8_def .
qed

section \<open>The tables compute the reference\<close>

lemma unat_and_ff: "unat ((x::'a::len word) AND 0xff) = unat (ucast x :: u8)"
proof -
  have "x AND 0xff = x AND mask 8" by (simp add: mask_eq_exp_minus_1)
  then have "x AND 0xff = take_bit 8 x" by (simp add: take_bit_eq_mask)
  then show ?thesis by (simp add: unsigned_ucast_eq unsigned_take_bit_eq)
qed

lemma ucast_and_ff: "(ucast (ucast r :: u8) :: u32) = r AND 0xff"
proof -
  have "r AND 0xff = r AND mask 8" by (simp add: mask_eq_exp_minus_1)
  then show ?thesis by (auto intro!: bit_eqI simp: bit_simps)
qed

lemma crc8_small_high: "crc8 r = crc8 (ucast (ucast r :: u8)) XOR drop_bit 8 r"
proof -
  let ?h = "push_bit 8 (drop_bit 8 r)"
  have split: "r = ucast (ucast r :: u8) XOR ?h" by (auto intro!: bit_eqI simp: bit_simps)
  have "crc8 ?h = drop_bit 8 ?h"
    unfolding crc8_def by (rule crc_bit_push) (simp add: bit_simps)
  also have "\<dots> = drop_bit 8 r" by (auto intro!: bit_eqI simp: bit_simps) (drule bit_u32D, simp)
  finally show ?thesis using crc8_xor [of "ucast (ucast r :: u8)" ?h] split by metis
qed

lemma table0_nth: "crc_table0 ! unat (x::u8) = crc8 (ucast x)"
  using unat_byte [of x] by (simp add: crc_table0_def crc8_def unsigned_of_nat)

lemma next_table_nth: "crc_next_table t ! unat (x::u8) = crc8 (t ! unat x)"
  using unat_byte [of x] crc8_small_high [of "t ! unat x"]
  by (simp add: crc_next_table_def Let_def unat_and_ff table0_nth xor.commute)

lemma tables_nth: "k < 8 \<Longrightarrow> sv_crc_tables ! k ! unat (x::u8) = (crc8 ^^ Suc k) (ucast x)"
proof -
  have "(crc_next_table ^^ k) crc_table0 ! unat x = (crc8 ^^ Suc k) (ucast x)"
    by (induction k) (simp_all add: next_table_nth table0_nth)
  then show "k < 8 \<Longrightarrow> ?thesis" by (simp add: sv_crc_tables_def)
qed

lemma crc_byte_ref: "crc_byte crc b = crc_ref_byte crc b"
proof -
  have "drop_bit 8 (crc XOR ucast b) = drop_bit 8 crc" by (auto intro!: bit_eqI simp: bit_simps dest: bit_u8D bit_u32D)
  then show ?thesis using crc8_small_high [of "crc XOR ucast b"] tables_nth [of 0]
    by (simp add: crc_byte_def crc_ref_byte_def unat_and_ff crc8_def)
qed

text \<open>Eight byte steps of the register, unrolled by linearity.\<close>

lemma crc_bytes_split:
  "(r::u32) = ucast (ucast r :: u8) XOR (push_bit 8 (ucast (ucast (drop_bit 8 r) :: u8)) XOR
     (push_bit 16 (ucast (ucast (drop_bit 16 r) :: u8)) XOR push_bit 24 (ucast (ucast (drop_bit 24 r) :: u8))))"
  by (auto intro!: bit_eqI simp: bit_simps dest: bit_u8D bit_u32D)

lemma crc8_pow_push: "8 * n \<le> 24 \<Longrightarrow> (crc8 ^^ (m + n)) (push_bit (8 * n) (ucast (x::u8))) = (crc8 ^^ m) (ucast x)"
proof -
  assume n: "8 * n \<le> 24"
  have "crc8 ^^ n = crc_bit ^^ (8 * n)" by (simp add: crc8_def funpow_mult)
  moreover have "(crc_bit ^^ (8 * n)) (push_bit (8 * n) (ucast x)) = drop_bit (8 * n) (push_bit (8 * n) (ucast x))"
    by (rule crc_bit_push) (simp add: bit_simps)
  moreover have "drop_bit (8 * n) (push_bit (8 * n) (ucast x :: u32)) = ucast x"
    using n by (auto intro!: bit_eqI simp: bit_simps) (drule bit_u8D, simp)
  ultimately show ?thesis by (simp add: funpow_add)
qed

lemma crc8_pow8_split:
  "(crc8 ^^ 8) r = (crc8 ^^ 8) (ucast (ucast r :: u8)) XOR ((crc8 ^^ 7) (ucast (ucast (drop_bit 8 r) :: u8)) XOR
     ((crc8 ^^ 6) (ucast (ucast (drop_bit 16 r) :: u8)) XOR (crc8 ^^ 5) (ucast (ucast (drop_bit 24 r) :: u8))))"
proof -
  have p: "(crc8 ^^ 8) (push_bit 8 (ucast x)) = (crc8 ^^ 7) (ucast x)"
      "(crc8 ^^ 8) (push_bit 16 (ucast x)) = (crc8 ^^ 6) (ucast x)"
      "(crc8 ^^ 8) (push_bit 24 (ucast x)) = (crc8 ^^ 5) (ucast x)" for x :: u8
    using crc8_pow_push [of 1 7 x] crc8_pow_push [of 2 6 x] crc8_pow_push [of 3 5 x]
    by simp_all
  show ?thesis
    by (subst (1) crc_bytes_split [of r]) (simp only: crc8_pow_xor p)
qed


text \<open>One round of the sliced loop is eight steps of the register.\<close>

lemma crc_slice8_ref:
  assumes "length buf = 8"
  shows "crc_slice8 crc buf = crc_ref crc buf"
proof -
  from assms obtain b0 b1 b2 b3 b4 b5 b6 b7 where buf: "buf = [b0, b1, b2, b3, b4, b5, b6, b7]"
    by (auto simp: numeral_eq_Suc length_Suc_conv)
  let ?c = "(ucast crc :: u64) XOR from_le buf"
  have byte: "(ucast (drop_bit (8 * k) ?c) :: u8) = ucast (drop_bit (8 * k) crc) XOR buf ! k" if "k < 8" for k
    using that assms from_le_byte [of k buf, where ?'a = 64]
    by (auto intro!: bit_eqI simp: bit_simps bit_from_le)
  have high: "(ucast (drop_bit (8 * k) crc) :: u8) = 0" if "4 \<le> k" for k
    using that by (auto intro!: bit_eqI simp: bit_simps dest!: bit_u32D)
  have nths: "buf ! 0 = b0" "buf ! 1 = b1" "buf ! Suc 0 = b1" "buf ! 2 = b2" "buf ! 3 = b3" "buf ! 4 = b4" "buf ! 5 = b5" "buf ! 6 = b6" "buf ! 7 = b7"
    by (simp_all add: buf)
  have bs: "(ucast ?c :: u8) = ucast crc XOR b0" "(ucast (drop_bit 8 ?c) :: u8) = ucast (drop_bit 8 crc) XOR b1"
      "(ucast (drop_bit 16 ?c) :: u8) = ucast (drop_bit 16 crc) XOR b2" "(ucast (drop_bit 24 ?c) :: u8) = ucast (drop_bit 24 crc) XOR b3"
      "(ucast (drop_bit 32 ?c) :: u8) = b4" "(ucast (drop_bit 40 ?c) :: u8) = b5"
      "(ucast (drop_bit 48 ?c) :: u8) = b6" "(ucast (drop_bit 56 ?c) :: u8) = b7"
    using byte [of 0] byte [of 1] byte [of 2] byte [of 3] byte [of 4] byte [of 5] byte [of 6] byte [of 7]
      high [of 4] high [of 5] high [of 6] high [of 7] by (simp_all add: nths)
  have "crc_slice8 crc buf = (crc8 ^^ 8) (ucast (ucast crc XOR b0)) XOR
      ((crc8 ^^ 7) (ucast (ucast (drop_bit 8 crc) XOR b1)) XOR
      ((crc8 ^^ 6) (ucast (ucast (drop_bit 16 crc) XOR b2)) XOR
      ((crc8 ^^ 5) (ucast (ucast (drop_bit 24 crc) XOR b3)) XOR
      ((crc8 ^^ 4) (ucast b4) XOR ((crc8 ^^ 3) (ucast b5) XOR ((crc8 ^^ 2) (ucast b6) XOR crc8 (ucast b7)))))))"
    unfolding crc_slice8_def Let_def unat_and_ff bs
    using tables_nth [of 7] tables_nth [of 6] tables_nth [of 5] tables_nth [of 4] tables_nth [of 3]
      tables_nth [of 2] tables_nth [of 1] tables_nth [of 0] by (simp add: eval_nat_numeral xor.assoc)
  also have "\<dots> = (crc8 ^^ 8) crc XOR ((crc8 ^^ 8) (ucast b0) XOR ((crc8 ^^ 7) (ucast b1) XOR
      ((crc8 ^^ 6) (ucast b2) XOR ((crc8 ^^ 5) (ucast b3) XOR
      ((crc8 ^^ 4) (ucast b4) XOR ((crc8 ^^ 3) (ucast b5) XOR ((crc8 ^^ 2) (ucast b6) XOR crc8 (ucast b7))))))))"
    unfolding crc8_pow8_split [of crc] unsigned_xor_eq crc8_pow_xor by (simp only: xor.assoc xor.left_commute xor.commute)
  also have "\<dots> = crc_ref crc buf"
    unfolding buf crc_ref_def crc_ref_byte_def crc8_def [symmetric]
    by (simp add: eval_nat_numeral crc8_xor xor.assoc)
  finally show ?thesis .
qed

theorem sv_crc32c_update_ref: "sv_crc32c_update crc buf = crc_ref crc buf"
proof (induction crc buf rule: sv_crc32c_update.induct)
  case (1 crc buf)
  show ?case
  proof (cases "length buf \<ge> 8")
    case True
    then have "sv_crc32c_update crc buf = crc_ref (crc_ref crc (take 8 buf)) (drop 8 buf)"
      using 1 by (subst sv_crc32c_update.simps) (simp add: crc_slice8_ref)
    also have "\<dots> = crc_ref crc (take 8 buf @ drop 8 buf)" by (simp only: crc_ref_def foldl_append)
    finally show ?thesis by simp
  next
    case False
    then show ?thesis by (subst sv_crc32c_update.simps) (simp add: crc_ref_def crc_byte_ref cong: foldl_cong)
  qed
qed

text \<open>The register is a bijection of its state and separates bytes, so one changed byte changes the result.\<close>

lemma crc_ref_append: "crc_ref crc (xs @ ys) = crc_ref (crc_ref crc xs) ys"
  by (simp add: crc_ref_def)

lemma crc_ref_inj: "crc_ref a xs = crc_ref b xs \<Longrightarrow> a = b"
proof (induction xs arbitrary: a b)
  case (Cons x xs)
  then have "crc_ref (crc_ref_byte a x) xs = crc_ref (crc_ref_byte b x) xs" by (simp add: crc_ref_def)
  from Cons.IH [OF this] have "crc8 (a XOR ucast x) = crc8 (b XOR ucast x)" by (simp add: crc_ref_byte_def crc8_def)
  from crc8_inj [OF this] show ?case by (metis xor.commute xor_cancel_left)
qed (simp add: crc_ref_def)

lemma crc_ref_short:
  "length bs \<le> 4 \<Longrightarrow> crc_ref crc bs = (crc8 ^^ length bs) (crc XOR from_le bs)"
proof (induction bs arbitrary: crc)
  case Nil
  then show ?case by (simp add: crc_ref_def)
next
  case (Cons b bs)
  let ?p = "push_bit 8 (from_le bs :: u32)"
  have "crc8 ?p = drop_bit 8 ?p" unfolding crc8_def by (rule crc_bit_push) (simp add: bit_simps)
  also have "\<dots> = from_le bs" using Cons.prems by (auto intro!: bit_eqI simp: bit_simps bit_from_le)
  finally have push: "crc8 ?p = from_le bs" .
  have or_xor: "(from_le (b # bs) :: u32) = ucast b XOR ?p"
  proof -
    have "\<not> bit b n" if "8 \<le> n" for n using that bit_u8D [of b n] by auto
    then show ?thesis by (intro bit_eqI) (simp add: bit_simps, blast)
  qed
  have "crc_ref crc (b # bs) = crc_ref (crc8 (crc XOR ucast b)) bs" by (simp add: crc_ref_def crc_ref_byte_def crc8_def)
  also have "\<dots> = (crc8 ^^ length bs) (crc8 (crc XOR ucast b) XOR crc8 ?p)" using Cons push by simp
  also have "\<dots> = (crc8 ^^ length (b # bs)) (crc XOR from_le (b # bs))"
    unfolding or_xor by (simp only: funpow_Suc_right list.size comp_def crc8_xor xor.assoc length_Cons One_nat_def add_Suc_right add_0_right)
  finally show ?case .
qed

lemma crc8_pow_inj: "(crc8 ^^ n) a = (crc8 ^^ n) b \<Longrightarrow> a = b"
  by (induction n) (auto dest: crc8_inj)

text \<open>A burst: at most four consecutive bytes are replaced by others.\<close>

lemma crc_ref_burst:
  assumes "length xs = length ys" "length ys \<le> 4" "xs \<noteq> ys"
  shows "crc_ref crc (as @ xs @ bs) \<noteq> crc_ref crc (as @ ys @ bs)"
proof
  let ?c = "crc_ref crc as"
  assume "crc_ref crc (as @ xs @ bs) = crc_ref crc (as @ ys @ bs)"
  then have "crc_ref ?c xs = crc_ref ?c ys" by (auto simp: crc_ref_append dest: crc_ref_inj)
  then have "?c XOR from_le xs = ?c XOR from_le ys" using assms by (auto simp: crc_ref_short dest: crc8_pow_inj)
  then have "(from_le xs :: u32) = from_le ys" by (metis xor_cancel_left)
  then have "xs = ys" using assms from_le_inj [of xs ys, where ?'a = 32] by simp
  then show False using assms by simp
qed

section \<open>Evaluation\<close>

text \<open>The register on integers, for evaluating checksums of concrete buffers.\<close>

definition icrc :: "int \<Rightarrow> int" where
  "icrc k = (if even k then k div 2 else (k div 2) XOR 0x82F63B78)"

fun icrcs :: "int \<Rightarrow> int list \<Rightarrow> int" where
  "icrcs c [] = c"
| "icrcs c (b # bs) = icrcs (icrc (icrc (icrc (icrc (icrc (icrc (icrc (icrc (c XOR b))))))))) bs"

lemma uint_crc_bit: "uint (crc_bit r) = icrc (uint r)"
proof -
  have "uint (drop_bit 1 r) = uint r div 2"
    using uint_div_distrib [of r 2] by (simp add: drop_bit_eq_div)
  moreover have "even r \<longleftrightarrow> even (uint r)"
    using bit_uint_iff [of r 0] by (simp add: bit_0)
  ultimately show ?thesis by (simp add: crc_bit_cases icrc_def unsigned_xor_eq SV_CRC32C_POLY_def)
qed

lemma uint_crc_ref: "uint (crc_ref c bs) = icrcs (uint c) (map uint bs)"
proof (induction bs arbitrary: c)
  case (Cons b bs)
  have u: "uint (ucast b :: u32) = uint b"
    using unsigned_less [of b, where ?'a = int] by (simp add: unsigned_ucast_eq take_bit_int_eq_self)
  have "(crc_bit ^^ 8) x = crc_bit (crc_bit (crc_bit (crc_bit (crc_bit (crc_bit (crc_bit (crc_bit x)))))))" for x
    by (simp add: eval_nat_numeral)
  then have "uint (crc_ref_byte c b) = icrcs (uint c) [uint b]"
    by (simp add: crc_ref_byte_def uint_crc_bit unsigned_xor_eq u)
  then show ?case using Cons [of "crc_ref_byte c b"] by (simp add: crc_ref_def)
qed (simp add: crc_ref_def)

section \<open>Properties\<close>

text \<open>
  C18. The table-driven, eight-bytes-at-a-time checksum of the C code equals the bit-serial CRC-32C
  on every buffer and from every register state: the register preset to ones, shifted once per
  message bit with the reflected polynomial, and inverted at the end.\<close>

theorem crc32c_slicing_correct:
  "sv_crc32c_update crc buf = crc_ref crc buf \<and> sv_crc32c buf = NOT (crc_ref (NOT 0) buf)"
  by (simp add: sv_crc32c_def sv_crc32c_update_ref)

text \<open>
  The checksum detects every error burst of up to 32 bits that is aligned to bytes: replacing at
  most four consecutive bytes of a buffer by other bytes changes the checksum of the buffer.\<close>

theorem crc32c_detects_bursts:
  assumes "length xs = length ys" and "length ys \<le> 4" and "xs \<noteq> ys"
  shows "sv_crc32c (as @ xs @ bs) \<noteq> sv_crc32c (as @ ys @ bs)"
  using crc_ref_burst [OF assms] by (simp add: sv_crc32c_def sv_crc32c_update_ref)

theorem crc32c_detects_bursts_witness:
  "sv_crc32c ([1] @ [2, 3] @ [4, 5]) \<noteq> sv_crc32c ([1] @ [2, 7] @ [4, 5])"
  by (rule crc32c_detects_bursts) simp_all

end
