(* ===== verification/Block.thy ===== *)
theory Block
  imports Crc32c
begin

text \<open>
  The block layer: \<^verbatim>\<open>csrc/block.c\<close> (a 4096-byte block with a 24-byte header, a payload of at most
  4072 bytes and a CRC-32C) and its safe wrapper in \<^verbatim>\<open>crates/shardvault-core/src/ffi.rs\<close>. A C pointer
  is an option whose \<open>None\<close> is \<open>NULL\<close>; a C function that fills memory returns its status code and the new
  contents of that memory. The locale \<open>block_layer\<close> is what the write-ahead log and the shard
  files rely on.
\<close>

section \<open>Layout constants and the error types\<close>

definition SV_BLOCK_SIZE :: nat where "SV_BLOCK_SIZE = 4096"
definition SV_BLOCK_HEADER_SIZE :: nat where "SV_BLOCK_HEADER_SIZE = 24"
definition SV_BLOCK_PAYLOAD_MAX :: nat where "SV_BLOCK_PAYLOAD_MAX = SV_BLOCK_SIZE - SV_BLOCK_HEADER_SIZE"

definition SV_OK :: int where "SV_OK = 0"
definition SV_ERR_INVAL :: int where "SV_ERR_INVAL = - 1"
definition SV_ERR_CRC :: int where "SV_ERR_CRC = - 2"
definition SV_ERR_LEN :: int where "SV_ERR_LEN = - 3"

lemmas sv_consts = SV_BLOCK_SIZE_def SV_BLOCK_HEADER_SIZE_def SV_BLOCK_PAYLOAD_MAX_def
  SV_OK_def SV_ERR_INVAL_def SV_ERR_CRC_def SV_ERR_LEN_def

datatype BlockError = Invalid | Crc | Len | Other int

text \<open>The error type of the store (\<^verbatim>\<open>error.rs\<close>); of an operating-system error only its kind is kept.\<close>

datatype ErrorKind = NotFound | WriteZero | OtherKind

datatype StoreError = Io ErrorKind | Corrupt string | RecordTooLarge

section \<open>The C functions\<close>

text \<open>\<open>memcpy(out + i, xs, ..)\<close> on a region that is large enough.\<close>

definition write_at :: "nat \<Rightarrow> 'a list \<Rightarrow> 'a list \<Rightarrow> 'a list" where
  "write_at i xs mem = take i mem @ xs @ drop (i + length xs) mem"

definition sv_get_u64le :: "bytes \<Rightarrow> nat \<Rightarrow> u64" where
  "sv_get_u64le p i = from_le (take 8 (drop i p))"

definition sv_get_u32le :: "bytes \<Rightarrow> nat \<Rightarrow> u32" where
  "sv_get_u32le p i = from_le (take 4 (drop i p))"

definition sv_put_u64le :: "nat \<Rightarrow> u64 \<Rightarrow> bytes \<Rightarrow> bytes" where
  "sv_put_u64le i v p = write_at i (to_le 8 v) p"

definition sv_put_u32le :: "nat \<Rightarrow> u32 \<Rightarrow> bytes \<Rightarrow> bytes" where
  "sv_put_u32le i v p = write_at i (to_le 4 v) p"

definition sv_block_checksum :: "bytes \<Rightarrow> u32 \<Rightarrow> u32" where
  "sv_block_checksum blk len =
    (let crc = NOT 0;
         crc = sv_crc32c_update crc (take 12 blk);
         crc = sv_crc32c_update crc (replicate 4 0);
         crc = sv_crc32c_update crc (take 8 (drop 16 blk));
         crc = sv_crc32c_update crc (take (unat len) (drop SV_BLOCK_HEADER_SIZE blk))
     in NOT crc)"

definition sv_block_encode :: "bytes option \<Rightarrow> u64 \<Rightarrow> bytes option \<Rightarrow> u32 \<Rightarrow> u8 \<Rightarrow> int \<times> bytes option" where
  "sv_block_encode out lsn payload len flags =
    (if out = None \<or> payload = None \<and> len \<noteq> 0 then (SV_ERR_INVAL, out)
     else if unat len > SV_BLOCK_PAYLOAD_MAX then (SV_ERR_LEN, out)
     else let out = replicate SV_BLOCK_SIZE 0;
              out = sv_put_u64le 0 lsn out;
              out = sv_put_u32le 8 len out;
              out = out[16 := flags];
              out = (case payload of
                       Some p \<Rightarrow> if len > 0 then write_at SV_BLOCK_HEADER_SIZE (take (unat len) p) out else out
                     | None \<Rightarrow> out);
              out = sv_put_u32le 12 (sv_block_checksum out len) out
          in (SV_OK, Some out))"

record sv_block =
  svb_lsn :: u64
  svb_payload_len :: u32
  svb_flags :: u8
  svb_payload :: bytes

definition sv_block_zero :: sv_block where
  "sv_block_zero = \<lparr>svb_lsn = 0, svb_payload_len = 0, svb_flags = 0, svb_payload = replicate SV_BLOCK_PAYLOAD_MAX 0\<rparr>"

definition sv_block_decode :: "bytes option \<Rightarrow> sv_block option \<Rightarrow> int \<times> sv_block option" where
  "sv_block_decode inp out = (case (inp, out) of
     (Some inp, Some out) \<Rightarrow>
       (let len = sv_get_u32le inp 8 in
        if unat len > SV_BLOCK_PAYLOAD_MAX then (SV_ERR_LEN, Some sv_block_zero)
        else if sv_block_checksum inp len \<noteq> sv_get_u32le inp 12 then (SV_ERR_CRC, Some sv_block_zero)
        else (SV_OK, Some (out\<lparr>svb_lsn := sv_get_u64le inp 0, svb_payload_len := len, svb_flags := inp ! 16,
               svb_payload := write_at 0 (take (unat len) (drop SV_BLOCK_HEADER_SIZE inp)) (svb_payload out)\<rparr>)))
   | _ \<Rightarrow> (SV_ERR_INVAL, out))"

section \<open>The safe wrapper\<close>

record block =
  blk_lsn :: u64
  blk_flags :: u8
  blk_payload :: bytes

definition rc_to_result :: "int \<Rightarrow> BlockError + unit" where
  "rc_to_result rc =
    (if rc = SV_OK then Inr () else if rc = SV_ERR_INVAL then Inl Invalid else if rc = SV_ERR_CRC then Inl Crc
     else if rc = SV_ERR_LEN then Inl Len else Inl (Other rc))"

definition crc32c :: "bytes \<Rightarrow> u32" where
  "crc32c buf = sv_crc32c buf"

definition encode :: "u64 \<Rightarrow> bytes \<Rightarrow> u8 \<Rightarrow> BlockError + bytes" where
  "encode lsn payload flags =
    (if length payload > SV_BLOCK_PAYLOAD_MAX then Inl Len
     else let out = replicate SV_BLOCK_SIZE 0;
              (rc, out') = sv_block_encode (Some out) lsn (Some payload) (of_nat (length payload)) flags
          in case rc_to_result rc of Inl e \<Rightarrow> Inl e | Inr _ \<Rightarrow> Inr (case out' of Some o' \<Rightarrow> o' | None \<Rightarrow> out))"

text \<open>
  \<open>decode\<close> passes a \<open>MaybeUninit\<close> struct to C. Its memory holds bytes the program never wrote, so the
  function is modelled over arbitrary initial contents \<open>raw\<close>; \<open>decode\<close> itself takes zeros, and
  \<open>decode_from_any\<close> shows that the choice does not matter.
\<close>

definition decode_from :: "sv_block \<Rightarrow> bytes \<Rightarrow> BlockError + block" where
  "decode_from raw blk =
    (let (rc, out) = sv_block_decode (Some blk) (Some raw) in
     case rc_to_result rc of
       Inl e \<Rightarrow> Inl e
     | Inr _ \<Rightarrow> (let raw = (case out of Some r \<Rightarrow> r | None \<Rightarrow> raw) in
         Inr \<lparr>blk_lsn = svb_lsn raw, blk_flags = svb_flags raw,
              blk_payload = take (unat (svb_payload_len raw)) (svb_payload raw)\<rparr>))"

definition decode :: "bytes \<Rightarrow> BlockError + block" where
  "decode blk = decode_from sv_block_zero blk"

section \<open>The layout of an encoded block\<close>

lemma write_at_append: "length a = i \<Longrightarrow> length x = length y \<Longrightarrow> write_at i x (a @ y @ c) = a @ x @ c"
  by (simp add: write_at_def)

definition covered :: "bytes \<Rightarrow> nat \<Rightarrow> bytes" where
  "covered blk n = take 12 blk @ replicate 4 0 @ take 8 (drop 16 blk) @ take n (drop 24 blk)"

lemma checksum_covered: "sv_block_checksum blk len = NOT (crc_ref (NOT 0) (covered blk (unat len)))"
  by (simp add: sv_block_checksum_def sv_crc32c_update_ref covered_def crc_ref_append SV_BLOCK_HEADER_SIZE_def Let_def)

definition block_image :: "u64 \<Rightarrow> bytes \<Rightarrow> u8 \<Rightarrow> u32 \<Rightarrow> bytes" where
  "block_image lsn p flags crc = to_le 8 lsn @ to_le 4 (of_nat (length p) :: u32) @ to_le 4 crc @
     [flags] @ replicate 7 0 @ p @ replicate (4072 - length p) 0"

lemma length_block_image [simp]: "length p \<le> 4072 \<Longrightarrow> length (block_image lsn p flags crc) = 4096"
  by (simp add: block_image_def)

lemma covered_image:
  "length p \<le> 4072 \<Longrightarrow> covered (block_image lsn p flags crc) (length p) =
     to_le 8 lsn @ to_le 4 (of_nat (length p) :: u32) @ replicate 4 0 @ [flags] @ replicate 7 0 @ p"
  by (simp add: covered_def block_image_def)

lemma unat_payload_len: "length p \<le> 4072 \<Longrightarrow> unat (of_nat (length p) :: u32) = length p"
  by (simp add: unat_of_nat)

definition image_crc :: "u64 \<Rightarrow> bytes \<Rightarrow> u8 \<Rightarrow> u32" where
  "image_crc lsn p flags = NOT (crc_ref (NOT 0)
     (to_le 8 lsn @ to_le 4 (of_nat (length p) :: u32) @ replicate 4 0 @ [flags] @ replicate 7 0 @ p))"

lemma checksum_image:
  "length p \<le> 4072 \<Longrightarrow> sv_block_checksum (block_image lsn p flags crc) (of_nat (length p)) = image_crc lsn p flags"
  by (simp add: checksum_covered unat_payload_len covered_image image_crc_def)

lemma zero_block_split: "n \<le> 4072 \<Longrightarrow> replicate 4096 (0::u8) =
    replicate 8 0 @ replicate 4 0 @ replicate 4 0 @ [0] @ replicate 7 0 @ replicate n 0 @ replicate (4072 - n) 0"
  by (rule nth_equalityI) (simp_all add: nth_append nth_Cons split: nat.split)

lemma sv_block_encode_ok:
  assumes "length p \<le> 4072"
  shows "sv_block_encode (Some out) lsn (Some p) (of_nat (length p)) flags =
    (SV_OK, Some (block_image lsn p flags (image_crc lsn p flags)))"
proof -
  let ?n = "of_nat (length p) :: u32"
  have un: "unat ?n = length p" using assms by (rule unat_payload_len)
  have n0: "0 < ?n \<longleftrightarrow> p \<noteq> []" using un by (metis length_greater_0_conv unat_gt_0 word_neq_0_conv)
  have 1: "sv_put_u32le 8 ?n (sv_put_u64le 0 lsn (replicate 4096 0)) =
      to_le 8 lsn @ to_le 4 ?n @ replicate 4 0 @ [0] @ replicate 7 0 @ replicate (length p) 0 @ replicate (4072 - length p) 0"
    unfolding zero_block_split [OF assms] sv_put_u32le_def sv_put_u64le_def
    using write_at_append [of "[]" 0 "to_le 8 lsn" "replicate 8 0"] write_at_append [of "to_le 8 lsn" 8 "to_le 4 ?n" "replicate 4 0"]
    by (simp only: append_Nil list.size length_to_le length_replicate refl simp_thms)
  have 2: "(to_le 8 lsn @ to_le 4 ?n @ replicate 4 0 @ [0] @ r)[16 := flags] =
      (to_le 8 lsn @ to_le 4 ?n @ replicate 4 0) @ [flags] @ r" for r :: bytes
    by (simp add: list_update_append)
  have 3: "write_at 24 p ((to_le 8 lsn @ to_le 4 ?n @ replicate 4 0) @ [flags] @ replicate 7 0 @ replicate (length p) 0 @ r) =
      to_le 8 lsn @ to_le 4 ?n @ replicate 4 0 @ [flags] @ replicate 7 0 @ p @ r" for r :: bytes
    using write_at_append [of "to_le 8 lsn @ to_le 4 ?n @ replicate 4 0 @ [flags] @ replicate 7 0" 24 p "replicate (length p) 0" r]
    by simp
  have 4: "to_le 8 lsn @ to_le 4 ?n @ replicate 4 0 @ [flags] @ replicate 7 0 @ p @ replicate (4072 - length p) 0 =
      block_image lsn p flags 0"
    by (simp add: block_image_def numeral_eq_Suc)
  have 5: "sv_put_u32le 12 crc (block_image lsn p flags 0) = block_image lsn p flags crc" for crc
    using write_at_append [of "to_le 8 lsn @ to_le 4 ?n" 12 "to_le 4 crc" "to_le 4 (0::u32)"]
    by (simp add: block_image_def sv_put_u32le_def)
  let ?x = "(sv_put_u32le 8 ?n (sv_put_u64le 0 lsn (replicate 4096 0)))[16 := flags]"
  have body: "write_at 24 p ?x = block_image lsn p flags 0" and empty: "p = [] \<Longrightarrow> ?x = block_image lsn p flags 0"
    unfolding 1 2 using 3 4 by (simp_all only: list.size replicate_0 append_Nil append_assoc)
  have "(if 0 < ?n then write_at 24 (take (unat ?n) p) ?x else ?x) = block_image lsn p flags 0"
    using body empty n0 un by simp
  then show ?thesis
    using assms unfolding sv_block_encode_def Let_def sv_consts option.case
    by (simp only: un checksum_image [OF assms] 5) simp
qed

lemma encode_eq:
  "encode lsn p flags = (if length p > 4072 then Inl Len else Inr (block_image lsn p flags (image_crc lsn p flags)))"
  by (simp add: encode_def sv_block_encode_ok rc_to_result_def Let_def)
     (simp add: sv_consts)

lemma get_u32le_image: "length p \<le> 4072 \<Longrightarrow> sv_get_u32le (block_image lsn p flags crc) 8 = of_nat (length p)"
  "length p \<le> 4072 \<Longrightarrow> sv_get_u32le (block_image lsn p flags crc) 12 = crc"
  by (simp_all add: sv_get_u32le_def block_image_def from_to_le)

lemma get_u64le_image: "sv_get_u64le (block_image lsn p flags crc) 0 = lsn"
  by (simp add: sv_get_u64le_def block_image_def from_to_le)

text \<open>What \<open>decode\<close> does, in terms of the bytes of the block alone.\<close>

lemma decode_from_eq:
  "decode_from raw blk =
    (let len = unat (sv_get_u32le blk 8) in
     if len > 4072 then Inl Len
     else if sv_block_checksum blk (sv_get_u32le blk 8) \<noteq> sv_get_u32le blk 12 then Inl Crc
     else Inr \<lparr>blk_lsn = sv_get_u64le blk 0, blk_flags = blk ! 16, blk_payload = take len (drop 24 blk)\<rparr>)"
  if "length blk = 4096"
  using that by (simp add: decode_from_def sv_block_decode_def rc_to_result_def sv_consts Let_def write_at_def)

lemma decode_eq:
  "length blk = 4096 \<Longrightarrow> decode blk =
    (let len = unat (sv_get_u32le blk 8) in
     if len > 4072 then Inl Len
     else if NOT (crc_ref (NOT 0) (covered blk len)) \<noteq> sv_get_u32le blk 12 then Inl Crc
     else Inr \<lparr>blk_lsn = sv_get_u64le blk 0, blk_flags = blk ! 16, blk_payload = take len (drop 24 blk)\<rparr>)"
  by (simp add: decode_def decode_from_eq checksum_covered Let_def)

lemma decode_image:
  assumes "length p \<le> 4072"
  shows "decode (block_image lsn p flags (image_crc lsn p flags)) = Inr \<lparr>blk_lsn = lsn, blk_flags = flags, blk_payload = p\<rparr>"
  using assms
  by (simp add: decode_def decode_from_eq get_u32le_image get_u64le_image checksum_image unat_payload_len)
     (simp add: block_image_def nth_append)

section \<open>The interface of the block layer\<close>

text \<open>
  What a client may assume: blocks have one size, and what was encoded is decoded again. A file that
  is a concatenation of encoded blocks is then read back block by block, and a tail that is not a
  valid block ends the reading.
\<close>

definition next_block :: "(bytes \<Rightarrow> 'e + 'b) \<Rightarrow> nat \<Rightarrow> bytes \<Rightarrow> ('b \<times> bytes) option" where
  "next_block dec n file =
    (if length file < n then None
     else case dec (take n file) of Inl e \<Rightarrow> None | Inr b \<Rightarrow> Some (b, drop n file))"

locale block_layer =
  fixes enc :: "u64 \<Rightarrow> bytes \<Rightarrow> u8 \<Rightarrow> 'e + bytes"
    and dec :: "bytes \<Rightarrow> 'e + block"
    and size :: nat
    and cap :: nat
  assumes enc_size: "enc lsn p f = Inr blk \<Longrightarrow> length blk = size"
    and enc_total: "length p \<le> cap \<Longrightarrow> \<exists>blk. enc lsn p f = Inr blk"
    and enc_cap: "enc lsn p f = Inr blk \<Longrightarrow> length p \<le> cap"
    and dec_enc: "enc lsn p f = Inr blk \<Longrightarrow> dec blk = Inr \<lparr>blk_lsn = lsn, blk_flags = f, blk_payload = p\<rparr>"
    and size_pos: "0 < size"
begin

lemma next_block_enc:
  "enc lsn p f = Inr blk \<Longrightarrow> next_block dec size (blk @ rest) = Some (\<lparr>blk_lsn = lsn, blk_flags = f, blk_payload = p\<rparr>, rest)"
  using enc_size [of lsn p f blk] dec_enc [of lsn p f blk] by (simp add: next_block_def)

lemma next_block_short: "length file < size \<Longrightarrow> next_block dec size file = None"
  by (simp add: next_block_def)

lemma next_block_torn: "0 < length tail \<Longrightarrow> length tail < size \<Longrightarrow> next_block dec size tail = None"
  by (simp add: next_block_def)

lemma enc_inj: "enc l p f = Inr blk \<Longrightarrow> enc l' p' f' = Inr blk \<Longrightarrow> l = l' \<and> p = p' \<and> f = f'"
  using dec_enc [of l p f blk] dec_enc [of l' p' f' blk] by simp

end

interpretation c_blocks: block_layer encode decode SV_BLOCK_SIZE SV_BLOCK_PAYLOAD_MAX
  by unfold_locales (auto simp: encode_eq decode_image sv_consts split: if_splits)

section \<open>Corruption\<close>

text \<open>
  A burst of at most four bytes anywhere in the bytes under the checksum (the header without the
  length field, or the payload), or inside the checksum field, is reported.
\<close>

definition guarded_burst :: "nat \<Rightarrow> nat \<Rightarrow> nat \<Rightarrow> bool" where
  "guarded_burst n i k \<longleftrightarrow> k \<le> 4 \<and> (i + k \<le> 8 \<or> 12 \<le> i \<and> i + k \<le> 16 \<or> 16 \<le> i \<and> i + k \<le> 24 + n)"

lemma length_write_at [simp]: "i + length xs \<le> length mem \<Longrightarrow> length (write_at i xs mem) = length mem"
  by (simp add: write_at_def)

lemma write_at_nth:
  "i + length xs \<le> length mem \<Longrightarrow> j < length mem \<Longrightarrow>
    write_at i xs mem ! j = (if i \<le> j \<and> j < i + length xs then xs ! (j - i) else mem ! j)"
  by (auto simp: write_at_def nth_append min_def)

lemma slice_write_at_other:
  assumes "i + length xs \<le> length mem" "a + n \<le> length mem" "a + n \<le> i \<or> i + length xs \<le> a"
  shows "take n (drop a (write_at i xs mem)) = take n (drop a mem)"
  using assms by (intro nth_equalityI) (auto simp: write_at_nth)

lemma slice_write_at_inside:
  assumes "i + length xs \<le> length mem" "a \<le> i" "i + length xs \<le> a + n" "a + n \<le> length mem"
  shows "take n (drop a (write_at i xs mem)) = write_at (i - a) xs (take n (drop a mem))"
  using assms by (intro nth_equalityI) (simp_all add: write_at_nth, auto intro!: arg_cong [of _ _ "(!) xs"])

lemma covered_alt:
  "24 + n \<le> length blk \<Longrightarrow> covered blk n = write_at 12 (replicate 4 0) (take (24 + n) blk)"
  using take_add [of 8 n "drop 16 blk"] by (simp add: covered_def write_at_def drop_take)

lemma write_at_commute:
  assumes "i + length xs \<le> length mem" "j + length ys \<le> length mem" "i + length xs \<le> j \<or> j + length ys \<le> i"
  shows "write_at i xs (write_at j ys mem) = write_at j ys (write_at i xs mem)"
  using assms by (auto intro!: nth_equalityI simp: write_at_nth)

lemma crc_ref_write_at:
  assumes "i + length ys \<le> length msg" "length ys \<le> 4" "take (length ys) (drop i msg) \<noteq> ys"
  shows "crc_ref crc (write_at i ys msg) \<noteq> crc_ref crc msg"
proof -
  have "msg = take i msg @ take (length ys) (drop i msg) @ drop (i + length ys) msg"
    by (metis add.commute append_take_drop_id drop_drop)
  then show ?thesis
    using crc_ref_burst [of ys "take (length ys) (drop i msg)" crc "take i msg" "drop (i + length ys) msg"] assms
    by (simp add: write_at_def)
qed

lemma covered_write_at:
  assumes "length blk = 4096" "n \<le> 4072" "i + k \<le> 8 \<or> 16 \<le> i \<and> i + k \<le> 24 + n" "k = length ys"
  shows "covered (write_at i ys blk) n = write_at i ys (covered blk n)"
    and "take k (drop i (covered blk n)) = take k (drop i blk)"
proof -
  have "covered (write_at i ys blk) n = write_at 12 (replicate 4 0) (take (24 + n) (write_at i ys blk))"
    using assms by (intro covered_alt) auto
  also have "take (24 + n) (write_at i ys blk) = write_at i ys (take (24 + n) blk)"
    using slice_write_at_inside [of i ys blk 0 "24 + n"] assms by auto
  also have "write_at 12 (replicate 4 0) \<dots> = write_at i ys (write_at 12 (replicate 4 0) (take (24 + n) blk))"
    using assms by (intro write_at_commute) auto
  finally show "covered (write_at i ys blk) n = write_at i ys (covered blk n)"
    using assms by (simp add: covered_alt)
  show "take k (drop i (covered blk n)) = take k (drop i blk)"
    using assms by (subst covered_alt) (auto simp: slice_write_at_other drop_take min_def)
qed

lemma decode_burst:
  assumes blk: "length blk = 4096" "decode blk = Inr b" and n: "n = unat (sv_get_u32le blk 8)"
    and burst: "guarded_burst n i (length ys)" "take (length ys) (drop i blk) \<noteq> ys"
  shows "decode (write_at i ys blk) = Inl Crc"
proof -
  let ?bad = "write_at i ys blk"
  have n4072: "n \<le> 4072" and crc: "NOT (crc_ref (NOT 0) (covered blk n)) = sv_get_u32le blk 12"
    using blk unfolding n by (auto simp: decode_eq Let_def split: if_splits)
  have fits: "i + length ys \<le> 4096" using burst n4072 by (auto simp: guarded_burst_def)
  have len: "sv_get_u32le ?bad 8 = sv_get_u32le blk 8"
    unfolding sv_get_u32le_def using burst fits blk
    by (subst slice_write_at_other) (auto simp: guarded_burst_def)
  have "NOT (crc_ref (NOT 0) (covered ?bad n)) \<noteq> sv_get_u32le ?bad 12"
  proof (cases "12 \<le> i \<and> i + length ys \<le> 16")
    case True
    have "covered ?bad n = covered blk n"
      unfolding covered_def using True fits blk n4072 slice_write_at_other [of i ys blk 0 12]
      by (auto simp: slice_write_at_other)
    moreover have "take 4 (drop 12 ?bad) \<noteq> take 4 (drop 12 blk)"
    proof
      assume eq: "take 4 (drop 12 ?bad) = take 4 (drop 12 blk)"
      have "take (length ys) (drop i m) = take (length ys) (drop (i - 12) (take 4 (drop 12 m)))" for m :: bytes
        using True by (auto simp: drop_take)
      then have "take (length ys) (drop i ?bad) = take (length ys) (drop i blk)" using eq by metis
      moreover have "take (length ys) (drop i ?bad) = ys" using fits blk by (simp add: write_at_def)
      ultimately show False using burst by simp
    qed
    then have "sv_get_u32le ?bad 12 \<noteq> sv_get_u32le blk 12"
      unfolding sv_get_u32le_def using from_le_inj [of "take 4 (drop 12 ?bad)" "take 4 (drop 12 blk)", where ?'a = 32] blk fits
      by auto
    ultimately show ?thesis using crc by simp
  next
    case False
    then have pos: "i + length ys \<le> 8 \<or> 16 \<le> i \<and> i + length ys \<le> 24 + n" and k: "length ys \<le> 4"
      using burst by (auto simp: guarded_burst_def)
    have "sv_get_u32le ?bad 12 = sv_get_u32le blk 12"
      unfolding sv_get_u32le_def using pos fits blk by (subst slice_write_at_other) auto
    moreover have "crc_ref (NOT 0) (covered ?bad n) \<noteq> crc_ref (NOT 0) (covered blk n)"
      using covered_write_at [OF blk(1) n4072 pos refl] crc_ref_write_at [of i ys "covered blk n"] pos k burst blk n4072
      by (auto simp: covered_def)
    ultimately show ?thesis using crc by (metis bit.double_compl)
  qed
  then show ?thesis using fits blk n4072 len n by (simp add: decode_eq Let_def)
qed

lemma decode_ignores_padding:
  assumes "encode lsn p flags = Inr blk" and "24 + length p \<le> i" and "i + length ys \<le> SV_BLOCK_SIZE"
  shows "decode (write_at i ys blk) = decode blk"
proof -
  have p: "length p \<le> 4072" and blk: "blk = block_image lsn p flags (image_crc lsn p flags)"
    using assms(1) by (auto simp: encode_eq split: if_splits)
  let ?bad = "write_at i ys blk"
  have l: "length blk = 4096" and n: "unat (sv_get_u32le blk 8) = length p"
    using p by (simp_all add: blk get_u32le_image unat_payload_len)
  have same: "take k (drop a ?bad) = take k (drop a blk)" if "a + k \<le> 24 + length p" for a k
    using that assms l by (intro slice_write_at_other) (auto simp: sv_consts)
  have "covered ?bad (length p) = covered blk (length p)"
    using same [of 0 12] by (simp add: covered_def same)
  moreover have "?bad ! 16 = blk ! 16" using assms l by (simp add: write_at_nth sv_consts)
  moreover have "sv_get_u32le ?bad a = sv_get_u32le blk a" if "a \<le> 20" for a
    using that by (simp add: sv_get_u32le_def same)
  moreover have "sv_get_u64le ?bad 0 = sv_get_u64le blk 0"
    using same [of 0 8] by (simp add: sv_get_u64le_def)
  ultimately show ?thesis using l n assms by (simp add: decode_eq Let_def sv_consts same)
qed

section \<open>Properties\<close>

text \<open>
  C25. The block codec is a bijection on what it accepts: a payload of at most 4072 bytes encodes to
  exactly 4096 bytes, and decoding these returns the same LSN, flags and payload, whatever the
  uninitialised output struct held before; a longer payload is refused with \<open>Len\<close>.\<close>

theorem block_roundtrip:
  "if length p \<le> SV_BLOCK_PAYLOAD_MAX
   then (\<exists>blk. encode lsn p flags = Inr blk \<and> length blk = SV_BLOCK_SIZE \<and>
           (\<forall>raw. decode_from raw blk = Inr \<lparr>blk_lsn = lsn, blk_flags = flags, blk_payload = p\<rparr>))
   else encode lsn p flags = Inl Len"
proof (cases "length p \<le> 4072")
  case True
  then have "encode lsn p flags = Inr (block_image lsn p flags (image_crc lsn p flags))" by (simp add: encode_eq)
  moreover have "decode_from raw b = decode b" if "length b = 4096" for raw b
    using that by (simp add: decode_from_eq decode_def)
  ultimately show ?thesis using True by (auto simp: sv_consts decode_image)
qed (simp add: encode_eq sv_consts)

text \<open>
  C19. Corruption is reported: if at most four consecutive bytes of a valid block are replaced by others,
  within the header outside the length field or within the payload, decoding fails with \<open>Crc\<close>.\<close>

theorem block_corruption_detected:
  assumes "encode lsn p flags = Inr blk"
    and "guarded_burst (length p) i (length ys)"
    and "take (length ys) (drop i blk) \<noteq> ys"
  shows "decode (write_at i ys blk) = Inl Crc"
proof -
  have "length p \<le> 4072" and blk: "blk = block_image lsn p flags (image_crc lsn p flags)"
    using assms(1) by (auto simp: encode_eq split: if_splits)
  then show ?thesis
    using decode_burst [OF _ _ _ assms(2,3)] by (auto simp: decode_image get_u32le_image unat_payload_len)
qed

theorem block_corruption_detected_witness:
  "\<exists>blk. encode 7 [1, 2, 3] 9 = Inr blk \<and> decode (write_at 24 [blk ! 24 + 1] blk) = Inl Crc"
proof -
  obtain blk where e: "encode 7 [1, 2, 3] 9 = Inr blk" and l: "length blk = 4096"
    by (auto simp: encode_eq)
  have "take 1 (drop 24 blk) = [blk ! 24]" using l by (simp add: take_Suc_conv_app_nth)
  then have "take 1 (drop 24 blk) \<noteq> [blk ! 24 + 1]" by simp
  then show ?thesis using e block_corruption_detected [OF e, of 24 "[blk ! 24 + 1]"] by (auto simp: guarded_burst_def)
qed

text \<open>
  \<open>decode\<close> depends on the header and the payload only: bytes of a block beyond its payload can be
  changed arbitrarily without any effect on the result.\<close>

theorem block_padding_unchecked:
  assumes "encode lsn p flags = Inr blk" and "24 + length p \<le> i" and "i + length ys \<le> SV_BLOCK_SIZE"
  shows "decode (write_at i ys blk) = decode blk"
  by (rule decode_ignores_padding [OF assms])

theorem block_padding_unchecked_witness:
  "\<exists>blk. encode 7 [1, 2, 3] 9 = Inr blk \<and> decode (write_at 4095 [255] blk) = decode blk"
proof -
  obtain blk where e: "encode 7 [1, 2, 3] 9 = Inr blk" by (auto simp: encode_eq)
  then show ?thesis using block_padding_unchecked [OF e, of 4095 "[255]"] by (simp add: sv_consts)
qed

text \<open>
  C27. A flipped bit of the length field can go unnoticed. The length decides which bytes the checksum
  covers, and for the block with LSN 1, flags 0 and payload \<open>F2 34 06 FD 01\<close> clearing the lowest bit of
  the length field gives a block that decodes without error to the first four bytes of the payload.\<close>

theorem block_length_flip_undetected:
  "\<exists>blk. encode 1 [242, 52, 6, 253, 1] 0 = Inr blk \<and> blk ! 8 = 5 \<and>
    decode (write_at 8 [4] blk) = Inr \<lparr>blk_lsn = 1, blk_flags = 0, blk_payload = [242, 52, 6, 253]\<rparr>"
proof -
  let ?p = "[242, 52, 6, 253] :: bytes"
  let ?blk = "block_image 1 (?p @ [1]) 0 (image_crc 1 (?p @ [1]) 0)"
  have le: "to_le 4 (5::u32) = [5, 0, 0, 0]" "to_le 4 (4::u32) = [4, 0, 0, 0]" "to_le 8 (1::u64) = [1, 0, 0, 0, 0, 0, 0, 0]"
    by code_simp+
  have reps: "replicate 4 (0::u8) = [0, 0, 0, 0]" "replicate 7 (0::u8) = [0, 0, 0, 0, 0, 0, 0]" by code_simp+
  have u0: "uint (NOT 0 :: u32) = 4294967295" by (simp add: unsigned_minus_1_eq_mask mask_eq_exp_minus_1)
  have crc4: "uint (crc_ref (NOT 0) (to_le 8 (1::u64) @ to_le 4 (4::u32) @ replicate 4 0 @ [0] @ replicate 7 0 @ ?p)) = 633154985"
    and crc5: "uint (crc_ref (NOT 0) (to_le 8 (1::u64) @ to_le 4 (5::u32) @ replicate 4 0 @ [0] @ replicate 7 0 @ ?p @ [1])) = 633154985"
    unfolding uint_crc_ref le reps u0 by (simp_all add: icrc_def)
  have n: "(of_nat (length ?p) :: u32) = 4" "(of_nat (length (?p @ [1])) :: u32) = 5" by simp_all
  have crc: "image_crc 1 (?p @ [1]) 0 = image_crc 1 ?p 0"
    unfolding image_crc_def n by (rule arg_cong, rule unsigned_word_eqI [where ?'a = int]) (simp only: crc4 crc5)
  let ?c = "image_crc 1 ?p 0"
  have z: "replicate 4068 (0::u8) = 0 # replicate 4067 0" by (simp flip: replicate_Suc)
  have e: "encode 1 ?p 0 = Inr (block_image 1 ?p 0 ?c)" "encode 1 (?p @ [1]) 0 = Inr ?blk" by (simp_all add: encode_eq)
  have "write_at 8 [4] (block_image 1 (?p @ [1]) 0 ?c) =
      to_le 8 (1::u64) @ to_le 4 (4::u32) @ to_le 4 ?c @ [0] @ replicate 7 0 @ ?p @ [1] @ replicate 4067 0"
    using write_at_append [of "to_le 8 (1::u64)" 8 "[4]" "[5]"] by (simp add: block_image_def le)
  also have "\<dots> = write_at 28 [1] (block_image 1 ?p 0 ?c)"
    using write_at_append [of "to_le 8 (1::u64) @ to_le 4 (4::u32) @ to_le 4 ?c @ [0] @ replicate 7 0 @ ?p" 28 "[1]" "[0]" "replicate 4067 0"]
    by (simp add: block_image_def z)
  finally have "write_at 8 [4] ?blk = write_at 28 [1] (block_image 1 ?p 0 ?c)" using crc by simp
  then have "decode (write_at 8 [4] ?blk) = decode (block_image 1 ?p 0 ?c)"
    using decode_ignores_padding [OF e(1), of 28 "[1]"] by (simp add: sv_consts)
  moreover have "?blk ! 8 = 5" by (simp add: block_image_def nth_append le)
  ultimately show ?thesis using e(2) decode_image [of ?p 1 0] by simp
qed

end
