(* ===== verification/Rollup.thy ===== *)
theory Rollup
  imports Prelude
begin

text \<open>
  The per-prefix aggregates of \<^verbatim>\<open>crates/shardvault-core/src/rollup.rs\<close>. A key is a slash-separated
  path, held as its UTF-8 bytes; a \<open>HashMap\<close> is an association list with distinct keys, read with
  \<open>map_of\<close> and written with \<open>AList.update\<close>. The specification is a recount of all objects.
\<close>

section \<open>The code\<close>

type_synonym str = bytes

definition slash :: u8 where "slash = 0x2F"

fun split_on :: "'a \<Rightarrow> 'a list \<Rightarrow> 'a list list" where
  "split_on c [] = [[]]"
| "split_on c (x # xs) = (if x = c then [] # split_on c xs
     else (case split_on c xs of [] \<Rightarrow> [[x]] | h # t \<Rightarrow> (x # h) # t))"

text \<open>\<open>s.split('/').filter(|s| !s.is_empty()).collect()\<close>\<close>

definition path_segments :: "str \<Rightarrow> str list" where
  "path_segments s = filter (\<lambda>p. p \<noteq> []) (split_on slash s)"

definition prefixes_of :: "str \<Rightarrow> str list" where
  "prefixes_of key =
    (let parts = path_segments key in
     snd (fold (\<lambda>(i, part) (prefix, out).
            let prefix = (if i > 0 then prefix @ [slash] else prefix);
                prefix = prefix @ part
            in (prefix, if i + 1 < length parts then out @ [prefix] else out))
          (enumerate 0 parts) ([], [[]])))"

record Aggregate =
  object_count :: u64
  byte_count :: u64

definition Aggregate_default :: Aggregate where
  "Aggregate_default = \<lparr>object_count = 0, byte_count = 0\<rparr>"

record AggDeltaEntry =
  delta_prefix :: str
  object_count_delta :: u64
  byte_count_delta :: u64

record Rollup =
  aggregates :: "(str \<times> Aggregate) list"
  sizes :: "(str \<times> u64) list"

definition Rollup_default :: Rollup where
  "Rollup_default = \<lparr>aggregates = [], sizes = []\<rparr>"

definition put_deltas :: "u64 option \<Rightarrow> u64 \<Rightarrow> u64 \<times> u64" where
  "put_deltas old len = (case old of Some old_len \<Rightarrow> (0, len - old_len) | None \<Rightarrow> (1, len))"

definition bump :: "u64 \<Rightarrow> u64 \<Rightarrow> str \<Rightarrow> (str \<times> Aggregate) list \<Rightarrow> (str \<times> Aggregate) list" where
  "bump dobj dbytes p aggs =
    (let agg = (case map_of aggs p of Some a \<Rightarrow> a | None \<Rightarrow> Aggregate_default) in
     AList.update p \<lparr>object_count = object_count agg + dobj, byte_count = byte_count agg + dbytes\<rparr> aggs)"

definition rollup_record :: "str \<Rightarrow> u64 \<Rightarrow> Rollup \<Rightarrow> Rollup" where
  "rollup_record key len r =
    (let old = map_of (sizes r) key;
         (dobj, dbytes) = put_deltas old len
     in \<lparr>aggregates = fold (bump dobj dbytes) (prefixes_of key) (aggregates r),
         sizes = AList.update key len (sizes r)\<rparr>)"

definition deltas_for :: "Rollup \<Rightarrow> str \<Rightarrow> u64 \<Rightarrow> AggDeltaEntry list" where
  "deltas_for r key len =
    (let (dobj, dbytes) = put_deltas (map_of (sizes r) key) len
     in map (\<lambda>p. \<lparr>delta_prefix = p, object_count_delta = dobj, byte_count_delta = dbytes\<rparr>) (prefixes_of key))"

definition rollup_get :: "Rollup \<Rightarrow> str \<Rightarrow> Aggregate" where
  "rollup_get r p = (case map_of (aggregates r) p of Some a \<Rightarrow> a | None \<Rightarrow> Aggregate_default)"

section \<open>Paths\<close>

definition join :: "str list \<Rightarrow> str" where
  "join ps = concat (map (\<lambda>(i, p). (if i > 0 then [slash] else []) @ p) (enumerate 0 ps))"

lemma join_Nil [simp]: "join [] = []"
  by (simp add: join_def)

lemma join_snoc: "join (ps @ [p]) = (if ps = [] then p else join ps @ slash # p)"
  by (auto simp: join_def enumerate_append_eq)

definition segment :: "str \<Rightarrow> bool" where
  "segment p \<longleftrightarrow> p \<noteq> [] \<and> slash \<notin> set p"

lemma split_on_no_sep: "p \<in> set (split_on c xs) \<Longrightarrow> c \<notin> set p"
  by (induction xs arbitrary: p) (auto split: list.splits if_splits)

lemma split_on_not_Nil [simp]: "split_on c xs \<noteq> []"
  by (induction xs) (auto split: list.splits)

lemma path_segments_segment: "p \<in> set (path_segments s) \<Longrightarrow> segment p"
  by (auto simp: path_segments_def segment_def dest: split_on_no_sep)

lemma split_on_append_sep: "c \<notin> set ys \<Longrightarrow> split_on c (xs @ c # ys) = split_on c xs @ [ys]"
proof (induction xs)
  case Nil
  have "c \<notin> set ys \<Longrightarrow> split_on c ys = [ys]" by (induction ys) auto
  with Nil show ?case by simp
qed (auto split: list.splits)

lemma path_segments_join: "list_all segment ps \<Longrightarrow> path_segments (join ps) = ps"
proof (induction ps rule: rev_induct)
  case (snoc p ps)
  have "slash \<notin> set ys \<Longrightarrow> split_on slash ys = [ys]" for ys by (induction ys) auto
  with snoc show ?case by (auto simp: join_snoc path_segments_def split_on_append_sep segment_def)
qed (simp add: path_segments_def)

lemma join_inj: "list_all segment ps \<Longrightarrow> list_all segment qs \<Longrightarrow> join ps = join qs \<Longrightarrow> ps = qs"
  using path_segments_join by metis

lemma join_take_Suc: "k < length ps \<Longrightarrow> join (take (Suc k) ps) = (if k = 0 then ps ! k else join (take k ps) @ slash # ps ! k)"
  by (auto simp: take_Suc_conv_app_nth join_snoc)

lemma prefixes_fold:
  assumes "n = length ps" and "k \<le> n"
    and f: "f = (\<lambda>(i, part) (prefix, out).
        let prefix = (if i > (0::nat) then prefix @ [slash] else prefix);
            prefix = prefix @ part
        in (prefix, if i + 1 < n then out @ [prefix] else out))"
  shows "fold f (enumerate 0 (take k ps)) ([], [[]]) =
    (join (take k ps), [] # map (\<lambda>j. join (take j ps)) [1..<min (Suc k) n])"
  using assms(2)
proof (induction k)
  case 0
  then show ?case using assms by simp
next
  case (Suc k)
  then have k: "k < length ps" using assms by simp
  then have "fold f (enumerate 0 (take (Suc k) ps)) ([], [[]]) =
      f (k, ps ! k) (join (take k ps), [] # map (\<lambda>j. join (take j ps)) [1..<min (Suc k) n])"
    using Suc by (simp add: take_Suc_conv_app_nth enumerate_append_eq)
  moreover have "[1..<min (Suc (Suc k)) n] = [1..<min (Suc k) n] @ (if Suc k < n then [Suc k] else [])"
    by (auto simp: min_def)
  ultimately show ?case using k by (auto simp: f Let_def join_take_Suc)
qed

lemma prefixes_of_eq:
  "prefixes_of key = [] # map (\<lambda>j. join (take j (path_segments key))) [1..<length (path_segments key)]"
  using prefixes_fold [OF refl order_refl refl, of "path_segments key"]
  by (simp add: prefixes_of_def Let_def min_def)

lemma segments_take: "list_all segment (take j (path_segments key))"
  by (auto simp: list_all_iff dest!: in_set_takeD path_segments_segment)

lemma distinct_prefixes_of: "distinct (prefixes_of key)"
proof -
  let ?ps = "path_segments key"
  have "j = k" if "join (take j ?ps) = join (take k ?ps)" "j < length ?ps" "k < length ?ps" for j k
    using join_inj [OF segments_take segments_take that(1)] that(2,3) by (metis length_take min.absorb4)
  moreover have "[] \<noteq> join (take j ?ps)" if "1 \<le> j" "j < length ?ps" for j
    using join_inj [OF segments_take, of "[]" j key] that by auto
  ultimately show ?thesis
    by (auto simp: prefixes_of_eq distinct_map inj_on_def)
qed

section \<open>The aggregates are a recount\<close>

definition recount :: "(str \<times> u64) list \<Rightarrow> str \<Rightarrow> Aggregate" where
  "recount objs p =
    (let under = filter (\<lambda>(k, len). p \<in> set (prefixes_of k)) objs
     in \<lparr>object_count = of_nat (length under), byte_count = sum_list (map snd under)\<rparr>)"

definition agg_add :: "Aggregate \<Rightarrow> u64 \<times> u64 \<Rightarrow> Aggregate" where
  "agg_add a d = \<lparr>object_count = object_count a + fst d, byte_count = byte_count a + snd d\<rparr>"

lemma agg_add_0 [simp]: "agg_add a (0, 0) = a"
  by (simp add: agg_add_def)

lemma recount_update:
  assumes "distinct (map fst objs)"
  shows "recount (AList.update k l objs) p =
    agg_add (recount objs p) (if p \<in> set (prefixes_of k) then put_deltas (map_of objs k) l else (0, 0))"
  using assms
proof (induction objs)
  case Nil
  then show ?case by (simp add: recount_def agg_add_def put_deltas_def)
next
  case (Cons o1 objs)
  obtain k1 l1 where o1: "o1 = (k1, l1)" by force
  have cons: "recount ((k1, l1) # os) p = agg_add (recount os p) (if p \<in> set (prefixes_of k1) then (1, l1) else (0, 0))" for os k1 l1
    by (simp add: recount_def agg_add_def add.commute Let_def)
  show ?case
  proof (cases "k1 = k")
    case True
    then show ?thesis by (simp add: o1 cons agg_add_def put_deltas_def)
  next
    case False
    then show ?thesis using Cons by (simp add: o1 cons) (simp add: agg_add_def add.commute add.left_commute)
  qed
qed

definition agg_of :: "(str \<times> Aggregate) list \<Rightarrow> str \<Rightarrow> Aggregate" where
  "agg_of aggs p = (case map_of aggs p of Some a \<Rightarrow> a | None \<Rightarrow> Aggregate_default)"

lemma agg_of_bump: "agg_of (bump d b q aggs) p = (if p = q then agg_add (agg_of aggs p) (d, b) else agg_of aggs p)"
  by (simp add: agg_of_def bump_def update_conv' agg_add_def Let_def)

lemma agg_of_bumps:
  "distinct ps \<Longrightarrow> agg_of (fold (bump d b) ps aggs) p = agg_add (agg_of aggs p) (if p \<in> set ps then (d, b) else (0, 0))"
  by (induction ps arbitrary: aggs) (auto simp: agg_of_bump)

lemma rollup_get_record:
  "rollup_get (rollup_record key len r) p =
    agg_add (rollup_get r p) (if p \<in> set (prefixes_of key) then put_deltas (map_of (sizes r) key) len else (0, 0))"
  unfolding rollup_get_def agg_of_def [symmetric]
  by (simp add: rollup_record_def agg_of_bumps distinct_prefixes_of split: prod.split)

text \<open>The invariant of a rollup: its counters are the recount of its sizes.\<close>

definition rollup_inv :: "Rollup \<Rightarrow> bool" where
  "rollup_inv r \<longleftrightarrow> distinct (map fst (sizes r)) \<and> (\<forall>p. rollup_get r p = recount (sizes r) p)"

lemma rollup_inv_default [simp]: "rollup_inv Rollup_default"
  by (simp add: rollup_inv_def Rollup_default_def rollup_get_def recount_def Aggregate_default_def)

lemma rollup_inv_record: "rollup_inv r \<Longrightarrow> rollup_inv (rollup_record key len r)"
  using recount_update [of "sizes r" key len] rollup_get_record [of key len r]
  by (simp add: rollup_inv_def) (simp add: rollup_record_def distinct_update split: prod.split)

lemma sizes_record [simp]: "sizes (rollup_record key len r) = AList.update key len (sizes r)"
  by (simp add: rollup_record_def split: prod.split)

lemma rollup_history:
  "rollup_inv r \<Longrightarrow> rollup_inv (fold (\<lambda>(k, l). rollup_record k l) hist r) \<and>
    sizes (fold (\<lambda>(k, l). rollup_record k l) hist r) = fold (\<lambda>(k, l). AList.update k l) hist (sizes r)"
  by (induction hist arbitrary: r) (auto simp: rollup_inv_record)

section \<open>The rule of the key listing\<close>

text \<open>
  \<open>keys_with_prefix\<close> selects keys by comparing segments. For a prefix written in normal form and keys
  that have a segment at all, that is the rule of the aggregates.
\<close>

definition under_prefix :: "str \<Rightarrow> str \<Rightarrow> bool" where
  "under_prefix prefix key =
    (let segs = path_segments prefix; ksegs = path_segments key
     in length segs < length ksegs \<and> list_all (\<lambda>(a, b). a = b) (zip segs ksegs))"

lemma zip_all_eq: "length xs \<le> length ys \<Longrightarrow> list_all (\<lambda>(a, b). a = b) (zip xs ys) \<longleftrightarrow> xs = take (length xs) ys"
proof (induction xs arbitrary: ys)
  case (Cons x xs)
  then show ?case by (cases ys) auto
qed simp

lemma prefixes_of_under:
  assumes "join (path_segments p) = p" and "path_segments key \<noteq> []"
  shows "p \<in> set (prefixes_of key) \<longleftrightarrow> under_prefix p key"
proof
  assume "p \<in> set (prefixes_of key)"
  then have "\<exists>j<length (path_segments key). p = join (take j (path_segments key))"
    using assms(2) by (auto simp: prefixes_of_eq intro: exI [of _ 0])
  then obtain j where "j < length (path_segments key)" "path_segments p = take j (path_segments key)"
    using path_segments_join [OF segments_take] by auto
  then show "under_prefix p key" by (simp add: under_prefix_def zip_all_eq)
next
  assume "under_prefix p key"
  then have l: "length (path_segments p) < length (path_segments key)"
    and "path_segments p = take (length (path_segments p)) (path_segments key)"
    by (auto simp: under_prefix_def Let_def zip_all_eq)
  then have p: "p = join (take (length (path_segments p)) (path_segments key))" using assms(1) by simp
  show "p \<in> set (prefixes_of key)"
  proof (cases "path_segments p = []")
    case True
    then show ?thesis using p by (simp add: prefixes_of_eq)
  next
    case False
    then have "1 \<le> length (path_segments p)" by (cases "path_segments p") auto
    then show ?thesis using p l unfolding prefixes_of_eq by auto
  qed
qed

lemma fold_update_keys:
  "fst ` set (fold (\<lambda>(k, l). AList.update k l) hist objs) \<subseteq> fst ` set hist \<union> fst ` set objs"
proof (induction hist arbitrary: objs)
  case (Cons h hist)
  show ?case using Cons.IH [of "AList.update (fst h) (snd h) objs"] by (auto simp: dom_update case_prod_beta)
qed simp

section \<open>Properties\<close>

text \<open>
  C21. The incremental aggregates equal a recount from scratch: after any history of puts, overwrites
  included, the counters of every prefix are the number and the total size (modulo \<open>2^64\<close>) of the
  distinct keys under it, each with its latest length.\<close>

theorem rollup_refines_recount:
  "rollup_get (fold (\<lambda>(k, l). rollup_record k l) hist Rollup_default) p =
     recount (fold (\<lambda>(k, l). AList.update k l) hist []) p"
  using rollup_history [OF rollup_inv_default, of hist] by (simp add: rollup_inv_def Rollup_default_def)

text \<open>
  The logged deltas mirror the update: adding to each counter the entry that \<open>deltas_for\<close> lists
  for its prefix (nothing if it lists none) gives the counters after \<open>record\<close>, and no prefix is
  listed twice.\<close>

theorem deltas_mirror_record:
  "distinct (map delta_prefix (deltas_for r key len)) \<and>
   rollup_get (rollup_record key len r) p =
     agg_add (rollup_get r p)
       (case find (\<lambda>d. delta_prefix d = p) (deltas_for r key len) of
          Some d \<Rightarrow> (object_count_delta d, byte_count_delta d) | None \<Rightarrow> (0, 0))"
proof -
  obtain a b where ab: "put_deltas (map_of (sizes r) key) len = (a, b)" by force
  let ?ds = "map (\<lambda>p. \<lparr>delta_prefix = p, object_count_delta = a, byte_count_delta = b\<rparr>)"
  have find: "find (\<lambda>d. delta_prefix d = p) (?ds ps) =
      (if p \<in> set ps then Some \<lparr>delta_prefix = p, object_count_delta = a, byte_count_delta = b\<rparr> else None)" for ps
    by (induction ps) auto
  show ?thesis
    by (simp add: deltas_for_def ab find rollup_get_record comp_def distinct_prefixes_of)
qed

text \<open>
  C26. Capacity and listing agree: if every key ever put has a non-empty segment and the queried prefix
  is in normal form (its segments joined by single slashes), the aggregate of the prefix is the count
  and the total size of the keys that the listing rule selects.\<close>

theorem rollup_agrees_with_listing:
  assumes "\<forall>(k, l) \<in> set hist. path_segments k \<noteq> []" and "join (path_segments p) = p"
  shows "rollup_get (fold (\<lambda>(k, l). rollup_record k l) hist Rollup_default) p =
    (let listed = filter (\<lambda>(k, l). under_prefix p k) (fold (\<lambda>(k, l). AList.update k l) hist [])
     in \<lparr>object_count = of_nat (length listed), byte_count = sum_list (map snd listed)\<rparr>)"
proof -
  let ?objs = "fold (\<lambda>(k, l). AList.update k l) hist []"
  have "path_segments k \<noteq> []" if "(k, l) \<in> set ?objs" for k l
  proof -
    have "k \<in> fst ` set hist" using fold_update_keys [of hist "[]"] image_eqI [OF _ that, of k fst] by auto
    then show ?thesis using assms(1) by auto
  qed
  then have "filter (\<lambda>(k, l). p \<in> set (prefixes_of k)) ?objs = filter (\<lambda>(k, l). under_prefix p k) ?objs"
    using prefixes_of_under [OF assms(2)] by (intro filter_cong) auto
  then show ?thesis
    using rollup_history [OF rollup_inv_default, of hist] by (simp add: rollup_inv_def Rollup_default_def recount_def)
qed

theorem rollup_agrees_with_listing_witness:
  "rollup_get (fold (\<lambda>(k, l). rollup_record k l) [([97, 47, 98], 5), ([97, 47, 99], 7), ([97, 47, 98], 2)] Rollup_default) [97] =
     \<lparr>object_count = 2, byte_count = 9\<rparr>"
  by (subst rollup_agrees_with_listing)
     (simp_all add: path_segments_def slash_def join_def under_prefix_def)

end
