(* ===== verification/Records.thy ===== *)
theory Records
  imports Block Rollup
begin

text \<open>
  The log records of \<^verbatim>\<open>crates/shardvault-core/src/wal.rs\<close> and their byte encoding. A \<open>String\<close> is its UTF-8
  bytes; \<open>utf8_valid\<close> is the check of \<open>String::from_utf8\<close>. The locale \<open>codec\<close> states what the record codec
  needs of the encodings of its fields.
\<close>

section \<open>UTF-8\<close>

text \<open>
  A lead byte fixes the ranges of the continuation bytes that must follow it: the second byte excludes
  overlong forms, surrogates and code points above \<open>0x10FFFF\<close>.
\<close>

definition utf8_lead :: "u8 \<Rightarrow> (u8 \<times> u8) list option" where
  "utf8_lead b =
    (if b < 0x80 then Some []
     else if b < 0xC2 then None
     else if b < 0xE0 then Some [(0x80, 0xBF)]
     else if b = 0xE0 then Some [(0xA0, 0xBF), (0x80, 0xBF)]
     else if b = 0xED then Some [(0x80, 0x9F), (0x80, 0xBF)]
     else if b < 0xF0 then Some [(0x80, 0xBF), (0x80, 0xBF)]
     else if b = 0xF0 then Some [(0x90, 0xBF), (0x80, 0xBF), (0x80, 0xBF)]
     else if b < 0xF4 then Some [(0x80, 0xBF), (0x80, 0xBF), (0x80, 0xBF)]
     else if b = 0xF4 then Some [(0x80, 0x8F), (0x80, 0xBF), (0x80, 0xBF)]
     else None)"

fun utf8_go :: "(u8 \<times> u8) list \<Rightarrow> bytes \<Rightarrow> bool" where
  "utf8_go pend [] = (pend = [])"
| "utf8_go [] (b # bs) = (case utf8_lead b of None \<Rightarrow> False | Some pend \<Rightarrow> utf8_go pend bs)"
| "utf8_go ((lo, hi) # pend) (b # bs) = (lo \<le> b \<and> b \<le> hi \<and> utf8_go pend bs)"

definition utf8_valid :: "bytes \<Rightarrow> bool" where
  "utf8_valid bs = utf8_go [] bs"

text \<open>Strings can be joined, and cut at an ASCII character.\<close>

definition conts :: "(u8 \<times> u8) list \<Rightarrow> bool" where
  "conts pend \<longleftrightarrow> (\<forall>(lo, hi) \<in> set pend. 0x80 \<le> lo)"

lemma utf8_lead_conts: "utf8_lead b = Some pend \<Longrightarrow> conts pend"
  by (auto simp: utf8_lead_def conts_def split: if_splits)

lemma utf8_go_split: "c < 0x80 \<Longrightarrow> conts pend \<Longrightarrow> utf8_go pend (xs @ c # ys) \<Longrightarrow> utf8_go pend xs \<and> utf8_go [] ys"
proof (induction xs arbitrary: pend)
  case Nil
  have "pend = []"
  proof (rule ccontr)
    assume "pend \<noteq> []"
    then obtain lo hi p where p: "pend = (lo, hi) # p" by (metis neq_Nil_conv surj_pair)
    then have "0x80 \<le> c" using Nil by (auto simp: conts_def)
    then show False using Nil.prems(1) by simp
  qed
  then show ?case using Nil by (simp add: utf8_lead_def)
next
  case (Cons x xs)
  show ?case
  proof (cases pend)
    case Nil
    then show ?thesis using Cons utf8_lead_conts by (auto split: option.splits)
  next
    case p: (Cons q p)
    obtain lo hi where "q = (lo, hi)" by force
    then show ?thesis using Cons p by (auto simp: conts_def)
  qed
qed

lemma utf8_valid_split: "c < 0x80 \<Longrightarrow> utf8_valid (xs @ c # ys) \<Longrightarrow> utf8_valid xs \<and> utf8_valid ys"
  using utf8_go_split [of c "[]" xs ys] by (simp add: utf8_valid_def conts_def)

lemma utf8_valid_append: "utf8_valid xs \<Longrightarrow> utf8_valid ys \<Longrightarrow> utf8_valid (xs @ ys)"
proof -
  have "utf8_go pend xs \<Longrightarrow> utf8_go [] ys \<Longrightarrow> utf8_go pend (xs @ ys)" for pend
    by (induction pend xs rule: utf8_go.induct) (auto split: option.splits)
  then show "utf8_valid xs \<Longrightarrow> utf8_valid ys \<Longrightarrow> ?thesis" by (simp add: utf8_valid_def)
qed

lemma utf8_ascii [simp]: "b < 0x80 \<Longrightarrow> utf8_valid (b # bs) = utf8_valid bs"
  by (simp add: utf8_valid_def utf8_lead_def)

lemma utf8_valid_Nil [simp]: "utf8_valid []"
  by (simp add: utf8_valid_def)

lemma segments_valid: "utf8_valid s \<Longrightarrow> p \<in> set (split_on slash s) \<Longrightarrow> utf8_valid p"
proof (induction "length s" arbitrary: s rule: less_induct)
  case less
  show ?case
  proof (cases "slash \<in> set s")
    case True
    then obtain xs ys where s: "s = xs @ slash # ys" "slash \<notin> set ys" by (meson split_list_last)
    have "utf8_valid xs \<and> utf8_valid ys" using utf8_valid_split [of slash xs ys] less.prems(1) s by (simp add: slash_def)
    moreover have "p \<in> set (split_on slash xs) \<or> p = ys" using less.prems(2) s by (auto simp: split_on_append_sep)
    ultimately show ?thesis using less.hyps [of xs] s by auto
  next
    case False
    then have "split_on slash s = [s]" by (induction s) auto
    then show ?thesis using less.prems by simp
  qed
qed

lemma join_valid: "list_all utf8_valid ps \<Longrightarrow> utf8_valid (join ps)"
  by (induction ps rule: rev_induct) (auto simp: join_snoc slash_def intro!: utf8_valid_append)

lemma prefixes_valid: "utf8_valid key \<Longrightarrow> list_all utf8_valid (prefixes_of key)"
  using segments_valid [of key]
  by (auto simp: prefixes_of_eq list_all_iff path_segments_def intro!: join_valid dest!: in_set_takeD)

section \<open>Records\<close>

type_synonym Lsn = u64

record RemapEntry =
  re_key :: str
  re_lsn :: u64
  re_offset :: u64
  re_len :: u32

datatype Record =
    Put (put_key: str) (put_len: u32) (put_stripe_id: u64)
  | Commit (commit_lsn: u64)
  | SegmentSeal u64 u64
  | AggDelta "AggDeltaEntry list"
  | SegmentSwap u64 u64
  | SegmentRemap u64 "RemapEntry list"

definition TAG_PUT :: u8 where "TAG_PUT = 0"
definition TAG_COMMIT :: u8 where "TAG_COMMIT = 1"
definition TAG_SEAL :: u8 where "TAG_SEAL = 2"
definition TAG_AGG :: u8 where "TAG_AGG = 3"
definition TAG_SWAP :: u8 where "TAG_SWAP = 4"
definition TAG_REMAP :: u8 where "TAG_REMAP = 5"

lemmas tag_defs = TAG_PUT_def TAG_COMMIT_def TAG_SEAL_def TAG_AGG_def TAG_SWAP_def TAG_REMAP_def

section \<open>Encoding\<close>

text \<open>\<open>u16::try_from(n).map_err(|_| RecordTooLarge)\<close>\<close>

definition try_u16 :: "nat \<Rightarrow> StoreError + u16" where
  "try_u16 n = (if n < 65536 then Inr (of_nat n) else Inl RecordTooLarge)"

fun encode_deltas :: "AggDeltaEntry list \<Rightarrow> bytes \<Rightarrow> StoreError + bytes" where
  "encode_deltas [] v = Inr v"
| "encode_deltas (d # ds) v =
    and_then (try_u16 (length (delta_prefix d))) (\<lambda>plen.
      encode_deltas ds (v @ to_le 2 plen @ delta_prefix d @ to_le 8 (object_count_delta d) @ to_le 8 (byte_count_delta d)))"

fun encode_remaps :: "RemapEntry list \<Rightarrow> bytes \<Rightarrow> StoreError + bytes" where
  "encode_remaps [] v = Inr v"
| "encode_remaps (e # es) v =
    and_then (try_u16 (length (re_key e))) (\<lambda>klen.
      encode_remaps es (v @ to_le 2 klen @ re_key e @ to_le 8 (re_lsn e) @ to_le 8 (re_offset e) @ to_le 4 (re_len e)))"

definition encode_fields :: "Record \<Rightarrow> StoreError + bytes" where
  "encode_fields rec = (case rec of
     Put key len stripe_id \<Rightarrow>
       and_then (try_u16 (length key)) (\<lambda>key_len.
         Inr ([TAG_PUT] @ to_le 8 stripe_id @ to_le 4 len @ to_le 2 key_len @ key))
   | Commit lsn \<Rightarrow> Inr ([TAG_COMMIT] @ to_le 8 lsn)
   | SegmentSeal segment_id next_segment_id \<Rightarrow> Inr ([TAG_SEAL] @ to_le 8 segment_id @ to_le 8 next_segment_id)
   | AggDelta deltas \<Rightarrow>
       and_then (try_u16 (length deltas)) (\<lambda>n. encode_deltas deltas ([TAG_AGG] @ to_le 2 n))
   | SegmentSwap old_segment_id new_segment_id \<Rightarrow> Inr ([TAG_SWAP] @ to_le 8 old_segment_id @ to_le 8 new_segment_id)
   | SegmentRemap new_segment_id entries \<Rightarrow>
       and_then (try_u16 (length entries)) (\<lambda>n. encode_remaps entries ([TAG_REMAP] @ to_le 8 new_segment_id @ to_le 2 n)))"

definition encode_record :: "Record \<Rightarrow> StoreError + bytes" where
  "encode_record rec = and_then (encode_fields rec) (\<lambda>v.
     if length v > SV_BLOCK_PAYLOAD_MAX then Inl RecordTooLarge else Inr v)"

section \<open>Decoding\<close>

type_synonym 'a parser = "bytes \<Rightarrow> StoreError + ('a \<times> bytes)"

definition take_bytes :: "nat \<Rightarrow> bytes parser" where
  "take_bytes n p = (if length p < n then Inl (Corrupt ''truncated record'') else Inr (take n p, drop n p))"

definition take_u64 :: "u64 parser" where
  "take_u64 p = and_then (take_bytes 8 p) (\<lambda>(bs, p). Inr (from_le bs, p))"

definition take_u32 :: "u32 parser" where
  "take_u32 p = and_then (take_bytes 4 p) (\<lambda>(bs, p). Inr (from_le bs, p))"

definition take_u16 :: "u16 parser" where
  "take_u16 p = and_then (take_bytes 2 p) (\<lambda>(bs, p). Inr (from_le bs, p))"

definition take_utf8 :: "nat \<Rightarrow> string \<Rightarrow> str parser" where
  "take_utf8 n what p = and_then (take_bytes n p) (\<lambda>(bs, p).
     if utf8_valid bs then Inr (bs, p) else Inl (Corrupt (''invalid utf-8 in '' @ what)))"

definition take_delta :: "AggDeltaEntry parser" where
  "take_delta p =
    and_then (take_u16 p) (\<lambda>(plen, p).
    and_then (take_utf8 (unat plen) ''prefix'' p) (\<lambda>(prefix, p).
    and_then (take_u64 p) (\<lambda>(object_count_delta, p).
    and_then (take_u64 p) (\<lambda>(byte_count_delta, p).
    Inr (\<lparr>delta_prefix = prefix, object_count_delta = object_count_delta, byte_count_delta = byte_count_delta\<rparr>, p)))))"

definition take_remap :: "RemapEntry parser" where
  "take_remap p =
    and_then (take_u16 p) (\<lambda>(klen, p).
    and_then (take_utf8 (unat klen) ''key'' p) (\<lambda>(key, p).
    and_then (take_u64 p) (\<lambda>(lsn, p).
    and_then (take_u64 p) (\<lambda>(offset, p).
    and_then (take_u32 p) (\<lambda>(len, p).
    Inr (\<lparr>re_key = key, re_lsn = lsn, re_offset = offset, re_len = len\<rparr>, p))))))"

text \<open>\<open>for _ in 0..n { v.push(get(&mut p)?) }\<close>\<close>

fun take_n :: "'a parser \<Rightarrow> nat \<Rightarrow> 'a list parser" where
  "take_n get 0 p = Inr ([], p)"
| "take_n get (Suc n) p =
    and_then (get p) (\<lambda>(x, p). and_then (take_n get n p) (\<lambda>(xs, p). Inr (x # xs, p)))"

definition unknown_tag :: "u8 \<Rightarrow> StoreError" where
  "unknown_tag t = Corrupt (''unknown record tag '' @ show_nat (unat t))"

definition decode_record :: "bytes \<Rightarrow> StoreError + Record" where
  "decode_record payload =
    and_then (take_bytes 1 payload) (\<lambda>(tagb, p).
    let tag = tagb ! 0 in
    if tag = TAG_PUT then
      and_then (take_u64 p) (\<lambda>(stripe_id, p).
      and_then (take_u32 p) (\<lambda>(len, p).
      and_then (take_u16 p) (\<lambda>(klen, p).
      and_then (take_utf8 (unat klen) ''key'' p) (\<lambda>(key, p).
      Inr (Put key len stripe_id)))))
    else if tag = TAG_COMMIT then
      and_then (take_u64 p) (\<lambda>(lsn, p). Inr (Commit lsn))
    else if tag = TAG_SEAL then
      and_then (take_u64 p) (\<lambda>(segment_id, p).
      and_then (take_u64 p) (\<lambda>(next_segment_id, p).
      Inr (SegmentSeal segment_id next_segment_id)))
    else if tag = TAG_AGG then
      and_then (take_u16 p) (\<lambda>(n, p).
      and_then (take_n take_delta (unat n) p) (\<lambda>(deltas, p).
      Inr (AggDelta deltas)))
    else if tag = TAG_SWAP then
      and_then (take_u64 p) (\<lambda>(old_segment_id, p).
      and_then (take_u64 p) (\<lambda>(new_segment_id, p).
      Inr (SegmentSwap old_segment_id new_segment_id)))
    else if tag = TAG_REMAP then
      and_then (take_u64 p) (\<lambda>(new_segment_id, p).
      and_then (take_u16 p) (\<lambda>(n, p).
      and_then (take_n take_remap (unat n) p) (\<lambda>(entries, p).
      Inr (SegmentRemap new_segment_id entries))))
    else Inl (unknown_tag tag))"

section \<open>Field codecs\<close>

text \<open>
  A field codec is exact: the parser accepts precisely the encodings of the admissible values, and
  leaves the rest of the input. Lists of fields inherit this.
\<close>

locale codec =
  fixes put :: "'a \<Rightarrow> bytes" and get :: "'a parser" and ok :: "'a \<Rightarrow> bool"
  assumes get_iff: "get p = Inr (x, rest) \<longleftrightarrow> ok x \<and> p = put x @ rest"
begin

lemma get_put: "ok x \<Longrightarrow> get (put x @ rest) = Inr (x, rest)"
  by (simp add: get_iff)

lemma take_n_iff:
  "take_n get n p = Inr (xs, rest) \<longleftrightarrow> length xs = n \<and> list_all ok xs \<and> p = concat (map put xs) @ rest"
proof (induction n arbitrary: p xs)
  case 0
  then show ?case by auto
next
  case (Suc n)
  show ?case by (cases xs) (auto simp: and_then_Inr get_iff Suc.IH)
qed

lemma take_n_put: "list_all ok xs \<Longrightarrow> take_n get (length xs) (concat (map put xs) @ rest) = Inr (xs, rest)"
  by (simp add: take_n_iff)

lemma prefix_free: "ok x \<Longrightarrow> ok y \<Longrightarrow> put x @ r = put y @ s \<Longrightarrow> x = y \<and> r = s"
  using get_iff [of "put x @ r" x r] get_iff [of "put y @ s" y s] by (metis Pair_inject sum.inject(2))

end

lemma take_bytes_iff: "take_bytes n p = Inr (x, r) \<longleftrightarrow> length x = n \<and> p = x @ r"
  by (auto simp: take_bytes_def)

lemma from_le_iff:
  assumes "LENGTH('a::len) = 8 * n"
  shows "(length bs = n \<and> from_le bs = (x :: 'a word)) \<longleftrightarrow> bs = to_le n x"
  using assms by (auto simp: from_to_le to_from_le)

lemma fixed_width_codec:
  assumes "LENGTH('a::len) = 8 * n"
  shows "and_then (take_bytes n p) (\<lambda>(bs, p). Inr (from_le bs, p)) = Inr (x :: 'a word, rest) \<longleftrightarrow> p = to_le n x @ rest"
  using from_le_iff [OF assms, of _ x] by (auto simp: and_then_Inr take_bytes_iff)

interpretation u64_codec: codec "to_le 8" take_u64 "\<lambda>_. True"
  by unfold_locales (simp add: take_u64_def fixed_width_codec)

interpretation u32_codec: codec "to_le 4" take_u32 "\<lambda>_. True"
  by unfold_locales (simp add: take_u32_def fixed_width_codec)

interpretation u16_codec: codec "to_le 2" take_u16 "\<lambda>_. True"
  by unfold_locales (simp add: take_u16_def fixed_width_codec)

text \<open>A string with its 16-bit length in front.\<close>

definition put_str :: "str \<Rightarrow> bytes" where
  "put_str s = to_le 2 (of_nat (length s) :: u16) @ s"

definition str_ok :: "str \<Rightarrow> bool" where
  "str_ok s \<longleftrightarrow> length s < 65536 \<and> utf8_valid s"

definition take_str :: "string \<Rightarrow> str parser" where
  "take_str what p = and_then (take_u16 p) (\<lambda>(n, p). take_utf8 (unat n) what p)"

lemma take_utf8_iff: "take_utf8 n what p = Inr (s, r) \<longleftrightarrow> length s = n \<and> utf8_valid s \<and> p = s @ r"
  by (auto simp: take_utf8_def and_then_Inr take_bytes_iff split: if_splits)

lemma unat_of_nat_u16: "n < 65536 \<Longrightarrow> unat (of_nat n :: u16) = n"
  by (simp add: unat_of_nat)

lemma unat_u16_less: "unat (w::u16) < 65536"
  using unsigned_less [of w, where ?'a = nat] by simp

lemma str_codec: "codec put_str (take_str what) str_ok"
proof
  fix p s r
  show "take_str what p = Inr (s, r) \<longleftrightarrow> str_ok s \<and> p = put_str s @ r"
    using unat_u16_less unat_of_nat_u16
    by (auto simp: take_str_def and_then_Inr u16_codec.get_iff take_utf8_iff str_ok_def put_str_def)
qed

interpretation key_codec: codec put_str "take_str what" str_ok for what
  by (rule str_codec)

text \<open>The parsers of list entries, refolded over \<open>take_str\<close>.\<close>

lemma and_then_assoc: "and_then (and_then m f) g = and_then m (\<lambda>x. and_then (f x) g)"
  by (simp add: and_then_def split: sum.split)

lemma take_str_refold:
  "and_then (take_u16 p) (\<lambda>(n, p). and_then (take_utf8 (unat n) what p) k) = and_then (take_str what p) k"
  by (simp add: take_str_def and_then_assoc case_prod_beta')

definition put_delta :: "AggDeltaEntry \<Rightarrow> bytes" where
  "put_delta d = put_str (delta_prefix d) @ to_le 8 (object_count_delta d) @ to_le 8 (byte_count_delta d)"

definition put_remap :: "RemapEntry \<Rightarrow> bytes" where
  "put_remap e = put_str (re_key e) @ to_le 8 (re_lsn e) @ to_le 8 (re_offset e) @ to_le 4 (re_len e)"

lemmas codec_iffs = u64_codec.get_iff u32_codec.get_iff u16_codec.get_iff key_codec.get_iff

interpretation delta_codec: codec put_delta take_delta "\<lambda>d. str_ok (delta_prefix d)"
proof
  fix p x r
  show "take_delta p = Inr (x, r) \<longleftrightarrow> str_ok (delta_prefix x) \<and> p = put_delta x @ r"
    unfolding take_delta_def take_str_refold
    by (cases x) (auto simp: and_then_Inr codec_iffs put_delta_def)
qed

interpretation remap_codec: codec put_remap take_remap "\<lambda>e. str_ok (re_key e)"
proof
  fix p x r
  show "take_remap p = Inr (x, r) \<longleftrightarrow> str_ok (re_key x) \<and> p = put_remap x @ r"
    unfolding take_remap_def take_str_refold
    by (cases x) (auto simp: and_then_Inr codec_iffs put_remap_def)
qed

section \<open>The record codec\<close>

definition record_strings :: "Record \<Rightarrow> str list" where
  "record_strings rec = (case rec of
     Put key len stripe \<Rightarrow> [key]
   | AggDelta ds \<Rightarrow> map delta_prefix ds
   | SegmentRemap new es \<Rightarrow> map re_key es
   | _ \<Rightarrow> [])"

text \<open>The type invariant of a Rust record: its strings are UTF-8.\<close>

definition record_utf8 :: "Record \<Rightarrow> bool" where
  "record_utf8 rec \<longleftrightarrow> list_all utf8_valid (record_strings rec)"

definition record_image :: "Record \<Rightarrow> bytes" where
  "record_image rec = (case rec of
     Put key len stripe \<Rightarrow> [TAG_PUT] @ to_le 8 stripe @ to_le 4 len @ put_str key
   | Commit lsn \<Rightarrow> [TAG_COMMIT] @ to_le 8 lsn
   | SegmentSeal a b \<Rightarrow> [TAG_SEAL] @ to_le 8 a @ to_le 8 b
   | AggDelta ds \<Rightarrow> [TAG_AGG] @ to_le 2 (of_nat (length ds) :: u16) @ concat (map put_delta ds)
   | SegmentSwap a b \<Rightarrow> [TAG_SWAP] @ to_le 8 a @ to_le 8 b
   | SegmentRemap a es \<Rightarrow> [TAG_REMAP] @ to_le 8 a @ to_le 2 (of_nat (length es) :: u16) @ concat (map put_remap es))"

definition record_size :: "Record \<Rightarrow> nat" where
  "record_size rec = (case rec of
     Put key len stripe \<Rightarrow> 15 + length key
   | Commit lsn \<Rightarrow> 9
   | SegmentSeal a b \<Rightarrow> 17
   | AggDelta ds \<Rightarrow> 3 + (\<Sum>d\<leftarrow>ds. 18 + length (delta_prefix d))
   | SegmentSwap a b \<Rightarrow> 17
   | SegmentRemap a es \<Rightarrow> 11 + (\<Sum>e\<leftarrow>es. 22 + length (re_key e)))"

lemma length_put_str [simp]: "length (put_str s) = 2 + length s"
  by (simp add: put_str_def)

lemma length_record_image: "length (record_image rec) = record_size rec"
proof -
  have "length (concat (map put_delta ds)) = (\<Sum>d\<leftarrow>ds. 18 + length (delta_prefix d))" for ds
    by (induction ds) (simp_all add: put_delta_def)
  moreover have "length (concat (map put_remap es)) = (\<Sum>e\<leftarrow>es. 22 + length (re_key e))" for es
    by (induction es) (simp_all add: put_remap_def)
  ultimately show ?thesis by (simp add: record_image_def record_size_def split: Record.split)
qed

definition lengths_fit :: "Record \<Rightarrow> bool" where
  "lengths_fit rec \<longleftrightarrow> list_all (\<lambda>s. length s < 65536) (record_strings rec) \<and>
    (case rec of AggDelta ds \<Rightarrow> length ds < 65536 | SegmentRemap a es \<Rightarrow> length es < 65536 | _ \<Rightarrow> True)"

lemma sum_list_bounds:
  "x \<in> set xs \<Longrightarrow> f x \<le> (\<Sum>x\<leftarrow>xs. Suc c + f x :: nat)" "length xs \<le> (\<Sum>x\<leftarrow>xs. Suc c + f x :: nat)"
  by (induction xs) auto

lemma small_record_fits: "record_size rec \<le> 4072 \<Longrightarrow> lengths_fit rec"
proof (cases rec)
  case (AggDelta ds)
  assume "record_size rec \<le> 4072"
  then have b: "(\<Sum>d\<leftarrow>ds. Suc 17 + length (delta_prefix d)) \<le> 4072" by (simp add: record_size_def AggDelta)
  have "length (delta_prefix d) < 65536" if "d \<in> set ds" for d
    using order_trans [OF sum_list_bounds(1) [OF that, where f = "\<lambda>d. length (delta_prefix d)"] b] by simp
  moreover have "length ds < 65536" using order_trans [OF sum_list_bounds(2) b] by simp
  ultimately show ?thesis by (simp add: AggDelta lengths_fit_def record_strings_def list_all_iff)
next
  case (SegmentRemap a es)
  assume "record_size rec \<le> 4072"
  then have b: "(\<Sum>e\<leftarrow>es. Suc 21 + length (re_key e)) \<le> 4072" by (simp add: record_size_def SegmentRemap)
  have "length (re_key e) < 65536" if "e \<in> set es" for e
    using order_trans [OF sum_list_bounds(1) [OF that, where f = "\<lambda>e. length (re_key e)"] b] by simp
  moreover have "length es < 65536" using order_trans [OF sum_list_bounds(2) b] by simp
  ultimately show ?thesis by (simp add: SegmentRemap lengths_fit_def record_strings_def list_all_iff)
qed (simp_all add: record_size_def lengths_fit_def record_strings_def)

lemma encode_deltas_eq:
  "encode_deltas ds v = (if list_all (\<lambda>d. length (delta_prefix d) < 65536) ds then Inr (v @ concat (map put_delta ds)) else Inl RecordTooLarge)"
  by (induction ds arbitrary: v) (auto simp: try_u16_def put_delta_def put_str_def)

lemma encode_remaps_eq:
  "encode_remaps es v = (if list_all (\<lambda>e. length (re_key e) < 65536) es then Inr (v @ concat (map put_remap es)) else Inl RecordTooLarge)"
  by (induction es arbitrary: v) (auto simp: try_u16_def put_remap_def put_str_def)

lemma encode_fields_eq: "encode_fields rec = (if lengths_fit rec then Inr (record_image rec) else Inl RecordTooLarge)"
  by (cases rec) (auto simp: encode_fields_def lengths_fit_def record_strings_def record_image_def try_u16_def
      encode_deltas_eq encode_remaps_eq put_str_def list_all_length)

lemma encode_record_eq:
  "encode_record rec = (if record_size rec \<le> 4072 then Inr (record_image rec) else Inl RecordTooLarge)"
  using small_record_fits [of rec]
  by (auto simp: encode_record_def encode_fields_eq length_record_image sv_consts)

text \<open>The decoder accepts exactly the images of records with valid strings, followed by anything.\<close>

lemma decode_tag:
  "decode_record (t # q) =
    (if t = TAG_PUT then
       and_then (take_u64 q) (\<lambda>(st, p). and_then (take_u32 p) (\<lambda>(len, p). and_then (take_str ''key'' p) (\<lambda>(key, p). Inr (Put key len st))))
     else if t = TAG_COMMIT then and_then (take_u64 q) (\<lambda>(lsn, p). Inr (Commit lsn))
     else if t = TAG_SEAL then and_then (take_u64 q) (\<lambda>(a, p). and_then (take_u64 p) (\<lambda>(b, p). Inr (SegmentSeal a b)))
     else if t = TAG_AGG then
       and_then (take_u16 q) (\<lambda>(n, p). and_then (take_n take_delta (unat n) p) (\<lambda>(ds, p). Inr (AggDelta ds)))
     else if t = TAG_SWAP then and_then (take_u64 q) (\<lambda>(a, p). and_then (take_u64 p) (\<lambda>(b, p). Inr (SegmentSwap a b)))
     else if t = TAG_REMAP then
       and_then (take_u64 q) (\<lambda>(a, p). and_then (take_u16 p) (\<lambda>(n, p). and_then (take_n take_remap (unat n) p) (\<lambda>(es, p). Inr (SegmentRemap a es))))
     else Inl (unknown_tag t))"
  by (simp add: decode_record_def take_bytes_def take_str_refold)

lemma u16_count: "n < 65536 \<Longrightarrow> \<exists>a. to_le 2 (of_nat n :: u16) = to_le 2 (a :: u16) \<and> n = unat a"
  by (rule exI [of _ "of_nat n"]) (simp add: unat_of_nat_u16)

lemma decode_record_iff:
  "decode_record p = Inr rec \<longleftrightarrow> lengths_fit rec \<and> record_utf8 rec \<and> (\<exists>rest. p = record_image rec @ rest)"
proof (cases p)
  case Nil
  then show ?thesis by (auto simp: decode_record_def take_bytes_def record_image_def split: Record.splits)
next
  case (Cons t q)
  note iffs = and_then_Inr codec_iffs delta_codec.take_n_iff remap_codec.take_n_iff
  show ?thesis
    unfolding Cons decode_tag
    by (cases rec)
      (auto simp: iffs tag_defs lengths_fit_def record_utf8_def record_strings_def record_image_def str_ok_def list_all_iff
        unat_of_nat_u16 unat_u16_less u16_count, metis u16_count)
qed

section \<open>Properties\<close>

text \<open>
  C20. The record codec is exact. A record is encoded precisely when its encoding fits a block payload,
  and is refused with \<open>RecordTooLarge\<close> otherwise; what is encoded is decoded again, with any bytes
  after it; and whatever payload decodes to a record starts with that record's one encoding and
  carries only valid UTF-8 strings.\<close>

theorem record_codec_exact:
  "(if record_size rec \<le> SV_BLOCK_PAYLOAD_MAX
    then \<exists>v. encode_record rec = Inr v \<and> length v = record_size rec \<and> (record_utf8 rec \<longrightarrow> decode_record (v @ rest) = Inr rec)
    else encode_record rec = Inl RecordTooLarge) \<and>
   (decode_record p = Inr rec \<longrightarrow> record_utf8 rec \<and> (\<exists>v rest. encode_fields rec = Inr v \<and> p = v @ rest))"
  using small_record_fits [of rec]
  by (auto simp: encode_record_eq sv_consts length_record_image decode_record_iff encode_fields_eq)

theorem record_codec_exact_witness:
  "decode_record ([1, 5, 0, 0, 0, 0, 0, 0, 0] @ [77]) = Inr (Commit 5)"
proof -
  have v: "encode_record (Commit 5) = Inr [1, 5, 0, 0, 0, 0, 0, 0, 0]" by code_simp
  have "record_size (Commit 5) \<le> SV_BLOCK_PAYLOAD_MAX" by (simp add: record_size_def sv_consts)
  moreover have "record_utf8 (Commit 5)" by (simp add: record_utf8_def record_strings_def)
  ultimately show ?thesis using record_codec_exact [of "Commit 5" "[77]"] v by simp
qed

end
