(* ===== verification/Wal.thy ===== *)
theory Wal
  imports Records "HOL-Library.Sublist"
begin

text \<open>
  The write-ahead log of \<^verbatim>\<open>crates/shardvault-core/src/wal.rs\<close>: appending, syncing, scanning and recovery.
  A file has its current contents and the contents that are on stable storage; a crash may keep any
  prefix of the former that includes the latter. The specification of the log is the list of its
  entries, an LSN and a record each.
\<close>

section \<open>The code\<close>

record os_file =
  fdata :: bytes
  fsynced :: bytes

record Wal =
  wal_file :: os_file
  wal_buf :: bytes
  next_lsn :: Lsn
  dirty :: bool

type_synonym entry = "Lsn \<times> Record"

text \<open>\<open>Display for BlockError\<close>\<close>

definition block_error_msg :: "BlockError \<Rightarrow> string" where
  "block_error_msg e = (case e of
     Invalid \<Rightarrow> ''invalid argument''
   | Crc \<Rightarrow> ''CRC-32C verification failed''
   | Len \<Rightarrow> ''payload length out of range''
   | Other code \<Rightarrow> ''unknown C error code: '' @ show_int code)"

text \<open>
  The read loop of \<open>scan\<close> fills a block from the file until it is full or the file ends; a short
  block, an undecodable block or an undecodable record ends the scan.
\<close>

function scan_blocks :: "bytes \<Rightarrow> entry list" where
  "scan_blocks file =
    (if length file < SV_BLOCK_SIZE then []
     else case decode (take SV_BLOCK_SIZE file) of
         Inl e \<Rightarrow> []
       | Inr decoded \<Rightarrow> (case decode_record (blk_payload decoded) of
             Inl e \<Rightarrow> []
           | Inr rec \<Rightarrow> (blk_lsn decoded, rec) # scan_blocks (drop SV_BLOCK_SIZE file)))"
  by pat_completeness auto
termination
  by (relation "measure length") (auto simp: SV_BLOCK_SIZE_def)

declare scan_blocks.simps [simp del]

text \<open>The file may be absent (\<open>NotFound\<close>), which reads as an empty log.\<close>

definition scan :: "bytes option \<Rightarrow> entry list" where
  "scan file = (case file of None \<Rightarrow> [] | Some data \<Rightarrow> scan_blocks data)"

definition is_commit :: "Record \<Rightarrow> bool" where
  "is_commit rec = (case rec of Commit lsn \<Rightarrow> True | _ \<Rightarrow> False)"

definition replay_with_lsns :: "bytes option \<Rightarrow> entry list \<times> Lsn" where
  "replay_with_lsns file =
    (let records = scan file;
         (keep, high_water) =
           (case find (\<lambda>(i, lsn, rec). is_commit rec) (rev (enumerate 0 records)) of
              Some (i, _, Commit lsn) \<Rightarrow> (i + 1, lsn)
            | _ \<Rightarrow> (0, 0));
         last_lsn = (if records = [] then 0 else fst (last records))
     in (take keep records, max high_water last_lsn))"

definition replay :: "bytes option \<Rightarrow> Record list \<times> Lsn" where
  "replay file = (let (records, high_water) = replay_with_lsns file in (map snd records, high_water))"

definition set_len :: "nat \<Rightarrow> bytes \<Rightarrow> bytes" where
  "set_len n data = take n data @ replicate (n - length data) 0"

definition wal_open :: "os_file option \<Rightarrow> Wal" where
  "wal_open file =
    (let (records, high_water) = replay (map_option fdata file);
         f = (case file of None \<Rightarrow> \<lparr>fdata = [], fsynced = []\<rparr> | Some f \<Rightarrow> f)
     in \<lparr>wal_file = f\<lparr>fdata := set_len (length records * SV_BLOCK_SIZE) (fdata f)\<rparr>,
         wal_buf = [], next_lsn = high_water + 1, dirty = False\<rparr>)"

definition append_at :: "Record \<Rightarrow> Lsn \<Rightarrow> Wal \<Rightarrow> StoreError + Wal" where
  "append_at rec lsn w =
    and_then (encode_record rec) (\<lambda>payload.
      let tag = payload ! 0 in
      case encode lsn payload tag of
        Inl Len \<Rightarrow> Inl RecordTooLarge
      | Inl e \<Rightarrow> Inl (Corrupt (''block encode failed: '' @ block_error_msg e))
      | Inr encoded \<Rightarrow> Inr (w\<lparr>wal_buf := wal_buf w @ encoded, next_lsn := max (next_lsn w) (lsn + 1), dirty := True\<rparr>))"

definition wal_append :: "Record \<Rightarrow> Wal \<Rightarrow> StoreError + (Lsn \<times> Wal)" where
  "wal_append rec w = (let lsn = next_lsn w in and_then (append_at rec lsn w) (\<lambda>w. Inr (lsn, w)))"

text \<open>
  \<open>sync\<close> writes the buffer and then calls \<open>sync_data\<close>. Either call can fail: \<open>WriteErr n\<close> is a write that
  fails after \<open>n\<close> bytes reached the file, \<open>FsyncErr\<close> a failing \<open>sync_data\<close> after a complete write.
\<close>

datatype sync_io = IoOk | WriteErr nat | FsyncErr

definition sync :: "sync_io \<Rightarrow> Wal \<Rightarrow> (StoreError + unit) \<times> Wal" where
  "sync io w =
    (if \<not> dirty w then (Inr (), w)
     else let f = wal_file w in
       case io of
         WriteErr n \<Rightarrow> (Inl (Io OtherKind), w\<lparr>wal_file := f\<lparr>fdata := fdata f @ take n (wal_buf w)\<rparr>\<rparr>)
       | FsyncErr \<Rightarrow> (Inl (Io OtherKind), w\<lparr>wal_file := f\<lparr>fdata := fdata f @ wal_buf w\<rparr>\<rparr>)
       | IoOk \<Rightarrow> (let d = fdata f @ wal_buf w in
           (Inr (), w\<lparr>wal_file := f\<lparr>fdata := d, fsynced := d\<rparr>, wal_buf := [], dirty := False\<rparr>)))"

section \<open>The log as a list of entries\<close>

definition entry_ok :: "entry \<Rightarrow> bool" where
  "entry_ok e \<longleftrightarrow> record_size (snd e) \<le> 4072 \<and> record_utf8 (snd e)"

definition entry_block :: "entry \<Rightarrow> bytes" where
  "entry_block e = (case encode (fst e) (record_image (snd e)) (record_image (snd e) ! 0) of Inr b \<Rightarrow> b | Inl _ \<Rightarrow> [])"

definition log_bytes :: "entry list \<Rightarrow> bytes" where
  "log_bytes lg = concat (map entry_block lg)"

lemma log_bytes_simps [simp]: "log_bytes [] = []" "log_bytes (e # es) = entry_block e @ log_bytes es"
  "log_bytes (xs @ ys) = log_bytes xs @ log_bytes ys"
  by (simp_all add: log_bytes_def)

lemma entry_block_enc:
  assumes "entry_ok e"
  shows "encode (fst e) (record_image (snd e)) (record_image (snd e) ! 0) = Inr (entry_block e)"
proof -
  have "length (record_image (snd e)) \<le> SV_BLOCK_PAYLOAD_MAX"
    using assms by (simp add: entry_ok_def length_record_image sv_consts)
  from c_blocks.enc_total [OF this, of "fst e" "record_image (snd e) ! 0"] show ?thesis
    by (auto simp: entry_block_def)
qed

lemma length_entry_block: "entry_ok e \<Longrightarrow> length (entry_block e) = SV_BLOCK_SIZE"
  using c_blocks.enc_size entry_block_enc by blast

lemma length_log_bytes: "list_all entry_ok lg \<Longrightarrow> length (log_bytes lg) = length lg * SV_BLOCK_SIZE"
  by (induction lg) (simp_all add: length_entry_block)

lemma scan_block_step:
  "scan_blocks file = (case next_block decode SV_BLOCK_SIZE file of
     None \<Rightarrow> []
   | Some (b, rest) \<Rightarrow> (case decode_record (blk_payload b) of Inl e \<Rightarrow> [] | Inr rec \<Rightarrow> (blk_lsn b, rec) # scan_blocks rest))"
  by (subst scan_blocks.simps) (auto simp: next_block_def split: sum.split)

lemma scan_entry: "entry_ok e \<Longrightarrow> scan_blocks (entry_block e @ rest) = e # scan_blocks rest"
proof -
  assume ok: "entry_ok e"
  then have "decode_record (record_image (snd e)) = Inr (snd e)"
    using small_record_fits by (simp add: decode_record_iff entry_ok_def)
  then show ?thesis
    by (subst scan_block_step) (simp add: c_blocks.next_block_enc [OF entry_block_enc [OF ok]])
qed

lemma scan_log: "list_all entry_ok lg \<Longrightarrow> scan_blocks (log_bytes lg @ tail) = lg @ scan_blocks tail"
  by (induction lg) (simp_all add: scan_entry)

lemma scan_short: "length tail < SV_BLOCK_SIZE \<Longrightarrow> scan_blocks tail = []"
  by (subst scan_block_step) (simp add: c_blocks.next_block_short)

lemma scan_bad_tail: "next_block decode SV_BLOCK_SIZE tail = None \<Longrightarrow> scan_blocks tail = []"
  by (subst scan_block_step) simp

text \<open>A prefix of the file, cut anywhere, scans to the entries whose blocks are complete in it.\<close>

lemma scan_prefix:
  assumes "list_all entry_ok lg"
  shows "scan_blocks (take n (log_bytes lg)) = take (n div SV_BLOCK_SIZE) lg"
  using assms
proof (induction lg arbitrary: n)
  case Nil
  then show ?case by (simp add: scan_short SV_BLOCK_SIZE_def)
next
  case (Cons e lg)
  then have ok: "entry_ok e" and l: "length (entry_block e) = SV_BLOCK_SIZE" by (simp_all add: length_entry_block)
  show ?case
  proof (cases "n < SV_BLOCK_SIZE")
    case True
    then show ?thesis using l by (simp add: scan_short)
  next
    case False
    then obtain m where n: "n = SV_BLOCK_SIZE + m" by (metis le_add_diff_inverse not_less)
    have "(SV_BLOCK_SIZE + m) div SV_BLOCK_SIZE = Suc (m div SV_BLOCK_SIZE)" by (simp add: SV_BLOCK_SIZE_def)
    then show ?thesis using Cons l ok by (simp add: n scan_entry)
  qed
qed

section \<open>Recovery\<close>

text \<open>The entries up to and including the last commit.\<close>

definition committed_prefix :: "entry list \<Rightarrow> entry list" where
  "committed_prefix lg = rev (dropWhile (\<lambda>e. \<not> is_commit (snd e)) (rev lg))"

definition high_water_of :: "entry list \<Rightarrow> Lsn" where
  "high_water_of lg =
    max (if committed_prefix lg = [] then 0 else commit_lsn (snd (last (committed_prefix lg))))
        (if lg = [] then 0 else fst (last lg))"

lemma committed_prefix_snoc:
  "committed_prefix (lg @ [e]) = (if is_commit (snd e) then lg @ [e] else committed_prefix lg)"
  by (simp add: committed_prefix_def)

lemma committed_prefix_Nil [simp]: "committed_prefix [] = []"
  by (simp add: committed_prefix_def)

lemma committed_prefix_idem [simp]: "committed_prefix (committed_prefix lg) = committed_prefix lg"
  by (simp add: committed_prefix_def)

lemma committed_prefix_split: "\<exists>rest. lg = committed_prefix lg @ rest \<and> list_all (\<lambda>e. \<not> is_commit (snd e)) rest"
proof -
  let ?P = "\<lambda>e. \<not> is_commit (snd e)"
  have "lg = rev (takeWhile ?P (rev lg) @ dropWhile ?P (rev lg))" by simp
  then have "lg = committed_prefix lg @ rev (takeWhile ?P (rev lg))"
    unfolding committed_prefix_def by (simp only: rev_append)
  moreover have "list_all ?P (rev (takeWhile ?P (rev lg)))" by (auto simp: list_all_iff dest: set_takeWhileD)
  ultimately show ?thesis by blast
qed

lemma committed_prefix_append:
  "list_all (\<lambda>e. \<not> is_commit (snd e)) rest \<Longrightarrow> committed_prefix (lg @ rest) = committed_prefix lg"
  by (induction rest rule: rev_induct) (simp_all add: committed_prefix_snoc flip: append_assoc)

lemma committed_prefix_last: "committed_prefix lg \<noteq> [] \<Longrightarrow> is_commit (snd (last (committed_prefix lg)))"
  using hd_dropWhile [of "\<lambda>e. \<not> is_commit (snd e)" "rev lg"] by (simp add: committed_prefix_def last_rev)

lemma committed_prefix_ok: "list_all entry_ok lg \<Longrightarrow> list_all entry_ok (committed_prefix lg)"
  using committed_prefix_split [of lg] by (metis list_all_append)

lemma find_last_commit:
  "(case find (\<lambda>(i, lsn, rec). is_commit rec) (rev (enumerate 0 lg)) of
      Some (i, _, Commit lsn) \<Rightarrow> (i + 1, lsn) | _ \<Rightarrow> (0, 0)) =
   (length (committed_prefix lg), if committed_prefix lg = [] then 0 else commit_lsn (snd (last (committed_prefix lg))))"
proof (induction lg rule: rev_induct)
  case (snoc e lg)
  show ?case
  proof (cases "is_commit (snd e)")
    case True
    then obtain l c where "e = (l, Commit c)" by (cases e; cases "snd e") (auto simp: is_commit_def)
    then show ?thesis by (simp add: enumerate_append_eq committed_prefix_snoc is_commit_def)
  next
    case False
    then show ?thesis using snoc by (simp add: enumerate_append_eq committed_prefix_snoc case_prod_beta)
  qed
qed simp

lemma replay_eq:
  "replay_with_lsns file = (committed_prefix (scan file), high_water_of (scan file))"
proof -
  have "take (length (committed_prefix lg)) lg = committed_prefix lg" for lg
    using committed_prefix_split [of lg] by (metis append_eq_conv_conj)
  then show ?thesis by (simp add: replay_with_lsns_def find_last_commit high_water_of_def Let_def)
qed

text \<open>The abstraction: entries in the file and entries in the buffer.\<close>

definition wal_holds :: "Wal \<Rightarrow> entry list \<Rightarrow> entry list \<Rightarrow> bool" where
  "wal_holds w flog blog \<longleftrightarrow>
    fdata (wal_file w) = log_bytes flog \<and> wal_buf w = log_bytes blog \<and>
    list_all entry_ok flog \<and> list_all entry_ok blog \<and> (dirty w \<longleftrightarrow> blog \<noteq> [])"

lemma wal_open_None: "wal_open None = \<lparr>wal_file = \<lparr>fdata = [], fsynced = []\<rparr>, wal_buf = [], next_lsn = 1, dirty = False\<rparr>"
  by (simp add: wal_open_def replay_def replay_eq scan_def set_len_def high_water_of_def)

lemma append_at_eq:
  "append_at rec lsn w =
    (if record_size rec \<le> 4072
     then Inr (w\<lparr>wal_buf := wal_buf w @ entry_block (lsn, rec), next_lsn := max (next_lsn w) (lsn + 1), dirty := True\<rparr>)
     else Inl RecordTooLarge)"
  by (simp add: append_at_def encode_record_eq entry_block_def encode_eq length_record_image Let_def)

lemma append_at_holds:
  assumes "wal_holds w flog blog" "append_at rec lsn w = Inr w'" "record_utf8 rec"
  shows "wal_holds w' flog (blog @ [(lsn, rec)]) \<and> next_lsn w' = max (next_lsn w) (lsn + 1) \<and> wal_file w' = wal_file w"
  using assms by (auto simp: append_at_eq wal_holds_def entry_ok_def split: if_splits)

lemma wal_append_Inr: "wal_append rec w = Inr (lsn, w') \<longleftrightarrow> lsn = next_lsn w \<and> append_at rec lsn w = Inr w'"
  by (auto simp: wal_append_def and_then_Inr Let_def)

lemma sync_IoOk: "\<exists>w'. sync IoOk w = (Inr (), w')"
  by (simp add: sync_def Let_def)

lemma sync_holds:
  assumes "wal_holds w flog blog" "sync IoOk w = (r, w')"
  shows "r = Inr () \<and> wal_holds w' (flog @ blog) [] \<and> next_lsn w' = next_lsn w"
    and "blog \<noteq> [] \<Longrightarrow> fsynced (wal_file w') = log_bytes (flog @ blog)"
  using assms by (auto simp: sync_def wal_holds_def Let_def split: if_splits)

lemma open_holds:
  assumes "fdata f = log_bytes lg @ tail" "list_all entry_ok lg" "scan_blocks tail = []"
  shows "wal_holds (wal_open (Some f)) (committed_prefix lg) []"
    and "next_lsn (wal_open (Some f)) = high_water_of lg + 1"
    and "fdata (wal_file (wal_open (Some f))) = log_bytes (committed_prefix lg)"
proof -
  have s: "scan (Some (fdata f)) = lg" using assms by (simp add: scan_def scan_log)
  obtain rest where rest: "lg = committed_prefix lg @ rest" using committed_prefix_split by blast
  have ok: "list_all entry_ok (committed_prefix lg)" using assms committed_prefix_ok by blast
  have l: "length (log_bytes (committed_prefix lg)) = length (committed_prefix lg) * SV_BLOCK_SIZE"
    using length_log_bytes [OF ok] .
  have "log_bytes lg = log_bytes (committed_prefix lg) @ log_bytes rest" using arg_cong [OF rest, of log_bytes] by simp
  then have "set_len (length (committed_prefix lg) * SV_BLOCK_SIZE) (fdata f) = log_bytes (committed_prefix lg)"
    using l assms by (simp add: set_len_def)
  then show d: "fdata (wal_file (wal_open (Some f))) = log_bytes (committed_prefix lg)"
    by (simp add: wal_open_def replay_def replay_eq s)
  show "next_lsn (wal_open (Some f)) = high_water_of lg + 1"
    by (simp add: wal_open_def replay_def replay_eq s)
  show "wal_holds (wal_open (Some f)) (committed_prefix lg) []"
    using d ok by (simp add: wal_holds_def) (simp add: wal_open_def replay_def replay_eq)
qed

section \<open>Crashes and durability\<close>

text \<open>
  After a crash the file holds a prefix of everything written to it, no shorter than what it has in
  common with its synced contents; or, when a truncation had not reached the disk, the synced contents
  themselves. The records that a recovery will certainly find are those up to the last commit in the
  synced contents.
\<close>

definition crash_outcome :: "os_file \<Rightarrow> bytes \<Rightarrow> bytes \<Rightarrow> bool" where
  "crash_outcome f pending d \<longleftrightarrow> d = fsynced f \<or>
    prefix d (fdata f @ pending) \<and> (\<forall>p. prefix p (fsynced f) \<and> prefix p (fdata f) \<longrightarrow> prefix p d)"

definition durable_log :: "Wal \<Rightarrow> entry list" where
  "durable_log w = committed_prefix (scan_blocks (fsynced (wal_file w)))"

inductive wal_step :: "Wal \<Rightarrow> Wal \<Rightarrow> bool" where
  step_append: "append_at rec lsn w = Inr w' \<Longrightarrow> record_utf8 rec \<Longrightarrow> wal_step w w'"
| step_sync: "sync IoOk w = (Inr (), w') \<Longrightarrow> wal_step w w'"
| step_crash: "crash_outcome (wal_file w) (wal_buf w) d \<Longrightarrow> wal_step w (wal_open (Some \<lparr>fdata = d, fsynced = d\<rparr>))"

inductive wal_reachable :: "Wal \<Rightarrow> bool" where
  reach_new: "wal_reachable (wal_open None)"
| reach_step: "wal_reachable w \<Longrightarrow> wal_step w w' \<Longrightarrow> wal_reachable w'"

inductive_cases wal_stepE: "wal_step w w'"

text \<open>The synced contents are a log and a tail that does not scan; its committed part is in the file.\<close>

definition wal_inv :: "Wal \<Rightarrow> bool" where
  "wal_inv w \<longleftrightarrow> (\<exists>flog blog slog tail. wal_holds w flog blog \<and>
     fsynced (wal_file w) = log_bytes slog @ tail \<and> list_all entry_ok slog \<and> scan_blocks tail = [] \<and>
     prefix (committed_prefix slog) flog)"

lemma committed_prefix_mono: "prefix xs ys \<Longrightarrow> prefix (committed_prefix xs) (committed_prefix ys)"
proof (induction ys rule: rev_induct)
  case (snoc y ys)
  show ?case
  proof (cases "xs = ys @ [y]")
    case False
    with snoc.prems have "prefix xs ys" by (simp add: prefix_snoc)
    moreover have "prefix (committed_prefix xs) xs" using committed_prefix_split [of xs] by (metis prefixI)
    ultimately show ?thesis using snoc.IH snoc.prems
      by (auto simp only: committed_prefix_snoc split: if_splits intro: prefix_order.trans)
  qed simp
qed simp

lemma committed_prefix_closed: "prefix (committed_prefix xs) ys \<Longrightarrow> prefix (committed_prefix xs) (committed_prefix ys)"
  using committed_prefix_mono [of "committed_prefix xs" ys] by simp

lemma prefix_log_bytes: "prefix xs ys \<Longrightarrow> prefix (log_bytes xs) (log_bytes ys)"
  by (auto elim!: prefixE)

text \<open>What a prefix of a log file scans to, and that it splits into that log and an unreadable tail.\<close>

lemma prefix_file_log:
  assumes "list_all entry_ok lg" "prefix d (log_bytes lg)"
  shows "\<exists>tail. d = log_bytes (scan_blocks d) @ tail \<and> scan_blocks tail = [] \<and>
    list_all entry_ok (scan_blocks d) \<and> prefix (scan_blocks d) lg"
proof -
  have d: "d = take (length d) (log_bytes lg)" using assms(2) by (auto elim: prefixE)
  let ?k = "length d div SV_BLOCK_SIZE"
  have s: "scan_blocks d = take ?k lg" using scan_prefix [OF assms(1), of "length d"] d by simp
  have ok: "list_all entry_ok (take ?k lg)" using assms(1) by (metis append_take_drop_id list_all_append)
  have k: "?k \<le> length lg" using assms(2) length_log_bytes [OF assms(1)]
    by (metis SV_BLOCK_SIZE_def div_le_mono nonzero_mult_div_cancel_right prefix_length_le zero_neq_numeral)
  have l: "length (log_bytes (take ?k lg)) = ?k * SV_BLOCK_SIZE" using length_log_bytes [OF ok] k by simp
  have "log_bytes lg = log_bytes (take ?k lg) @ log_bytes (drop ?k lg)" by (metis append_take_drop_id log_bytes_simps(3))
  then have "prefix (log_bytes (take ?k lg)) d"
    using assms(2) l by (metis div_times_less_eq_dividend prefixI prefix_length_prefix)
  then obtain tail where t: "d = log_bytes (take ?k lg) @ tail" by (auto elim: prefixE)
  have "scan_blocks d = take ?k lg @ scan_blocks tail" using scan_log [OF ok, of tail] t by simp
  then have "scan_blocks tail = []" using s by simp
  then show ?thesis using t ok s by (metis take_is_prefix)
qed

lemma wal_inv_new [simp]: "wal_inv (wal_open None)"
  by (auto simp: wal_inv_def wal_holds_def wal_open_def replay_def replay_eq scan_def set_len_def scan_short SV_BLOCK_SIZE_def
      intro!: exI [of _ "[]"])

lemma durable_log_eq:
  "fsynced (wal_file w) = log_bytes slog @ tail \<Longrightarrow> list_all entry_ok slog \<Longrightarrow> scan_blocks tail = [] \<Longrightarrow>
    durable_log w = committed_prefix slog"
  by (simp add: durable_log_def scan_log)

text \<open>Every outcome of a crash is again a log with an unreadable tail, and holds the durable records.\<close>

lemma crash_outcome_log:
  assumes "wal_inv w" "crash_outcome (wal_file w) (wal_buf w) d"
  shows "\<exists>lg tail. d = log_bytes lg @ tail \<and> list_all entry_ok lg \<and> scan_blocks tail = [] \<and>
    prefix (durable_log w) (committed_prefix lg)"
proof -
  from assms(1) obtain flog blog slog tail where h: "wal_holds w flog blog"
    and sy: "fsynced (wal_file w) = log_bytes slog @ tail" "list_all entry_ok slog" "scan_blocks tail = []"
    and c: "prefix (committed_prefix slog) flog" unfolding wal_inv_def by blast
  have dur: "durable_log w = committed_prefix slog" using durable_log_eq [OF sy] .
  show ?thesis
  proof (cases "d = fsynced (wal_file w)")
    case True
    then show ?thesis using sy dur by (metis prefix_order.order_refl)
  next
    case False
    then have pd: "prefix d (log_bytes (flog @ blog))"
      and keep: "\<And>p. prefix p (fsynced (wal_file w)) \<Longrightarrow> prefix p (fdata (wal_file w)) \<Longrightarrow> prefix p d"
      using assms(2) h by (auto simp: crash_outcome_def wal_holds_def)
    have ok: "list_all entry_ok (flog @ blog)" using h by (simp add: wal_holds_def)
    obtain t where t: "d = log_bytes (scan_blocks d) @ t" "scan_blocks t = []" "list_all entry_ok (scan_blocks d)"
      using prefix_file_log [OF ok pd] by blast
    let ?c = "committed_prefix slog"
    have "prefix ?c slog" using committed_prefix_split [of slog] by (metis prefixI)
    then have "prefix (log_bytes ?c) d"
      using keep [of "log_bytes ?c"] sy(1) prefix_log_bytes [OF c] h prefix_log_bytes
      by (metis prefixI prefix_order.trans wal_holds_def)
    then obtain u where "d = log_bytes ?c @ u" by (auto elim: prefixE)
    then have "scan_blocks d = ?c @ scan_blocks u" using committed_prefix_ok [OF sy(2)] by (simp add: scan_log)
    then have "prefix ?c (committed_prefix (scan_blocks d))"
      using committed_prefix_closed [of slog "scan_blocks d"] by simp
    then show ?thesis using t dur by metis
  qed
qed

lemma sync_inv:
  assumes inv: "wal_inv w" and run: "sync IoOk w = (r, w')"
  shows "wal_inv w' \<and> prefix (durable_log w) (durable_log w')"
proof -
  from inv obtain flog blog slog tail where h: "wal_holds w flog blog"
    and sy: "fsynced (wal_file w) = log_bytes slog @ tail" "list_all entry_ok slog" "scan_blocks tail = []"
    and c: "prefix (committed_prefix slog) flog" unfolding wal_inv_def by blast
  show ?thesis
  proof (cases "blog = []")
    case True
    then have "w' = w" using run h by (simp add: sync_def wal_holds_def)
    then show ?thesis using inv by simp
  next
    case False
    with sync_holds [OF h run] have h': "wal_holds w' (flog @ blog) []" and f: "fsynced (wal_file w') = log_bytes (flog @ blog) @ []" by simp_all
    have ok: "list_all entry_ok (flog @ blog)" using h by (simp add: wal_holds_def)
    have e: "scan_blocks [] = []" by (rule scan_short) (simp add: SV_BLOCK_SIZE_def)
    have "prefix (committed_prefix (flog @ blog)) (flog @ blog)" using committed_prefix_split [of "flog @ blog"] by (metis prefixI)
    then have "wal_inv w'" unfolding wal_inv_def using h' f ok e by blast
    moreover have "durable_log w' = committed_prefix (flog @ blog)" using durable_log_eq [OF f ok e] .
    moreover have "prefix (committed_prefix slog) (committed_prefix (flog @ blog))"
      using committed_prefix_closed [of slog "flog @ blog"] c by (simp add: prefix_prefix)
    ultimately show ?thesis using durable_log_eq [OF sy] by simp
  qed
qed

lemma wal_step_inv:
  assumes "wal_inv w" "wal_step w w'"
  shows "wal_inv w' \<and> prefix (durable_log w) (durable_log w')"
  using assms(2)
proof cases
  case (step_append rec lsn)
  from assms(1) obtain flog blog slog tail where h: "wal_holds w flog blog"
    and sy: "fsynced (wal_file w) = log_bytes slog @ tail" "list_all entry_ok slog" "scan_blocks tail = []"
    and c: "prefix (committed_prefix slog) flog" unfolding wal_inv_def by blast
  from append_at_holds [OF h step_append] sy c
  have "wal_inv w'" unfolding wal_inv_def by metis
  moreover have "wal_file w' = wal_file w" using append_at_holds [OF h step_append] by simp
  ultimately show ?thesis by (simp add: durable_log_def)
next
  case step_sync
  then show ?thesis using sync_inv [OF assms(1)] by blast
next
  case (step_crash d)
  from crash_outcome_log [OF assms(1) step_crash(2)] obtain lg tail
    where d: "d = log_bytes lg @ tail" "list_all entry_ok lg" "scan_blocks tail = []"
      and p: "prefix (durable_log w) (committed_prefix lg)" by blast
  let ?f = "\<lparr>fdata = d, fsynced = d\<rparr>"
  have f: "fsynced (wal_file w') = log_bytes lg @ tail"
    unfolding step_crash(1) using d(1) by (simp add: wal_open_def split: prod.split)
  have "wal_holds w' (committed_prefix lg) []" unfolding step_crash(1) using d by (intro open_holds(1)) simp_all
  then have "wal_inv w'" unfolding wal_inv_def using f d by blast
  then show ?thesis using p durable_log_eq [OF f d(2,3)] by simp
qed

lemma wal_reachable_inv: "wal_reachable w \<Longrightarrow> wal_inv w"
  by (induction rule: wal_reachable.induct) (auto dest: wal_step_inv)

lemma wal_steps_inv: "wal_step\<^sup>*\<^sup>* w w' \<Longrightarrow> wal_inv w \<Longrightarrow> wal_inv w' \<and> prefix (durable_log w) (durable_log w')"
  by (induction rule: rtranclp_induct) (auto dest: wal_step_inv intro: prefix_order.trans)

section \<open>Appending a batch\<close>

fun append_all :: "Record list \<Rightarrow> Wal \<Rightarrow> StoreError + (Lsn list \<times> Wal)" where
  "append_all [] w = Inr ([], w)"
| "append_all (r # rs) w =
    and_then (wal_append r w) (\<lambda>(lsn, w). and_then (append_all rs w) (\<lambda>(lsns, w). Inr (lsn # lsns, w)))"

lemma max_add_1: "unat (x::u64) + 1 < 2 ^ 64 \<Longrightarrow> max x (x + 1) = x + 1"
  by (simp add: max_def word_le_nat_alt unat_add_small)

lemma append_all_holds:
  assumes "wal_holds w flog blog" "append_all rs w = Inr (lsns, w')" "list_all record_utf8 rs"
    and "unat (next_lsn w) + length rs < 2 ^ 64"
  shows "wal_holds w' flog (blog @ zip lsns rs) \<and> lsns = map (\<lambda>i. next_lsn w + of_nat i) [0..<length rs] \<and>
    next_lsn w' = next_lsn w + of_nat (length rs)"
  using assms
proof (induction rs arbitrary: w blog lsns)
  case Nil
  then show ?case by simp
next
  case (Cons r rs)
  from Cons.prems(2) obtain w1 ls where 1: "append_at r (next_lsn w) w = Inr w1" "append_all rs w1 = Inr (ls, w')"
    "lsns = next_lsn w # ls" by (auto simp: wal_append_Inr and_then_Inr)
  from append_at_holds [OF Cons.prems(1) 1(1)] Cons.prems(3)
  have h1: "wal_holds w1 flog (blog @ [(next_lsn w, r)])" and n: "next_lsn w1 = next_lsn w + 1"
    using Cons.prems(4) max_add_1 [of "next_lsn w"] by auto
  have "unat (next_lsn w1) = unat (next_lsn w) + 1" using Cons.prems(4) n by (simp add: unat_add_small)
  then have room: "unat (next_lsn w1) + length rs < 2 ^ 64" using Cons.prems(4) by simp
  have valid: "list_all record_utf8 rs" using Cons.prems(3) by simp
  from Cons.IH [OF h1 1(2) valid room]
  have h': "wal_holds w' flog ((blog @ [(next_lsn w, r)]) @ zip ls rs)"
    and ls: "ls = map (\<lambda>i. next_lsn w1 + of_nat i) [0..<length rs]" and n': "next_lsn w' = next_lsn w1 + of_nat (length rs)"
    by blast+
  have "lsns = map (\<lambda>i. next_lsn w + of_nat i) [0..<length (r # rs)]"
    unfolding 1(3) ls n by (simp add: upt_conv_Cons map_Suc_upt [symmetric] comp_def add.assoc del: upt_Suc)
  moreover have "wal_holds w' flog (blog @ zip lsns (r # rs))" using h' 1(3) by simp
  moreover have "next_lsn w' = next_lsn w + of_nat (length (r # rs))" using n n' by simp
  ultimately show ?case by blast
qed

section \<open>Properties\<close>

text \<open>
  What is logged and synced is read back: on every reachable log, a batch of records that \<open>append\<close>
  accepts gets consecutive LSNs, and after a successful \<open>sync\<close> a scan of the file returns the records
  that were in the file and the buffer before, followed by exactly the batch with these LSNs.\<close>

theorem wal_append_sync_scan:
  assumes "wal_reachable w" and "append_all rs w = Inr (lsns, w')" and "list_all record_utf8 rs" and "rs \<noteq> []"
    and "unat (next_lsn w) + length rs < 2 ^ 64"
  shows "\<exists>old. scan_blocks (fdata (wal_file w) @ wal_buf w) = old \<and>
    (let (r, w'') = sync IoOk w' in r = Inr () \<and> wal_buf w'' = [] \<and> fsynced (wal_file w'') = fdata (wal_file w'') \<and>
      scan (Some (fdata (wal_file w''))) = old @ zip lsns rs) \<and>
    lsns = map (\<lambda>i. next_lsn w + of_nat i) [0..<length rs]"
proof -
  obtain flog blog where h: "wal_holds w flog blog" using wal_reachable_inv [OF assms(1)] by (auto simp: wal_inv_def)
  note a = append_all_holds [OF h assms(2,3,5)]
  obtain r w'' where s: "sync IoOk w' = (r, w'')" by force
  have lz: "zip lsns rs \<noteq> []" using a assms(4) by (cases rs) (auto simp: upt_conv_Cons simp del: upt_Suc)
  have h': "wal_holds w' flog (blog @ zip lsns rs)" using a by (rule conjunct1)
  have h'': "r = Inr () \<and> wal_holds w'' (flog @ blog @ zip lsns rs) []" using sync_holds(1) [OF h' s] by simp
  have f: "fsynced (wal_file w'') = log_bytes (flog @ blog @ zip lsns rs)" using sync_holds(2) [OF h' s] lz by simp
  have "scan_blocks (fdata (wal_file w) @ wal_buf w) = flog @ blog"
    using h scan_log [of "flog @ blog" "[]"] scan_short [of "[]"] by (simp add: wal_holds_def SV_BLOCK_SIZE_def)
  moreover have "scan (Some (fdata (wal_file w''))) = (flog @ blog) @ zip lsns rs"
    using h'' scan_log [of "flog @ blog @ zip lsns rs" "[]"] scan_short [of "[]"] by (simp add: scan_def wal_holds_def SV_BLOCK_SIZE_def)
  moreover have "wal_buf w'' = []" "fsynced (wal_file w'') = fdata (wal_file w'')" using h'' f by (simp_all add: wal_holds_def)
  ultimately show ?thesis using a s h'' by simp
qed

theorem wal_append_sync_scan_witness:
  "\<exists>w'. append_all [Commit 7, SegmentSeal 0 1] (wal_open None) = Inr ([1, 2], w') \<and>
     scan (Some (fdata (wal_file (snd (sync IoOk w'))))) = [(1, Commit 7), (2, SegmentSeal 0 1)]"
proof -
  note o = wal_open_None
  obtain w' where a: "append_all [Commit 7, SegmentSeal 0 1] (wal_open None) = Inr ([1, 2], w')"
    by (auto simp: o wal_append_def append_at_eq record_size_def Let_def)
  have u: "list_all record_utf8 [Commit 7, SegmentSeal 0 1]" by (simp add: record_utf8_def record_strings_def)
  have "scan_blocks [] = []" by (simp add: scan_short SV_BLOCK_SIZE_def)
  then show ?thesis
    using wal_append_sync_scan [OF reach_new a u] a by (simp add: o case_prod_beta Let_def)
qed



text \<open>
  A commit takes effect: when \<open>append\<close> of a \<open>Commit\<close> and the \<open>sync\<close> after it succeed on a
  reachable log, every record logged so far, the commit last, is durable.\<close>

theorem wal_commit_durable:
  assumes "wal_reachable w" and "wal_append (Commit c) w = Inr (lsn, w')" and "sync IoOk w' = (Inr (), w'')"
  shows "durable_log w'' = scan_blocks (fdata (wal_file w) @ wal_buf w) @ [(lsn, Commit c)]"
proof -
  obtain flog blog where h: "wal_holds w flog blog" using wal_reachable_inv [OF assms(1)] by (auto simp: wal_inv_def)
  have a: "append_at (Commit c) lsn w = Inr w'" using assms(2) by (auto simp: wal_append_Inr)
  have h': "wal_holds w' flog (blog @ [(lsn, Commit c)])"
    using append_at_holds [OF h a] by (simp add: record_utf8_def record_strings_def)
  have ok: "list_all entry_ok (flog @ blog @ [(lsn, Commit c)])" using h' by (simp add: wal_holds_def)
  have f: "fsynced (wal_file w'') = log_bytes (flog @ blog @ [(lsn, Commit c)]) @ []"
    using sync_holds(2) [OF h' assms(3)] by simp
  have e: "scan_blocks [] = []" by (rule scan_short) (simp add: SV_BLOCK_SIZE_def)
  have "scan_blocks (fdata (wal_file w) @ wal_buf w) = flog @ blog"
    using h scan_log [of "flog @ blog" "[]"] e by (simp add: wal_holds_def)
  then show ?thesis
    using durable_log_eq [OF f ok e] committed_prefix_snoc [of "flog @ blog"] by (simp add: is_commit_def)
qed

theorem wal_commit_durable_witness:
  "\<exists>w' w''. wal_append (Commit 7) (wal_open None) = Inr (1, w') \<and> sync IoOk w' = (Inr (), w'') \<and>
     durable_log w'' = [(1, Commit 7)]"
proof -
  note o = wal_open_None
  obtain w' where a: "wal_append (Commit 7) (wal_open None) = Inr (1, w')"
    by (auto simp: o wal_append_def append_at_eq record_size_def)
  moreover obtain w'' where s: "sync IoOk w' = (Inr (), w'')" using sync_IoOk by blast
  moreover have "scan_blocks [] = []" by (simp add: scan_short SV_BLOCK_SIZE_def)
  ultimately show ?thesis using wal_commit_durable [OF reach_new a s] by (auto simp: o)
qed

text \<open>
  The scan never skips: a log cut at any byte yields exactly the entries whose blocks are complete
  in it, and a block that does not decode ends the scan at the entry before it, whatever follows.\<close>

theorem wal_scan_prefix:
  assumes "list_all entry_ok lg" and "length bad = SV_BLOCK_SIZE" and "decode bad = Inl e"
  shows "scan (Some (take n (log_bytes lg))) = take (n div SV_BLOCK_SIZE) lg \<and>
    scan (Some (log_bytes lg @ bad @ rest)) = lg"
proof
  show "scan (Some (take n (log_bytes lg))) = take (n div SV_BLOCK_SIZE) lg"
    by (simp add: scan_def scan_prefix [OF assms(1)])
  have "scan_blocks (bad @ rest) = []" using assms(2,3) by (intro scan_bad_tail) (simp add: next_block_def)
  then show "scan (Some (log_bytes lg @ bad @ rest)) = lg" by (simp add: scan_def scan_log [OF assms(1)])
qed

theorem wal_scan_prefix_witness:
  "scan (Some (log_bytes [(1, Commit 7)] @ replicate 4096 (- 1) @ [1, 2, 3])) = [(1, Commit 7)]"
proof -
  have ok: "list_all entry_ok [(1, Commit 7)]"
    by (simp add: entry_ok_def record_size_def record_utf8_def record_strings_def)
  have l: "length (replicate 4096 (- 1 :: u8)) = 4096" by (rule length_replicate)
  have "take 4 (drop 8 (replicate 4096 (- 1 :: u8))) = replicate 4 (- 1)"
    by (simp only: drop_replicate take_replicate) simp
  moreover have "(from_le (replicate 4 (- 1)) :: u32) = - 1"
    by (rule bit_eqI) (auto simp: bit_from_le bit_minus_1_iff)
  ultimately have "sv_get_u32le (replicate 4096 (- 1)) 8 = - 1" by (simp only: sv_get_u32le_def)
  moreover have "unat (- 1 :: u32) = 4294967295" by (simp add: unsigned_minus_1_eq_mask mask_eq_exp_minus_1)
  ultimately have "4072 < unat (sv_get_u32le (replicate 4096 (- 1)) 8)" by presburger
  then have "decode (replicate 4096 (- 1)) = Inl Len" unfolding decode_eq [OF l] Let_def by simp
  from wal_scan_prefix [OF ok _ this] l show ?thesis unfolding SV_BLOCK_SIZE_def by blast
qed

text \<open>
  Recovery keeps exactly the committed records and is idempotent: opening a log with an arbitrary
  unreadable tail leaves in the file the entries up to the last commit and nothing else, starts a
  clean buffer, and opening the result again changes nothing in the file.\<close>

theorem wal_open_recovers:
  assumes "fdata f = log_bytes lg @ tail" and "list_all entry_ok lg" and "scan_blocks tail = []"
  shows "let w = wal_open (Some f) in
    scan (Some (fdata (wal_file w))) = committed_prefix lg \<and> wal_buf w = [] \<and> \<not> dirty w \<and>
    next_lsn w = high_water_of lg + 1 \<and>
    fdata (wal_file (wal_open (Some (wal_file w)))) = fdata (wal_file w)"
proof -
  let ?w = "wal_open (Some f)"
  note o = open_holds [OF assms]
  have ok: "list_all entry_ok (committed_prefix lg)" using committed_prefix_ok [OF assms(2)] .
  have e: "scan_blocks [] = []" by (rule scan_short) (simp add: SV_BLOCK_SIZE_def)
  have "fdata (wal_file (wal_open (Some (wal_file ?w)))) = log_bytes (committed_prefix (committed_prefix lg))"
    by (rule open_holds(3) [OF _ ok e]) (simp add: o(3))
  then show ?thesis
    using o scan_log [OF ok, of "[]"] e by (simp add: wal_holds_def scan_def Let_def)
qed

theorem wal_open_recovers_witness:
  "scan (Some (fdata (wal_file (wal_open (Some \<lparr>fdata = log_bytes [(1, Commit 0), (2, SegmentSeal 0 1)] @ [9], fsynced = []\<rparr>))))) =
     [(1, Commit 0)]"
proof -
  let ?lg = "[(1, Commit 0), (2, SegmentSeal 0 1)]"
  have 1: "list_all entry_ok ?lg" by (simp add: entry_ok_def record_size_def record_utf8_def record_strings_def)
  have 2: "scan_blocks [9] = []" by (rule scan_short) (simp add: SV_BLOCK_SIZE_def)
  have "committed_prefix ?lg = [(1, Commit 0)]" by (simp add: committed_prefix_def is_commit_def)
  then show ?thesis
    using wal_open_recovers [of "\<lparr>fdata = log_bytes ?lg @ [9], fsynced = []\<rparr>" ?lg "[9]"] 1 2 by (simp add: Let_def)
qed

text \<open>
  LSNs can be reused across recoveries. Recovery drops the uncommitted tail of the log, and with it
  the block LSNs that a second recovery would need to stay above them: after a crash that leaves
  uncommitted records, opening the log twice hands out a smaller next LSN the second time.\<close>

theorem wal_lsn_reuse:
  assumes "list_all entry_ok (lg @ [(l, Commit c)] @ rest)" and "rest \<noteq> []"
    and "list_all (\<lambda>e. \<not> is_commit (snd e)) rest"
    and "max c l < fst (last rest)" and "unat (fst (last rest)) + 1 < 2 ^ 64"
  shows "next_lsn (wal_open (Some (wal_file (wal_open (Some \<lparr>fdata = log_bytes (lg @ [(l, Commit c)] @ rest), fsynced = d\<rparr>)))))
    < next_lsn (wal_open (Some \<lparr>fdata = log_bytes (lg @ [(l, Commit c)] @ rest), fsynced = d\<rparr>))"
proof -
  let ?lg = "lg @ [(l, Commit c)]"
  let ?f = "\<lparr>fdata = log_bytes (?lg @ rest), fsynced = d\<rparr>"
  have e: "scan_blocks [] = []" by (rule scan_short) (simp add: SV_BLOCK_SIZE_def)
  have cp: "committed_prefix (?lg @ rest) = ?lg" "committed_prefix ?lg = ?lg"
    using committed_prefix_append [OF assms(3), of ?lg] by (simp_all add: committed_prefix_snoc is_commit_def)
  have ok: "list_all entry_ok (?lg @ rest)" "list_all entry_ok ?lg" using assms(1) by simp_all
  have f: "fdata ?f = log_bytes (?lg @ rest) @ []" by simp
  have 1: "next_lsn (wal_open (Some ?f)) = fst (last rest) + 1"
    using open_holds(2) [OF f ok(1) e] assms(2,4) cp by (simp add: high_water_of_def max_def split: if_splits)
  have d: "fdata (wal_file (wal_open (Some ?f))) = log_bytes ?lg @ []" using open_holds(3) [OF f ok(1) e] cp by simp
  have 2: "next_lsn (wal_open (Some (wal_file (wal_open (Some ?f))))) = max c l + 1"
    using open_holds(2) [OF d ok(2) e] cp by (simp add: high_water_of_def)
  have "max c l + 1 < fst (last rest) + 1"
    using assms(4,5) by (simp add: word_less_nat_alt unat_add_small)
  then show ?thesis using 1 2 by simp
qed

theorem wal_lsn_reuse_witness:
  "next_lsn (wal_open (Some (wal_file (wal_open (Some \<lparr>fdata = log_bytes ([] @ [(1, Commit 1)] @ [(2, SegmentSeal 0 1)]), fsynced = []\<rparr>)))))
    < next_lsn (wal_open (Some \<lparr>fdata = log_bytes ([] @ [(1, Commit 1)] @ [(2, SegmentSeal 0 1)]), fsynced = []\<rparr>))"
  by (rule wal_lsn_reuse)
     (simp_all add: entry_ok_def record_size_def record_utf8_def record_strings_def is_commit_def word_less_nat_alt)

text \<open>
  A failed \<open>sync_data\<close> is not retryable: the buffer is kept although its blocks are already in the
  file, so the next successful \<open>sync\<close> appends every buffered record a second time.\<close>

theorem wal_sync_retry_duplicates:
  assumes "wal_holds w flog blog" and "blog \<noteq> []"
  shows "let (r1, w1) = sync FsyncErr w; (r2, w2) = sync IoOk w1 in
    r1 = Inl (Io OtherKind) \<and> r2 = Inr () \<and> scan (Some (fdata (wal_file w2))) = flog @ blog @ blog"
proof -
  have "scan_blocks (log_bytes (flog @ blog @ blog) @ []) = flog @ blog @ blog"
    using assms scan_log [of "flog @ blog @ blog" "[]"] scan_short [of "[]"] by (simp add: wal_holds_def SV_BLOCK_SIZE_def)
  then show ?thesis using assms by (simp add: sync_def wal_holds_def scan_def Let_def)
qed

theorem wal_sync_retry_duplicates_witness:
  "\<exists>w. append_at (Commit 7) 1 (wal_open None) = Inr w \<and>
     scan (Some (fdata (wal_file (snd (sync IoOk (snd (sync FsyncErr w))))))) = [(1, Commit 7), (1, Commit 7)]"
proof -
  obtain w where a: "append_at (Commit 7) 1 (wal_open None) = Inr w" by (auto simp: append_at_eq record_size_def)
  have "wal_holds (wal_open None) [] []"
    by (simp add: wal_holds_def wal_open_def replay_def replay_eq scan_def set_len_def)
  from append_at_holds [OF this a] have "wal_holds w [] [(1, Commit 7)]"
    by (simp add: record_utf8_def record_strings_def)
  from wal_sync_retry_duplicates [OF this] show ?thesis using a by (auto simp: case_prod_beta Let_def)
qed

end
