(* ===== verification/Disk.thy ===== *)
theory Disk
  imports Wal
begin

text \<open>
  The part of the file system the segment store uses: a directory that maps names to inodes, and
  inodes with their current and their synced contents. A handle is an inode number, so a file that
  was renamed or unlinked stays readable through the handles that are open on it. Also here: the names of
  segment files (\<^verbatim>\<open>segment.rs\<close>) and the operations that keep their state when they fail.
\<close>

section \<open>Directories and files\<close>

record disk =
  dir_entries :: "(string \<times> nat) list"
  inodes :: "os_file list"

definition empty_file :: os_file where
  "empty_file = \<lparr>fdata = [], fsynced = []\<rparr>"

definition file_data :: "disk \<Rightarrow> nat \<Rightarrow> bytes" where
  "file_data d i = (if i < length (inodes d) then fdata (inodes d ! i) else [])"

definition set_data :: "nat \<Rightarrow> bytes \<Rightarrow> disk \<Rightarrow> disk" where
  "set_data i bs d = d\<lparr>inodes := (inodes d)[i := (inodes d ! i)\<lparr>fdata := bs\<rparr>]\<rparr>"

definition lookup_file :: "string \<Rightarrow> disk \<Rightarrow> nat option" where
  "lookup_file name d = map_of (dir_entries d) name"

text \<open>\<open>OpenOptions::create(true)\<close>: the handle of the named file, which is made if it is missing.\<close>

definition open_create :: "string \<Rightarrow> disk \<Rightarrow> nat \<times> disk" where
  "open_create name d = (case lookup_file name d of
     Some i \<Rightarrow> (i, d)
   | None \<Rightarrow> (length (inodes d),
       \<lparr>dir_entries = AList.update name (length (inodes d)) (dir_entries d), inodes = inodes d @ [empty_file]\<rparr>))"

definition open_truncate :: "string \<Rightarrow> disk \<Rightarrow> nat \<times> disk" where
  "open_truncate name d = (let (i, d) = open_create name d in (i, set_data i [] d))"

definition pwrite :: "nat \<Rightarrow> bytes \<Rightarrow> bytes \<Rightarrow> bytes" where
  "pwrite off bs data = (if bs = [] then data
     else take off data @ replicate (off - length data) 0 @ bs @ drop (off + length bs) data)"

definition write_file :: "nat \<Rightarrow> nat \<Rightarrow> bytes \<Rightarrow> disk \<Rightarrow> disk" where
  "write_file i off bs d = set_data i (pwrite off bs (file_data d i)) d"

definition sync_data :: "nat \<Rightarrow> disk \<Rightarrow> disk" where
  "sync_data i d = d\<lparr>inodes := (inodes d)[i := (inodes d ! i)\<lparr>fsynced := fdata (inodes d ! i)\<rparr>]\<rparr>"

definition rename_file :: "string \<Rightarrow> string \<Rightarrow> disk \<Rightarrow> (StoreError + disk)" where
  "rename_file old new d = (case lookup_file old d of
     None \<Rightarrow> Inl (Io NotFound)
   | Some i \<Rightarrow> Inr (d\<lparr>dir_entries := AList.update new i (AList.delete old (dir_entries d))\<rparr>))"

definition open_existing :: "string \<Rightarrow> disk \<Rightarrow> StoreError + nat" where
  "open_existing name d = (case lookup_file name d of None \<Rightarrow> Inl (Io NotFound) | Some i \<Rightarrow> Inr i)"

definition remove_file :: "string \<Rightarrow> disk \<Rightarrow> disk" where
  "remove_file name d = d\<lparr>dir_entries := AList.delete name (dir_entries d)\<rparr>"

section \<open>Segment names\<close>

definition SEG_PREFIX :: string where "SEG_PREFIX = ''seg-''"
definition SEG_SUFFIX :: string where "SEG_SUFFIX = ''.dat''"

definition pad8 :: "string \<Rightarrow> string" where
  "pad8 s = replicate (8 - length s) (CHR ''0'') @ s"

definition seg_name :: "u64 \<Rightarrow> string" where
  "seg_name sid = SEG_PREFIX @ pad8 (show_nat (unat sid)) @ SEG_SUFFIX"

definition tmp_name :: "u64 \<Rightarrow> string" where
  "tmp_name sid = SEG_PREFIX @ pad8 (show_nat (unat sid)) @ SEG_SUFFIX @ ''.tmp''"

definition strip_prefix :: "string \<Rightarrow> string \<Rightarrow> string option" where
  "strip_prefix p s = (if take (length p) s = p then Some (drop (length p) s) else None)"

definition strip_suffix :: "string \<Rightarrow> string \<Rightarrow> string option" where
  "strip_suffix p s = (if length p \<le> length s \<and> drop (length s - length p) s = p
     then Some (take (length s - length p) s) else None)"

definition ends_with :: "string \<Rightarrow> string \<Rightarrow> bool" where
  "ends_with p s = (strip_suffix p s \<noteq> None)"

definition is_digit :: "char \<Rightarrow> bool" where
  "is_digit c \<longleftrightarrow> 48 \<le> (of_char c :: nat) \<and> (of_char c :: nat) \<le> 57"

definition parse_digits :: "string \<Rightarrow> nat" where
  "parse_digits s = foldl (\<lambda>n c. 10 * n + (of_char c - 48)) 0 s"

definition parse_segment_name :: "string \<Rightarrow> u64 option" where
  "parse_segment_name name = do {
     rest \<leftarrow> strip_prefix SEG_PREFIX name;
     rest \<leftarrow> strip_suffix SEG_SUFFIX rest;
     if length rest \<noteq> 8 \<or> \<not> list_all is_digit rest then None else Some (of_nat (parse_digits rest))
   }"

lemma parse_digits_snoc: "parse_digits (s @ [c]) = 10 * parse_digits s + (of_char c - 48)"
  by (simp add: parse_digits_def)

lemma parse_digits_show: "parse_digits (show_nat n) = n"
proof (induction n rule: show_nat.induct)
  case (1 n)
  have digit: "of_char (char_of (48 + d) :: char) - 48 = d" if "d < 10" for d :: nat using that by simp
  show ?case
  proof (cases "n < 10")
    case True
    then show ?thesis using digit [of n] by (simp add: show_nat.simps [of n] parse_digits_def)
  next
    case False
    then show ?thesis using 1 digit [of "n mod 10"]
      by (simp add: show_nat.simps [of n] parse_digits_snoc)
  qed
qed

lemma digits_show_nat: "list_all is_digit (show_nat n)"
proof (induction n rule: show_nat.induct)
  case (1 n)
  have "n mod 10 \<le> 9" using mod_less_divisor [of 10 n] by linarith
  then show ?case using 1 by (simp add: show_nat.simps [of n] is_digit_def)
qed

lemma show_nat_inj: "show_nat m = show_nat n \<longleftrightarrow> m = n"
  by (metis parse_digits_show)

section \<open>Operations that keep their state when they fail\<close>

type_synonym ('s, 'a) op = "'s \<Rightarrow> (StoreError + 'a) \<times> 's"

definition ret :: "'a \<Rightarrow> ('s, 'a) op" where
  "ret x s = (Inr x, s)"

definition fail :: "StoreError \<Rightarrow> ('s, 'a) op" where
  "fail e s = (Inl e, s)"

definition op_bind :: "('s, 'a) op \<Rightarrow> ('a \<Rightarrow> ('s, 'b) op) \<Rightarrow> ('s, 'b) op" where
  "op_bind m f s = (case m s of (Inl e, s') \<Rightarrow> (Inl e, s') | (Inr x, s') \<Rightarrow> f x s')"

definition modify :: "('s \<Rightarrow> 's) \<Rightarrow> ('s, unit) op" where
  "modify f s = (Inr (), f s)"

definition gets :: "('s \<Rightarrow> 'a) \<Rightarrow> ('s, 'a) op" where
  "gets f s = (Inr (f s), s)"

definition lift_result :: "('s \<Rightarrow> StoreError + 'a) \<Rightarrow> ('s, 'a) op" where
  "lift_result f s = (f s, s)"

fun op_for :: "('x \<Rightarrow> ('s, unit) op) \<Rightarrow> 'x list \<Rightarrow> ('s, unit) op" where
  "op_for f [] = ret ()"
| "op_for f (x # xs) = op_bind (f x) (\<lambda>_. op_for f xs)"

named_theorems op_simps

lemma op_basic [op_simps]:
  "ret x s = (Inr x, s)" "fail e s = (Inl e, s)" "modify g s = (Inr (), g s)" "gets h s = (Inr (h s), s)"
  "lift_result k s = (k s, s)"
  by (simp_all add: ret_def fail_def modify_def gets_def lift_result_def)

lemma op_bind_Inr: "op_bind m f s = (Inr y, s'') \<longleftrightarrow> (\<exists>x s'. m s = (Inr x, s') \<and> f x s' = (Inr y, s''))"
  by (auto simp: op_bind_def split: prod.splits sum.splits)

lemma op_bind_run [op_simps]: "m s = (Inr x, s') \<Longrightarrow> op_bind m f s = f x s'" "m s = (Inl e, s') \<Longrightarrow> op_bind m f s = (Inl e, s')"
  by (simp_all add: op_bind_def)

end
