(* ===== verification/Store.thy ===== *)
theory Store
  imports Disk
begin

text \<open>
  The segment store of \<^verbatim>\<open>crates/shardvault-core/src/segment.rs\<close>: staging, committing and reading values,
  compaction, the follower's application of leader records, and recovery. \<open>Inner\<close> is the state behind the
  write lock with the contents of its directory; \<open>Snap\<close> is the published snapshot that readers use.
  An operation that fails keeps the state it has reached, as the code does. A loop over a
  \<open>HashMap\<close> visits the association list in its order, which stands for the unspecified one.
\<close>

section \<open>State\<close>

type_synonym loc = "u64 \<times> u64 \<times> u32 \<times> Lsn"
type_synonym put_loc = "str \<times> u64 \<times> u64 \<times> u32"

record StagedPut =
  object_id :: Lsn
  staged_records :: "entry list"

record CompactStage =
  cs_records :: "entry list"
  cs_freed :: u64
  cs_old_id :: u64
  cs_new_id :: u64
  cs_entries :: "RemapEntry list"
  cs_dropped :: "Lsn list"
  cs_file :: nat

record PendingSwap =
  ps_lsn :: Lsn
  ps_old :: u64
  ps_new :: u64
  ps_file :: nat
  ps_entries :: "RemapEntry list"

record Inner =
  dir :: disk
  segment_max_bytes :: u64
  wal :: Wal
  segments :: "(u64 \<times> nat) list"
  index :: "(str \<times> loc) list"
  put_locations :: "(Lsn \<times> put_loc) list"
  rollup :: Rollup
  active_id :: u64
  active_offset :: u64
  pending :: bool
  committed_lsn :: Lsn
  last_commit_block :: Lsn
  applied_upto :: Lsn
  dirty_segments :: "u64 list"
  sealed :: "u64 list"
  next_free_id :: u64
  pending_swap :: "PendingSwap option"
  retired_segments :: "(Lsn \<times> u64) list"

record Snap =
  snap_committed :: Lsn
  snap_index :: "(str \<times> loc) list"
  snap_files :: "(u64 \<times> nat) list"
  snap_put_locations :: "(Lsn \<times> put_loc) list"
  snap_rollup :: Rollup

record Store =
  inner :: Inner
  snap :: Snap

definition Snap_from :: "Inner \<Rightarrow> Snap" where
  "Snap_from s = \<lparr>snap_committed = committed_lsn s, snap_index = index s, snap_files = segments s,
     snap_put_locations = put_locations s, snap_rollup = rollup s\<rparr>"

definition publish :: "Store \<Rightarrow> Store" where
  "publish st = st\<lparr>snap := Snap_from (inner st)\<rparr>"

section \<open>Reading\<close>

text \<open>The read loop ends with an error when the file ends before \<open>len\<close> bytes were read.\<close>

definition read_value :: "bytes \<Rightarrow> u64 \<Rightarrow> u32 \<Rightarrow> StoreError + bytes" where
  "read_value data offset len =
    (if unat len = 0 \<or> unat offset + unat len \<le> length data
     then Inr (take (unat len) (drop (unat offset) data))
     else Inl (Corrupt ''short segment read''))"

definition read_snap :: "Store \<Rightarrow> u64 \<Rightarrow> u64 \<Rightarrow> u32 \<Rightarrow> StoreError + bytes" where
  "read_snap st seg offset len = (case map_of (snap_files (snap st)) seg of
     None \<Rightarrow> Inl (Corrupt (''segment '' @ seg_name seg @ '' not open''))
   | Some file \<Rightarrow> read_value (file_data (dir (inner st)) file) offset len)"

definition store_get :: "Store \<Rightarrow> str \<Rightarrow> StoreError + bytes option" where
  "store_get st key = (case map_of (snap_index (snap st)) key of
     None \<Rightarrow> Inr None
   | Some (seg, offset, len, lsn) \<Rightarrow> and_then (read_snap st seg offset len) (\<lambda>v. Inr (Some v)))"

definition get_upto :: "Store \<Rightarrow> str \<Rightarrow> Lsn \<Rightarrow> StoreError + bytes option" where
  "get_upto st key committed = (case map_of (snap_index (snap st)) key of
     None \<Rightarrow> Inr None
   | Some (seg, offset, len, lsn) \<Rightarrow>
       if lsn > committed then Inr None
       else and_then (read_snap st seg offset len) (\<lambda>v. Inr (Some v)))"

definition value_at :: "Store \<Rightarrow> Lsn \<Rightarrow> StoreError + bytes" where
  "value_at st lsn = (case map_of (snap_put_locations (snap st)) lsn of
     None \<Rightarrow> Inl (Corrupt (''no put at lsn '' @ show_nat (unat lsn)))
   | Some (key, seg, offset, len) \<Rightarrow> read_snap st seg offset len)"

definition scan_wal :: "Store \<Rightarrow> entry list" where
  "scan_wal st = scan (Some (fdata (wal_file (wal (inner st)))))"

definition capacity :: "Store \<Rightarrow> str \<Rightarrow> Aggregate" where
  "capacity st pre = rollup_get (snap_rollup (snap st)) pre"

definition store_next_lsn :: "Store \<Rightarrow> Lsn" where
  "store_next_lsn st = next_lsn (wal (inner st))"

definition store_committed_lsn :: "Store \<Rightarrow> Lsn" where
  "store_committed_lsn st = snap_committed (snap st)"

definition store_keys :: "Store \<Rightarrow> str list" where
  "store_keys st = map fst (snap_index (snap st))"

definition committed_keys :: "Store \<Rightarrow> (str \<times> u32) list" where
  "committed_keys st = map (\<lambda>(k, seg, off, len, lsn). (k, len))
     (filter (\<lambda>(k, seg, off, len, lsn). lsn \<le> snap_committed (snap st)) (snap_index (snap st)))"

text \<open>Keys are sorted by their bytes, then by length of the value, as tuples of a string and an integer are.\<close>

fun bytes_le :: "bytes \<Rightarrow> bytes \<Rightarrow> bool" where
  "bytes_le [] ys = True"
| "bytes_le (x # xs) [] = False"
| "bytes_le (x # xs) (y # ys) = (x < y \<or> x = y \<and> bytes_le xs ys)"

definition key_le :: "str \<times> u32 \<Rightarrow> str \<times> u32 \<Rightarrow> bool" where
  "key_le a b = (if fst a = fst b then snd a \<le> snd b else bytes_le (fst a) (fst b))"

fun insert_sorted :: "str \<times> u32 \<Rightarrow> (str \<times> u32) list \<Rightarrow> (str \<times> u32) list" where
  "insert_sorted x [] = [x]"
| "insert_sorted x (y # ys) = (if key_le x y then x # y # ys else y # insert_sorted x ys)"

definition sort_keys :: "(str \<times> u32) list \<Rightarrow> (str \<times> u32) list" where
  "sort_keys ks = foldr insert_sorted ks []"

definition keys_with_prefix :: "Store \<Rightarrow> str \<Rightarrow> (str \<times> u32) list" where
  "keys_with_prefix st pre =
    sort_keys (map (\<lambda>(k, seg, off, len, lsn). (k, len))
      (filter (\<lambda>(k, seg, off, len, lsn). under_prefix pre k)
        (filter (\<lambda>(k, seg, off, len, lsn). lsn \<le> snap_committed (snap st)) (snap_index (snap st)))))"

section \<open>Segments and the log\<close>

definition open_segment :: "u64 \<Rightarrow> (Inner, unit) op" where
  "open_segment sid s =
    (if map_of (segments s) sid \<noteq> None then (Inr (), s)
     else let (file, d) = open_create (seg_name sid) (dir s)
          in (Inr (), s\<lparr>dir := d, segments := AList.update sid file (segments s)\<rparr>))"

definition write_value :: "bytes \<Rightarrow> (Inner, unit) op" where
  "write_value v s = (case map_of (segments s) (active_id s) of
     None \<Rightarrow> (Inl (Corrupt ''active segment not open''), s)
   | Some file \<Rightarrow> (Inr (), s\<lparr>dir := write_file file (unat (active_offset s)) v (dir s)\<rparr>))"

definition inner_append :: "Record \<Rightarrow> (Inner, Lsn) op" where
  "inner_append rec s = (case wal_append rec (wal s) of
     Inl e \<Rightarrow> (Inl e, s) | Inr (lsn, w) \<Rightarrow> (Inr lsn, s\<lparr>wal := w\<rparr>))"

definition inner_append_at :: "Record \<Rightarrow> Lsn \<Rightarrow> (Inner, unit) op" where
  "inner_append_at rec lsn s = (case append_at rec lsn (wal s) of
     Inl e \<Rightarrow> (Inl e, s) | Inr w \<Rightarrow> (Inr (), s\<lparr>wal := w\<rparr>))"

definition inner_sync :: "sync_io \<Rightarrow> (Inner, unit) op" where
  "inner_sync io s = (let (r, w) = sync io (wal s) in (r, s\<lparr>wal := w\<rparr>))"

definition seal_active_record :: "(Inner, entry) op" where
  "seal_active_record =
    op_bind (gets (\<lambda>s. (next_lsn (wal s), next_free_id s, active_id s))) (\<lambda>(lsn, nxt, act).
    op_bind (modify (\<lambda>s. s\<lparr>next_free_id := nxt + 1\<rparr>)) (\<lambda>_.
    op_bind (inner_append (SegmentSeal act nxt)) (\<lambda>_.
    op_bind (modify (\<lambda>s. s\<lparr>pending := True, sealed := sealed s @ [act], active_id := nxt, active_offset := 0\<rparr>)) (\<lambda>_.
    ret (lsn, SegmentSeal act nxt)))))"

definition fsync_dirty_segments :: "Inner \<Rightarrow> Inner" where
  "fsync_dirty_segments s = s\<lparr>dir := fold (\<lambda>sid d. case map_of (segments s) sid of
     None \<Rightarrow> d | Some file \<Rightarrow> sync_data file d) (dirty_segments s) (dir s)\<rparr>"

section \<open>Staging and committing\<close>

definition stage_body :: "str \<Rightarrow> bytes \<Rightarrow> (Inner, Lsn \<times> entry list) op" where
  "stage_body key v =
    op_bind (gets active_id) (\<lambda>act.
    op_bind (open_segment act) (\<lambda>_.
    op_bind (write_value v) (\<lambda>_.
    op_bind (gets (\<lambda>s. next_lsn (wal s))) (\<lambda>put_lsn.
    let put_rec = Put key (of_nat (length v)) put_lsn in
    op_bind (inner_append put_rec) (\<lambda>_.
    op_bind (gets (\<lambda>s. (next_lsn (wal s), AggDelta (deltas_for (rollup s) key (of_nat (length v)))))) (\<lambda>(agg_lsn, agg_rec).
    op_bind (inner_append agg_rec) (\<lambda>_.
    op_bind (modify (\<lambda>s. s\<lparr>
        index := AList.update key (active_id s, active_offset s, of_nat (length v), put_lsn) (index s),
        put_locations := AList.update put_lsn (key, active_id s, active_offset s, of_nat (length v)) (put_locations s),
        rollup := rollup_record key (of_nat (length v)) (rollup s),
        active_offset := active_offset s + of_nat (length v),
        dirty_segments := List.insert (active_id s) (dirty_segments s),
        pending := True\<rparr>)) (\<lambda>_.
    ret (put_lsn, [(put_lsn, put_rec), (agg_lsn, agg_rec)])))))))))"

definition inner_stage_put :: "str \<Rightarrow> bytes \<Rightarrow> (Inner, StagedPut) op" where
  "inner_stage_put key v =
    (if length v > 4294967295 then fail RecordTooLarge
     else
      op_bind (gets (\<lambda>s. active_offset s > 0 \<and> active_offset s + of_nat (length v) > segment_max_bytes s)) (\<lambda>seal_first.
      op_bind (if seal_first then op_bind seal_active_record (\<lambda>r. ret [r]) else ret []) (\<lambda>rs0.
      op_bind (stage_body key v) (\<lambda>(put_lsn, rs1).
      op_bind (gets (\<lambda>s. (of_nat (length v) :: u64) > segment_max_bytes s)) (\<lambda>seal_after.
      op_bind (if seal_after then op_bind seal_active_record (\<lambda>r. ret [r]) else ret []) (\<lambda>rs2.
      ret \<lparr>object_id = put_lsn, staged_records = rs0 @ rs1 @ rs2\<rparr>))))))"

text \<open>An operation of the store that runs under the write lock and publishes nothing.\<close>

definition locked :: "(Inner, 'a) op \<Rightarrow> (Store, 'a) op" where
  "locked m st = (let (r, s) = m (inner st) in (r, st\<lparr>inner := s\<rparr>))"

definition stage_put :: "str \<Rightarrow> bytes \<Rightarrow> (Store, StagedPut) op" where
  "stage_put key v = locked (inner_stage_put key v)"

definition store_put :: "str \<Rightarrow> bytes \<Rightarrow> (Store, Lsn) op" where
  "store_put key v = op_bind (stage_put key v) (\<lambda>staged. ret (object_id staged))"

definition inner_commit :: "sync_io \<Rightarrow> Lsn \<Rightarrow> (Inner, unit) op" where
  "inner_commit io lsn =
    op_bind (modify fsync_dirty_segments) (\<lambda>_.
    op_bind (inner_append (Commit lsn)) (\<lambda>_.
    op_bind (inner_sync io) (\<lambda>_.
    modify (\<lambda>s. let commit_block = next_lsn (wal s) - 1 in s\<lparr>
      committed_lsn := max (committed_lsn s) lsn,
      last_commit_block := max (last_commit_block s) commit_block,
      applied_upto := max (applied_upto s) commit_block,
      pending := False,
      dirty_segments := []\<rparr>))))"

definition commit :: "sync_io \<Rightarrow> Lsn \<Rightarrow> (Store, unit) op" where
  "commit io lsn st =
    (if \<not> pending (inner st) then (Inr (), st)
     else op_bind (locked (inner_commit io lsn)) (\<lambda>_. modify publish) st)"

definition flush :: "sync_io \<Rightarrow> (Store, unit) op" where
  "flush io st =
    (if \<not> pending (inner st) then (Inr (), st)
     else commit io (next_lsn (wal (inner st)) - 1) st)"

definition sync_wal :: "sync_io \<Rightarrow> (Store, unit) op" where
  "sync_wal io = locked (inner_sync io)"

text \<open>\<open>Drop for Store\<close>: flush and ignore the outcome.\<close>

definition store_drop :: "sync_io \<Rightarrow> Store \<Rightarrow> Store" where
  "store_drop io st = snd (flush io st)"

end
