(* ===== verification/Compaction.thy ===== *)
theory Compaction
  imports Store
begin

text \<open>
  Compaction and replication hooks of \<^verbatim>\<open>crates/shardvault-core/src/segment.rs\<close>: \<open>compact_stage\<close> rewrites a
  sealed segment, \<open>compact_commit\<close> repoints the maps, \<open>apply_record\<close> replays a leader's record on a
  follower, and \<open>sync_all\<close> is the follower's durability point. The loop that splits the remapped
  entries into records need not end, so it is a partial function.
\<close>

section \<open>Choosing and copying\<close>

definition live_lsns :: "Inner \<Rightarrow> u64 \<Rightarrow> Lsn list" where
  "live_lsns s sid = map (\<lambda>(k, seg, off, len, lsn). lsn) (filter (\<lambda>(k, seg, off, len, lsn). seg = sid) (index s))"

definition reclaimable :: "Inner \<Rightarrow> Lsn \<Rightarrow> u64 \<Rightarrow> u64" where
  "reclaimable s horizon sid =
    sum_list (map (\<lambda>(lsn, k, seg, off, len). ucast len)
      (filter (\<lambda>(lsn, k, seg, off, len). seg = sid \<and> lsn \<notin> set (live_lsns s sid) \<and> lsn \<le> horizon) (put_locations s)))"

definition choose_segment :: "Inner \<Rightarrow> Lsn \<Rightarrow> u64 option" where
  "choose_segment s horizon = find (\<lambda>sid. reclaimable s horizon sid > 0) (sealed s)"

definition keep_list :: "Inner \<Rightarrow> Lsn \<Rightarrow> u64 \<Rightarrow> (Lsn \<times> str \<times> u64 \<times> u32) list" where
  "keep_list s horizon old =
    sort_key (\<lambda>(lsn, k, off, len). off)
      (map (\<lambda>(lsn, k, seg, off, len). (lsn, k, off, len))
        (filter (\<lambda>(lsn, k, seg, off, len). seg = old \<and> (lsn \<in> set (live_lsns s old) \<or> lsn > horizon)) (put_locations s)))"

text \<open>The copy loop: values are read from the old file and written one after the other to the new.\<close>

fun copy_values :: "nat \<Rightarrow> nat \<Rightarrow> u64 \<Rightarrow> (Lsn \<times> str \<times> u64 \<times> u32) list \<Rightarrow> (Inner, RemapEntry list) op" where
  "copy_values old_file new_file new_offset [] s = (Inr [], s)"
| "copy_values old_file new_file new_offset ((lsn, key, old_off, len) # rest) s =
    (if unat len \<noteq> 0 \<and> unat old_off + unat len > length (file_data (dir s) old_file)
     then (Inl (Corrupt ''short read during compaction''), s)
     else let v = take (unat len) (drop (unat old_off) (file_data (dir s) old_file));
              s = s\<lparr>dir := write_file new_file (unat new_offset) v (dir s)\<rparr>
          in op_bind (copy_values old_file new_file (new_offset + ucast len) rest) (\<lambda>es.
               ret (\<lparr>re_key = key, re_lsn = lsn, re_offset = new_offset, re_len = len\<rparr> # es)) s)"

definition dropped_puts :: "Inner \<Rightarrow> u64 \<Rightarrow> (Lsn \<times> str \<times> u64 \<times> u32) list \<Rightarrow> (Lsn \<times> u32) list" where
  "dropped_puts s old keep =
    map (\<lambda>(lsn, k, seg, off, len). (lsn, len))
      (filter (\<lambda>(lsn, k, seg, off, len). seg = old \<and> lsn \<notin> fst ` set keep) (put_locations s))"

section \<open>Remap records\<close>

text \<open>How many entries fit into one record: the inner loop over \<open>j\<close>.\<close>

fun chunk_len :: "nat \<Rightarrow> RemapEntry list \<Rightarrow> nat" where
  "chunk_len budget [] = 0"
| "chunk_len budget (e # es) =
    (let cost = 2 + length (re_key e) + 20 in if cost > budget then 0 else Suc (chunk_len (budget - cost) es))"

definition remap_budget :: nat where
  "remap_budget = SV_BLOCK_PAYLOAD_MAX - 1 - 8 - 2"

partial_function (option) remap_loop ::
  "u64 \<Rightarrow> RemapEntry list \<Rightarrow> Inner \<Rightarrow> ((StoreError + entry list) \<times> Inner) option" where
  "remap_loop new_id es s =
    (if es = [] then Some (Inr [], s)
     else let j = chunk_len remap_budget es;
              lsn = next_lsn (wal s);
              rec = SegmentRemap new_id (take j es)
          in case inner_append rec s of
               (Inl e, s) \<Rightarrow> Some (Inl e, s)
             | (Inr _, s) \<Rightarrow>
                 Option.bind (remap_loop new_id (drop j es) (s\<lparr>pending := True\<rparr>)) (\<lambda>r.
                   case r of (Inl e, s) \<Rightarrow> Some (Inl e, s) | (Inr rs, s) \<Rightarrow> Some (Inr ((lsn, rec) # rs), s)))"

text \<open>The part of \<open>compact_stage\<close> up to the loop: the new file is written, synced and renamed, and the swap logged.\<close>

definition compact_prepare :: "Lsn \<Rightarrow> u64 \<Rightarrow> (Inner, u64 \<times> nat \<times> RemapEntry list \<times> (Lsn \<times> u32) list \<times> entry) op" where
  "compact_prepare horizon old_id s0 =
    (let keep = keep_list s0 horizon old_id;
         new_id = next_free_id s0;
         (file, d) = open_truncate (tmp_name new_id) (dir s0);
         s = s0\<lparr>next_free_id := new_id + 1, dir := d\<rparr>
     in case map_of (segments s) old_id of
          None \<Rightarrow> (Inl (Corrupt (''segment '' @ show_nat (unat old_id) @ '' not open'')), s)
        | Some old_file \<Rightarrow>
            op_bind (copy_values old_file file 0 keep) (\<lambda>es.
            op_bind (modify (\<lambda>s. s\<lparr>dir := sync_data file (dir s)\<rparr>)) (\<lambda>_.
            op_bind (lift_result (\<lambda>s. rename_file (tmp_name new_id) (seg_name new_id) (dir s))) (\<lambda>d.
            op_bind (modify (\<lambda>s. s\<lparr>dir := d\<rparr>)) (\<lambda>_.
            op_bind (lift_result (\<lambda>s. open_existing (seg_name new_id) (dir s))) (\<lambda>file.
            op_bind (gets (\<lambda>s. (dropped_puts s old_id keep, next_lsn (wal s)))) (\<lambda>(dropped, swap_lsn).
            op_bind (inner_append (SegmentSwap old_id new_id)) (\<lambda>_.
            op_bind (modify (\<lambda>s. s\<lparr>pending := True\<rparr>)) (\<lambda>_.
            ret (new_id, file, es, dropped, (swap_lsn, SegmentSwap old_id new_id)))))))))) s)"

definition inner_compact_stage :: "Lsn \<Rightarrow> Inner \<Rightarrow> ((StoreError + CompactStage option) \<times> Inner) option" where
  "inner_compact_stage horizon s = (case choose_segment s horizon of
     None \<Rightarrow> Some (Inr None, s)
   | Some old_id \<Rightarrow> (case compact_prepare horizon old_id s of
       (Inl e, s) \<Rightarrow> Some (Inl e, s)
     | (Inr (new_id, file, es, dropped, swap), s) \<Rightarrow>
         Option.bind (remap_loop new_id es s) (\<lambda>r. case r of
           (Inl e, s) \<Rightarrow> Some (Inl e, s)
         | (Inr rs, s) \<Rightarrow> Some (Inr (Some \<lparr>cs_records = swap # rs, cs_freed = sum_list (map (\<lambda>(l, len). ucast len) dropped),
             cs_old_id = old_id, cs_new_id = new_id, cs_entries = es, cs_dropped = map fst dropped, cs_file = file\<rparr>), s))))"

definition compact_stage :: "Lsn \<Rightarrow> Store \<Rightarrow> ((StoreError + CompactStage option) \<times> Store) option" where
  "compact_stage horizon st = map_option (\<lambda>(r, s). (r, st\<lparr>inner := s\<rparr>)) (inner_compact_stage horizon (inner st))"

section \<open>Repointing the maps\<close>

definition remap_entry :: "u64 \<Rightarrow> RemapEntry \<Rightarrow> Inner \<Rightarrow> Inner" where
  "remap_entry new_id e s =
    (let s = (case map_of (index s) (re_key e) of
                Some (seg, off, len, lsn) \<Rightarrow>
                  if lsn = re_lsn e then s\<lparr>index := AList.update (re_key e) (new_id, re_offset e, re_len e, re_lsn e) (index s)\<rparr> else s
              | None \<Rightarrow> s)
     in s\<lparr>put_locations := AList.update (re_lsn e) (re_key e, new_id, re_offset e, re_len e) (put_locations s)\<rparr>)"

definition inner_compact_commit :: "CompactStage \<Rightarrow> Inner \<Rightarrow> Inner" where
  "inner_compact_commit stage s0 =
    (let s = fold (remap_entry (cs_new_id stage)) (cs_entries stage) s0
     in s\<lparr>put_locations := fold AList.delete (cs_dropped stage) (put_locations s),
          segments := AList.update (cs_new_id stage) (cs_file stage) (AList.delete (cs_old_id stage) (segments s)),
          sealed := filter (\<lambda>i. i \<noteq> cs_old_id stage) (sealed s) @ [cs_new_id stage],
          dir := remove_file (seg_name (cs_old_id stage)) (dir s)\<rparr>)"

definition compact_commit :: "CompactStage \<Rightarrow> (Store, u64) op" where
  "compact_commit stage st = (Inr (cs_freed stage), publish (st\<lparr>inner := inner_compact_commit stage (inner st)\<rparr>))"

section \<open>Follower swaps\<close>

definition finalize_pending_swap :: "(Inner, unit) op" where
  "finalize_pending_swap s0 = (case pending_swap s0 of
     None \<Rightarrow> (Inr (), s0)
   | Some swap \<Rightarrow>
       (let s = s0\<lparr>pending_swap := None, dir := sync_data (ps_file swap) (dir s0)\<rparr> in
        case rename_file (tmp_name (ps_new swap)) (seg_name (ps_new swap)) (dir s) of
          Inl e \<Rightarrow> (Inl e, s)
        | Inr d \<Rightarrow> (let s = s\<lparr>dir := d\<rparr> in
            case open_existing (seg_name (ps_new swap)) d of
              Inl e \<Rightarrow> (Inl e, s)
            | Inr file \<Rightarrow>
                (let s = fold (remap_entry (ps_new swap)) (ps_entries swap) s
                 in (Inr (), s\<lparr>
                   segments := AList.update (ps_new swap) file (AList.delete (ps_old swap) (segments s)),
                   sealed := filter (\<lambda>i. i \<noteq> ps_old swap) (sealed s) @ [ps_new swap],
                   retired_segments := retired_segments s @ [(ps_lsn swap, ps_old swap)]\<rparr>)))))"

definition remove_committed_retired_segments :: "Inner \<Rightarrow> Inner" where
  "remove_committed_retired_segments s =
    (let covered = filter (\<lambda>(l, old). l \<le> last_commit_block s) (retired_segments s)
     in s\<lparr>dir := fold (\<lambda>(l, old). remove_file (seg_name old)) covered (dir s),
          retired_segments := filter (\<lambda>(l, old). \<not> l \<le> last_commit_block s) (retired_segments s)\<rparr>)"

definition sync_all :: "sync_io \<Rightarrow> (Store, unit) op" where
  "sync_all io =
    op_bind (locked
      (op_bind finalize_pending_swap (\<lambda>_.
       op_bind (modify fsync_dirty_segments) (\<lambda>_.
       op_bind (inner_sync io) (\<lambda>_.
       modify (\<lambda>s. (remove_committed_retired_segments s)\<lparr>dirty_segments := []\<rparr>))))))
    (\<lambda>_. modify publish)"

section \<open>Applying a leader's record\<close>

text \<open>
  The loop over the entries of a \<open>SegmentRemap\<close>. The pending swap was taken out of the state: it is
  put back on a mismatch and at the end, and lost when the source is missing or unreadable.
\<close>

fun apply_remaps :: "PendingSwap \<Rightarrow> RemapEntry list \<Rightarrow> (Inner, unit) op" where
  "apply_remaps swap [] s = (Inr (), s\<lparr>pending_swap := Some swap\<rparr>)"
| "apply_remaps swap (e # es) s =
    (case map_of (put_locations s) (re_lsn e) of
       None \<Rightarrow> (Inl (Corrupt (''remap source missing for lsn '' @ show_nat (unat (re_lsn e)))), s)
     | Some (key, seg, off, len) \<Rightarrow>
         if seg \<noteq> ps_old swap \<or> len \<noteq> re_len e
         then (Inl (Corrupt ''remap source mismatch''), s\<lparr>pending_swap := Some swap\<rparr>)
         else (case map_of (segments s) seg of
             None \<Rightarrow> (Inl (Corrupt ''segment not open''), s)
           | Some file \<Rightarrow> (case read_value (file_data (dir s) file) off len of
               Inl e \<Rightarrow> (Inl e, s)
             | Inr v \<Rightarrow> apply_remaps (swap\<lparr>ps_entries := ps_entries swap @ [e]\<rparr>) es
                 (s\<lparr>dir := write_file (ps_file swap) (unat (re_offset e)) v (dir s)\<rparr>))))"

definition seal_mismatch :: "u64 \<Rightarrow> u64 \<Rightarrow> StoreError" where
  "seal_mismatch segment_id act = Corrupt (''seal for segment '' @ show_nat (unat segment_id) @
     '' but follower active segment is '' @ show_nat (unat act))"

definition inner_apply_record :: "Lsn \<Rightarrow> Record \<Rightarrow> bytes option \<Rightarrow> (Inner, unit) op" where
  "inner_apply_record lsn rec data s0 =
    (let s = s0\<lparr>applied_upto := max (applied_upto s0) lsn\<rparr> in
     case rec of
       Put key len stripe \<Rightarrow> (case data of
           None \<Rightarrow> (Inl (Corrupt ''Put record without value data''), s)
         | Some v \<Rightarrow>
             if length v \<noteq> unat len then (Inl (Corrupt ''Put value length mismatch''), s)
             else op_bind (open_segment (active_id s)) (\<lambda>_.
                  op_bind (write_value v) (\<lambda>_.
                  op_bind (inner_append_at rec lsn) (\<lambda>_.
                  modify (\<lambda>s. s\<lparr>
                    index := AList.update key (active_id s, active_offset s, len, lsn) (index s),
                    put_locations := AList.update lsn (key, active_id s, active_offset s, len) (put_locations s),
                    rollup := rollup_record key (of_nat (length v)) (rollup s),
                    active_offset := active_offset s + of_nat (length v),
                    dirty_segments := List.insert (active_id s) (dirty_segments s),
                    pending := True\<rparr>)))) s)
     | SegmentSeal segment_id next_segment_id \<Rightarrow>
         if segment_id \<noteq> active_id s then (Inl (seal_mismatch segment_id (active_id s)), s)
         else op_bind (inner_append_at rec lsn) (\<lambda>_.
              modify (\<lambda>s. s\<lparr>
                sealed := sealed s @ [active_id s],
                active_id := next_segment_id,
                active_offset := 0,
                next_free_id := max (next_free_id s) (next_segment_id + 1),
                pending := True\<rparr>)) s
     | AggDelta ds \<Rightarrow> op_bind (inner_append_at rec lsn) (\<lambda>_. modify (\<lambda>s. s\<lparr>pending := True\<rparr>)) s
     | SegmentSwap old new \<Rightarrow>
         op_bind finalize_pending_swap (\<lambda>_.
         op_bind (gets (\<lambda>s. open_truncate (tmp_name new) (dir s))) (\<lambda>(file, d).
         op_bind (modify (\<lambda>s. s\<lparr>dir := d\<rparr>)) (\<lambda>_.
         op_bind (inner_append_at rec lsn) (\<lambda>_.
         modify (\<lambda>s. s\<lparr>
           pending_swap := Some \<lparr>ps_lsn = lsn, ps_old = old, ps_new = new, ps_file = file, ps_entries = []\<rparr>,
           pending := True\<rparr>))))) s
     | SegmentRemap new es \<Rightarrow>
         op_bind (inner_append_at rec lsn) (\<lambda>_ s.
           case pending_swap s of
             None \<Rightarrow> (Inl (Corrupt ''remap without swap''), s)
           | Some swap \<Rightarrow>
               if ps_new swap \<noteq> new then (Inl (Corrupt ''remap target mismatch''), s)
               else op_bind (apply_remaps swap es) (\<lambda>_. modify (\<lambda>s. s\<lparr>pending := True\<rparr>)) (s\<lparr>pending_swap := None\<rparr>)) s
     | Commit c \<Rightarrow>
         op_bind (inner_append_at rec lsn) (\<lambda>_.
         modify (\<lambda>s. s\<lparr>
           committed_lsn := max (committed_lsn s) c,
           last_commit_block := max (last_commit_block s) lsn,
           pending := True\<rparr>)) s)"

definition apply_record :: "Lsn \<Rightarrow> Record \<Rightarrow> bytes option \<Rightarrow> (Store, unit) op" where
  "apply_record lsn rec data = locked (inner_apply_record lsn rec data)"

end
