(* ===== verification/Recovery.thy ===== *)
theory Recovery
  imports Compaction
begin

text \<open>
  Opening a store: \<open>recover\<close> and \<open>open_with_options\<close> of \<^verbatim>\<open>crates/shardvault-core/src/segment.rs\<close>. The replayed
  log records rebuild the maps and say how long each segment must be; files are then truncated,
  deleted or created to match.
\<close>

section \<open>Replaying the records\<close>

record replay_state =
  rs_inner :: Inner
  rs_committed :: "(u64 \<times> u64) list"
  rs_swap_pairs :: "(u64 \<times> u64) list"
  rs_remaps :: "(u64 \<times> RemapEntry list) list"

definition replay_record :: "entry \<Rightarrow> replay_state \<Rightarrow> replay_state" where
  "replay_record e r =
    (let (lsn, rec) = e;
         s = (rs_inner r)\<lparr>applied_upto := max (applied_upto (rs_inner r)) lsn\<rparr>
     in case rec of
          Put key len stripe \<Rightarrow>
            (let s' = s\<lparr>
                index := AList.update key (active_id s, active_offset s, len, lsn) (index s),
                put_locations := AList.update lsn (key, active_id s, active_offset s, len) (put_locations s),
                rollup := rollup_record key (ucast len) (rollup s),
                active_offset := active_offset s + ucast len\<rparr>
             in r\<lparr>rs_inner := s', rs_committed := AList.update (active_id s') (active_offset s') (rs_committed r)\<rparr>)
        | SegmentSeal segment_id next_segment_id \<Rightarrow>
            r\<lparr>rs_committed := AList.update segment_id (active_offset s) (rs_committed r),
              rs_inner := s\<lparr>sealed := sealed s @ [segment_id], active_id := next_segment_id, active_offset := 0\<rparr>\<rparr>
        | SegmentSwap old new \<Rightarrow> r\<lparr>rs_inner := s, rs_swap_pairs := rs_swap_pairs r @ [(old, new)]\<rparr>
        | SegmentRemap new es \<Rightarrow>
            r\<lparr>rs_inner := s,
              rs_remaps := AList.update new ((case map_of (rs_remaps r) new of None \<Rightarrow> [] | Some es0 \<Rightarrow> es0) @ es) (rs_remaps r)\<rparr>
        | Commit c \<Rightarrow>
            r\<lparr>rs_inner := s\<lparr>committed_lsn := max (committed_lsn s) c, last_commit_block := max (last_commit_block s) lsn\<rparr>\<rparr>
        | AggDelta ds \<Rightarrow> r\<lparr>rs_inner := s\<rparr>)"

text \<open>The swaps, in the order of the log; the old segments are collected for deletion.\<close>

definition replay_swap :: "u64 \<times> u64 \<Rightarrow> replay_state \<times> u64 list \<Rightarrow> replay_state \<times> u64 list" where
  "replay_swap p st =
    (let (old, new) = p;
         (r, to_delete) = st;
         es = (case map_of (rs_remaps r) new of None \<Rightarrow> [] | Some es \<Rightarrow> es);
         s = fold (remap_entry new) es (rs_inner r);
         new_len = fold (\<lambda>e m. max m (re_offset e + ucast (re_len e))) es 0
     in (r\<lparr>rs_inner := s\<lparr>sealed := filter (\<lambda>i. i \<noteq> old) (sealed s) @ [new]\<rparr>,
           rs_committed := AList.update old 0 (AList.update new new_len (rs_committed r))\<rparr>,
         to_delete @ [old]))"

section \<open>Fixing up the directory\<close>

definition drop_tmp :: "string \<times> nat \<Rightarrow> disk \<Rightarrow> disk" where
  "drop_tmp e d = (if ends_with ''.tmp'' (fst e) then remove_file (fst e) d else d)"

definition remove_tmps :: "disk \<Rightarrow> disk" where
  "remove_tmps d = fold drop_tmp (dir_entries d) d"

definition note_segment :: "string \<times> nat \<Rightarrow> (u64 \<times> nat) list \<Rightarrow> (u64 \<times> nat) list" where
  "note_segment e ex = (if ends_with ''.tmp'' (fst e) then ex
     else (case parse_segment_name (fst e) of None \<Rightarrow> ex | Some sid \<Rightarrow> AList.update sid (snd e) ex))"

definition existing_segments :: "disk \<Rightarrow> (u64 \<times> nat) list" where
  "existing_segments d = fold note_segment (dir_entries d) []"

text \<open>The loop over the existing files; one that is too short ends it with an error.\<close>

fun truncate_files :: "(u64 \<times> u64) list \<Rightarrow> (u64 \<times> nat) list \<Rightarrow> (disk, unit) op" where
  "truncate_files committed [] d = (Inr (), d)"
| "truncate_files committed ((sid, i) # rest) d =
    (let target = (case map_of committed sid of None \<Rightarrow> 0 | Some t \<Rightarrow> t);
         data = file_data d i
     in if length data < unat target
        then (Inl (Corrupt (''segment '' @ seg_name sid @ '' is shorter than its committed length'')), d)
        else truncate_files committed rest (set_data i (set_len (unat target) data) d))"

definition recover :: "entry list \<Rightarrow> (Inner, unit) op" where
  "recover records s0 =
    (let r = fold replay_record records \<lparr>rs_inner = s0, rs_committed = [], rs_swap_pairs = [], rs_remaps = []\<rparr>;
         r = (if map_of (rs_committed r) (active_id (rs_inner r)) = None
              then r\<lparr>rs_committed := AList.update (active_id (rs_inner r)) (active_offset (rs_inner r)) (rs_committed r)\<rparr> else r);
         (r, to_delete) = fold replay_swap (rs_swap_pairs r) (r, []);
         s = rs_inner r;
         committed = rs_committed r;
         existing = existing_segments (dir s);
         d = remove_tmps (dir s)
     in case find (\<lambda>(sid, target). target > 0 \<and> map_of existing sid = None) committed of
          Some (sid, target) \<Rightarrow>
            (Inl (Corrupt (''segment '' @ seg_name sid @ '' referenced by WAL is missing'')), s\<lparr>dir := d\<rparr>)
        | None \<Rightarrow> (case truncate_files committed existing d of
            (Inl e, d) \<Rightarrow> (Inl e, s\<lparr>dir := d\<rparr>)
          | (Inr _, d) \<Rightarrow>
              (let d = fold (\<lambda>sid. remove_file (seg_name sid)) to_delete d;
                   max_id = fold max (map fst committed @ map fst existing) (active_id s)
               in op_for open_segment (map fst committed) (s\<lparr>dir := d, next_free_id := max_id + 1\<rparr>))))"

definition fresh_inner :: "disk \<Rightarrow> u64 \<Rightarrow> Wal \<Rightarrow> Inner" where
  "fresh_inner d max_bytes w = \<lparr>dir = d, segment_max_bytes = max_bytes, wal = w, segments = [], index = [], put_locations = [],
     rollup = Rollup_default, active_id = 0, active_offset = 0, pending = False, committed_lsn = 0, last_commit_block = 0,
     applied_upto = 0, dirty_segments = [], sealed = [], next_free_id = 0, pending_swap = None, retired_segments = []\<rparr>"

text \<open>The result comes with the directory as the attempt leaves it, also when it fails.\<close>

definition open_with_options :: "disk \<Rightarrow> os_file option \<Rightarrow> u64 \<Rightarrow> (StoreError + Store) \<times> disk" where
  "open_with_options d wal_log max_bytes =
    (let (records, high_water) = replay_with_lsns (map_option fdata wal_log);
         w = wal_open wal_log
     in case recover records (fresh_inner d max_bytes w) of
          (Inl e, s) \<Rightarrow> (Inl e, dir s)
        | (Inr _, s) \<Rightarrow> (Inr \<lparr>inner = s, snap = Snap_from s\<rparr>, dir s))"

definition default_segment_max_bytes :: u64 where
  "default_segment_max_bytes = 16 * 1024 * 1024"

definition store_open :: "disk \<Rightarrow> os_file option \<Rightarrow> (StoreError + Store) \<times> disk" where
  "store_open d wal_log = open_with_options d wal_log default_segment_max_bytes"

end
