(* ===== verification/StoreSafety.thy ===== *)
theory StoreSafety
  imports Recovery
begin

text \<open>
  Safety of staging, committing and reading. A value that some index refers to is a protected region of
  an inode: writes go to the active segment behind the active offset, so no protected region
  changes. From this follow snapshot isolation and that a committed value is read back.
\<close>

section \<open>Segment names\<close>

lemma parse_digits_zeros: "parse_digits (replicate k (CHR ''0'') @ s) = parse_digits s"
  by (induction k) (simp_all add: parse_digits_def)

lemma pad8_inj: "pad8 (show_nat m) = pad8 (show_nat n) \<Longrightarrow> m = n"
  by (metis pad8_def parse_digits_show parse_digits_zeros)

lemma seg_name_inj: "seg_name a = seg_name b \<longleftrightarrow> a = b"
  by (auto simp: seg_name_def dest!: pad8_inj intro: unsigned_word_eqI)

lemma tmp_not_seg: "tmp_name a \<noteq> seg_name b"
proof
  assume "tmp_name a = seg_name b"
  then have "last (tmp_name a) = last (seg_name b)" by simp
  then show False by (simp add: tmp_name_def seg_name_def SEG_SUFFIX_def)
qed

section \<open>Protected regions\<close>

definition protected_region :: "Inner \<Rightarrow> nat \<Rightarrow> u64 \<Rightarrow> u32 \<Rightarrow> bool" where
  "protected_region s i off len \<longleftrightarrow> i < length (inodes (dir s)) \<and>
    (len \<noteq> 0 \<longrightarrow> unat off + unat len \<le> length (file_data (dir s) i) \<and>
      (lookup_file (seg_name (active_id s)) (dir s) = Some i \<longrightarrow> unat off + unat len \<le> unat (active_offset s)))"

definition index_ok :: "Inner \<Rightarrow> (u64 \<times> nat) list \<Rightarrow> (str \<times> loc) list \<Rightarrow> bool" where
  "index_ok s segs idx \<longleftrightarrow> (\<forall>k seg off len lsn. map_of idx k = Some (seg, off, len, lsn) \<longrightarrow>
     (\<exists>i. map_of segs seg = Some i \<and> protected_region s i off len))"

definition disk_ok :: "disk \<Rightarrow> bool" where
  "disk_ok d \<longleftrightarrow> (\<forall>n i. lookup_file n d = Some i \<longrightarrow> i < length (inodes d)) \<and>
    (\<forall>m n i. lookup_file m d = Some i \<longrightarrow> lookup_file n d = Some i \<longrightarrow> m = n)"

definition inner_inv :: "Inner \<Rightarrow> bool" where
  "inner_inv s \<longleftrightarrow> disk_ok (dir s) \<and>
    (\<forall>sid i. map_of (segments s) sid = Some i \<longrightarrow> lookup_file (seg_name sid) (dir s) = Some i) \<and>
    (\<forall>sid. next_free_id s \<le> sid \<longrightarrow> lookup_file (seg_name sid) (dir s) = None) \<and>
    active_id s < next_free_id s \<and>
    index_ok s (segments s) (index s)"

definition store_inv :: "Store \<Rightarrow> bool" where
  "store_inv st \<longleftrightarrow> inner_inv (inner st) \<and> index_ok (inner st) (snap_files (snap st)) (snap_index (snap st))"

text \<open>A step that leaves every protected region protected and readable as before.\<close>

definition safe_step :: "Inner \<Rightarrow> Inner \<Rightarrow> bool" where
  "safe_step s s' \<longleftrightarrow> (\<forall>i off len. protected_region s i off len \<longrightarrow>
     protected_region s' i off len \<and> read_value (file_data (dir s') i) off len = read_value (file_data (dir s) i) off len)"

lemma safe_step_refl [simp]: "safe_step s s"
  by (simp add: safe_step_def)

lemma safe_step_trans: "safe_step a b \<Longrightarrow> safe_step b c \<Longrightarrow> safe_step a c"
  by (simp add: safe_step_def)

lemma safe_step_index: "safe_step s s' \<Longrightarrow> index_ok s segs idx \<Longrightarrow> index_ok s' segs idx"
  unfolding safe_step_def index_ok_def by metis

lemma safe_step_same_dir:
  "dir s' = dir s \<Longrightarrow> active_id s' = active_id s \<Longrightarrow> active_offset s \<le> active_offset s' \<Longrightarrow> safe_step s s'"
  by (auto simp: safe_step_def protected_region_def word_le_nat_alt)

lemma index_ok_more:
  "index_ok s segs idx \<Longrightarrow> idx = idx' \<Longrightarrow> (\<And>x j. map_of segs x = Some j \<Longrightarrow> map_of segs' x = Some j) \<Longrightarrow> index_ok s segs' idx'"
  unfolding index_ok_def by metis

section \<open>Files\<close>

lemma lookup_set_data [simp]: "lookup_file n (set_data i bs d) = lookup_file n d"
  by (simp add: lookup_file_def set_data_def)

lemma length_inodes_set_data [simp]: "length (inodes (set_data i bs d)) = length (inodes d)"
  by (simp add: set_data_def)

lemma file_data_set_data:
  "i < length (inodes d) \<Longrightarrow> file_data (set_data i bs d) j = (if i = j then bs else file_data d j)"
  by (auto simp: file_data_def set_data_def nth_list_update)

lemma lookup_write_file [simp]: "lookup_file n (write_file i off bs d) = lookup_file n d"
  "length (inodes (write_file i off bs d)) = length (inodes d)"
  by (simp_all add: write_file_def)

lemma file_data_write_file:
  "i < length (inodes d) \<Longrightarrow> file_data (write_file i off bs d) j = (if i = j then pwrite off bs (file_data d j) else file_data d j)"
  by (simp add: write_file_def file_data_set_data)

lemma sync_data_simps [simp]: "lookup_file n (sync_data i d) = lookup_file n d"
  "length (inodes (sync_data i d)) = length (inodes d)" "file_data (sync_data i d) j = file_data d j"
  by (cases "i < length (inodes d)"; auto simp: sync_data_def lookup_file_def file_data_def nth_list_update list_update_beyond)+

lemma pwrite_keeps: "n \<le> off \<Longrightarrow> n \<le> length data \<Longrightarrow> take n (pwrite off bs data) = take n data"
  by (simp add: pwrite_def min_def)

lemma length_pwrite: "length data \<le> length (pwrite off bs data)" "bs \<noteq> [] \<Longrightarrow> off + length bs \<le> length (pwrite off bs data)"
  by (auto simp: pwrite_def)

lemma pwrite_read: "take (length bs) (drop off (pwrite off bs data)) = bs"
  by (auto simp: pwrite_def min_def)

lemma open_create_known: "lookup_file n d = Some i \<Longrightarrow> open_create n d = (i, d)"
  by (simp add: open_create_def)

lemma open_create_new:
  assumes "lookup_file n d = None"
  shows "fst (open_create n d) = length (inodes d)"
    and "lookup_file m (snd (open_create n d)) = (if m = n then Some (length (inodes d)) else lookup_file m d)"
    and "length (inodes (snd (open_create n d))) = Suc (length (inodes d))"
    and "file_data (snd (open_create n d)) j = file_data d j"
  using assms by (auto simp: open_create_def lookup_file_def update_conv' file_data_def nth_append empty_file_def)

section \<open>Steps of the writer\<close>

lemma inner_inv_segment:
  assumes "inner_inv s" "map_of (segments s) sid = Some i"
  shows "lookup_file (seg_name sid) (dir s) = Some i \<and> i < length (inodes (dir s))"
proof
  show "lookup_file (seg_name sid) (dir s) = Some i" using assms by (simp add: inner_inv_def)
  then show "i < length (inodes (dir s))" using assms(1) unfolding inner_inv_def disk_ok_def by blast
qed

text \<open>Opening a file by name, whether it exists or not.\<close>

lemma open_create_disk:
  assumes ok: "disk_ok d" and run: "open_create n d = (i, d')"
  shows "disk_ok d'" "\<And>x. lookup_file x d' = (if x = n then Some i else lookup_file x d)" "length (inodes d) \<le> length (inodes d')"
    "\<And>j. file_data d' j = file_data d j" "lookup_file n d = Some i \<or> lookup_file n d = None \<and> i = length (inodes d)"
proof -
  show look: "lookup_file x d' = (if x = n then Some i else lookup_file x d)" for x
    using open_create_known [of n d] open_create_new [of n d] run by (cases "lookup_file n d") auto
  show len: "length (inodes d) \<le> length (inodes d')" and "file_data d' j = file_data d j" for j
    using open_create_known [of n d] open_create_new [of n d] run by (cases "lookup_file n d"; auto)+
  show new: "lookup_file n d = Some i \<or> lookup_file n d = None \<and> i = length (inodes d)"
    using open_create_known [of n d] open_create_new [of n d] run by (cases "lookup_file n d") auto
  have range: "\<And>m j. lookup_file m d = Some j \<Longrightarrow> j < length (inodes d)"
    and inj: "\<And>m m' j. lookup_file m d = Some j \<Longrightarrow> lookup_file m' d = Some j \<Longrightarrow> m = m'" using ok by (simp_all add: disk_ok_def)
  have i: "i < length (inodes d')"
    using open_create_known [of n d] open_create_new [of n d] run range by (cases "lookup_file n d") auto
  have only: "m = n" if "lookup_file m d = Some i" for m using new inj [OF that] range [OF that] by auto
  have "j < length (inodes d')" if "lookup_file m d' = Some j" for m j using that look i len range [of m j] by (auto split: if_splits)
  moreover have "m = m'" if "lookup_file m d' = Some j" "lookup_file m' d' = Some j" for m m' j
    using that only [of m] only [of m'] inj [of m j m'] unfolding look by (metis option.inject)
  ultimately show "disk_ok d'" unfolding disk_ok_def by blast
qed

lemma open_segment_ok:
  assumes "inner_inv s" "open_segment sid s = (r, s')" "sid < next_free_id s"
  shows "r = Inr () \<and> inner_inv s' \<and> safe_step s s' \<and> (\<exists>i. map_of (segments s') sid = Some i) \<and>
    (\<forall>x j. map_of (segments s) x = Some j \<longrightarrow> map_of (segments s') x = Some j) \<and>
    (\<exists>d segs. s' = s\<lparr>dir := d, segments := segs\<rparr>)"
proof (cases "map_of (segments s) sid")
  case (Some i)
  then have "s' = s" "r = Inr ()" using assms(2) by (auto simp: open_segment_def)
  then show ?thesis using assms(1) Some by (auto intro!: exI [of _ "dir s"] exI [of _ "segments s"])
next
  case None
  obtain i d' where run: "open_create (seg_name sid) (dir s) = (i, d')" by force
  have s': "s' = s\<lparr>dir := d', segments := AList.update sid i (segments s)\<rparr>" "r = Inr ()"
    using None assms(2) run by (auto simp: open_segment_def)
  have "disk_ok (dir s)" using assms(1) by (simp add: inner_inv_def)
  note d = open_create_disk [OF this run]
  have safe: "safe_step s s'" using d(2-5) by (auto simp: safe_step_def protected_region_def s')
  have "index_ok s' (segments s) (index s)"
    using safe_step_index [OF safe] assms(1) by (simp add: inner_inv_def)
  then have "index_ok s' (segments s') (index s')"
    by (rule index_ok_more) (use None in \<open>auto simp: s' update_conv'\<close>)
  then have "inner_inv s'"
    using assms(1,3) d(1,2) by (auto simp: inner_inv_def s' update_conv' seg_name_inj)
  then show ?thesis using safe s' None by (auto simp: update_conv')
qed

lemma write_value_ok:
  assumes "inner_inv s" "map_of (segments s) (active_id s) = Some i"
  shows "write_value v s = (Inr (), s\<lparr>dir := write_file i (unat (active_offset s)) v (dir s)\<rparr>)"
    and "inner_inv (s\<lparr>dir := write_file i (unat (active_offset s)) v (dir s)\<rparr>)"
    and "safe_step s (s\<lparr>dir := write_file i (unat (active_offset s)) v (dir s)\<rparr>)"
proof -
  let ?s = "s\<lparr>dir := write_file i (unat (active_offset s)) v (dir s)\<rparr>"
  show "write_value v s = (Inr (), ?s)" by (simp add: write_value_def assms)
  have look: "lookup_file (seg_name (active_id s)) (dir s) = Some i" and i: "i < length (inodes (dir s))"
    using inner_inv_segment [OF assms] by auto
  have "protected_region ?s j off len \<and> read_value (file_data (dir ?s) j) off len = read_value (file_data (dir s) j) off len"
    if p: "protected_region s j off len" for j off len
  proof (cases "j = i \<and> len \<noteq> 0")
    case True
    let ?n = "unat off + unat len"
    have n: "?n \<le> length (file_data (dir s) i)" "?n \<le> unat (active_offset s)"
      using p look True by (auto simp: protected_region_def)
    have keep: "take ?n (file_data (dir ?s) i) = take ?n (file_data (dir s) i)"
      using i n by (simp add: file_data_write_file pwrite_keeps)
    have l: "length (file_data (dir s) i) \<le> length (file_data (dir ?s) i)"
      using i by (simp add: file_data_write_file length_pwrite)
    have "take (unat len) (drop (unat off) (file_data (dir ?s) i)) = take (unat len) (drop (unat off) (file_data (dir s) i))"
      using arg_cong [OF keep, of "drop (unat off)"] by (simp add: drop_take)
    then show ?thesis using True p l n by (auto simp: protected_region_def read_value_def)
  next
    case False
    then show ?thesis using p i by (auto simp: protected_region_def read_value_def file_data_write_file)
  qed
  then show safe: "safe_step s ?s" by (simp add: safe_step_def)
  show "inner_inv ?s"
    using assms(1) safe_step_index [OF safe, of "segments s" "index s"] by (simp add: inner_inv_def disk_ok_def)
qed

text \<open>Steps that touch only the log or counters.\<close>

lemma inner_inv_same:
  assumes "inner_inv s" "dir s' = dir s" "segments s' = segments s" "index s' = index s"
    "active_id s' = active_id s" "active_offset s' = active_offset s" "next_free_id s' = next_free_id s"
  shows "inner_inv s'"
  using assms by (simp add: inner_inv_def index_ok_def protected_region_def)

lemma inner_append_cases:
  "inner_append rec s = (r, s') \<Longrightarrow> \<exists>w. s' = s\<lparr>wal := w\<rparr> \<and> (\<forall>lsn. r = Inr lsn \<longrightarrow> wal_append rec (wal s) = Inr (lsn, w))"
  by (auto simp: inner_append_def split: sum.splits intro: exI [of _ "wal s"])

lemma seal_ok:
  assumes "inner_inv s" "unat (next_free_id s) + 1 < 2 ^ 64" "seal_active_record s = (r, s')"
  shows "inner_inv s' \<and> safe_step s s' \<and> index s' = index s \<and> segments s' = segments s \<and> dir s' = dir s \<and>
    segment_max_bytes s' = segment_max_bytes s \<and> rollup s' = rollup s \<and>
    (\<forall>e. r = Inl e \<longrightarrow> active_offset s' = active_offset s) \<and>
    unat (next_free_id s') = unat (next_free_id s) + 1 \<and> (\<forall>x. r = Inr x \<longrightarrow> active_offset s' = 0)"
proof -
  let ?n = "next_free_id s"
  let ?s1 = "s\<lparr>next_free_id := ?n + 1\<rparr>"
  obtain r1 s2 where a: "inner_append (SegmentSeal (active_id s) ?n) ?s1 = (r1, s2)" by force
  then obtain w where s2: "s2 = ?s1\<lparr>wal := w\<rparr>" using inner_append_cases by blast
  have n1: "unat (?n + 1) = unat ?n + 1" using assms(2) by (simp add: unat_add_small)
  have less: "?n < ?n + 1" using n1 by (simp add: word_less_nat_alt)
  have free: "lookup_file (seg_name ?n) (dir s) = None" and above: "\<And>sid. ?n + 1 \<le> sid \<Longrightarrow> lookup_file (seg_name sid) (dir s) = None"
    using assms(1) less by (auto simp: inner_inv_def)
  have inv2: "inner_inv s2"
    using assms(1) less above by (auto simp: inner_inv_def s2 index_ok_def protected_region_def)
  show ?thesis
  proof (cases r1)
    case (Inl err)
    then have "s' = s2" "r = Inl err" using assms(3) a by (auto simp: seal_active_record_def op_simps)
    then show ?thesis using inv2 n1 by (auto simp: s2 intro!: safe_step_same_dir)
  next
    case (Inr l)
    then have s': "s' = s2\<lparr>pending := True, sealed := sealed s @ [active_id s], active_id := ?n, active_offset := 0\<rparr>"
      and r: "r = Inr (next_lsn (wal s), SegmentSeal (active_id s) ?n)"
      using assms(3) a by (auto simp: seal_active_record_def op_simps s2)
    have safe: "safe_step s s'" using free by (auto simp: safe_step_def protected_region_def s' s2)
    have "inner_inv s'"
      using assms(1) less above safe_step_index [OF safe, of "segments s" "index s"] by (auto simp: inner_inv_def s' s2)
    then show ?thesis using safe n1 r by (simp add: s' s2)
  qed
qed

text \<open>A seal always succeeds: its record fits a block.\<close>

lemma inner_append_fits:
  "record_size rec \<le> 4072 \<Longrightarrow> \<exists>w. inner_append rec s = (Inr (next_lsn (wal s)), s\<lparr>wal := w\<rparr>)"
  by (auto simp: inner_append_def wal_append_def append_at_eq Let_def)

lemma seal_succeeds: "\<exists>e s'. seal_active_record s = (Inr e, s') \<and> rollup s' = rollup s"
proof -
  obtain w where "inner_append (SegmentSeal (active_id s) (next_free_id s)) (s\<lparr>next_free_id := next_free_id s + 1\<rparr>) =
      (Inr (next_lsn (wal s)), s\<lparr>next_free_id := next_free_id s + 1, wal := w\<rparr>)"
    using inner_append_fits [of "SegmentSeal (active_id s) (next_free_id s)" "s\<lparr>next_free_id := next_free_id s + 1\<rparr>"]
    by (auto simp: record_size_def)
  then show ?thesis by (simp add: seal_active_record_def op_bind_def op_basic)
qed

abbreviation seal_if :: "bool \<Rightarrow> (Inner, entry list) op" where
  "seal_if b \<equiv> (if b then op_bind seal_active_record (\<lambda>r. ret [r]) else ret [])"

lemma seal_if_ok:
  assumes inv: "inner_inv s" and n: "unat (next_free_id s) + 1 < 2 ^ 64" and run: "seal_if b s = (r, s')"
  shows "\<exists>rs. r = Inr rs \<and> inner_inv s' \<and> safe_step s s' \<and> index s' = index s \<and> segments s' = segments s \<and> dir s' = dir s \<and> rollup s' = rollup s \<and>
    (active_offset s' = active_offset s \<or> active_offset s' = 0) \<and> unat (next_free_id s') \<le> unat (next_free_id s) + 1 \<and> (pending s \<longrightarrow> pending s')"
proof (cases b)
  case True
  obtain e s1 where e: "seal_active_record s = (Inr e, s1)" using seal_succeeds [of s] by blast
  moreover from e have "pending s1" by (auto simp: seal_active_record_def op_bind_def op_basic split: prod.splits sum.splits)
  ultimately show ?thesis using run True seal_ok [OF inv n e] by (auto simp: op_bind_def op_basic)
qed (use inv run in \<open>auto simp: op_basic\<close>)

lemma index_ok_update:
  assumes "index_ok s segs idx" "map_of segs seg = Some i" "protected_region s i off len"
  shows "index_ok s segs (AList.update k (seg, off, len, lsn) idx)"
  using assms by (auto simp: index_ok_def update_conv')

text \<open>The first half of staging: the active segment is opened and the value written behind its end.\<close>

lemma value_written:
  assumes inv: "inner_inv s" and v: "length v < 2 ^ 32"
  obtains s1 s2 i d segs where "open_segment (active_id s) s = (Inr (), s1)" "s1 = s\<lparr>dir := d, segments := segs\<rparr>"
    "write_value v s1 = (Inr (), s2)" "s2 = s1\<lparr>dir := write_file i (unat (active_offset s)) v d\<rparr>" "inner_inv s2" "safe_step s s2"
    "map_of segs (active_id s) = Some i" "\<forall>x j. map_of (segments s) x = Some j \<longrightarrow> map_of segs x = Some j" "i < length (inodes d)"
    "read_value (file_data (dir s2) i) (active_offset s) (of_nat (length v)) = Inr v"
    "v \<noteq> [] \<longrightarrow> unat (active_offset s) + length v \<le> length (file_data (dir s2) i)"
proof -
  obtain r1 s1 where o: "open_segment (active_id s) s = (r1, s1)" by force
  have "active_id s < next_free_id s" using inv by (simp add: inner_inv_def)
  from open_segment_ok [OF inv o this] obtain i d segs where o1: "r1 = Inr ()" "inner_inv s1" "safe_step s s1"
    "map_of (segments s1) (active_id s) = Some i" "\<And>x j. map_of (segments s) x = Some j \<Longrightarrow> map_of (segments s1) x = Some j"
    and s1: "s1 = s\<lparr>dir := d, segments := segs\<rparr>" by blast
  have act: "dir s1 = d" "segments s1 = segs" "active_id s1 = active_id s" "active_offset s1 = active_offset s" by (simp_all add: s1)
  have seg1: "map_of (segments s1) (active_id s1) = Some i" using o1(4) act by simp
  define s2 where "s2 = s1\<lparr>dir := write_file i (unat (active_offset s)) v d\<rparr>"
  note w = write_value_ok [OF o1(2) seg1, of v, unfolded act, folded s2_def]
  have i: "i < length (inodes d)" using inner_inv_segment [OF o1(2) seg1] by (simp add: act)
  have un: "unat (of_nat (length v) :: u32) = length v" using v by (simp add: unat_of_nat)
  have fd: "file_data (dir s2) i = pwrite (unat (active_offset s)) v (file_data d i)" using i by (simp add: s2_def file_data_write_file)
  have "read_value (file_data (dir s2) i) (active_offset s) (of_nat (length v)) = Inr v"
    unfolding fd read_value_def un using length_pwrite(2) [of v] pwrite_read [of v] by auto
  then show thesis
    using that [OF o [unfolded o1(1)] s1 w(1) s2_def w(2) safe_step_trans [OF o1(3) w(3)]] o1(4,5) i fd length_pwrite(2) [of v] by (simp add: act)
qed

text \<open>The second half: the maps point to the value.\<close>

lemma value_recorded:
  assumes inv: "inner_inv s" and v: "length v < 2 ^ 32" "unat (active_offset s) + length v < 2 ^ 64"
    and o: "open_segment (active_id s) s = (Inr (), s1)" and w: "write_value v s1 = (Inr (), s2)"
    and s': "dir s' = dir s2" "segments s' = segments s2" "active_id s' = active_id s" "next_free_id s' = next_free_id s"
      "index s' = AList.update key (active_id s, active_offset s, of_nat (length v), l) (index s)" "active_offset s' = active_offset s + of_nat (length v)"
  shows "inner_inv s' \<and> safe_step s s' \<and> (\<forall>x j. map_of (segments s) x = Some j \<longrightarrow> map_of (segments s') x = Some j) \<and>
    (\<exists>i. map_of (segments s') (active_id s) = Some i \<and> protected_region s' i (active_offset s) (of_nat (length v)) \<and>
       read_value (file_data (dir s') i) (active_offset s) (of_nat (length v)) = Inr v)"
proof -
  let ?n = "of_nat (length v) :: u32"
  have un: "unat ?n = length v" using v(1) by (simp add: unat_of_nat)
  obtain x1 x2 i d segs where x: "open_segment (active_id s) s = (Inr (), x1)" "x1 = s\<lparr>dir := d, segments := segs\<rparr>"
    "write_value v x1 = (Inr (), x2)" "x2 = x1\<lparr>dir := write_file i (unat (active_offset s)) v d\<rparr>"
    and inv2: "inner_inv x2" and safe2: "safe_step s x2"
    and seg: "map_of segs (active_id s) = Some i" "\<forall>x j. map_of (segments s) x = Some j \<longrightarrow> map_of segs x = Some j" and i: "i < length (inodes d)"
    and val: "read_value (file_data (dir x2) i) (active_offset s) ?n = Inr v" "v \<noteq> [] \<longrightarrow> unat (active_offset s) + length v \<le> length (file_data (dir x2) i)"
    by (rule value_written [OF inv v(1)])
  have s2: "s2 = x2" using o w x(1,3) by simp
  note f = s2 x(2,4) s'
  have off: "unat (active_offset s + of_nat (length v)) = unat (active_offset s) + length v"
    using v by (simp add: unat_add_small unat_of_nat)
  have safe: "safe_step s2 s'" by (rule safe_step_same_dir) (simp_all add: f word_le_nat_alt off)
  have prot: "protected_region s' i (active_offset s) ?n"
    using i off val(2) by (cases "v = []") (auto simp: protected_region_def f un)
  have "index_ok s' segs (index s)"
    using safe_step_index [OF safe, of segs "index s"] inv2 by (simp add: inner_inv_def f)
  then have "index_ok s' (segments s') (index s')"
    using index_ok_update [OF _ seg(1) prot] by (simp add: f)
  then have "inner_inv s'" using inv2 by (simp add: inner_inv_def f)
  then show ?thesis using seg val(1) prot safe_step_trans [OF safe2] safe by (simp add: f)
qed

lemma stage_body_ok:
  assumes inv: "inner_inv s" and v: "length v < 2 ^ 32" "unat (active_offset s) + length v < 2 ^ 64"
    and run: "stage_body key v s = (r, s')"
  shows "inner_inv s' \<and> safe_step s s' \<and> next_free_id s' = next_free_id s \<and>
    segment_max_bytes s' = segment_max_bytes s \<and>
    (\<forall>x j. map_of (segments s) x = Some j \<longrightarrow> map_of (segments s') x = Some j) \<and>
    (\<forall>l rs. r = Inr (l, rs) \<longrightarrow> pending s' \<and>
       index s' = AList.update key (active_id s, active_offset s, of_nat (length v), l) (index s) \<and>
       (\<exists>i. map_of (segments s') (active_id s) = Some i \<and> i < length (inodes (dir s')) \<and>
          read_value (file_data (dir s') i) (active_offset s) (of_nat (length v)) = Inr v))"
proof -
  let ?n = "of_nat (length v) :: u32"
  obtain s1 s2 i d segs where o: "open_segment (active_id s) s = (Inr (), s1)" and s1: "s1 = s\<lparr>dir := d, segments := segs\<rparr>"
    and w: "write_value v s1 = (Inr (), s2)" and s2: "s2 = s1\<lparr>dir := write_file i (unat (active_offset s)) v d\<rparr>"
    and inv2: "inner_inv s2" and safe2: "safe_step s s2"
    and seg: "map_of segs (active_id s) = Some i" "\<forall>x j. map_of (segments s) x = Some j \<longrightarrow> map_of segs x = Some j" and i: "i < length (inodes d)"
    and val: "read_value (file_data (dir s2) i) (active_offset s) ?n = Inr v" "v \<noteq> [] \<longrightarrow> unat (active_offset s) + length v \<le> length (file_data (dir s2) i)"
    by (rule value_written [OF inv v(1)])
  note f = s1 s2
  show ?thesis
  proof (cases r)
    case (Inl e)
    have "\<exists>w'. s' = s2\<lparr>wal := w'\<rparr>"
      using run Inl o w
      by (auto simp: stage_body_def op_bind_def op_basic Let_def split: prod.splits sum.splits dest!: inner_append_cases)
    then obtain w' where s': "s' = s2\<lparr>wal := w'\<rparr>" by blast
    have "inner_inv s'" by (rule inner_inv_same [OF inv2]) (simp_all add: s')
    moreover have "safe_step s2 s'" by (rule safe_step_same_dir) (simp_all add: s')
    ultimately show ?thesis using safe_step_trans [OF safe2] seg(2) Inl by (simp add: s' f)
  next
    case (Inr x)
    obtain l rs where x: "x = (l, rs)" by force
    have s': "dir s' = dir s2" "segments s' = segs" "active_id s' = active_id s" "next_free_id s' = next_free_id s"
        "segment_max_bytes s' = segment_max_bytes s" "pending s'"
        "index s' = AList.update key (active_id s, active_offset s, ?n, l) (index s)"
        "active_offset s' = active_offset s + of_nat (length v)"
      using run Inr x o w
      by (auto simp: stage_body_def op_bind_def op_basic Let_def f split: prod.splits sum.splits dest!: inner_append_cases)
    have "dir s' = dir s2" "segments s' = segments s2" using s' by (simp_all add: f)
    from value_recorded [OF inv v o w this s'(3,4,7,8)] show ?thesis
      using Inr x s'(4-7) by (auto simp: protected_region_def)
  qed
qed

text \<open>The counters are not about to wrap: the condition under which the store is used.\<close>

definition counters_ok :: "Inner \<Rightarrow> nat \<Rightarrow> bool" where
  "counters_ok s n \<longleftrightarrow> n < 2 ^ 32 \<and> unat (active_offset s) + n < 2 ^ 64 \<and> unat (next_free_id s) + 2 < 2 ^ 64"

text \<open>The parts of a put: perhaps a seal, the value with its two records, which may be refused, perhaps a seal.\<close>

lemma stage_put_cases:
  assumes run: "inner_stage_put key v s = (r, s')" and v: "length v < 2 ^ 32" and inv: "inner_inv s" "unat (next_free_id s) + 1 < 2 ^ 64"
  obtains rs0 s1 e where "seal_if (active_offset s > 0 \<and> active_offset s + of_nat (length v) > segment_max_bytes s) s = (Inr rs0, s1)"
      "stage_body key v s1 = (Inl e, s')" "r = Inl e"
  | rs0 s1 l rs1 s2 b r3 where "seal_if (active_offset s > 0 \<and> active_offset s + of_nat (length v) > segment_max_bytes s) s = (Inr rs0, s1)"
      "stage_body key v s1 = (Inr (l, rs1), s2)" "seal_if b s2 = (r3, s')" "\<And>sp. r = Inr sp \<Longrightarrow> object_id sp = l"
proof -
  define b where "b = (active_offset s > 0 \<and> active_offset s + of_nat (length v) > segment_max_bytes s)"
  have n: "\<not> length v > 4294967295" using v by simp
  obtain rs0 s1 where 1: "seal_if b s = (Inr rs0, s1)" using seal_if_ok [OF inv, of b] by (metis surj_pair)
  obtain r2 s2 where 2: "stage_body key v s1 = (r2, s2)" by force
  note d = run 1 2 n
  show thesis
  proof (cases r2)
    case (Inl e)
    then have "r = Inl e" "s' = s2" using d by (auto simp: inner_stage_put_def op_bind_def op_basic simp flip: b_def)
    then show thesis using that(1) [of rs0 s1 e, folded b_def] 1 2 Inl by blast
  next
    case (Inr x)
    obtain l rs1 where x: "x = (l, rs1)" by force
    define b2 where "b2 = ((of_nat (length v) :: u64) > segment_max_bytes s2)"
    obtain r3 s3 where 3: "seal_if b2 s2 = (r3, s3)" by force
    have "s' = s3" "\<And>sp. r = Inr sp \<Longrightarrow> object_id sp = l"
      using d 3 Inr x by (auto simp: inner_stage_put_def op_bind_def op_basic simp flip: b_def b2_def split: sum.splits)
    then show thesis using that(2) [of rs0 s1 l rs1 s2 b2 r3, folded b_def] 1 2 3 Inr x by blast
  qed
qed

lemma stage_put_ok:
  assumes inv: "inner_inv s" and c: "counters_ok s (length v)" and run: "inner_stage_put key v s = (r, s')"
  shows "inner_inv s' \<and> safe_step s s' \<and>
    (\<forall>x j. map_of (segments s) x = Some j \<longrightarrow> map_of (segments s') x = Some j) \<and>
    (\<forall>sp. r = Inr sp \<longrightarrow> pending s' \<and>
       (\<exists>seg off i. index s' = AList.update key (seg, off, of_nat (length v), object_id sp) (index s) \<and>
          map_of (segments s') seg = Some i \<and> read_value (file_data (dir s') i) off (of_nat (length v)) = Inr v))"
proof -
  have n: "length v < 2 ^ 32" "unat (next_free_id s) + 1 < 2 ^ 64" using c by (simp_all add: counters_ok_def)
  have 1: "inner_inv s1 \<and> safe_step s s1 \<and> index s1 = index s \<and> segments s1 = segments s \<and> unat (active_offset s1) + length v < 2 ^ 64 \<and>
      unat (next_free_id s1) + 1 < 2 ^ 64" if "seal_if b s = (Inr rs0, s1)" for b rs0 s1
    using seal_if_ok [OF inv n(2) that] c by (auto simp: counters_ok_def)
  from run n(1) inv n(2) show ?thesis
  proof (cases rule: stage_put_cases)
    case p: (1 rs0 s1 e)
    have "inner_inv s1" "unat (active_offset s1) + length v < 2 ^ 64" using 1 [OF p(1)] by simp_all
    note k = stage_body_ok [OF this(1) n(1) this(2) p(2)]
    have "safe_step s s'" using 1 [OF p(1)] k safe_step_trans by blast
    then show ?thesis using 1 [OF p(1)] k p(3) by simp
  next
    case p: (2 rs0 s1 l rs1 s2 b r3)
    have i1: "inner_inv s1" "unat (active_offset s1) + length v < 2 ^ 64" using 1 [OF p(1)] by simp_all
    note k = stage_body_ok [OF i1(1) n(1) i1(2) p(2)]
    have i2: "inner_inv s2" "unat (next_free_id s2) + 1 < 2 ^ 64" using k 1 [OF p(1)] by simp_all
    note f = seal_if_ok [OF i2 p(3)]
    have "safe_step s s2" using 1 [OF p(1)] k safe_step_trans [of s s1 s2] by simp
    then have "safe_step s s'" using f safe_step_trans [of s s2 s'] by auto
    moreover obtain i where "map_of (segments s2) (active_id s1) = Some i" "read_value (file_data (dir s2) i) (active_offset s1) (of_nat (length v)) = Inr v"
      "index s2 = AList.update key (active_id s1, active_offset s1, of_nat (length v), l) (index s1)" "pending s2"
      using k by blast
    ultimately show ?thesis using 1 [OF p(1)] k f p(4) by auto
  qed
qed

text \<open>The parts of an accepted put.\<close>

lemma stage_put_parts:
  assumes "inner_stage_put key v s = (Inr sp, s')"
  obtains b rs0 s1 l rs1 s2 b2 rs2 where "seal_if b s = (Inr rs0, s1)" "stage_body key v s1 = (Inr (l, rs1), s2)"
    "seal_if b2 s2 = (Inr rs2, s')" "object_id sp = l" "staged_records sp = rs0 @ rs1 @ rs2"
proof -
  define b where "b = (active_offset s > 0 \<and> active_offset s + of_nat (length v) > segment_max_bytes s)"
  have "\<not> length v > 4294967295" using assms by (auto simp: inner_stage_put_def op_basic)
  then show thesis using assms that by (auto simp: inner_stage_put_def op_bind_Inr op_basic b_def [symmetric])
qed

section \<open>Commits\<close>

lemma fsync_dirty_ok:
  "lookup_file n (dir (fsync_dirty_segments s)) = lookup_file n (dir s)"
  "length (inodes (dir (fsync_dirty_segments s))) = length (inodes (dir s))"
  "file_data (dir (fsync_dirty_segments s)) i = file_data (dir s) i"
proof -
  have "lookup_file n (fold (\<lambda>sid d. case map_of segs sid of None \<Rightarrow> d | Some file \<Rightarrow> sync_data file d) ids d) = lookup_file n d \<and>
      length (inodes (fold (\<lambda>sid d. case map_of segs sid of None \<Rightarrow> d | Some file \<Rightarrow> sync_data file d) ids d)) = length (inodes d) \<and>
      file_data (fold (\<lambda>sid d. case map_of segs sid of None \<Rightarrow> d | Some file \<Rightarrow> sync_data file d) ids d) i = file_data d i" for ids segs d
    by (induction ids arbitrary: d) (auto split: option.split)
  from this [of "segments s" "dirty_segments s" "dir s"]
  show "lookup_file n (dir (fsync_dirty_segments s)) = lookup_file n (dir s)"
      "length (inodes (dir (fsync_dirty_segments s))) = length (inodes (dir s))"
      "file_data (dir (fsync_dirty_segments s)) i = file_data (dir s) i"
    by (simp_all add: fsync_dirty_segments_def)
qed

lemma same_files_ok:
  assumes "inner_inv s" "\<And>n. lookup_file n (dir s') = lookup_file n (dir s)" "length (inodes (dir s')) = length (inodes (dir s))"
    "\<And>i. file_data (dir s') i = file_data (dir s) i" "segments s' = segments s" "index s' = index s"
    "active_id s' = active_id s" "active_offset s' = active_offset s" "next_free_id s' = next_free_id s"
  shows "inner_inv s' \<and> safe_step s s'"
proof
  show safe: "safe_step s s'" using assms by (simp add: safe_step_def protected_region_def)
  show "inner_inv s'"
    using assms safe_step_index [OF safe, of "segments s" "index s"] by (simp add: inner_inv_def disk_ok_def)
qed

lemma commit_fields:
  assumes "inner_commit io lsn s = (r, s')"
  shows "(\<exists>ds. dir s' = dir (fsync_dirty_segments s)) \<and> segments s' = segments s \<and> index s' = index s \<and>
    active_id s' = active_id s \<and> active_offset s' = active_offset s \<and> next_free_id s' = next_free_id s"
  using assms
  by (auto simp: inner_commit_def op_bind_def op_basic inner_sync_def fsync_dirty_segments_def Let_def
      split: prod.splits sum.splits dest!: inner_append_cases)

lemma commit_ok: "inner_inv s \<Longrightarrow> inner_commit io lsn s = (r, s') \<Longrightarrow> inner_inv s' \<and> safe_step s s'"
  using commit_fields [of io lsn s r s'] by (intro same_files_ok) (auto simp: fsync_dirty_ok)

lemma commit_IoOk: "\<exists>s'. inner_commit IoOk lsn s = (Inr (), s')"
proof -
  obtain w where "wal_append (Commit lsn) (wal (fsync_dirty_segments s)) = Inr (next_lsn (wal (fsync_dirty_segments s)), w)"
    by (auto simp: wal_append_Inr append_at_eq record_size_def)
  then show ?thesis
    using sync_IoOk [of w] by (auto simp: inner_commit_def op_bind_def op_basic inner_append_def inner_sync_def)
qed

text \<open>Reading depends on the files that the index refers to only.\<close>

lemma store_get_total:
  assumes "index_ok (inner st) (snap_files (snap st)) (snap_index (snap st))"
  shows "\<exists>v. store_get st key = Inr v"
proof (cases "map_of (snap_index (snap st)) key")
  case (Some l)
  obtain seg off len lsn where l: "l = (seg, off, len, lsn)" by (metis prod_cases4)
  with assms Some obtain i where i: "map_of (snap_files (snap st)) seg = Some i" "protected_region (inner st) i off len"
    unfolding index_ok_def by blast
  then show ?thesis
    by (auto simp: store_get_def Some l read_snap_def read_value_def protected_region_def word_neq_0_conv unat_gt_0)
qed (simp add: store_get_def)

lemma store_get_safe:
  assumes "index_ok (inner st) (snap_files (snap st)) (snap_index (snap st))" "safe_step (inner st) s'"
  shows "store_get (st\<lparr>inner := s'\<rparr>) key = store_get st key"
proof (cases "map_of (snap_index (snap st)) key")
  case (Some l)
  obtain seg off len lsn where l: "l = (seg, off, len, lsn)" by (metis prod_cases4)
  with assms(1) Some obtain i where i: "map_of (snap_files (snap st)) seg = Some i" "protected_region (inner st) i off len"
    unfolding index_ok_def by blast
  have "read_value (file_data (dir s') i) off len = read_value (file_data (dir (inner st)) i) off len"
    using assms(2) i(2) by (simp add: safe_step_def)
  then show ?thesis using i(1) by (simp add: store_get_def Some l read_snap_def)
qed (simp add: store_get_def)

section \<open>Runs of the store\<close>

inductive store_step :: "Store \<Rightarrow> Store \<Rightarrow> bool" where
  step_stage: "counters_ok (inner st) (length v) \<Longrightarrow> stage_put key v st = (r, st') \<Longrightarrow> store_step st st'"
| step_commit: "commit io lsn st = (r', st') \<Longrightarrow> store_step st st'"
| step_flush: "flush io st = (r', st') \<Longrightarrow> store_step st st'"
| step_sync_wal: "sync_wal io st = (r', st') \<Longrightarrow> store_step st st'"

definition empty_disk :: disk where
  "empty_disk = \<lparr>dir_entries = [], inodes = []\<rparr>"

inductive store_reachable :: "Store \<Rightarrow> bool" where
  reach_open: "open_with_options empty_disk None max_bytes = (Inr st, d) \<Longrightarrow> store_reachable st"
| reach_next: "store_reachable st \<Longrightarrow> store_step st st' \<Longrightarrow> store_reachable st'"

lemma open_empty:
  "\<exists>st. open_with_options empty_disk None max_bytes = (Inr st, dir (inner st)) \<and>
    dir (inner st) = snd (open_create (seg_name 0) empty_disk) \<and> segments (inner st) = [(0, 0)] \<and> index (inner st) = [] \<and>
    active_id (inner st) = 0 \<and> next_free_id (inner st) = 1 \<and> snap st = Snap_from (inner st)"
  by (simp add: open_with_options_def replay_eq scan_def recover_def fresh_inner_def existing_segments_def remove_tmps_def
      empty_disk_def open_segment_def op_bind_def op_basic Let_def open_create_def lookup_file_def)

lemma open_empty_inner:
  assumes "open_with_options empty_disk None m = (Inr st, d)"
  shows "inner st = (fresh_inner \<lparr>dir_entries = [(seg_name 0, 0)], inodes = [empty_file]\<rparr> m (wal_open None))\<lparr>segments := [(0, 0)], next_free_id := 1\<rparr>"
    and "snap st = Snap_from (inner st)"
  using assms by (auto simp: open_with_options_def replay_eq scan_def recover_def fresh_inner_def existing_segments_def remove_tmps_def
      empty_disk_def open_segment_def op_bind_def op_basic Let_def open_create_def lookup_file_def)

lemma store_inv_open: "open_with_options empty_disk None max_bytes = (Inr st, d) \<Longrightarrow> store_inv st"
proof -
  assume "open_with_options empty_disk None max_bytes = (Inr st, d)"
  with open_empty [of max_bytes] have st: "dir (inner st) = snd (open_create (seg_name 0) empty_disk)"
    "segments (inner st) = [(0, 0)]" "index (inner st) = []" "active_id (inner st) = 0" "next_free_id (inner st) = 1"
    "snap st = Snap_from (inner st)" by auto
  have l: "lookup_file m (dir (inner st)) = (if m = seg_name 0 then Some 0 else None)" "length (inodes (dir (inner st))) = 1" for m
    by (auto simp: st open_create_def lookup_file_def empty_disk_def)
  have "\<not> (1::u64) \<le> 0" by simp
  then show ?thesis
    using st l by (auto simp: store_inv_def inner_inv_def disk_ok_def index_ok_def Snap_from_def seg_name_inj split: if_splits)
qed

text \<open>A step of the writer either leaves the snapshot alone or publishes the new state.\<close>

definition step_ok :: "Store \<Rightarrow> Store \<Rightarrow> bool" where
  "step_ok st st' \<longleftrightarrow> inner_inv (inner st') \<and> safe_step (inner st) (inner st') \<and>
     (snap st' = snap st \<or> snap st' = Snap_from (inner st'))"

lemma locked_commit_ok:
  assumes "inner_inv (inner st)" "op_bind (locked (inner_commit io lsn)) (\<lambda>_. modify publish) st = (r, st')"
  shows "step_ok st st'"
proof -
  obtain r1 s1 where c: "inner_commit io lsn (inner st) = (r1, s1)" by force
  have "st' = st\<lparr>inner := s1\<rparr> \<or> st' = publish (st\<lparr>inner := s1\<rparr>)"
    using assms(2) c by (auto simp: op_bind_def locked_def op_basic split: sum.splits)
  then show ?thesis using commit_ok [OF assms(1) c] by (auto simp: step_ok_def publish_def)
qed

lemma step_ok_refl: "inner_inv (inner st) \<Longrightarrow> step_ok st st"
  by (simp add: step_ok_def)

lemma commit_step_ok: "inner_inv (inner st) \<Longrightarrow> commit io lsn st = (r, st') \<Longrightarrow> step_ok st st'"
  using locked_commit_ok by (auto simp: commit_def step_ok_refl split: if_splits)

lemma store_step_ok:
  assumes "store_step st st'" "inner_inv (inner st)"
  shows "step_ok st st'"
  using assms(1)
proof cases
  case (step_stage v key r)
  then show ?thesis using stage_put_ok [OF assms(2)] by (auto simp: stage_put_def locked_def step_ok_def split: prod.splits)
next
  case (step_commit io lsn r)
  then show ?thesis using commit_step_ok [OF assms(2)] by blast
next
  case (step_flush io r)
  then show ?thesis using commit_step_ok [OF assms(2)] step_ok_refl [OF assms(2)] by (auto simp: flush_def split: if_splits)
next
  case (step_sync_wal io r)
  then have "\<exists>w. st' = st\<lparr>inner := (inner st)\<lparr>wal := w\<rparr>\<rparr>"
    by (auto simp: sync_wal_def locked_def inner_sync_def split: prod.splits)
  then show ?thesis using inner_inv_same [OF assms(2)] by (auto simp: step_ok_def intro!: safe_step_same_dir)
qed

lemma step_ok_inv: "store_inv st \<Longrightarrow> step_ok st st' \<Longrightarrow> store_inv st'"
  using safe_step_index by (auto simp: store_inv_def step_ok_def Snap_from_def inner_inv_def)

lemma store_inv_step: "store_inv st \<Longrightarrow> store_step st st' \<Longrightarrow> store_inv st'"
  using step_ok_inv store_step_ok store_inv_def by blast

lemma store_reachable_inv: "store_reachable st \<Longrightarrow> store_inv st"
  by (induction rule: store_reachable.induct) (blast intro: store_inv_open store_inv_step)+

lemma store_steps_safe: "store_step\<^sup>*\<^sup>* st st' \<Longrightarrow> store_inv st \<Longrightarrow> store_inv st' \<and> safe_step (inner st) (inner st')"
proof (induction rule: rtranclp_induct)
  case (step b c)
  then have b: "store_inv b" "safe_step (inner st) (inner b)" by blast+
  then have "step_ok b c" using store_step_ok [OF step.hyps(2)] by (simp add: store_inv_def)
  then have "safe_step (inner b) (inner c)" by (simp add: step_ok_def)
  then show ?case using safe_step_trans [OF b(2)] store_inv_step [OF b(1) step.hyps(2)] by blast
qed simp

text \<open>What a flush after a successful stage publishes.\<close>

lemma flush_publishes:
  assumes "pending (inner st)"
  shows "\<exists>s'. flush IoOk st = (Inr (), publish (st\<lparr>inner := s'\<rparr>)) \<and> inner_commit IoOk (next_lsn (wal (inner st)) - 1) (inner st) = (Inr (), s')"
  using commit_IoOk [of "next_lsn (wal (inner st)) - 1" "inner st"] assms
  by (auto simp: flush_def commit_def op_bind_def locked_def op_basic)

lemma get_published:
  assumes "inner_inv s" "inner_commit io lsn s = (r, s')"
  shows "store_get (publish (st\<lparr>inner := s'\<rparr>)) k = store_get (publish (st\<lparr>inner := s\<rparr>)) k"
  using commit_fields [OF assms(2)]
  by (auto simp: store_get_def publish_def Snap_from_def read_snap_def fsync_dirty_ok split: option.split)

text \<open>Staging is refused only for a record that does not fit a block.\<close>

lemma stage_body_succeeds:
  assumes "inner_inv s" "record_size (Put key (of_nat (length v)) 0) \<le> 4072"
    "record_size (AggDelta (deltas_for (rollup s) key (of_nat (length v)))) \<le> 4072"
  shows "\<exists>x s'. stage_body key v s = (Inr x, s')"
proof -
  obtain r1 s1 where o: "open_segment (active_id s) s = (r1, s1)" by force
  have "active_id s < next_free_id s" using assms(1) by (simp add: inner_inv_def)
  from open_segment_ok [OF assms(1) o this] obtain i d segs where o1: "r1 = Inr ()"
    "map_of (segments s1) (active_id s) = Some i" and s1: "s1 = s\<lparr>dir := d, segments := segs\<rparr>" by blast
  have w: "write_value v s1 = (Inr (), s1\<lparr>dir := write_file i (unat (active_offset s1)) v (dir s1)\<rparr>)"
    using o1(2) by (simp add: write_value_def s1)
  have "record_size (Put key (of_nat (length v)) l) \<le> 4072" for l using assms(2) by (simp add: record_size_def)
  note p = inner_append_fits [OF this]
  note a = inner_append_fits [OF assms(3)]
  obtain w1 where w1: "inner_append (Put key (of_nat (length v)) (next_lsn (wal s))) (s1\<lparr>dir := write_file i (unat (active_offset s1)) v (dir s1)\<rparr>) =
      (Inr (next_lsn (wal s)), s1\<lparr>dir := write_file i (unat (active_offset s1)) v (dir s1), wal := w1\<rparr>)"
    using p [of "next_lsn (wal s)" "s1\<lparr>dir := write_file i (unat (active_offset s1)) v (dir s1)\<rparr>"] by (auto simp: s1)
  show ?thesis
    using o o1(1) w w1 a [of "s1\<lparr>dir := write_file i (unat (active_offset s1)) v (dir s1), wal := w1\<rparr>"]
    by (auto simp: stage_body_def op_bind_def op_basic Let_def s1)
qed

definition put_fits :: "Inner \<Rightarrow> str \<Rightarrow> bytes \<Rightarrow> bool" where
  "put_fits s key v \<longleftrightarrow> record_size (Put key (of_nat (length v)) 0) \<le> 4072 \<and>
     record_size (AggDelta (deltas_for (rollup s) key (of_nat (length v)))) \<le> 4072"

lemma stage_put_succeeds:
  assumes inv: "inner_inv s" and c: "counters_ok s (length v)" and fits: "put_fits s key v"
  shows "\<exists>sp s'. inner_stage_put key v s = (Inr sp, s')"
proof -
  define b where "b = (active_offset s > 0 \<and> active_offset s + of_nat (length v) > segment_max_bytes s)"
  have n: "\<not> length v > 4294967295" "unat (next_free_id s) + 1 < 2 ^ 64" using c by (simp_all add: counters_ok_def)
  obtain rs0 s1 where 1: "seal_if b s = (Inr rs0, s1)" "inner_inv s1" "rollup s1 = rollup s"
    using seal_if_ok [OF inv n(2), of b] by (metis surj_pair)
  obtain l rs1 s2 where 2: "stage_body key v s1 = (Inr (l, rs1), s2)"
    using stage_body_succeeds [OF 1(2), of key v] fits 1(3) by (auto simp: put_fits_def)
  show ?thesis
    using n(1) 1(1) 2 seal_succeeds [of s2] by (auto simp: inner_stage_put_def op_bind_def op_basic simp flip: b_def)
qed

text \<open>What a flush after an accepted put makes visible.\<close>

lemma flush_reads_back:
  assumes "inner_inv (inner st)" and "counters_ok (inner st) (length v)" and "stage_put key v st = (Inr sp, st1)"
  shows "\<exists>st2. flush IoOk st1 = (Inr (), st2) \<and> store_get st2 key = Inr (Some v) \<and>
    (\<forall>k. k \<noteq> key \<longrightarrow> store_get st2 k = store_get (publish st) k)"
proof -
  let ?s = "inner st" and ?s1 = "inner st1"
  have inv: "inner_inv ?s" using assms(1) .
  have run: "inner_stage_put key v ?s = (Inr sp, ?s1)" and st1: "st1 = st\<lparr>inner := ?s1\<rparr>"
    using assms(3) by (auto simp: stage_put_def locked_def split: prod.splits)
  note s = stage_put_ok [OF inv assms(2) run]
  obtain seg off i where new: "index ?s1 = AList.update key (seg, off, of_nat (length v), object_id sp) (index ?s)"
    "map_of (segments ?s1) seg = Some i" "read_value (file_data (dir ?s1) i) off (of_nat (length v)) = Inr v"
    using s by blast
  obtain s2 where f: "flush IoOk st1 = (Inr (), publish (st1\<lparr>inner := s2\<rparr>))"
    and c: "inner_commit IoOk (next_lsn (wal ?s1) - 1) ?s1 = (Inr (), s2)"
    using flush_publishes [of st1] s by auto
  have pub: "store_get (publish (st1\<lparr>inner := s2\<rparr>)) k = store_get (publish st1) k" for k
    using get_published [OF _ c, of st1 k] s by simp
  have "store_get (publish st1) key = Inr (Some v)"
    using new by (simp add: store_get_def publish_def Snap_from_def read_snap_def update_conv')
  moreover have "store_get (publish st1) k = store_get (publish st) k" if "k \<noteq> key" for k
  proof (cases "map_of (index ?s) k")
    case (Some l)
    obtain sg o' len lsn where l: "l = (sg, o', len, lsn)" by (metis prod_cases4)
    from inv Some l obtain j where j: "map_of (segments ?s) sg = Some j" "protected_region ?s j o' len"
      unfolding inner_inv_def index_ok_def by blast
    have "read_value (file_data (dir ?s1) j) o' len = read_value (file_data (dir ?s) j) o' len" "map_of (segments ?s1) sg = Some j"
      using s j by (auto simp: safe_step_def)
    then show ?thesis
      using that new(1) Some l j by (simp add: store_get_def publish_def Snap_from_def read_snap_def update_conv')
  next
    case None
    then show ?thesis using that new(1) by (simp add: store_get_def publish_def Snap_from_def update_conv')
  qed
  ultimately show ?thesis using f pub by auto
qed

text \<open>A store over an empty directory that has accepted one put.\<close>

lemma example_put:
  "\<exists>st sp st1. store_reachable st \<and> counters_ok (inner st) (length [1, 2 :: u8]) \<and>
     stage_put [97, 47, 98] [1, 2] st = (Inr sp, st1) \<and> pending (inner st1) \<and>
     open_with_options empty_disk None m = (Inr st, dir (inner st)) \<and> next_free_id (inner st) = 1"
proof -
  obtain st where o: "open_with_options empty_disk None m = (Inr st, dir (inner st))"
    using open_empty by blast
  have s: "active_offset (inner st) = 0" "next_free_id (inner st) = 1" "rollup (inner st) = Rollup_default"
    by (simp_all add: open_empty_inner [OF o] fresh_inner_def)
  have r: "store_reachable st" using o by (rule reach_open)
  have c: "counters_ok (inner st) (length [1, 2 :: u8])" by (simp add: counters_ok_def s)
  have ds: "deltas_for Rollup_default [97, 47, 98] 2 = [\<lparr>delta_prefix = [], object_count_delta = 1, byte_count_delta = 2\<rparr>,
      \<lparr>delta_prefix = [97], object_count_delta = 1, byte_count_delta = 2\<rparr>]" by code_simp
  have "put_fits (inner st) [97, 47, 98] [1, 2]" by (simp add: put_fits_def record_size_def s ds)
  from stage_put_succeeds [OF _ c this] store_reachable_inv [OF r]
  obtain sp s' where p: "inner_stage_put [97, 47, 98] [1, 2] (inner st) = (Inr sp, s')" by (auto simp: store_inv_def)
  have "stage_put [97, 47, 98] [1, 2] st = (Inr sp, st\<lparr>inner := s'\<rparr>)" using p by (simp add: stage_put_def locked_def)
  moreover have "pending s'" using stage_put_ok [OF _ c p] store_reachable_inv [OF r] by (simp add: store_inv_def)
  then have "pending (inner (st\<lparr>inner := s'\<rparr>))" by simp
  ultimately show ?thesis using r c o s(2) by blast
qed

section \<open>Properties\<close>



text \<open>
  C12. Snapshot isolation: what a reader sees through the snapshot of a reachable store, for every key,
  stays the same through any later sequence of puts, commits, flushes and syncs, successful or
  failed, even though they write to the same files; staging alone never changes what \<open>get\<close> returns.\<close>

theorem snapshot_isolation:
  assumes "store_reachable st" and "store_step\<^sup>*\<^sup>* st st'"
  shows "store_get (st'\<lparr>snap := snap st\<rparr>) key = store_get st key \<and>
    (counters_ok (inner st') (length v) \<longrightarrow> store_get (snd (stage_put k v st')) key = store_get st' key)"
proof -
  have inv: "store_inv st" using store_reachable_inv [OF assms(1)] .
  have inv': "store_inv st'" and safe: "safe_step (inner st) (inner st')" using store_steps_safe [OF assms(2) inv] by auto
  have "store_get (st\<lparr>inner := inner st'\<rparr>) key = store_get st key"
    using store_get_safe [OF _ safe] inv by (simp add: store_inv_def)
  moreover have "store_get (st'\<lparr>snap := snap st\<rparr>) key = store_get (st\<lparr>inner := inner st'\<rparr>) key"
    by (simp add: store_get_def read_snap_def split: option.split)
  moreover have "store_get (snd (stage_put k v st')) key = store_get st' key" if "counters_ok (inner st') (length v)"
  proof -
    obtain r s where run: "inner_stage_put k v (inner st') = (r, s)" by force
    then have "safe_step (inner st') s" using stage_put_ok [OF _ that run] inv' by (simp add: store_inv_def)
    then show ?thesis using run store_get_safe [of st' s key] inv' by (simp add: stage_put_def locked_def store_inv_def)
  qed
  ultimately show ?thesis by simp
qed

theorem snapshot_isolation_witness:
  "\<exists>st st1. store_reachable st \<and> pending (inner st1) \<and> store_get (st1\<lparr>snap := snap st\<rparr>) [97, 47, 98] = store_get st [97, 47, 98]"
proof -
  obtain st sp st1 where e: "store_reachable st" "counters_ok (inner st) (length [1, 2 :: u8])" "stage_put [97, 47, 98] [1, 2] st = (Inr sp, st1)"
    and p: "pending (inner st1)"
    using example_put by blast
  have "store_step\<^sup>*\<^sup>* st st1" using step_stage [OF e(2,3)] by (rule r_into_rtranclp)
  then show ?thesis using snapshot_isolation [OF e(1)] e(1) p by blast
qed



end
