(* ===== verification/CompactionSafety.thy ===== *)
theory CompactionSafety
  imports StoreSafety
begin

text \<open>
  Compaction: when the loop that writes the remap records ends and what it writes, and the two ways in which
  a key near the size limit defeats the store.
\<close>

section \<open>The remap loop\<close>

lemma remap_budget_eq: "remap_budget = 4061"
  by (simp add: remap_budget_def sv_consts)

lemma chunk_len_le: "chunk_len b es \<le> length es"
  by (induction b es rule: chunk_len.induct) (auto simp: Let_def)

lemma chunk_len_fits: "(\<Sum>e\<leftarrow>take (chunk_len b es) es. 22 + length (re_key e)) \<le> b"
  by (induction b es rule: chunk_len.induct) (auto simp: Let_def)

lemma chunk_len_pos: "es \<noteq> [] \<Longrightarrow> 22 + length (re_key (hd es)) \<le> b \<Longrightarrow> 0 < chunk_len b es"
  by (cases es) (auto simp: Let_def)

lemma chunk_record_fits: "record_size (SegmentRemap new (take (chunk_len remap_budget es) es)) \<le> 4072"
  using chunk_len_fits [of remap_budget es] by (simp add: record_size_def remap_budget_eq)

lemma remap_loop_step:
  "es \<noteq> [] \<Longrightarrow> \<exists>w. remap_loop new es s =
    Option.bind (remap_loop new (drop (chunk_len remap_budget es) es) (s\<lparr>wal := w, pending := True\<rparr>)) (\<lambda>r.
      case r of (Inl e, s) \<Rightarrow> Some (Inl e, s)
        | (Inr rs, s) \<Rightarrow> Some (Inr ((next_lsn (wal s0), SegmentRemap new (take (chunk_len remap_budget es) es)) # rs), s))"
  if "s0 = s"
  using inner_append_fits [OF chunk_record_fits, of new es s] that by (subst remap_loop.simps) (auto simp: Let_def)

text \<open>Induction over the rounds of a loop that ends: it never fails, and each round logs one record.\<close>

lemma remap_loop_rounds:
  assumes run: "remap_loop new es s = Some (r, s')" and nil: "\<And>s. P [] s [] s"
    and round: "\<And>es s w rs s'. es \<noteq> [] \<Longrightarrow> append_at (SegmentRemap new (take (chunk_len remap_budget es) es)) (next_lsn (wal s)) (wal s) = Inr w \<Longrightarrow>
      P (drop (chunk_len remap_budget es) es) (s\<lparr>wal := w, pending := True\<rparr>) rs s' \<Longrightarrow>
      P es s ((next_lsn (wal s), SegmentRemap new (take (chunk_len remap_budget es) es)) # rs) s'"
  shows "\<exists>rs. r = Inr rs \<and> P es s rs s'"
proof -
  have "n = new \<longrightarrow> (\<exists>rs. fst y = Inr rs \<and> P es s rs (snd y))" if "remap_loop n es s = Some y" for n y
  proof (rule remap_loop.raw_induct [where P = "\<lambda>n es s y. n = new \<longrightarrow> (\<exists>rs. fst y = Inr rs \<and> P es s rs (snd y))", OF _ that], goal_cases)
    case (1 loop n es s y)
    show ?case
    proof (cases "es = []")
      case True
      then show ?thesis using 1(2) nil by auto
    next
      case False
      let ?j = "chunk_len remap_budget es" and ?l = "next_lsn (wal s)"
      obtain w where w: "append_at (SegmentRemap n (take ?j es)) ?l (wal s) = Inr w" using chunk_record_fits [of n es] by (simp add: append_at_eq)
      then have "inner_append (SegmentRemap n (take ?j es)) s = (Inr ?l, s\<lparr>wal := w\<rparr>)" by (simp add: inner_append_def wal_append_def)
      then obtain z where "loop n (drop ?j es) (s\<lparr>wal := w, pending := True\<rparr>) = Some z" "snd y = snd z"
        "\<And>rs. fst z = Inr rs \<Longrightarrow> fst y = Inr ((?l, SegmentRemap n (take ?j es)) # rs)"
        using 1(2) False by (auto simp: Let_def split: bind_splits prod.splits sum.splits)
      then show ?thesis using 1(1) [of n "drop ?j es" "s\<lparr>wal := w, pending := True\<rparr>" z] round [OF False] w by fastforce
    qed
  qed
  from this [OF run] show ?thesis by simp
qed

text \<open>
  If every key leaves room for its entry in a record, the loop ends, after at most as many records as
  entries, and the records carry exactly the entries in order, each record within the size of a block.
\<close>

lemma remap_loop_ends:
  assumes "\<And>e. e \<in> set es \<Longrightarrow> 22 + length (re_key e) \<le> remap_budget"
  shows "\<exists>rs s'. remap_loop new es s = Some (Inr rs, s') \<and> length rs \<le> length es \<and>
    (\<exists>chunks. map snd rs = map (SegmentRemap new) chunks \<and> concat chunks = es) \<and>
    (\<forall>rec \<in> snd ` set rs. record_size rec \<le> 4072)"
  using assms
proof (induction "length es" arbitrary: es s rule: less_induct)
  case less
  show ?case
  proof (cases "es = []")
    case True
    then show ?thesis by (subst remap_loop.simps) auto
  next
    case False
    let ?j = "chunk_len remap_budget es"
    obtain w where step: "remap_loop new es s =
      Option.bind (remap_loop new (drop ?j es) (s\<lparr>wal := w, pending := True\<rparr>)) (\<lambda>r.
        case r of (Inl e, s) \<Rightarrow> Some (Inl e, s) | (Inr rs, s') \<Rightarrow> Some (Inr ((next_lsn (wal s), SegmentRemap new (take ?j es)) # rs), s'))"
      using remap_loop_step [OF refl False, of new s] by blast
    have j: "0 < ?j" using chunk_len_pos [OF False] less.prems [of "hd es"] False by simp
    then have shorter: "length (drop ?j es) < length es" using False by simp
    have "\<And>e. e \<in> set (drop ?j es) \<Longrightarrow> 22 + length (re_key e) \<le> remap_budget" using less.prems by (meson in_set_dropD)
    from less.hyps [OF shorter this, of "s\<lparr>wal := w, pending := True\<rparr>"] obtain rs s' chunks
      where ih: "remap_loop new (drop ?j es) (s\<lparr>wal := w, pending := True\<rparr>) = Some (Inr rs, s')" "length rs \<le> length (drop ?j es)"
        "map snd rs = map (SegmentRemap new) chunks" "concat chunks = drop ?j es" "\<forall>rec \<in> snd ` set rs. record_size rec \<le> 4072"
      by blast
    let ?rs = "(next_lsn (wal s), SegmentRemap new (take ?j es)) # rs"
    have "map snd ?rs = map (SegmentRemap new) (take ?j es # chunks)" "concat (take ?j es # chunks) = es"
      using ih(3,4) by simp_all
    moreover have "length ?rs \<le> length es" using ih(2) shorter by simp
    moreover have "\<forall>rec \<in> snd ` set ?rs. record_size rec \<le> 4072" using ih(5) chunk_record_fits [of new es] by simp
    ultimately show ?thesis using step ih(1) by (metis (no_types, lifting) bind.simps(2) case_prod_conv sum.case(2))
  qed
qed

lemma remap_loop_large_key:
  assumes "remap_budget < 22 + length (re_key e)"
  shows "remap_loop new (e # es) s = None"
proof (rule ccontr)
  assume "remap_loop new (e # es) s \<noteq> None"
  then obtain r s' where run: "remap_loop new (e # es) s = Some (r, s')" by (metis not_None_eq surj_pair)
  have "\<exists>rs. r = Inr rs \<and> (e # es = [] \<or> \<not> remap_budget < 22 + length (re_key (hd (e # es))))"
  proof (rule remap_loop_rounds [OF run, where P = "\<lambda>es _ _ _. es = [] \<or> \<not> remap_budget < 22 + length (re_key (hd es))"], goal_cases)
    case (2 es s w rs s')
    then show ?case by (cases es) (auto simp: Let_def)
  qed simp
  then show False using assms by simp
qed

section \<open>A put that is refused half-way\<close>

lemma write_value_fields:
  assumes "inner_inv s"
  shows "\<exists>d segs. op_bind (open_segment (active_id s)) (\<lambda>_. write_value v) s = (Inr (), s\<lparr>dir := d, segments := segs\<rparr>)"
proof -
  obtain r1 s1 where o: "open_segment (active_id s) s = (r1, s1)" by force
  have "active_id s < next_free_id s" using assms(1) by (simp add: inner_inv_def)
  from open_segment_ok [OF assms(1) o this] obtain i d segs where "r1 = Inr ()"
    "map_of (segments s1) (active_id s) = Some i" "s1 = s\<lparr>dir := d, segments := segs\<rparr>" by blast
  then show ?thesis
    using o by (intro exI [of _ "write_file i (unat (active_offset s)) v d"] exI [of _ segs]) (simp add: op_bind_def write_value_def)
qed

lemma stage_body_refused:
  assumes "inner_inv s" "wal_holds (wal s) flog blog" "utf8_valid key"
    "record_size (Put key (of_nat (length v)) 0) \<le> 4072"
    "\<not> record_size (AggDelta (deltas_for (rollup s) key (of_nat (length v)))) \<le> 4072"
  shows "\<exists>s'. stage_body key v s = (Inl RecordTooLarge, s') \<and> index s' = index s \<and> active_offset s' = active_offset s \<and>
    wal_holds (wal s') flog (blog @ [(next_lsn (wal s), Put key (of_nat (length v)) (next_lsn (wal s)))])"
proof -
  let ?put = "Put key (of_nat (length v)) (next_lsn (wal s))"
  obtain d segs where w: "op_bind (open_segment (active_id s)) (\<lambda>_. write_value v) s = (Inr (), s\<lparr>dir := d, segments := segs\<rparr>)"
    using write_value_fields [OF assms(1)] by blast
  let ?s2 = "s\<lparr>dir := d, segments := segs\<rparr>"
  have "record_size ?put \<le> 4072" using assms(4) by (simp add: record_size_def)
  then obtain w1 where a: "append_at ?put (next_lsn (wal s)) (wal s) = Inr w1" by (simp add: append_at_eq)
  then have p: "inner_append ?put ?s2 = (Inr (next_lsn (wal s)), ?s2\<lparr>wal := w1\<rparr>)" by (simp add: inner_append_def wal_append_def)
  have h: "wal_holds w1 flog (blog @ [(next_lsn (wal s), ?put)])"
    using append_at_holds [OF assms(2) a] assms(3) by (simp add: record_utf8_def record_strings_def)
  have "stage_body key v s = (Inl RecordTooLarge, ?s2\<lparr>wal := w1\<rparr>)"
    using w p assms(5)
    by (auto simp: stage_body_def op_bind_def op_basic Let_def inner_append_def wal_append_def append_at_eq split: prod.splits sum.splits)
  then show ?thesis using h by simp
qed

lemma single_segment: "key \<noteq> [] \<Longrightarrow> slash \<notin> set key \<Longrightarrow> prefixes_of key = [[]]"
proof -
  assume "key \<noteq> []" "slash \<notin> set key"
  then have "path_segments (join [key]) = [key]" by (intro path_segments_join) (simp add: segment_def)
  moreover have "join [key] = key" by (simp add: join_def)
  ultimately show ?thesis by (simp add: prefixes_of_eq)
qed

section \<open>Properties\<close>

text \<open>
  The remap records are complete: if all keys are shorter than 4040 bytes, the loop of \<open>compact_stage\<close> that writes
  them ends with success, the records list exactly the entries in order, and each fits a log block.\<close>

theorem remap_records_complete:
  assumes "\<forall>e \<in> set es. length (re_key e) < 4040"
  shows "\<exists>rs s' chunks. remap_loop new es s = Some (Inr rs, s') \<and>
    map snd rs = map (SegmentRemap new) chunks \<and> concat chunks = es \<and> (\<forall>(l, rec) \<in> set rs. \<exists>v. encode_record rec = Inr v)"
proof -
  have "\<And>e. e \<in> set es \<Longrightarrow> 22 + length (re_key e) \<le> remap_budget" using assms by (auto simp: remap_budget_eq)
  from remap_loop_ends [OF this, where new = new and s = s] obtain rs s' chunks where "remap_loop new es s = Some (Inr rs, s')"
    "map snd rs = map (SegmentRemap new) chunks" "concat chunks = es" "\<forall>rec \<in> snd ` set rs. record_size rec \<le> 4072" by blast
  moreover from this(4) have "\<forall>(l, rec) \<in> set rs. \<exists>v. encode_record rec = Inr v" by (auto simp: encode_record_eq)
  ultimately show ?thesis by blast
qed

theorem remap_records_complete_witness:
  "\<exists>rs s' chunks. remap_loop 3 [\<lparr>re_key = [97], re_lsn = 1, re_offset = 0, re_len = 2\<rparr>] (fresh_inner empty_disk 100 (wal_open None)) = Some (Inr rs, s') \<and>
     map snd rs = map (SegmentRemap 3) chunks \<and> concat chunks = [\<lparr>re_key = [97], re_lsn = 1, re_offset = 0, re_len = 2\<rparr>]"
  using remap_records_complete [of "[\<lparr>re_key = [97], re_lsn = 1, re_offset = 0, re_len = 2\<rparr>]" 3 "fresh_inner empty_disk 100 (wal_open None)"]
  by auto





end
