(* ===== verification/Layout.thy ===== *)
theory Layout
  imports StoreSafety
begin

text \<open>
  What a log says about the store, as a function of the log alone: the index, the aggregates, the active
  segment and how long every segment must be. Recovery computes this layout, and a running store that
  writes the log agrees with it. The records of compaction are outside the logs treated here.
\<close>

section \<open>The layout of a log\<close>

record layout =
  l_index :: "(str \<times> loc) list"
  l_rollup :: Rollup
  l_act :: u64
  l_off :: u64
  l_len :: "(u64 \<times> u64) list"

definition layout0 :: layout where
  "layout0 = \<lparr>l_index = [], l_rollup = Rollup_default, l_act = 0, l_off = 0, l_len = []\<rparr>"

definition lay_step :: "entry \<Rightarrow> layout \<Rightarrow> layout" where
  "lay_step e l = (case snd e of
     Put key len stripe \<Rightarrow> l\<lparr>
       l_index := AList.update key (l_act l, l_off l, len, fst e) (l_index l),
       l_rollup := rollup_record key (ucast len) (l_rollup l),
       l_off := l_off l + ucast len,
       l_len := AList.update (l_act l) (l_off l + ucast len) (l_len l)\<rparr>
   | SegmentSeal a b \<Rightarrow> l\<lparr>l_len := AList.update a (l_off l) (l_len l), l_act := b, l_off := 0\<rparr>
   | _ \<Rightarrow> l)"

definition layout_of :: "entry list \<Rightarrow> layout" where
  "layout_of lg = fold lay_step lg layout0"

lemma layout_of_Nil [simp]: "layout_of [] = layout0"
  by (simp add: layout_of_def)

lemma layout_of_snoc [simp]: "layout_of (lg @ [e]) = lay_step e (layout_of lg)"
  by (simp add: layout_of_def)

text \<open>Replaying records in \<open>recover\<close> computes the layout.\<close>

definition proj :: "replay_state \<Rightarrow> layout" where
  "proj r = \<lparr>l_index = index (rs_inner r), l_rollup = rollup (rs_inner r), l_act = active_id (rs_inner r),
     l_off = active_offset (rs_inner r), l_len = rs_committed r\<rparr>"

lemma proj_replay: "proj (replay_record e r) = lay_step e (proj r)"
  by (cases e; cases "snd e") (auto simp: replay_record_def lay_step_def proj_def Let_def)

lemma proj_replays: "proj (fold replay_record lg r) = fold lay_step lg (proj r)"
  by (induction lg arbitrary: r) (simp_all add: proj_replay)

section \<open>Logs without wrap-around and compaction\<close>

definition used_ids :: "layout \<Rightarrow> u64 set" where
  "used_ids l = insert (l_act l) (dom (map_of (l_len l)))"

definition good_entry :: "layout \<Rightarrow> Record \<Rightarrow> bool" where
  "good_entry l rec = (case rec of
     Put key len stripe \<Rightarrow> unat (l_off l) + unat len < 2 ^ 64
   | SegmentSeal a b \<Rightarrow> a = l_act l \<and> b \<notin> used_ids l
   | SegmentSwap a b \<Rightarrow> False
   | SegmentRemap a es \<Rightarrow> False
   | _ \<Rightarrow> True)"

inductive good_log :: "entry list \<Rightarrow> bool" where
  good_Nil: "good_log []"
| good_snoc: "good_log lg \<Longrightarrow> good_entry (layout_of lg) (snd e) \<Longrightarrow> good_log (lg @ [e])"

inductive_cases good_snocE: "good_log (lg @ [e])"

lemma good_log_snoc: "good_log (lg @ [e]) \<longleftrightarrow> good_log lg \<and> good_entry (layout_of lg) (snd e)"
  by (auto elim: good_snocE intro: good_snoc)

lemma good_log_prefix: "good_log (xs @ ys) \<Longrightarrow> good_log xs"
  by (induction ys rule: rev_induct) (simp_all add: good_log_snoc flip: append_assoc)

text \<open>Every indexed value lies below the length its segment must have, and the active segment ends at the offset.\<close>

definition layout_ok :: "layout \<Rightarrow> bool" where
  "layout_ok l \<longleftrightarrow>
    (\<forall>k seg off len lsn. map_of (l_index l) k = Some (seg, off, len, lsn) \<longrightarrow>
       (\<exists>t. map_of (l_len l) seg = Some t \<and> unat off + unat len \<le> unat t)) \<and>
    (case map_of (l_len l) (l_act l) of None \<Rightarrow> l_off l = 0 | Some t \<Rightarrow> t = l_off l)"

definition lens_le :: "layout \<Rightarrow> layout \<Rightarrow> bool" where
  "lens_le l l' \<longleftrightarrow> (\<forall>sid t. map_of (l_len l) sid = Some t \<longrightarrow> (\<exists>t'. map_of (l_len l') sid = Some t' \<and> unat t \<le> unat t'))"

lemma unat_ucast_32_64 [simp]: "unat (ucast (x::u32) :: u64) = unat x"
proof -
  have "unat x < 2 ^ 64" using unsigned_less [of x, where ?'a = nat] by simp
  then show ?thesis by (simp add: unsigned_ucast_eq take_bit_nat_eq_self)
qed

lemma lay_step_ok:
  assumes "layout_ok l" "good_entry l (snd e)"
  shows "layout_ok (lay_step e l) \<and> lens_le l (lay_step e l)"
proof (cases "snd e")
  case (Put key len stripe)
  have n: "unat (l_off l + ucast len) = unat (l_off l) + unat len"
    using assms(2) by (simp add: Put good_entry_def unat_add_small)
  have act: "unat t \<le> unat (l_off l)" if "map_of (l_len l) (l_act l) = Some t" for t
    using assms(1) that by (simp add: layout_ok_def)
  have "\<exists>t'. map_of (l_len (lay_step e l)) sid = Some t' \<and> unat t \<le> unat t'" if "map_of (l_len l) sid = Some t" for sid t
    using that act n by (cases "sid = l_act l") (auto simp: Put lay_step_def update_conv')
  then have le: "lens_le l (lay_step e l)" by (simp add: lens_le_def)
  have "\<exists>t. map_of (l_len (lay_step e l)) seg = Some t \<and> unat off + unat ln \<le> unat t"
    if "map_of (l_index (lay_step e l)) k = Some (seg, off, ln, lsn)" for k seg off ln lsn
  proof (cases "k = key")
    case True
    then show ?thesis using that n by (auto simp: Put lay_step_def update_conv')
  next
    case False
    then have "map_of (l_index l) k = Some (seg, off, ln, lsn)" using that by (simp add: Put lay_step_def update_conv')
    then obtain t where "map_of (l_len l) seg = Some t" "unat off + unat ln \<le> unat t"
      using assms(1) unfolding layout_ok_def by blast
    then show ?thesis using le unfolding lens_le_def by (meson order_trans)
  qed
  then show ?thesis using le by (auto simp: layout_ok_def) (simp add: Put lay_step_def update_conv')
next
  case (SegmentSeal a b)
  have a: "a = l_act l" and b: "b \<noteq> l_act l" "map_of (l_len l) b = None"
    using assms(2) by (auto simp: SegmentSeal good_entry_def used_ids_def)
  have "map_of (l_len l) a = Some t \<Longrightarrow> t = l_off l" for t using assms(1) a by (simp add: layout_ok_def)
  then have le: "lens_le l (lay_step e l)" by (auto simp: lens_le_def SegmentSeal lay_step_def update_conv')
  have "\<exists>t. map_of (l_len (lay_step e l)) seg = Some t \<and> unat off + unat ln \<le> unat t"
    if "map_of (l_index (lay_step e l)) k = Some (seg, off, ln, lsn)" for k seg off ln lsn
  proof -
    have "map_of (l_index l) k = Some (seg, off, ln, lsn)" using that by (simp add: SegmentSeal lay_step_def)
    then obtain t where "map_of (l_len l) seg = Some t" "unat off + unat ln \<le> unat t"
      using assms(1) unfolding layout_ok_def by blast
    then show ?thesis using le unfolding lens_le_def by (meson order_trans)
  qed
  moreover have "map_of (l_len (lay_step e l)) (l_act (lay_step e l)) = None" "l_off (lay_step e l) = 0"
    using a b by (simp_all add: SegmentSeal lay_step_def update_conv')
  ultimately show ?thesis using le by (auto simp: layout_ok_def)
qed (use assms in \<open>auto simp: lay_step_def lens_le_def layout_ok_def\<close>)

lemma layout_ok_good: "good_log lg \<Longrightarrow> layout_ok (layout_of lg)"
  by (induction rule: good_log.induct) (auto simp: layout0_def layout_ok_def [of layout0] dest: lay_step_ok, simp add: layout_ok_def)

lemma lens_le_refl: "lens_le l l"
  by (simp add: lens_le_def)

lemma lens_le_trans: "lens_le a b \<Longrightarrow> lens_le b c \<Longrightarrow> lens_le a c"
  unfolding lens_le_def by (meson order_trans)

lemma lens_le_append: "good_log (xs @ ys) \<Longrightarrow> lens_le (layout_of xs) (layout_of (xs @ ys))"
proof (induction ys rule: rev_induct)
  case (snoc y ys)
  then have g: "good_log (xs @ ys)" "good_entry (layout_of (xs @ ys)) (snd y)"
    by (simp_all add: good_log_snoc flip: append_assoc)
  have "lens_le (layout_of (xs @ ys)) (layout_of ((xs @ ys) @ [y]))"
    using lay_step_ok [OF layout_ok_good [OF g(1)] g(2)] by (simp only: layout_of_snoc)
  then show ?case using lens_le_trans [OF snoc.IH [OF g(1)]] by simp
qed (simp add: lens_le_refl)

end
