(* ===== verification/CrashSafety.thy ===== *)
theory CrashSafety
  imports Layout
begin

text \<open>
  Crash safety of the store. A crash keeps of every file at least the prefix on which its synced and its
  current contents agree, and of the log a prefix as described with the log. The result: opening the
  store after a crash succeeds and serves exactly the snapshot that was published last.
\<close>

section \<open>The directory of segment files\<close>

lemma length_show_nat: "n < 10 ^ Suc k \<Longrightarrow> length (show_nat n) \<le> Suc k"
proof (induction k arbitrary: n)
  case 0
  then show ?case by (simp add: show_nat.simps [of n])
next
  case (Suc k)
  then have "length (show_nat (n div 10)) \<le> Suc k" by simp
  then show ?case by (simp add: show_nat.simps [of n])
qed

lemma parse_seg_name:
  assumes "unat sid < 10 ^ 8"
  shows "parse_segment_name (seg_name sid) = Some sid"
proof -
  let ?p = "pad8 (show_nat (unat sid))"
  have "length (show_nat (unat sid)) \<le> 8" using length_show_nat [of "unat sid" 7] assms by simp
  then have l: "length ?p = 8" by (simp add: pad8_def)
  have "list_all is_digit (replicate k CHR ''0'')" for k by (induction k) (simp_all add: is_digit_def)
  then have d: "list_all is_digit ?p" using digits_show_nat by (simp add: pad8_def)
  have "parse_digits ?p = unat sid" by (simp add: pad8_def parse_digits_zeros parse_digits_show)
  then show ?thesis using l d
    by (simp add: parse_segment_name_def seg_name_def strip_prefix_def strip_suffix_def SEG_PREFIX_def SEG_SUFFIX_def)
qed

lemma seg_name_not_tmp: "\<not> ends_with ''.tmp'' (seg_name sid)"
  by (simp add: ends_with_def strip_suffix_def seg_name_def SEG_PREFIX_def SEG_SUFFIX_def)

definition names_ok :: "disk \<Rightarrow> bool" where
  "names_ok d \<longleftrightarrow> distinct (map fst (dir_entries d)) \<and>
    (\<forall>n \<in> fst ` set (dir_entries d). \<exists>sid. n = seg_name sid \<and> unat sid < 10 ^ 8)"

lemma remove_tmps_id: "names_ok d \<Longrightarrow> remove_tmps d = d"
proof -
  have "fold drop_tmp es d' = d'" if "\<forall>n \<in> fst ` set es. \<exists>sid. n = seg_name sid \<and> unat sid < 10 ^ 8" for es d'
    using that by (induction es) (auto simp: drop_tmp_def seg_name_not_tmp)
  then show "names_ok d \<Longrightarrow> ?thesis" unfolding remove_tmps_def names_ok_def by blast
qed

lemma note_segment_seg: "unat s < 10 ^ 8 \<Longrightarrow> note_segment (seg_name s, i) ex = AList.update s i ex"
  by (simp add: note_segment_def seg_name_not_tmp parse_seg_name)

lemma note_segments:
  assumes "distinct (map fst es)" "\<forall>n \<in> fst ` set es. \<exists>sid. n = seg_name sid \<and> unat sid < 10 ^ 8"
  shows "map_of (fold note_segment es ex) sid = (case map_of es (seg_name sid) of Some i \<Rightarrow> Some i | None \<Rightarrow> map_of ex sid)"
    and "distinct (map fst ex) \<Longrightarrow> distinct (map fst (fold note_segment es ex))"
  using assms
proof (induction es arbitrary: ex)
  case (Cons x es)
  {
    case 1
    obtain s i where x: "x = (seg_name s, i)" and s: "unat s < 10 ^ 8" using "1.prems"(2) by (cases x) auto
    have "map_of es (seg_name s) = None" using "1.prems"(1) x by (simp add: map_of_eq_None_iff)
    then show ?case
      using Cons.IH(1) [of "AList.update s i ex"] "1.prems" note_segment_seg [OF s]
      by (auto simp: x update_conv' seg_name_inj split: option.split)
  next
    case 2
    obtain s i where x: "x = (seg_name s, i)" and s: "unat s < 10 ^ 8" using "2.prems"(3) by (cases x) auto
    have "distinct (map fst (AList.update s i ex))" using "2.prems"(1) by (rule distinct_update)
    then show ?case using Cons.IH(2) [of "AList.update s i ex"] "2.prems" note_segment_seg [OF s] by (simp add: x)
  }
qed simp_all

lemma existing_segments_lookup:
  assumes "names_ok d"
  shows "map_of (existing_segments d) sid = lookup_file (seg_name sid) d"
    and "distinct (map fst (existing_segments d))"
  using assms note_segments [of "dir_entries d" "[]"]
  by (auto simp: existing_segments_def names_ok_def lookup_file_def split: option.split)

section \<open>Truncating and reopening the files\<close>

definition file_synced :: "disk \<Rightarrow> nat \<Rightarrow> bytes" where
  "file_synced d i = (if i < length (inodes d) then fsynced (inodes d ! i) else [])"

lemma file_synced_set_data [simp]: "file_synced (set_data i bs d) j = file_synced d j"
  by (cases "i < length (inodes d)") (auto simp: file_synced_def set_data_def nth_list_update list_update_beyond)

definition target_of :: "(u64 \<times> u64) list \<Rightarrow> u64 \<Rightarrow> u64" where
  "target_of committed sid = (case map_of committed sid of None \<Rightarrow> 0 | Some t \<Rightarrow> t)"

lemma truncate_files_ok:
  assumes "distinct (map snd ex)" "\<forall>(sid, i) \<in> set ex. i < length (inodes d) \<and> unat (target_of committed sid) \<le> length (file_data d i)"
  shows "\<exists>d'. truncate_files committed ex d = (Inr (), d') \<and> dir_entries d' = dir_entries d \<and> length (inodes d') = length (inodes d) \<and>
    (\<forall>(sid, i) \<in> set ex. file_data d' i = take (unat (target_of committed sid)) (file_data d i)) \<and>
    (\<forall>i. i \<notin> snd ` set ex \<longrightarrow> file_data d' i = file_data d i) \<and> (\<forall>i. file_synced d' i = file_synced d i)"
  using assms
proof (induction ex arbitrary: d)
  case (Cons x ex)
  obtain sid i where x: "x = (sid, i)" by force
  let ?t = "unat (target_of committed sid)"
  let ?d = "set_data i (set_len ?t (file_data d i)) d"
  have i: "i < length (inodes d)" "?t \<le> length (file_data d i)" using Cons.prems(2) x by auto
  have fd: "file_data ?d j = (if j = i then take ?t (file_data d i) else file_data d j)" for j
    using i by (auto simp: file_data_set_data set_len_def)
  have ni: "i \<notin> snd ` set ex" using Cons.prems(1) x by simp
  have prems: "\<forall>(sid', j) \<in> set ex. j < length (inodes ?d) \<and> unat (target_of committed sid') \<le> length (file_data ?d j)"
    using Cons.prems(2) ni fd by (force simp: image_iff)
  have "distinct (map snd ex)" using Cons.prems(1) x by simp
  from Cons.IH [OF this prems] obtain d' where d': "truncate_files committed ex ?d = (Inr (), d')" "dir_entries d' = dir_entries ?d"
    "length (inodes d') = length (inodes ?d)" "\<forall>(sid', j) \<in> set ex. file_data d' j = take (unat (target_of committed sid')) (file_data ?d j)"
    "\<forall>j. j \<notin> snd ` set ex \<longrightarrow> file_data d' j = file_data ?d j" "\<forall>j. file_synced d' j = file_synced ?d j" by blast
  have "truncate_files committed (x # ex) d = (Inr (), d')"
    using d'(1) i by (simp add: x Let_def target_of_def [symmetric])
  moreover have "\<forall>(sid', j) \<in> set (x # ex). file_data d' j = take (unat (target_of committed sid')) (file_data d j)"
    using d'(4,5) ni fd by (force simp: x image_iff)
  moreover have "\<forall>j. file_synced d' j = file_synced d j" using d'(6) by simp
  ultimately show ?case using d'(2,3,5) fd by (auto simp: x set_data_def)
qed simp

lemma open_create_ok:
  assumes "disk_ok d" "open_create n d = (i, d')"
  shows "disk_ok d'" and "lookup_file n d' = Some i" and "\<And>m j. lookup_file m d = Some j \<Longrightarrow> lookup_file m d' = Some j"
    and "file_data d' j = file_data d j" and "file_synced d' j = file_synced d j"
    and "\<And>m j. lookup_file m d' = Some j \<Longrightarrow> m \<noteq> n \<Longrightarrow> lookup_file m d = Some j"
    and "fst ` set (dir_entries d') = insert n (fst ` set (dir_entries d))"
    and "distinct (map fst (dir_entries d)) \<Longrightarrow> distinct (map fst (dir_entries d'))"
proof -
  show "file_synced d' j = file_synced d j"
    using assms(2) by (auto simp: open_create_def file_synced_def nth_append empty_file_def split: option.splits)
  show "distinct (map fst (dir_entries d)) \<Longrightarrow> distinct (map fst (dir_entries d'))"
    using assms(2) by (auto simp: open_create_def distinct_update split: option.splits)
  show "fst ` set (dir_entries d') = insert n (fst ` set (dir_entries d))"
  proof (cases "lookup_file n d")
    case None
    then show ?thesis using assms(2) by (auto simp: open_create_def update_conv' simp flip: dom_map_of_conv_image_fst)
  next
    case (Some i)
    then have "n \<in> fst ` set (dir_entries d)" by (metis dom_map_of_conv_image_fst domI lookup_file_def)
    then show ?thesis using assms(2) Some by (auto simp: open_create_def)
  qed
  have range: "\<And>m j. lookup_file m d = Some j \<Longrightarrow> j < length (inodes d)"
    and inj: "\<And>m m' j. lookup_file m d = Some j \<Longrightarrow> lookup_file m' d = Some j \<Longrightarrow> m = m'"
    using assms(1) by (simp_all add: disk_ok_def)
  have new: "lookup_file n d = None \<Longrightarrow> i = length (inodes d) \<and> length (inodes d') = Suc (length (inodes d)) \<and>
      (\<forall>m. lookup_file m d' = (if m = n then Some i else lookup_file m d)) \<and> (\<forall>j. file_data d' j = file_data d j)"
    using open_create_new [of n d] assms(2) by auto
  have old: "lookup_file n d = Some k \<Longrightarrow> i = k \<and> d' = d" for k using open_create_known assms(2) by fastforce
  show "lookup_file n d' = Some i" "\<And>m j. lookup_file m d = Some j \<Longrightarrow> lookup_file m d' = Some j" "file_data d' j = file_data d j"
    "\<And>m j. lookup_file m d' = Some j \<Longrightarrow> m \<noteq> n \<Longrightarrow> lookup_file m d = Some j"
    using new old by (cases "lookup_file n d"; auto)+
  show "disk_ok d'"
  proof (cases "lookup_file n d")
    case None
    have "m = m'" if "lookup_file m d' = Some j" "lookup_file m' d' = Some j" for m m' j
      using that new [OF None] range [of m j] range [of m' j] inj [of m j m'] by (metis less_irrefl option.inject)
    moreover have "j < length (inodes d')" if "lookup_file m d' = Some j" for m j
      using that new [OF None] range [of m j] by (auto split: if_splits)
    ultimately show ?thesis by (auto simp: disk_ok_def)
  next
    case (Some k)
    then show ?thesis using old assms(1) by simp
  qed
qed

text \<open>Opening segments: the named files become the handles; existing files and contents stay.\<close>

definition opened :: "Inner \<Rightarrow> u64 list \<Rightarrow> disk \<Rightarrow> (u64 \<times> nat) list \<Rightarrow> bool" where
  "opened s ids d segs \<longleftrightarrow> disk_ok d \<and>
    (\<forall>sid i. map_of segs sid = Some i \<longrightarrow> lookup_file (seg_name sid) d = Some i) \<and>
    (\<forall>sid. sid \<in> set ids \<or> map_of (segments s) sid \<noteq> None \<longrightarrow> map_of segs sid \<noteq> None) \<and>
    (\<forall>n i. lookup_file n (dir s) = Some i \<longrightarrow> lookup_file n d = Some i) \<and>
    (\<forall>i. file_data d i = file_data (dir s) i) \<and> (\<forall>i. file_synced d i = file_synced (dir s) i) \<and>
    fst ` set (dir_entries d) \<subseteq> fst ` set (dir_entries (dir s)) \<union> seg_name ` set ids \<and>
    (distinct (map fst (dir_entries (dir s))) \<longrightarrow> distinct (map fst (dir_entries d)))"

lemma opened_known: "map_of (segments s) sid = Some i \<Longrightarrow> opened s ids d segs \<Longrightarrow> opened s (sid # ids) d segs"
  by (auto simp: opened_def)

lemma opened_new:
  assumes "disk_ok (dir s)" "map_of (segments s) sid = None" "open_create (seg_name sid) (dir s) = (i, d1)"
    and "opened (s\<lparr>dir := d1, segments := AList.update sid i (segments s)\<rparr>) ids d segs"
  shows "opened s (sid # ids) d segs"
proof -
  note c = open_create_ok [OF assms(1,3)]
  let ?s1 = "s\<lparr>dir := d1, segments := AList.update sid i (segments s)\<rparr>"
  have o: "disk_ok d" "\<And>x j. map_of segs x = Some j \<Longrightarrow> lookup_file (seg_name x) d = Some j"
      "\<And>x. x \<in> set ids \<or> map_of (segments ?s1) x \<noteq> None \<Longrightarrow> map_of segs x \<noteq> None"
      "\<And>n j. lookup_file n d1 = Some j \<Longrightarrow> lookup_file n d = Some j"
      "\<And>j. file_data d j = file_data d1 j" "\<And>j. file_synced d j = file_synced d1 j"
      "fst ` set (dir_entries d) \<subseteq> fst ` set (dir_entries d1) \<union> seg_name ` set ids"
      "distinct (map fst (dir_entries d1)) \<Longrightarrow> distinct (map fst (dir_entries d))"
    using assms(4) unfolding opened_def by simp_all blast
  have "map_of segs x \<noteq> None" if "x \<in> set (sid # ids) \<or> map_of (segments s) x \<noteq> None" for x
    using that o(3) [of x] by (auto simp: update_conv')
  moreover have "fst ` set (dir_entries d) \<subseteq> fst ` set (dir_entries (dir s)) \<union> seg_name ` set (sid # ids)"
    using o(7) unfolding c(7) by auto
  ultimately show ?thesis unfolding opened_def using o(1,2,4-6,8) c(3-5,8) by simp
qed

lemma open_segments_ok:
  assumes "disk_ok (dir s)" "\<forall>sid i. map_of (segments s) sid = Some i \<longrightarrow> lookup_file (seg_name sid) (dir s) = Some i"
  shows "\<exists>d segs. op_for open_segment ids s = (Inr (), s\<lparr>dir := d, segments := segs\<rparr>) \<and> opened s ids d segs"
  using assms
proof (induction ids arbitrary: s)
  case Nil
  then show ?case by (intro exI [of _ "dir s"] exI [of _ "segments s"]) (simp add: ret_def opened_def)
next
  case (Cons sid ids)
  show ?case
  proof (cases "map_of (segments s) sid")
    case (Some i)
    then have "op_for open_segment (sid # ids) s = op_for open_segment ids s" by (simp add: op_bind_def open_segment_def)
    then show ?thesis using Cons.IH [OF Cons.prems] opened_known [of s sid, OF Some] by metis
  next
    case None
    obtain i d1 where o: "open_create (seg_name sid) (dir s) = (i, d1)" by force
    note c = open_create_ok [OF Cons.prems(1) o]
    let ?s1 = "s\<lparr>dir := d1, segments := AList.update sid i (segments s)\<rparr>"
    have run: "op_for open_segment (sid # ids) s = op_for open_segment ids ?s1"
      using None o by (simp add: op_bind_def open_segment_def)
    have "\<forall>x j. map_of (segments ?s1) x = Some j \<longrightarrow> lookup_file (seg_name x) (dir ?s1) = Some j"
      using Cons.prems(2) c(2,3) by (simp add: update_conv')
    moreover have "disk_ok (dir ?s1)" using c(1) by simp
    ultimately obtain d segs where ih: "op_for open_segment ids ?s1 = (Inr (), ?s1\<lparr>dir := d, segments := segs\<rparr>)" "opened ?s1 ids d segs"
      using Cons.IH [of ?s1] by blast
    then show ?thesis using opened_new [OF Cons.prems(1) None o ih(2)] run by auto
  qed
qed

section \<open>Recovery from a log without compaction\<close>

lemma replay_keeps: "dir (rs_inner (replay_record e r)) = dir (rs_inner r)" "segments (rs_inner (replay_record e r)) = segments (rs_inner r)"
  "wal (rs_inner (replay_record e r)) = wal (rs_inner r)" "dirty_segments (rs_inner (replay_record e r)) = dirty_segments (rs_inner r)"
  by (cases e; cases "snd e"; simp add: replay_record_def Let_def)+

lemma replays_keep: "dir (rs_inner (fold replay_record lg r)) = dir (rs_inner r) \<and> segments (rs_inner (fold replay_record lg r)) = segments (rs_inner r) \<and>
    wal (rs_inner (fold replay_record lg r)) = wal (rs_inner r) \<and> dirty_segments (rs_inner (fold replay_record lg r)) = dirty_segments (rs_inner r)"
  by (induction lg arbitrary: r) (simp_all add: replay_keeps)

lemma good_no_swaps: "good_log lg \<Longrightarrow> rs_swap_pairs (fold replay_record lg r) = rs_swap_pairs r"
proof (induction rule: good_log.induct)
  case (good_snoc lg e)
  have "rs_swap_pairs (replay_record e r') = rs_swap_pairs r'" for r'
    using good_snoc(2) by (cases e; cases "snd e") (auto simp: replay_record_def good_entry_def Let_def)
  then show ?case using good_snoc by simp
qed simp

lemma distinct_l_len: "distinct (map fst (l_len (layout_of lg)))"
proof (induction lg rule: rev_induct)
  case (snoc e lg)
  then show ?case by (cases "snd e") (auto simp: lay_step_def distinct_update)
qed (simp add: layout0_def)

lemma distinct_snd_existing:
  assumes "disk_ok d" "names_ok d"
  shows "distinct (map snd (existing_segments d))"
proof -
  let ?ex = "existing_segments d"
  have look: "lookup_file (seg_name sid) d = Some i" if "(sid, i) \<in> set ?ex" for sid i
    using that existing_segments_lookup [OF assms(2)] by (metis map_of_is_SomeI)
  have "inj_on snd (set ?ex)"
  proof (rule inj_onI)
    fix a b assume ab: "a \<in> set ?ex" "b \<in> set ?ex" "snd a = snd b"
    have "lookup_file (seg_name (fst a)) d = Some (snd a)" "lookup_file (seg_name (fst b)) d = Some (snd a)"
      using look ab by (metis prod.collapse)+
    then have "seg_name (fst a) = seg_name (fst b)" using assms(1) unfolding disk_ok_def by blast
    then show "a = b" using \<open>snd a = snd b\<close> by (simp add: seg_name_inj prod_eq_iff)
  qed
  moreover have "distinct ?ex" using existing_segments_lookup(2) [OF assms(2)] by (simp add: distinct_map)
  ultimately show ?thesis by (simp add: distinct_map)
qed

definition files_reach :: "layout \<Rightarrow> disk \<Rightarrow> bool" where
  "files_reach l d \<longleftrightarrow> (\<forall>sid t. map_of (l_len l) sid = Some t \<longrightarrow> t \<noteq> 0 \<longrightarrow>
     (\<exists>i. lookup_file (seg_name sid) d = Some i \<and> unat t \<le> length (file_data d i)))"

definition ids_below :: "u64 \<Rightarrow> layout \<Rightarrow> disk \<Rightarrow> bool" where
  "ids_below n l d \<longleftrightarrow> (\<forall>sid \<in> used_ids l. sid < n) \<and> (\<forall>m \<in> fst ` set (dir_entries d). \<exists>sid. m = seg_name sid \<and> sid < n)"

definition recovered :: "layout \<Rightarrow> disk \<Rightarrow> Inner \<Rightarrow> bool" where
  "recovered l d s \<longleftrightarrow> index s = l_index l \<and> rollup s = l_rollup l \<and> active_id s = l_act l \<and> active_offset s = l_off l \<and>
    dirty_segments s = [] \<and> disk_ok (dir s) \<and> distinct (map fst (dir_entries (dir s))) \<and> unat (next_free_id s) \<le> 10 ^ 8 \<and>
    ids_below (next_free_id s) l (dir s) \<and>
    (\<forall>sid i. map_of (segments s) sid = Some i \<longrightarrow> lookup_file (seg_name sid) (dir s) = Some i) \<and>
    (\<forall>sid t. map_of (l_len l) sid = Some t \<longrightarrow> (\<exists>i. map_of (segments s) sid = Some i \<and>
      (t \<noteq> 0 \<longrightarrow> lookup_file (seg_name sid) d = Some i \<and> file_data (dir s) i = take (unat t) (file_data d i) \<and>
         file_synced (dir s) i = file_synced d i \<and> unat t \<le> length (file_data d i))))"

lemma fold_max_ge: "(x :: 'a :: linorder) \<in> insert m (set xs) \<Longrightarrow> x \<le> fold max xs m"
  by (simp add: Max.set_eq_fold [symmetric])

lemma fold_max_in: "fold max xs (m :: 'a :: linorder) \<in> insert m (set xs)"
  using Max_in [of "insert m (set xs)"] by (simp add: Max.set_eq_fold [symmetric])

lemma next_id_above:
  assumes "names_ok d" "\<forall>sid \<in> insert a (set ids). unat sid < 10 ^ 8"
    and n: "n = fold max (ids @ map fst (existing_segments d)) a + 1"
  shows "unat n \<le> 10 ^ 8 \<and> (\<forall>sid \<in> insert a (set ids). sid < n) \<and> (\<forall>m \<in> fst ` set (dir_entries d). \<exists>sid. m = seg_name sid \<and> sid < n)"
proof -
  let ?ex = "fst ` set (existing_segments d)" and ?m = "fold max (ids @ map fst (existing_segments d)) a" and ?U = "insert a (set ids)"
  have exn: "x \<in> ?ex \<longleftrightarrow> seg_name x \<in> fst ` set (dir_entries d)" for x
    unfolding dom_map_of_conv_image_fst [symmetric] using existing_segments_lookup(1) [OF assms(1)] by (simp add: dom_def lookup_file_def)
  have seg: "\<exists>sid. nm = seg_name sid \<and> unat sid < 10 ^ 8" if "nm \<in> fst ` set (dir_entries d)" for nm
    using assms(1) that unfolding names_ok_def by blast
  have bound: "unat x < 10 ^ 8" if "x \<in> ?U \<union> ?ex" for x
    using that assms(2) seg [of "seg_name x"] by (auto simp: seg_name_inj exn)
  have "?m \<in> ?U \<union> ?ex" using fold_max_in [of "ids @ map fst (existing_segments d)" a] by auto
  from bound [OF this] have m: "unat n = unat ?m + 1" "unat ?m < 10 ^ 8" by (simp_all add: n unat_add_small)
  have lt: "x < n" if "x \<in> ?U \<union> ?ex" for x
  proof -
    have "x \<le> ?m" using that by (intro fold_max_ge) auto
    then show ?thesis using m(1) by (simp add: word_less_nat_alt word_le_nat_alt)
  qed
  have "\<exists>sid. nm = seg_name sid \<and> sid < n" if "nm \<in> fst ` set (dir_entries d)" for nm
    using seg [OF that] lt exn that by blast
  then show ?thesis using lt m by simp
qed

text \<open>
  The second half of \<open>recover\<close>, once the log has said how long each segment must be and which segments to delete: files are
  checked, truncated, deleted and opened.
\<close>

definition fit_files :: "(u64 \<times> u64) list \<Rightarrow> u64 list \<Rightarrow> (Inner, unit) op" where
  "fit_files committed to_delete s =
    (let existing = existing_segments (dir s); d = remove_tmps (dir s)
     in case find (\<lambda>(sid, target). target > 0 \<and> map_of existing sid = None) committed of
          Some (sid, target) \<Rightarrow>
            (Inl (Corrupt (''segment '' @ seg_name sid @ '' referenced by WAL is missing'')), s\<lparr>dir := d\<rparr>)
        | None \<Rightarrow> (case truncate_files committed existing d of
            (Inl e, d) \<Rightarrow> (Inl e, s\<lparr>dir := d\<rparr>)
          | (Inr _, d) \<Rightarrow>
              (let d = fold (\<lambda>sid. remove_file (seg_name sid)) to_delete d;
                   max_id = fold max (map fst committed @ map fst existing) (active_id s)
               in op_for open_segment (map fst committed) (s\<lparr>dir := d, next_free_id := max_id + 1\<rparr>))))"

definition fitted :: "(u64 \<times> u64) list \<Rightarrow> disk \<Rightarrow> Inner \<Rightarrow> bool" where
  "fitted committed d s \<longleftrightarrow> disk_ok (dir s) \<and> distinct (map fst (dir_entries (dir s))) \<and> unat (next_free_id s) \<le> 10 ^ 8 \<and>
    (\<forall>sid \<in> insert (active_id s) (fst ` set committed). sid < next_free_id s) \<and>
    (\<forall>m \<in> fst ` set (dir_entries (dir s)). \<exists>sid. m = seg_name sid \<and> sid < next_free_id s) \<and>
    (\<forall>sid i. map_of (segments s) sid = Some i \<longrightarrow> lookup_file (seg_name sid) (dir s) = Some i) \<and>
    (\<forall>sid t. map_of committed sid = Some t \<longrightarrow> (\<exists>i. map_of (segments s) sid = Some i \<and>
      (t \<noteq> 0 \<longrightarrow> lookup_file (seg_name sid) d = Some i \<and> file_data (dir s) i = take (unat t) (file_data d i) \<and>
         file_synced (dir s) i = file_synced d i \<and> unat t \<le> length (file_data d i))))"

definition lens_reach :: "(u64 \<times> u64) list \<Rightarrow> disk \<Rightarrow> bool" where
  "lens_reach committed d \<longleftrightarrow> (\<forall>sid t. map_of committed sid = Some t \<longrightarrow> t \<noteq> 0 \<longrightarrow>
     (\<exists>i. lookup_file (seg_name sid) d = Some i \<and> unat t \<le> length (file_data d i)))"

lemma lens_reach_find:
  assumes "lens_reach committed d" "distinct (map fst committed)" "names_ok d"
  shows "find (\<lambda>(sid, target). target > 0 \<and> map_of (existing_segments d) sid = None) committed = None"
proof (rule ccontr)
  assume "find (\<lambda>(sid, target). target > 0 \<and> map_of (existing_segments d) sid = None) committed \<noteq> None"
  then obtain sid t where "(sid, t) \<in> set committed" "t > 0" "map_of (existing_segments d) sid = None" by (auto simp: find_None_iff)
  then show False using assms(1,2) existing_segments_lookup(1) [OF assms(3)] unfolding lens_reach_def
    by (metis map_of_is_SomeI option.distinct(1) word_neq_0_conv)
qed

lemma lens_reach_targets:
  assumes "lens_reach committed d" "disk_ok d" "names_ok d"
  shows "\<forall>(sid, i) \<in> set (existing_segments d). i < length (inodes d) \<and> unat (target_of committed sid) \<le> length (file_data d i)"
proof (intro ballI, clarify)
  fix sid i assume "(sid, i) \<in> set (existing_segments d)"
  then have look: "lookup_file (seg_name sid) d = Some i" using existing_segments_lookup [OF assms(3)] by (metis map_of_is_SomeI)
  have "unat (target_of committed sid) \<le> length (file_data d i)"
  proof (cases "target_of committed sid = 0")
    case False
    then obtain t where "map_of committed sid = Some t" "t \<noteq> 0" "target_of committed sid = t" by (auto simp: target_of_def split: option.splits)
    then show ?thesis using assms(1) look unfolding lens_reach_def by fastforce
  qed simp
  then show "i < length (inodes d) \<and> unat (target_of committed sid) \<le> length (file_data d i)"
    using look assms(2) unfolding disk_ok_def by blast
qed

lemma remove_files:
  "lookup_file n (fold (\<lambda>sid. remove_file (seg_name sid)) ids d) = (if n \<in> seg_name ` set ids then None else lookup_file n d)"
  "inodes (fold (\<lambda>sid. remove_file (seg_name sid)) ids d) = inodes d"
  "fst ` set (dir_entries (fold (\<lambda>sid. remove_file (seg_name sid)) ids d)) \<subseteq> fst ` set (dir_entries d)"
  "distinct (map fst (dir_entries d)) \<Longrightarrow> distinct (map fst (dir_entries (fold (\<lambda>sid. remove_file (seg_name sid)) ids d)))"
proof -
  show "lookup_file n (fold (\<lambda>sid. remove_file (seg_name sid)) ids d) = (if n \<in> seg_name ` set ids then None else lookup_file n d)"
    by (induction ids arbitrary: d) (auto simp: lookup_file_def remove_file_def delete_conv')
  show "inodes (fold (\<lambda>sid. remove_file (seg_name sid)) ids d) = inodes d"
    by (induction ids arbitrary: d) (simp_all add: remove_file_def)
  have one: "fst ` set (dir_entries (remove_file x e)) \<subseteq> fst ` set (dir_entries e)" for x e
    by (auto simp: remove_file_def AList.delete_eq)
  show "fst ` set (dir_entries (fold (\<lambda>sid. remove_file (seg_name sid)) ids d)) \<subseteq> fst ` set (dir_entries d)"
  proof (induction ids arbitrary: d)
    case (Cons x ids)
    show ?case using order_trans [OF Cons.IH one] by simp
  qed simp
  show "distinct (map fst (dir_entries d)) \<Longrightarrow> distinct (map fst (dir_entries (fold (\<lambda>sid. remove_file (seg_name sid)) ids d)))"
    by (induction ids arbitrary: d) (simp_all add: remove_file_def distinct_delete)
qed

text \<open>After truncation and deletion every segment that must not be empty is there, cut to its length.\<close>

lemma cut_files:
  assumes names: "names_ok d" and disk: "disk_ok d" and reach: "lens_reach committed d"
    and del: "\<And>sid. sid \<in> set to_delete \<Longrightarrow> target_of committed sid = 0"
  shows "\<exists>d1. truncate_files committed (existing_segments d) d = (Inr (), d1) \<and>
    (let d2 = fold (\<lambda>sid. remove_file (seg_name sid)) to_delete d1 in disk_ok d2 \<and> distinct (map fst (dir_entries d2)) \<and>
      fst ` set (dir_entries d2) \<subseteq> fst ` set (dir_entries d) \<and> (\<forall>i. file_synced d2 i = file_synced d i) \<and>
      (\<forall>sid t. map_of committed sid = Some t \<longrightarrow> t \<noteq> 0 \<longrightarrow> (\<exists>i. lookup_file (seg_name sid) d = Some i \<and> lookup_file (seg_name sid) d2 = Some i \<and>
         file_data d2 i = take (unat t) (file_data d i) \<and> unat t \<le> length (file_data d i))))"
proof -
  let ?ex = "existing_segments d"
  obtain d1 where d1: "truncate_files committed ?ex d = (Inr (), d1)" "dir_entries d1 = dir_entries d" "length (inodes d1) = length (inodes d)"
    "\<forall>(sid, i) \<in> set ?ex. file_data d1 i = take (unat (target_of committed sid)) (file_data d i)" "\<forall>i. file_synced d1 i = file_synced d i"
    using truncate_files_ok [OF distinct_snd_existing [OF disk names] lens_reach_targets [OF reach disk names]] by blast
  define d2 where "d2 = fold (\<lambda>sid. remove_file (seg_name sid)) to_delete d1"
  have look: "lookup_file n d2 = (if n \<in> seg_name ` set to_delete then None else lookup_file n d)" for n
    using remove_files(1) [of n to_delete d1] d1(2) by (simp add: d2_def lookup_file_def)
  have ino: "inodes d2 = inodes d1" using remove_files(2) by (simp add: d2_def)
  have data: "file_data d2 i = file_data d1 i" "file_synced d2 i = file_synced d1 i" for i by (simp_all add: file_data_def file_synced_def ino)
  have "disk_ok d2" using disk d1(3) by (auto simp: disk_ok_def look ino)
  moreover have "distinct (map fst (dir_entries d2))" "fst ` set (dir_entries d2) \<subseteq> fst ` set (dir_entries d)"
    using names remove_files(3,4) [where d = d1] d1(2) by (auto simp: d2_def names_ok_def)
  moreover have "\<exists>i. lookup_file (seg_name sid) d = Some i \<and> lookup_file (seg_name sid) d2 = Some i \<and>
      file_data d2 i = take (unat t) (file_data d i) \<and> unat t \<le> length (file_data d i)" if t: "map_of committed sid = Some t" "t \<noteq> 0" for sid t
  proof -
    obtain i where i: "lookup_file (seg_name sid) d = Some i" "unat t \<le> length (file_data d i)"
      using reach t unfolding lens_reach_def by blast
    have tg: "target_of committed sid = t" using t(1) by (simp add: target_of_def)
    have "sid \<notin> set to_delete" using del tg t(2) by auto
    then have "lookup_file (seg_name sid) d2 = Some i" using i(1) by (auto simp: look seg_name_inj)
    moreover have "(sid, i) \<in> set ?ex" using existing_segments_lookup(1) [OF names] i(1) by (metis map_of_SomeD)
    then have "file_data d2 i = take (unat t) (file_data d i)" using d1(4) tg by (auto simp: data)
    ultimately show ?thesis using i by blast
  qed
  ultimately show ?thesis using d1(1,5) data by (intro exI [of _ d1]) (simp add: Let_def flip: d2_def)
qed

lemma fit_files_ok:
  assumes names: "names_ok (dir s)" and disk: "disk_ok (dir s)" and reach: "lens_reach committed (dir s)" and segs: "segments s = []"
    and dist: "distinct (map fst committed)" and del: "\<And>sid. sid \<in> set to_delete \<Longrightarrow> target_of committed sid = 0"
    and small: "\<forall>sid \<in> insert (active_id s) (fst ` set committed). unat sid < 10 ^ 8"
  shows "\<exists>d segs n. fit_files committed to_delete s = (Inr (), s\<lparr>next_free_id := n, dir := d, segments := segs\<rparr>) \<and>
    fitted committed (dir s) (s\<lparr>next_free_id := n, dir := d, segments := segs\<rparr>)"
proof -
  let ?d = "dir s" and ?n = "fold max (map fst committed @ map fst (existing_segments (dir s))) (active_id s) + 1"
  obtain d1 where d1: "truncate_files committed (existing_segments ?d) ?d = (Inr (), d1)"
    and d2: "let d2 = fold (\<lambda>sid. remove_file (seg_name sid)) to_delete d1 in disk_ok d2 \<and> distinct (map fst (dir_entries d2)) \<and>
      fst ` set (dir_entries d2) \<subseteq> fst ` set (dir_entries ?d) \<and> (\<forall>i. file_synced d2 i = file_synced ?d i) \<and>
      (\<forall>sid t. map_of committed sid = Some t \<longrightarrow> t \<noteq> 0 \<longrightarrow> (\<exists>i. lookup_file (seg_name sid) ?d = Some i \<and> lookup_file (seg_name sid) d2 = Some i \<and>
         file_data d2 i = take (unat t) (file_data ?d i) \<and> unat t \<le> length (file_data ?d i)))"
    using cut_files [OF names disk reach del] by blast
  define d2 where "d2 = fold (\<lambda>sid. remove_file (seg_name sid)) to_delete d1"
  have k: "disk_ok d2" "distinct (map fst (dir_entries d2))" "fst ` set (dir_entries d2) \<subseteq> fst ` set (dir_entries ?d)"
    "\<And>i. file_synced d2 i = file_synced ?d i"
    "\<And>sid t. map_of committed sid = Some t \<Longrightarrow> t \<noteq> 0 \<Longrightarrow> \<exists>i. lookup_file (seg_name sid) ?d = Some i \<and> lookup_file (seg_name sid) d2 = Some i \<and>
         file_data d2 i = take (unat t) (file_data ?d i) \<and> unat t \<le> length (file_data ?d i)"
    using d2 by (simp_all add: Let_def flip: d2_def)
  let ?s = "s\<lparr>dir := d2, next_free_id := ?n\<rparr>"
  from open_segments_ok [of ?s "map fst committed"] k(1) segs obtain d3 sg where
    run: "op_for open_segment (map fst committed) ?s = (Inr (), ?s\<lparr>dir := d3, segments := sg\<rparr>)" and o: "opened ?s (map fst committed) d3 sg" by auto
  have o': "disk_ok d3" "distinct (map fst (dir_entries d3))" "\<And>sid i. map_of sg sid = Some i \<Longrightarrow> lookup_file (seg_name sid) d3 = Some i"
    "\<And>sid. sid \<in> fst ` set committed \<Longrightarrow> map_of sg sid \<noteq> None" "\<And>n i. lookup_file n d2 = Some i \<Longrightarrow> lookup_file n d3 = Some i"
    "\<And>i. file_data d3 i = file_data d2 i" "\<And>i. file_synced d3 i = file_synced d2 i"
    "fst ` set (dir_entries d3) \<subseteq> fst ` set (dir_entries d2) \<union> seg_name ` fst ` set committed"
    using o k(2) unfolding opened_def by auto
  have n: "unat ?n \<le> 10 ^ 8" "\<forall>sid \<in> insert (active_id s) (fst ` set committed). sid < ?n" "\<forall>m \<in> fst ` set (dir_entries ?d). \<exists>sid. m = seg_name sid \<and> sid < ?n"
    using next_id_above [OF names, of "active_id s" "map fst committed" ?n] small by simp_all
  have "\<exists>i. map_of sg sid = Some i \<and> (t \<noteq> 0 \<longrightarrow> lookup_file (seg_name sid) ?d = Some i \<and> file_data d3 i = take (unat t) (file_data ?d i) \<and>
      file_synced d3 i = file_synced ?d i \<and> unat t \<le> length (file_data ?d i))" if t: "map_of committed sid = Some t" for sid t
  proof -
    have "sid \<in> fst ` set committed" using t by (force dest: map_of_SomeD)
    then obtain i where i: "map_of sg sid = Some i" using o'(4) by auto
    then show ?thesis using k(5) [OF t] o'(3) [OF i] o'(5) by (fastforce simp: o'(6,7) k(4))
  qed
  moreover have "\<exists>sid. m = seg_name sid \<and> sid < ?n" if "m \<in> fst ` set (dir_entries d3)" for m using that o'(8) k(3) n(2,3) by blast
  ultimately have "fitted committed ?d (?s\<lparr>dir := d3, segments := sg\<rparr>)" using o'(1-3) n(1,2) unfolding fitted_def by simp
  moreover have "fit_files committed to_delete s = (Inr (), ?s\<lparr>dir := d3, segments := sg\<rparr>)"
    using lens_reach_find [OF reach dist names] remove_tmps_id [OF names] d1 run by (simp add: fit_files_def Let_def flip: d2_def)
  ultimately show ?thesis by (intro exI [of _ d3] exI [of _ sg] exI [of _ ?n]) simp
qed

lemma recover_eq:
  "recover records s0 =
    (let r = fold replay_record records \<lparr>rs_inner = s0, rs_committed = [], rs_swap_pairs = [], rs_remaps = []\<rparr>;
         r = (if map_of (rs_committed r) (active_id (rs_inner r)) = None
              then r\<lparr>rs_committed := AList.update (active_id (rs_inner r)) (active_offset (rs_inner r)) (rs_committed r)\<rparr> else r);
         (r, to_delete) = fold replay_swap (rs_swap_pairs r) (r, [])
     in fit_files (rs_committed r) to_delete (rs_inner r))"
  by (simp add: recover_def fit_files_def Let_def case_prod_beta)

text \<open>The lengths of a layout, with the active segment if no record has mentioned it yet.\<close>

definition all_lens :: "layout \<Rightarrow> (u64 \<times> u64) list" where
  "all_lens l = (if map_of (l_len l) (l_act l) = None then AList.update (l_act l) (l_off l) (l_len l) else l_len l)"

lemma all_lens_nonzero: "layout_ok l \<Longrightarrow> map_of (all_lens l) sid = Some t \<Longrightarrow> t \<noteq> 0 \<Longrightarrow> map_of (l_len l) sid = Some t"
  by (auto simp: all_lens_def layout_ok_def update_conv' split: if_splits option.splits)

lemma all_lens_Some: "map_of (l_len l) sid = Some t \<Longrightarrow> map_of (all_lens l) sid = Some t"
  by (auto simp: all_lens_def update_conv' split: if_splits)

lemma all_lens_ids: "fst ` set (all_lens l) = used_ids l"
  by (auto simp: all_lens_def used_ids_def update_conv' simp flip: dom_map_of_conv_image_fst)

lemma distinct_all_lens: "distinct (map fst (all_lens (layout_of lg)))"
  using distinct_l_len [of lg] by (simp add: all_lens_def distinct_update)

text \<open>The first half of \<open>recover\<close> computes the layout.\<close>

lemma replay_layout:
  fixes d m w lg
  defines "r \<equiv> fold replay_record lg \<lparr>rs_inner = fresh_inner d m w, rs_committed = [], rs_swap_pairs = [], rs_remaps = []\<rparr>"
  shows "index (rs_inner r) = l_index (layout_of lg)" "rollup (rs_inner r) = l_rollup (layout_of lg)" "active_id (rs_inner r) = l_act (layout_of lg)"
    "active_offset (rs_inner r) = l_off (layout_of lg)" "rs_committed r = l_len (layout_of lg)"
    "dir (rs_inner r) = d" "segments (rs_inner r) = []" "wal (rs_inner r) = w" "dirty_segments (rs_inner r) = []"
proof -
  have pr: "proj r = layout_of lg" by (simp add: r_def proj_replays layout_of_def) (simp add: proj_def fresh_inner_def layout0_def)
  show "index (rs_inner r) = l_index (layout_of lg)" "rollup (rs_inner r) = l_rollup (layout_of lg)" "active_id (rs_inner r) = l_act (layout_of lg)"
    "active_offset (rs_inner r) = l_off (layout_of lg)" "rs_committed r = l_len (layout_of lg)" unfolding pr [symmetric] by (simp_all add: proj_def)
  show "dir (rs_inner r) = d" "segments (rs_inner r) = []" "wal (rs_inner r) = w" "dirty_segments (rs_inner r) = []"
    using replays_keep by (simp_all add: r_def fresh_inner_def)
qed

lemma recover_ok:
  assumes good: "good_log lg" and names: "names_ok d" and disk: "disk_ok d" and reach: "files_reach (layout_of lg) d"
    and small: "\<forall>sid \<in> used_ids (layout_of lg). unat sid < 10 ^ 8"
  shows "\<exists>s'. recover lg (fresh_inner d m w) = (Inr (), s') \<and> wal s' = w \<and> recovered (layout_of lg) d s'"
proof -
  let ?l = "layout_of lg"
  define r where "r = fold replay_record lg \<lparr>rs_inner = fresh_inner d m w, rs_committed = [], rs_swap_pairs = [], rs_remaps = []\<rparr>"
  note ri = replay_layout [of lg d m w, folded r_def]
  have lok: "layout_ok ?l" using layout_ok_good [OF good] .
  have ns: "rs_swap_pairs r = []" using good_no_swaps [OF good] by (simp add: r_def)
  have run: "recover lg (fresh_inner d m w) = fit_files (all_lens ?l) [] (rs_inner r)"
    unfolding recover_eq Let_def r_def [symmetric] using ri(3-5) ns by (simp add: all_lens_def)
  have lr: "lens_reach (all_lens ?l) (dir (rs_inner r))"
    using reach all_lens_nonzero [OF lok] unfolding lens_reach_def files_reach_def ri(6) by blast
  have "\<forall>sid \<in> insert (active_id (rs_inner r)) (fst ` set (all_lens ?l)). unat sid < 10 ^ 8"
    using small by (simp add: all_lens_ids ri(3) used_ids_def)
  from fit_files_ok [OF _ _ lr ri(7) distinct_all_lens _ this, of "[]"] names disk obtain d3 segs n where
    fit: "fit_files (all_lens ?l) [] (rs_inner r) = (Inr (), (rs_inner r)\<lparr>next_free_id := n, dir := d3, segments := segs\<rparr>)"
    and f: "fitted (all_lens ?l) (dir (rs_inner r)) ((rs_inner r)\<lparr>next_free_id := n, dir := d3, segments := segs\<rparr>)" by (auto simp: ri(6))
  have "recovered ?l d ((rs_inner r)\<lparr>next_free_id := n, dir := d3, segments := segs\<rparr>)"
    using f all_lens_Some [of ?l] unfolding fitted_def recovered_def ids_below_def all_lens_ids by (simp add: ri)
  then show ?thesis using run fit ri(8) by auto
qed

end
