(* ===== verification/Writer.thy ===== *)
theory Writer
  imports CrashSafety
begin

text \<open>
  The invariant of a store that writes: its index, aggregates and segment files agree with the layout of
  the log it has written, every committed byte is on stable storage, and the published snapshot is the
  layout of the committed log. Staging, sealing, committing and reopening after a crash keep it.
\<close>

section \<open>The invariant\<close>

definition synced_to :: "disk \<Rightarrow> nat \<Rightarrow> nat \<Rightarrow> bool" where
  "synced_to d i n \<longleftrightarrow> n \<le> length (file_data d i) \<and> take n (file_synced d i) = take n (file_data d i)"

text \<open>Every byte the log refers to is in its file, and synced unless the segment is still dirty.\<close>

definition lens_ok :: "u64 set \<Rightarrow> layout \<Rightarrow> Inner \<Rightarrow> bool" where
  "lens_ok unsynced l s \<longleftrightarrow> (\<forall>sid t. map_of (l_len l) sid = Some t \<longrightarrow> t \<noteq> 0 \<longrightarrow>
     (\<exists>i. map_of (segments s) sid = Some i \<and> unat t \<le> length (file_data (dir s) i) \<and>
       (sid \<in> unsynced \<or> synced_to (dir s) i (unat t))))"

definition follows :: "layout \<Rightarrow> Inner \<Rightarrow> bool" where
  "follows l s \<longleftrightarrow> index s = l_index l \<and> rollup s = l_rollup l \<and> active_id s = l_act l \<and> active_offset s = l_off l"

definition writer_inv :: "entry list \<Rightarrow> Inner \<Rightarrow> bool" where
  "writer_inv lg s \<longleftrightarrow> inner_inv s \<and> good_log lg \<and> follows (layout_of lg) s \<and>
    ids_below (next_free_id s) (layout_of lg) (dir s) \<and> unat (next_free_id s) \<le> 10 ^ 8 \<and> distinct (map fst (dir_entries (dir s))) \<and>
    lens_ok (set (dirty_segments s)) (layout_of lg) s"

definition wal_has :: "Wal \<Rightarrow> entry list \<Rightarrow> bool" where
  "wal_has w lg \<longleftrightarrow> wal_inv w \<and> (\<exists>flog blog. wal_holds w flog blog \<and> lg = flog @ blog)"

definition snap_follows :: "layout \<Rightarrow> Store \<Rightarrow> bool" where
  "snap_follows l st \<longleftrightarrow> snap_index (snap st) = l_index l \<and> snap_rollup (snap st) = l_rollup l \<and>
    (\<forall>sid i. map_of (snap_files (snap st)) sid = Some i \<longrightarrow> map_of (segments (inner st)) sid = Some i) \<and>
    index_ok (inner st) (snap_files (snap st)) (snap_index (snap st))"

definition leader_inv :: "entry list \<Rightarrow> Store \<Rightarrow> bool" where
  "leader_inv lg st \<longleftrightarrow> writer_inv lg (inner st) \<and> wal_has (wal (inner st)) lg \<and>
    durable_log (wal (inner st)) = committed_prefix lg \<and>
    lens_ok {} (layout_of (committed_prefix lg)) (inner st) \<and>
    snap_follows (layout_of (committed_prefix lg)) st"

section \<open>The log\<close>

lemma used_ids_step: "good_entry l (snd e) \<Longrightarrow> used_ids l \<subseteq> used_ids (lay_step e l)"
  by (cases "snd e") (auto simp: good_entry_def lay_step_def used_ids_def update_conv')

lemma used_ids_mono: "good_log (xs @ ys) \<Longrightarrow> used_ids (layout_of xs) \<subseteq> used_ids (layout_of (xs @ ys))"
proof (induction ys rule: rev_induct)
  case (snoc y ys)
  then have g: "good_log (xs @ ys)" "good_entry (layout_of (xs @ ys)) (snd y)"
    by (simp_all add: good_log_snoc flip: append_assoc)
  show ?case using snoc.IH [OF g(1)] used_ids_step [OF g(2)] by (simp flip: append_assoc)
qed simp

lemma wal_has_append:
  assumes "wal_has w lg" "append_at rec lsn w = Inr w'" "record_utf8 rec"
  shows "wal_has w' (lg @ [(lsn, rec)]) \<and> wal_file w' = wal_file w \<and> durable_log w' = durable_log w"
proof -
  obtain flog blog where h: "wal_holds w flog blog" "lg = flog @ blog" and inv: "wal_inv w" using assms(1) by (auto simp: wal_has_def)
  have "wal_inv w'" using wal_step_inv [OF inv step_append [OF assms(2,3)]] by blast
  then show ?thesis using append_at_holds [OF h(1) assms(2,3)] h(2) by (auto simp: wal_has_def durable_log_def)
qed

lemma wal_has_sync:
  assumes "wal_has w lg" "sync IoOk w = (Inr (), w')"
  shows "wal_has w' lg" and "durable_log w' = (if dirty w then committed_prefix lg else durable_log w)"
proof -
  obtain flog blog where h: "wal_holds w flog blog" "lg = flog @ blog" and inv: "wal_inv w" using assms(1) by (auto simp: wal_has_def)
  note s = sync_holds [OF h(1) assms(2)]
  have "wal_inv w'" using wal_step_inv [OF inv step_sync [OF assms(2)]] by blast
  then show "wal_has w' lg" using s(1) h(2) unfolding wal_has_def by (metis append_Nil2)
  show "durable_log w' = (if dirty w then committed_prefix lg else durable_log w)"
  proof (cases "dirty w")
    case True
    then have "fsynced (wal_file w') = log_bytes (flog @ blog) @ []" using s(2) h(1) by (simp add: wal_holds_def)
    moreover have "list_all entry_ok (flog @ blog)" using h(1) by (simp add: wal_holds_def)
    moreover have "scan_blocks [] = []" by (rule scan_short) (simp add: SV_BLOCK_SIZE_def)
    ultimately show ?thesis using durable_log_eq [of w' "flog @ blog" "[]"] True h(2) by simp
  next
    case False
    then show ?thesis using assms(2) by (simp add: sync_def)
  qed
qed

text \<open>A crash leaves a log whose committed part lies between the durable records and what was written.\<close>

lemma wal_has_crash:
  assumes "wal_has w lg" "crash_outcome (wal_file w) (wal_buf w) d"
  shows "\<exists>rl tail. d = log_bytes rl @ tail \<and> list_all entry_ok rl \<and> scan_blocks tail = [] \<and>
    prefix (durable_log w) (committed_prefix rl) \<and> prefix (committed_prefix rl) (committed_prefix lg)"
proof -
  obtain flog blog where h: "wal_holds w flog blog" "lg = flog @ blog" and inv: "wal_inv w" using assms(1) by (auto simp: wal_has_def)
  from crash_outcome_log [OF inv assms(2)] obtain rl tail where
    d: "d = log_bytes rl @ tail" "list_all entry_ok rl" "scan_blocks tail = []" "prefix (durable_log w) (committed_prefix rl)" by blast
  have e: "scan_blocks [] = []" by (rule scan_short) (simp add: SV_BLOCK_SIZE_def)
  have rl: "scan_blocks d = rl" using d scan_log [OF d(2)] by simp
  have ok: "list_all entry_ok (flog @ blog)" using h by (simp add: wal_holds_def)
  have "prefix (committed_prefix rl) (committed_prefix lg)"
  proof (cases "d = fsynced (wal_file w)")
    case True
    from inv obtain fl bl slog tl where s: "wal_holds w fl bl" "fsynced (wal_file w) = log_bytes slog @ tl" "list_all entry_ok slog"
      "scan_blocks tl = []" "prefix (committed_prefix slog) fl" unfolding wal_inv_def by blast
    have "slog = rl" using rl True s scan_log [OF s(3)] by simp
    moreover have "fl = flog" using s(1) h(1) scan_log [of fl "[]"] scan_log [of flog "[]"] e by (simp add: wal_holds_def)
    ultimately show ?thesis using s(5) h(2) by (intro committed_prefix_closed) (simp add: prefix_prefix)
  next
    case False
    then have "prefix d (log_bytes (flog @ blog))" using assms(2) h by (auto simp: crash_outcome_def wal_holds_def)
    then show ?thesis using prefix_file_log [OF ok] rl h(2) committed_prefix_mono by blast
  qed
  then show ?thesis using d by blast
qed

section \<open>Files\<close>

lemma lens_ok_same: "lens_ok U l s \<Longrightarrow> segments s' = segments s \<Longrightarrow> dir s' = dir s \<Longrightarrow> lens_ok U l s'"
  by (simp add: lens_ok_def)

lemma lens_ok_mono: "lens_ok U l s \<Longrightarrow> U \<subseteq> V \<Longrightarrow> lens_ok V l s"
  unfolding lens_ok_def by blast

lemma opened_segment:
  assumes "inner_inv s" "opened s ids d segs" "map_of (segments s) sid = Some i"
  shows "map_of segs sid = Some i"
proof -
  have "lookup_file (seg_name sid) d = Some i" using assms inner_inv_segment [OF assms(1,3)] by (simp add: opened_def)
  moreover obtain j where "map_of segs sid = Some j" using assms(2,3) by (auto simp: opened_def)
  ultimately show ?thesis using assms(2) by (auto simp: opened_def)
qed

lemma lens_ok_opened:
  assumes "inner_inv s" "opened s ids d segs" "lens_ok U l s"
  shows "lens_ok U l (s\<lparr>dir := d, segments := segs\<rparr>)"
  using assms opened_segment [OF assms(1,2)] unfolding lens_ok_def
  by (fastforce simp: opened_def synced_to_def)

lemma lens_ok_write:
  assumes inv: "inner_inv s" and i: "map_of (segments s) act = Some i" and l: "lens_ok U l s"
    and act: "\<And>t. map_of (l_len l) act = Some t \<Longrightarrow> unat t \<le> off"
  shows "lens_ok U l (s\<lparr>dir := write_file i off v (dir s)\<rparr>)"
  unfolding lens_ok_def
proof (intro allI impI)
  fix sid t assume t: "map_of (l_len l) sid = Some t" "t \<noteq> 0"
  let ?d = "write_file i off v (dir s)"
  obtain j where j: "map_of (segments s) sid = Some j" "unat t \<le> length (file_data (dir s) j)"
    "sid \<in> U \<or> synced_to (dir s) j (unat t)" using l t unfolding lens_ok_def by blast
  have ij: "j = i \<longleftrightarrow> sid = act"
    using inner_inv_segment [OF inv i] inner_inv_segment [OF inv j(1)] inv i j(1) seg_name_inj
    unfolding inner_inv_def disk_ok_def by (metis option.inject)
  have fd: "file_data ?d j = (if i = j then pwrite off v (file_data (dir s) j) else file_data (dir s) j)"
    using inner_inv_segment [OF inv i] by (simp add: file_data_write_file)
  have tk: "take (unat t) (file_data ?d j) = take (unat t) (file_data (dir s) j)"
    using fd ij act t(1) j(2) by (auto simp: pwrite_keeps)
  have "unat t \<le> length (file_data ?d j)" using fd j(2) length_pwrite(1) [of "file_data (dir s) j" off v] by auto
  then show "\<exists>j. map_of (segments (s\<lparr>dir := ?d\<rparr>)) sid = Some j \<and> unat t \<le> length (file_data (dir (s\<lparr>dir := ?d\<rparr>)) j) \<and>
      (sid \<in> U \<or> synced_to (dir (s\<lparr>dir := ?d\<rparr>)) j (unat t))"
    using j tk by (auto simp: synced_to_def write_file_def)
qed

section \<open>Sealing and staging\<close>

lemma lens_at_active: "good_log lg \<Longrightarrow> map_of (l_len (layout_of lg)) (l_act (layout_of lg)) = Some t \<Longrightarrow> t = l_off (layout_of lg)"
  using layout_ok_good [of lg] by (simp add: layout_ok_def)

text \<open>A length that an earlier part of the log gives the active segment is below the active offset.\<close>

lemma lens_before_active:
  assumes "good_log lg" "prefix c lg" "map_of (l_len (layout_of c)) (l_act (layout_of lg)) = Some t"
  shows "unat t \<le> unat (l_off (layout_of lg))"
proof -
  obtain r where "lg = c @ r" using assms(2) by (auto elim: prefixE)
  then have "lens_le (layout_of c) (layout_of lg)" using lens_le_append assms(1) by simp
  then obtain t' where "map_of (l_len (layout_of lg)) (l_act (layout_of lg)) = Some t'" "unat t \<le> unat t'"
    using assms(3) unfolding lens_le_def by blast
  then show ?thesis using lens_at_active [OF assms(1)] by simp
qed

lemma ids_below_step:
  assumes "ids_below n l d" "\<And>x. x < n \<Longrightarrow> x < n'" "\<And>x. x \<in> used_ids l' \<Longrightarrow> x \<in> used_ids l \<or> x < n'"
    and "\<And>m. m \<in> fst ` set (dir_entries d') \<Longrightarrow> m \<in> fst ` set (dir_entries d) \<or> (\<exists>sid. m = seg_name sid \<and> sid < n')"
  shows "ids_below n' l' d'"
  using assms unfolding ids_below_def by metis

text \<open>Records that leave the layout alone.\<close>

lemma writer_inv_idle: "lay_step e (layout_of lg) = layout_of lg \<Longrightarrow> good_entry (layout_of lg) (snd e) \<Longrightarrow> writer_inv (lg @ [e]) s = writer_inv lg s"
  by (auto simp: writer_inv_def good_log_snoc)

text \<open>A new segment becomes active; its number may belong to a file, but to none that the log mentions.\<close>

lemma used_ids_segment: "layout_ok l \<Longrightarrow> map_of (l_index l) k = Some (seg, off, len, lsn) \<Longrightarrow> seg \<in> used_ids l"
  unfolding layout_ok_def used_ids_def by blast

lemma protected_elsewhere:
  assumes "inner_inv s" "map_of (segments s) seg = Some i" "protected_region s i off len" "seg \<noteq> active_id s'" "dir s' = dir s"
  shows "protected_region s' i off len"
proof -
  have "lookup_file (seg_name (active_id s')) (dir s) \<noteq> Some i"
    using inner_inv_segment [OF assms(1,2)] assms(1,4) seg_name_inj unfolding inner_inv_def disk_ok_def by blast
  then show ?thesis using assms(3,5) by (simp add: protected_region_def)
qed

lemma sealed_writer:
  assumes w: "writer_inv lg s" and g: "good_entry (layout_of lg) (SegmentSeal a b)"
    and n: "next_free_id s \<le> next_free_id s'" "b < next_free_id s'" "unat (next_free_id s') \<le> 10 ^ 8"
    and s': "dir s' = dir s" "segments s' = segments s" "index s' = index s" "rollup s' = rollup s" "active_id s' = b" "active_offset s' = 0"
      "dirty_segments s' = dirty_segments s"
  shows "writer_inv (lg @ [(l, SegmentSeal a b)]) s'"
proof -
  let ?l = "layout_of lg" and ?e = "(l, SegmentSeal a b)"
  have inv: "inner_inv s" and f: "follows ?l s" and gl: "good_log lg" and ids: "ids_below (next_free_id s) ?l (dir s)"
    and lens: "lens_ok (set (dirty_segments s)) ?l s" using w by (simp_all add: writer_inv_def)
  have a: "a = l_act ?l" and b: "b \<notin> used_ids ?l" using g by (simp_all add: good_entry_def)
  have "\<exists>i. map_of (segments s) seg = Some i \<and> protected_region s' i off len" if k: "map_of (index s) k = Some (seg, off, len, x)" for k seg off len x
  proof -
    obtain i where i: "map_of (segments s) seg = Some i" "protected_region s i off len" using inv k unfolding inner_inv_def index_ok_def by blast
    have "seg \<noteq> b" using used_ids_segment [OF layout_ok_good [OF gl], of k seg] k f b by (auto simp: follows_def)
    then show ?thesis using protected_elsewhere [OF inv i, of s'] i(1) s' by simp
  qed
  moreover have "lookup_file (seg_name sid) (dir s) = None" if "next_free_id s' \<le> sid" for sid using inv n(1) that by (auto simp: inner_inv_def)
  ultimately have inv': "inner_inv s'" using inv n(2) unfolding inner_inv_def index_ok_def by (simp add: s')
  have lay: "layout_of (lg @ [?e]) = ?l\<lparr>l_len := AList.update (l_act ?l) (l_off ?l) (l_len ?l), l_act := b, l_off := 0\<rparr>"
    by (simp add: lay_step_def a)
  have act: "map_of (l_len ?l) (l_act ?l) = Some (l_off ?l)" if "l_off ?l \<noteq> 0"
    using that layout_ok_good [OF gl] by (auto simp: layout_ok_def split: option.splits)
  have ids': "ids_below (next_free_id s') (layout_of (lg @ [?e])) (dir s')"
    unfolding lay by (rule ids_below_step [OF ids]) (use n(1,2) in \<open>auto simp: s' used_ids_def update_conv' split: if_splits\<close>)
  have "lens_ok (set (dirty_segments s)) (layout_of (lg @ [?e])) s"
    using lens act unfolding lens_ok_def lay by (auto simp: update_conv')
  then have "lens_ok (set (dirty_segments s')) (layout_of (lg @ [?e])) s'" by (simp add: s' lens_ok_def)
  then show ?thesis
    using inv' gl g ids' f w n(3) lay by (simp add: writer_inv_def good_log_snoc) (simp add: s' follows_def)
qed

lemma seal_writer:
  assumes w: "writer_inv lg s" and h: "wal_has (wal s) lg" and room: "unat (next_free_id s) + 1 \<le> 10 ^ 8"
    and run: "seal_active_record s = (Inr e, s')"
  shows "writer_inv (lg @ [e]) s' \<and> wal_has (wal s') (lg @ [e]) \<and> durable_log (wal s') = durable_log (wal s) \<and>
    \<not> is_commit (snd e) \<and> dir s' = dir s \<and> segments s' = segments s \<and> unat (next_free_id s') = unat (next_free_id s) + 1"
proof -
  let ?rec = "SegmentSeal (active_id s) (next_free_id s)"
  obtain w' where a: "append_at ?rec (next_lsn (wal s)) (wal s) = Inr w'"
    and s': "s' = s\<lparr>next_free_id := next_free_id s + 1, wal := w', pending := True, sealed := sealed s @ [active_id s],
        active_id := next_free_id s, active_offset := 0\<rparr>" and e: "e = (next_lsn (wal s), ?rec)"
    using run by (auto simp: seal_active_record_def op_bind_Inr op_basic inner_append_def wal_append_Inr split: sum.splits)
  have n: "unat (next_free_id s + 1) = unat (next_free_id s) + 1" using room by (simp add: unat_add_small)
  have ge: "good_entry (layout_of lg) ?rec" using w by (auto simp: good_entry_def follows_def ids_below_def writer_inv_def)
  have "writer_inv (lg @ [e]) s'"
    unfolding e by (rule sealed_writer [OF w ge]) (use n room in \<open>simp_all add: s' word_less_nat_alt word_le_nat_alt\<close>)
  moreover have "record_utf8 ?rec" by (simp add: record_utf8_def record_strings_def)
  ultimately show ?thesis using wal_has_append [OF h a] n by (simp add: s' e is_commit_def)
qed

text \<open>What \<open>stage_body\<close> does when it succeeds: open the active segment, write behind its end, log, update the maps.\<close>

lemma inner_append_Inr:
  "inner_append rec s = (Inr lsn, s') \<longleftrightarrow> lsn = next_lsn (wal s) \<and> (\<exists>w. append_at rec lsn (wal s) = Inr w \<and> s' = s\<lparr>wal := w\<rparr>)"
  by (auto simp: inner_append_def wal_append_def Let_def and_then_def split: sum.splits)

text \<open>Positions in the log grow by one with each record.\<close>

lemma max_Suc_word: "unat (n :: 64 word) + 1 < 2 ^ 64 \<Longrightarrow> max n (n + 1) = n + 1"
  by (simp add: max_def word_le_nat_alt unat_word_ariths)

lemma sync_keeps: "sync io w = (r, w') \<Longrightarrow> next_lsn w' = next_lsn w"
  by (auto simp: sync_def Let_def split: if_splits sync_io.splits)

lemma append_at_next:
  assumes "append_at rec (next_lsn w) w = Inr w'" "unat (next_lsn w) + 1 < 2 ^ 64"
  shows "unat (next_lsn w') = unat (next_lsn w) + 1"
proof -
  have "next_lsn w' = next_lsn w + 1"
    using assms(1) max_Suc_word [OF assms(2)] by (auto simp: append_at_eq split: if_splits)
  then show ?thesis using assms(2) by (simp add: unat_word_ariths)
qed

lemma append_next_Inr:
  assumes "inner_append rec s = (Inr l, s')" "unat (next_lsn (wal s)) + 1 < 2 ^ 64"
  shows "l = next_lsn (wal s) \<and> unat (next_lsn (wal s')) = unat (next_lsn (wal s)) + 1"
proof -
  from assms(1) obtain w where w: "l = next_lsn (wal s)" "append_at rec (next_lsn (wal s)) (wal s) = Inr w" "s' = s\<lparr>wal := w\<rparr>"
    by (auto simp: inner_append_Inr)
  then show ?thesis using append_at_next [OF w(2) assms(2)] by simp
qed

text \<open>The steps of \<open>stage_body\<close>.\<close>

lemma stage_body_parts:
  assumes "stage_body key v s = (Inr (l, rs), s')"
  obtains s1 s2 s3 s4 a ds where "open_segment (active_id s) s = (Inr (), s1)" "write_value v s1 = (Inr (), s2)"
    "inner_append (Put key (of_nat (length v)) l) s2 = (Inr l, s3)" "inner_append (AggDelta ds) s3 = (Inr a, s4)"
    "rs = [(l, Put key (of_nat (length v)) l), (a, AggDelta ds)]"
    "s' = s4\<lparr>index := AList.update key (active_id s4, active_offset s4, of_nat (length v), l) (index s4),
        put_locations := AList.update l (key, active_id s4, active_offset s4, of_nat (length v)) (put_locations s4),
        rollup := rollup_record key (of_nat (length v)) (rollup s4), active_offset := active_offset s4 + of_nat (length v),
        dirty_segments := List.insert (active_id s4) (dirty_segments s4), pending := True\<rparr>"
  using assms by (auto simp: stage_body_def op_bind_Inr op_basic Let_def inner_append_Inr)

text \<open>The records of a put and of a seal take the next positions of the log.\<close>

lemma stage_body_next:
  assumes "stage_body key v s = (Inr (l, rs), s')" "unat (next_lsn (wal s)) + 2 < 2 ^ 64"
  shows "l = next_lsn (wal s) \<and> unat (next_lsn (wal s')) = unat (next_lsn (wal s)) + 2 \<and>
    (\<exists>a ds. rs = [(l, Put key (of_nat (length v)) l), (a, AggDelta ds)] \<and> unat a = unat l + 1)"
proof -
  obtain s1 s2 s3 s4 a ds where o: "open_segment (active_id s) s = (Inr (), s1)" "write_value v s1 = (Inr (), s2)"
    and a1: "inner_append (Put key (of_nat (length v)) l) s2 = (Inr l, s3)" and a2: "inner_append (AggDelta ds) s3 = (Inr a, s4)"
    and rs: "rs = [(l, Put key (of_nat (length v)) l), (a, AggDelta ds)]"
    and s': "s' = s4\<lparr>index := AList.update key (active_id s4, active_offset s4, of_nat (length v), l) (index s4),
        put_locations := AList.update l (key, active_id s4, active_offset s4, of_nat (length v)) (put_locations s4),
        rollup := rollup_record key (of_nat (length v)) (rollup s4), active_offset := active_offset s4 + of_nat (length v),
        dirty_segments := List.insert (active_id s4) (dirty_segments s4), pending := True\<rparr>" by (rule stage_body_parts [OF assms(1)])
  have w: "wal s2 = wal s" using o by (auto simp: open_segment_def write_value_def split: option.splits prod.splits if_splits)
  have 1: "unat (next_lsn (wal s3)) = unat (next_lsn (wal s)) + 1" "l = next_lsn (wal s)" using append_next_Inr [OF a1] assms(2) by (simp_all add: w)
  then have "unat (next_lsn (wal s4)) = unat (next_lsn (wal s)) + 2" "a = next_lsn (wal s3)" using append_next_Inr [OF a2] assms(2) by simp_all
  then show ?thesis using 1 by (simp add: rs s')
qed

lemma seal_next:
  assumes "seal_active_record s = (Inr e, s')" "unat (next_lsn (wal s)) + 1 < 2 ^ 64"
  shows "e = (next_lsn (wal s), SegmentSeal (active_id s) (next_free_id s)) \<and> unat (next_lsn (wal s')) = unat (next_lsn (wal s)) + 1"
proof -
  obtain x where x: "inner_append (SegmentSeal (active_id s) (next_free_id s)) (s\<lparr>next_free_id := next_free_id s + 1\<rparr>) = (Inr (next_lsn (wal s)), x)"
    "wal s' = wal x" "e = (next_lsn (wal s), SegmentSeal (active_id s) (next_free_id s))"
    using assms(1) by (auto simp: seal_active_record_def op_bind_Inr op_basic inner_append_Inr)
  then show ?thesis using append_next_Inr [OF x(1)] assms(2) by simp
qed

definition staged_state :: "str \<Rightarrow> bytes \<Rightarrow> Lsn \<Rightarrow> Inner \<Rightarrow> disk \<Rightarrow> (u64 \<times> nat) list \<Rightarrow> nat \<Rightarrow> Wal \<Rightarrow> Inner \<Rightarrow> bool" where
  "staged_state key v l s d segs i w s' \<longleftrightarrow>
    dir s' = write_file i (unat (active_offset s)) v d \<and> segments s' = segs \<and> wal s' = w \<and>
    index s' = AList.update key (active_id s, active_offset s, of_nat (length v), l) (index s) \<and>
    rollup s' = rollup_record key (of_nat (length v)) (rollup s) \<and> active_id s' = active_id s \<and>
    active_offset s' = active_offset s + of_nat (length v) \<and> next_free_id s' = next_free_id s \<and>
    dirty_segments s' = List.insert (active_id s) (dirty_segments s)"

lemma active_opened:
  assumes inv: "inner_inv s"
  shows "\<exists>i d segs. open_segment (active_id s) s = (Inr (), s\<lparr>dir := d, segments := segs\<rparr>) \<and> opened s [active_id s] d segs \<and>
    map_of segs (active_id s) = Some i \<and>
    write_value v (s\<lparr>dir := d, segments := segs\<rparr>) = (Inr (), s\<lparr>dir := write_file i (unat (active_offset s)) v d, segments := segs\<rparr>)"
proof -
  have seg: "\<forall>sid i. map_of (segments s) sid = Some i \<longrightarrow> lookup_file (seg_name sid) (dir s) = Some i" "disk_ok (dir s)"
    using inv by (simp_all add: inner_inv_def)
  obtain d segs where o: "op_for open_segment [active_id s] s = (Inr (), s\<lparr>dir := d, segments := segs\<rparr>)" "opened s [active_id s] d segs"
    using open_segments_ok [OF seg(2,1)] by blast
  have o': "open_segment (active_id s) s = (Inr (), s\<lparr>dir := d, segments := segs\<rparr>)"
    using o(1) by (auto simp: op_bind_def op_basic split: prod.splits sum.splits)
  obtain i where i: "map_of segs (active_id s) = Some i" using o(2) by (auto simp: opened_def)
  then have "write_value v (s\<lparr>dir := d, segments := segs\<rparr>) = (Inr (), s\<lparr>dir := write_file i (unat (active_offset s)) v d, segments := segs\<rparr>)"
    by (simp add: write_value_def)
  then show ?thesis using o' o(2) i by blast
qed

lemma stage_body_run:
  assumes inv: "inner_inv s" and run: "stage_body key v s = (Inr (l, rs), s')"
  shows "\<exists>i d segs w1 w2 ds. open_segment (active_id s) s = (Inr (), s\<lparr>dir := d, segments := segs\<rparr>) \<and>
    opened s [active_id s] d segs \<and> map_of segs (active_id s) = Some i \<and>
    append_at (Put key (of_nat (length v)) l) l (wal s) = Inr w1 \<and> append_at (AggDelta ds) (next_lsn w1) w1 = Inr w2 \<and>
    ds = deltas_for (rollup s) key (of_nat (length v)) \<and>
    rs = [(l, Put key (of_nat (length v)) l), (next_lsn w1, AggDelta ds)] \<and> staged_state key v l s d segs i w2 s'"
proof -
  obtain i d segs where o': "open_segment (active_id s) s = (Inr (), s\<lparr>dir := d, segments := segs\<rparr>)" and o: "opened s [active_id s] d segs"
    and i: "map_of segs (active_id s) = Some i"
    and w: "write_value v (s\<lparr>dir := d, segments := segs\<rparr>) = (Inr (), s\<lparr>dir := write_file i (unat (active_offset s)) v d, segments := segs\<rparr>)"
    using active_opened [OF inv] by blast
  show ?thesis
    using run o' w i o by (auto simp: stage_body_def op_bind_Inr op_basic Let_def inner_append_Inr staged_state_def)
qed

lemma lens_ok_put:
  assumes "lens_ok U l s" "map_of (segments s) (l_act l) = Some i"
    and "l_off l + ucast len \<noteq> 0 \<Longrightarrow> unat (l_off l + ucast len) \<le> length (file_data (dir s) i)"
  shows "lens_ok (insert (l_act l) U) (lay_step (lsn, Put key len st) l) s"
  using assms unfolding lens_ok_def by (auto simp: lay_step_def update_conv')

lemma record_utf8_agg: "utf8_valid key \<Longrightarrow> record_utf8 (AggDelta (deltas_for r key len))"
  using prefixes_valid [of key]
  by (auto simp: record_utf8_def record_strings_def deltas_for_def list_all_iff split: prod.split)

lemma staged_files:
  assumes inv: "inner_inv s" and o: "open_segment (active_id s) s = (Inr (), s\<lparr>dir := d, segments := segs\<rparr>)"
    "opened s [active_id s] d segs" "map_of segs (active_id s) = Some i"
    and st: "staged_state key v l s d segs i w s'"
    and U: "lens_ok U lay s" "\<And>t. map_of (l_len lay) (active_id s) = Some t \<Longrightarrow> unat t \<le> unat (active_offset s)"
  shows "lens_ok U lay s' \<and> (v \<noteq> [] \<longrightarrow> unat (active_offset s) + length v \<le> length (file_data (dir s') i))"
proof -
  let ?s1 = "s\<lparr>dir := d, segments := segs\<rparr>"
  have "active_id s < next_free_id s" using inv by (simp add: inner_inv_def)
  from open_segment_ok [OF inv o(1) this] have inv1: "inner_inv ?s1" by blast
  have "lens_ok U lay (?s1\<lparr>dir := write_file i (unat (active_offset s)) v (dir ?s1)\<rparr>)"
    by (rule lens_ok_write [OF inv1 _ lens_ok_opened [OF inv o(2) U(1)] U(2)]) (use o(3) in simp_all)
  then have "lens_ok U lay s'" using st by (simp add: lens_ok_def staged_state_def)
  moreover have "i < length (inodes d)" using inner_inv_segment [OF inv1, of "active_id s" i] o(3) by simp
  ultimately show ?thesis using st length_pwrite(2) [of v] by (auto simp: staged_state_def file_data_write_file)
qed

text \<open>The file of the active segment reaches the active offset, also after an empty value.\<close>

lemma active_end:
  assumes g: "good_log lg" and L: "lens_ok D (layout_of lg) s" and i: "map_of (segments s) (l_act (layout_of lg)) = Some i"
    and nz: "l_off (layout_of lg) + n \<noteq> 0" and new: "n \<noteq> 0 \<Longrightarrow> unat (l_off (layout_of lg) + n) \<le> length (file_data (dir s) i)"
  shows "unat (l_off (layout_of lg) + n) \<le> length (file_data (dir s) i)"
proof (cases "n = 0")
  case True
  then have nz: "l_off (layout_of lg) \<noteq> 0" using nz by simp
  then have "map_of (l_len (layout_of lg)) (l_act (layout_of lg)) = Some (l_off (layout_of lg))"
    using layout_ok_good [OF g] by (auto simp: layout_ok_def split: option.splits)
  then obtain j where "map_of (segments s) (l_act (layout_of lg)) = Some j" "unat (l_off (layout_of lg)) \<le> length (file_data (dir s) j)"
    using L nz unfolding lens_ok_def by metis
  then show ?thesis using True i by simp
qed (rule new)

lemma staged_writer:
  assumes w: "writer_inv lg s" and v: "length v < 2 ^ 32" "unat (active_offset s) + length v < 2 ^ 64"
    and o: "open_segment (active_id s) s = (Inr (), s\<lparr>dir := d, segments := segs\<rparr>)" "opened s [active_id s] d segs" "map_of segs (active_id s) = Some i"
    and st: "staged_state key v l s d segs i x s'" and inv': "inner_inv s'"
    and c: "prefix c lg" "lens_ok {} (layout_of c) s"
  shows "writer_inv (lg @ [(l, Put key (of_nat (length v)) str)]) s' \<and> lens_ok {} (layout_of c) s'"
proof -
  let ?l = "layout_of lg" and ?n = "of_nat (length v) :: u32" and ?e = "(l, Put key (of_nat (length v)) str)"
  have inv: "inner_inv s" and f: "follows ?l s" and g: "good_log lg" and ids: "ids_below (next_free_id s) ?l (dir s)"
    and lens: "lens_ok (set (dirty_segments s)) ?l s" and small: "unat (next_free_id s) \<le> 10 ^ 8"
    and dist: "distinct (map fst (dir_entries (dir s)))" using w by (simp_all add: writer_inv_def)
  have un: "unat ?n = length v" using v(1) by (simp add: unat_of_nat)
  then have "unat (ucast ?n :: u64) = unat (of_nat (length v) :: u64)" using v(1) by (simp add: unat_of_nat)
  then have un2: "(ucast ?n :: u64) = of_nat (length v)" by (simp only: word_unat_eq_iff)
  have off: "unat (active_offset s + of_nat (length v)) = unat (active_offset s) + length v"
    using v by (simp add: unat_add_small unat_of_nat)
  note files = staged_files [OF inv o st]
  have C: "lens_ok {} (layout_of c) s'" using files [OF c(2)] lens_before_active [OF g c(1)] f by (simp add: follows_def)
  have L: "lens_ok (set (dirty_segments s)) ?l s'" and len: "v \<noteq> [] \<longrightarrow> unat (active_offset s) + length v \<le> length (file_data (dir s') i)"
    using files [OF lens] lens_at_active [OF g] f by (simp_all add: follows_def)
  have nz: "unat (l_off ?l + ucast ?n) \<le> length (file_data (dir s') i)" if "l_off ?l + ucast ?n \<noteq> 0"
  proof (rule active_end [OF g L])
    show "map_of (segments s') (l_act ?l) = Some i" using o(3) st f by (simp add: staged_state_def follows_def)
    show "unat (l_off ?l + ucast ?n) \<le> length (file_data (dir s') i)" if "(ucast ?n :: u64) \<noteq> 0"
      using len off f un2 that by (auto simp: follows_def)
  qed (use that in simp)
  have "lens_ok (set (dirty_segments s')) (layout_of (lg @ [?e])) s'"
    using lens_ok_put [OF L, of i ?n l key str] nz o(3) st f by (simp add: staged_state_def follows_def)
  moreover have "good_log (lg @ [?e])" using g v f un by (simp add: good_log_snoc good_entry_def follows_def)
  moreover have "follows (layout_of (lg @ [?e])) s'" using f st un2 by (simp add: follows_def staged_state_def lay_step_def)
  moreover have "ids_below (next_free_id s') (layout_of (lg @ [?e])) (dir s')"
    unfolding layout_of_snoc by (rule ids_below_step [OF ids])
      (use st o(2) f inv in \<open>auto simp: staged_state_def opened_def follows_def used_ids_def lay_step_def update_conv' inner_inv_def
        write_file_def set_data_def split: if_splits\<close>)
  moreover have "distinct (map fst (dir_entries (dir s')))" using dist o(2) st by (simp add: opened_def staged_state_def write_file_def set_data_def)
  ultimately show ?thesis using small st inv' C by (simp add: writer_inv_def staged_state_def)
qed

lemma stage_body_writer:
  assumes w: "writer_inv lg s" and h: "wal_has (wal s) lg" and v: "length v < 2 ^ 32" "unat (active_offset s) + length v < 2 ^ 64"
    and key: "utf8_valid key" and run: "stage_body key v s = (Inr (l, rs), s')"
    and c: "prefix c lg" "lens_ok {} (layout_of c) s"
  shows "writer_inv (lg @ rs) s' \<and> wal_has (wal s') (lg @ rs) \<and> durable_log (wal s') = durable_log (wal s) \<and>
    list_all (\<lambda>e. \<not> is_commit (snd e)) rs \<and> lens_ok {} (layout_of c) s' \<and> next_free_id s' = next_free_id s"
proof -
  let ?p = "(l, Put key (of_nat (length v)) l)"
  have inv: "inner_inv s" using w by (simp add: writer_inv_def)
  from stage_body_run [OF inv run] obtain i d segs w1 w2 ds where
    o: "open_segment (active_id s) s = (Inr (), s\<lparr>dir := d, segments := segs\<rparr>)" "opened s [active_id s] d segs" "map_of segs (active_id s) = Some i"
    and a: "append_at (snd ?p) l (wal s) = Inr w1" "append_at (AggDelta ds) (next_lsn w1) w1 = Inr w2"
    and ds: "ds = deltas_for (rollup s) key (of_nat (length v))" and rs: "rs = [?p, (next_lsn w1, AggDelta ds)]"
    and st: "staged_state key v l s d segs i w2 s'" by (metis snd_conv)
  have "inner_inv s'" using stage_body_ok [OF inv v run] by blast
  from staged_writer [OF w v o st this c, of l] have W: "writer_inv (lg @ [?p]) s'" and C: "lens_ok {} (layout_of c) s'" by simp_all
  have "writer_inv ((lg @ [?p]) @ [(next_lsn w1, AggDelta ds)]) s'"
    using W by (subst writer_inv_idle) (simp_all add: lay_step_def [of "(next_lsn w1, AggDelta ds)"] good_entry_def)
  moreover have "record_utf8 (snd ?p)" using key by (simp add: record_utf8_def record_strings_def)
  from wal_has_append [OF h a(1) this] have h1: "wal_has w1 (lg @ [?p])" "durable_log w1 = durable_log (wal s)" by simp_all
  from wal_has_append [OF h1(1) a(2)] record_utf8_agg [OF key] have "wal_has w2 (lg @ rs)" "durable_log w2 = durable_log (wal s)"
    using h1(2) by (simp_all add: rs ds)
  ultimately show ?thesis using C st rs by (simp add: staged_state_def is_commit_def)
qed

text \<open>One staging step that logs \<open>es\<close>: the invariant moves on, nothing is committed.\<close>

definition logs :: "entry list \<Rightarrow> entry list \<Rightarrow> Inner \<Rightarrow> entry list \<Rightarrow> Inner \<Rightarrow> bool" where
  "logs c lg s es s' \<longleftrightarrow> (writer_inv lg s \<and> wal_has (wal s) lg \<and> prefix c lg \<and> lens_ok {} (layout_of c) s \<longrightarrow>
     writer_inv (lg @ es) s' \<and> wal_has (wal s') (lg @ es) \<and> lens_ok {} (layout_of c) s' \<and>
     durable_log (wal s') = durable_log (wal s) \<and> list_all (\<lambda>e. \<not> is_commit (snd e)) es)"

lemma logs_refl: "logs c lg s [] s"
  by (simp add: logs_def)

lemma logs_trans: "logs c lg s es s1 \<Longrightarrow> logs c (lg @ es) s1 fs s2 \<Longrightarrow> logs c lg s (es @ fs) s2"
  unfolding logs_def by (simp add: prefix_prefix)

lemma seal_logs: "unat (next_free_id s) + 1 \<le> 10 ^ 8 \<Longrightarrow> seal_active_record s = (Inr e, s') \<Longrightarrow> logs c lg s [e] s'"
  unfolding logs_def using seal_writer [of lg s e s'] lens_ok_same [of "{}" "layout_of c" s s'] by simp

lemma maybe_seal:
  assumes "seal_if b s = (Inr rs, s')" "unat (next_free_id s) + 1 \<le> 10 ^ 8" "inner_inv s"
  shows "logs c lg s rs s' \<and> unat (next_free_id s') \<le> unat (next_free_id s) + 1 \<and> inner_inv s' \<and>
    (active_offset s' = active_offset s \<or> active_offset s' = 0)"
proof (cases b)
  case True
  then obtain e where e: "seal_active_record s = (Inr e, s')" "rs = [e]" using assms(1) by (auto simp: op_bind_Inr op_basic)
  then show ?thesis using seal_logs [OF assms(2) e(1)] seal_ok [OF assms(3) _ e(1)] assms(2) by simp
qed (use assms logs_refl in \<open>simp add: op_basic\<close>)

text \<open>The ids of segment files have eight digits.\<close>

definition room :: "Inner \<Rightarrow> bytes \<Rightarrow> bool" where
  "room s v \<longleftrightarrow> counters_ok s (length v) \<and> unat (next_free_id s) + 2 \<le> 10 ^ 8"

lemma stage_put_logs:
  assumes r: "room s v" and inv: "inner_inv s" and key: "utf8_valid key" and run: "inner_stage_put key v s = (Inr sp, s')"
  shows "logs c lg s (staged_records sp) s'"
proof -
  have v: "\<not> length v > 4294967295" "length v < 2 ^ 32" "unat (active_offset s) + length v < 2 ^ 64"
    and n: "unat (next_free_id s) + 2 \<le> 10 ^ 8" using r by (simp_all add: room_def counters_ok_def)
  obtain b rs0 s1 l rs1 s2 b2 rs2 where 1: "seal_if b s = (Inr rs0, s1)" and 2: "stage_body key v s1 = (Inr (l, rs1), s2)"
    and 3: "seal_if b2 s2 = (Inr rs2, s')" and sp: "object_id sp = l" "staged_records sp = rs0 @ rs1 @ rs2"
    by (rule stage_put_parts [OF run])
  have n1: "unat (next_free_id s) + 1 \<le> 10 ^ 8" using n by simp
  note s1 = maybe_seal [OF 1 n1 inv, of c lg]
  have off: "unat (active_offset s1) + length v < 2 ^ 64" using s1 v by auto
  have inv1: "inner_inv s1" using s1 by blast
  note b1 = stage_body_ok [OF inv1 v(2) off 2]
  have "logs c (lg @ rs0) s1 rs1 s2"
    unfolding logs_def using stage_body_writer [OF _ _ v(2) off key 2] by blast
  moreover have "logs c ((lg @ rs0) @ rs1) s2 rs2 s'"
    using maybe_seal [OF 3, of c "(lg @ rs0) @ rs1"] b1 s1 n by simp
  ultimately have "logs c (lg @ rs0) s1 (rs1 @ rs2) s'" by (rule logs_trans)
  then show ?thesis using logs_trans s1 unfolding sp by blast
qed

section \<open>Committing\<close>

definition sync_seg :: "(u64 \<times> nat) list \<Rightarrow> u64 \<Rightarrow> disk \<Rightarrow> disk" where
  "sync_seg segs sid d = (case map_of segs sid of None \<Rightarrow> d | Some file \<Rightarrow> sync_data file d)"

lemma sync_seg_simps [simp]: "file_data (sync_seg segs sid d) j = file_data d j" "dir_entries (sync_seg segs sid d) = dir_entries d"
  by (auto simp: sync_seg_def sync_data_def [of _ d] split: option.split) (metis sync_data_def sync_data_simps(3))

lemma file_synced_sync: "file_synced (sync_data i d) j = (if i = j then file_data d j else file_synced d j)"
  by (cases "i < length (inodes d)")
    (auto simp: sync_data_def file_synced_def file_data_def nth_list_update list_update_beyond)

lemma synced_to_sync_seg: "synced_to d j n \<Longrightarrow> synced_to (sync_seg segs sid d) j n"
  by (auto simp: synced_to_def sync_seg_def file_synced_sync split: option.split)

lemma synced_to_sync_segs: "synced_to d j n \<Longrightarrow> synced_to (fold (sync_seg segs) ids d) j n"
  by (induction ids arbitrary: d) (auto intro: synced_to_sync_seg)

lemma sync_segs_simps: "file_data (fold (sync_seg segs) ids d) j = file_data d j" "dir_entries (fold (sync_seg segs) ids d) = dir_entries d"
  by (induction ids arbitrary: d) simp_all

lemma sync_segs_member:
  assumes "sid \<in> set ids" "map_of segs sid = Some j" "n \<le> length (file_data d j)"
  shows "synced_to (fold (sync_seg segs) ids d) j n"
  using assms
proof (induction ids arbitrary: d)
  case (Cons x ids)
  show ?case
  proof (cases "x = sid")
    case True
    then have "synced_to (sync_seg segs x d) j n" using Cons.prems by (simp add: synced_to_def sync_seg_def file_synced_sync)
    then show ?thesis by (simp add: synced_to_sync_segs)
  qed (use Cons in auto)
qed simp

lemma fsync_dirty_eq: "fsync_dirty_segments s = s\<lparr>dir := fold (sync_seg (segments s)) (dirty_segments s) (dir s)\<rparr>"
  by (simp add: fsync_dirty_segments_def sync_seg_def [abs_def])

lemma fsync_lens: "lens_ok U l s \<Longrightarrow> lens_ok (U - set (dirty_segments s)) l (fsync_dirty_segments s)"
  unfolding lens_ok_def fsync_dirty_eq
  by (simp add: sync_segs_simps) (metis sync_segs_member synced_to_sync_segs)

lemma inner_sync_Inr: "inner_sync io s = (Inr u, s') \<longleftrightarrow> (\<exists>w. sync io (wal s) = (Inr u, w) \<and> s' = s\<lparr>wal := w\<rparr>)"
  by (auto simp: inner_sync_def split: prod.splits)

lemma append_at_dirty: "append_at rec lsn w = Inr w' \<Longrightarrow> dirty w'"
  by (auto simp: append_at_eq split: if_splits)

lemma commit_run:
  assumes "inner_commit IoOk lsn s = (Inr (), s')"
  shows "\<exists>w. append_at (Commit lsn) (next_lsn (wal s)) (wal s) = Inr w \<and> sync IoOk w = (Inr (), wal s') \<and> dirty w \<and>
    dir s' = dir (fsync_dirty_segments s) \<and> segments s' = segments s \<and> index s' = index s \<and> rollup s' = rollup s \<and>
    active_id s' = active_id s \<and> active_offset s' = active_offset s \<and> next_free_id s' = next_free_id s \<and> dirty_segments s' = []"
  using assms
  by (auto simp: inner_commit_def op_bind_Inr op_basic inner_append_Inr inner_sync_Inr Let_def fsync_dirty_eq dest: append_at_dirty)

lemma commit_writer:
  assumes w: "writer_inv lg s" and h: "wal_has (wal s) lg" and run: "inner_commit IoOk lsn s = (Inr (), s')"
  shows "\<exists>e. e = (next_lsn (wal s), Commit lsn) \<and> writer_inv (lg @ [e]) s' \<and> wal_has (wal s') (lg @ [e]) \<and>
    durable_log (wal s') = lg @ [e] \<and> lens_ok {} (layout_of (lg @ [e])) s'"
proof -
  obtain x where a: "append_at (Commit lsn) (next_lsn (wal s)) (wal s) = Inr x" "sync IoOk x = (Inr (), wal s')" "dirty x"
    and s': "dir s' = dir (fsync_dirty_segments s)" "segments s' = segments s" "index s' = index s" "rollup s' = rollup s"
      "active_id s' = active_id s" "active_offset s' = active_offset s" "next_free_id s' = next_free_id s" "dirty_segments s' = []"
    using commit_run [OF run] by blast
  let ?e = "(next_lsn (wal s), Commit lsn)"
  have "record_utf8 (Commit lsn)" by (simp add: record_utf8_def record_strings_def)
  from wal_has_append [OF h a(1) this] have hx: "wal_has x (lg @ [?e])" by blast
  have inv: "inner_inv s" and lens: "lens_ok (set (dirty_segments s)) (layout_of lg) s" using w by (simp_all add: writer_inv_def)
  have lay: "layout_of (lg @ [?e]) = layout_of lg" by (simp add: lay_step_def)
  have l0: "lens_ok {} (layout_of (lg @ [?e])) s'"
    using fsync_lens [OF lens] s' unfolding lay by (simp add: lens_ok_def fsync_dirty_eq)
  have ent: "dir_entries (dir s') = dir_entries (dir s)" by (simp add: s' fsync_dirty_eq sync_segs_simps)
  have "writer_inv (lg @ [?e]) s'"
    using w l0 s' ent commit_ok [OF inv run] unfolding writer_inv_def lay
    by (simp add: good_log_snoc good_entry_def follows_def ids_below_def)
  moreover have "durable_log (wal s') = lg @ [?e]"
    using wal_has_sync(2) [OF hx a(2)] a(3) by (simp add: committed_prefix_snoc is_commit_def)
  ultimately show ?thesis using wal_has_sync(1) [OF hx a(2)] l0 by simp
qed

end
