(* ===== verification/CompactionInv.thy ===== *)
theory CompactionInv
  imports CompactionSafety Writer
begin

text \<open>
  Compaction keeps every value. Between \<open>compact_stage\<close>, which copies the puts of a sealed segment that are live or above the
  horizon into a new file, and \<open>compact_commit\<close>, which repoints the maps and deletes the old file, other threads may stage and commit
  puts and run compactions of their own. The invariant speaks of the value of each put, as a function of its position in the log: every location, in
  the maps or in a compaction in flight, holds the value of its put.
\<close>

section \<open>The invariant\<close>

type_synonym put_values = "Lsn \<Rightarrow> str \<times> bytes"

definition holds_put :: "put_values \<Rightarrow> Inner \<Rightarrow> nat \<Rightarrow> u64 \<Rightarrow> u32 \<Rightarrow> Lsn \<Rightarrow> str \<Rightarrow> bool" where
  "holds_put vals s i off len l k \<longleftrightarrow>
    protected_region s i off len \<and> read_value (file_data (dir s) i) off len = Inr (snd (vals l)) \<and> fst (vals l) = k"

definition located :: "put_values \<Rightarrow> Inner \<Rightarrow> put_loc \<Rightarrow> Lsn \<Rightarrow> bool" where
  "located vals s p l \<longleftrightarrow> (case p of (k, seg, off, len) \<Rightarrow>
     \<exists>i. map_of (segments s) seg = Some i \<and> holds_put vals s i off len l k)"

definition maps_inv :: "put_values \<Rightarrow> Inner \<Rightarrow> bool" where
  "maps_inv vals s \<longleftrightarrow> inner_inv s \<and> distinct (map fst (put_locations s)) \<and>
    (\<forall>l p. map_of (put_locations s) l = Some p \<longrightarrow> l < next_lsn (wal s) \<and> located vals s p l) \<and>
    (\<forall>k seg off len l. map_of (index s) k = Some (seg, off, len, l) \<longrightarrow> map_of (put_locations s) l = Some (k, seg, off, len)) \<and>
    (\<forall>sid \<in> set (sealed s). sid \<noteq> active_id s \<and> sid < next_free_id s) \<and>
    (\<forall>sid. lookup_file (tmp_name sid) (dir s) = None)"

text \<open>A compaction in flight: its new file holds the puts it keeps, and every put of the old segment is kept or dead.\<close>

definition stage_inv :: "put_values \<Rightarrow> Inner \<Rightarrow> CompactStage \<Rightarrow> bool" where
  "stage_inv vals s cs \<longleftrightarrow>
    lookup_file (seg_name (cs_new_id cs)) (dir s) = Some (cs_file cs) \<and>
    cs_new_id cs \<noteq> active_id s \<and> cs_new_id cs < next_free_id s \<and> cs_new_id cs \<notin> set (sealed s) \<and>
    cs_old_id cs \<noteq> active_id s \<and> cs_old_id cs < next_free_id s \<and>
    (\<forall>e \<in> set (cs_entries cs). re_lsn e < next_lsn (wal s) \<and>
       holds_put vals s (cs_file cs) (re_offset e) (re_len e) (re_lsn e) (re_key e)) \<and>
    (\<forall>l \<in> set (cs_dropped cs). l < next_lsn (wal s) \<and> (\<forall>k seg off len. map_of (index s) k \<noteq> Some (seg, off, len, l))) \<and>
    (\<forall>l k off len. map_of (put_locations s) l = Some (k, cs_old_id cs, off, len) \<longrightarrow>
       l \<in> re_lsn ` set (cs_entries cs) \<or> l \<in> set (cs_dropped cs))"

definition stages_apart :: "CompactStage set \<Rightarrow> bool" where
  "stages_apart F \<longleftrightarrow> inj_on cs_new_id F \<and> (\<forall>a \<in> F. \<forall>b \<in> F. cs_new_id a \<noteq> cs_old_id b)"

definition comp_inv :: "put_values \<Rightarrow> CompactStage set \<Rightarrow> Inner \<Rightarrow> bool" where
  "comp_inv vals F s \<longleftrightarrow> maps_inv vals s \<and> (\<forall>cs \<in> F. stage_inv vals s cs) \<and> stages_apart F"

lemma maps_invD:
  assumes "maps_inv vals s"
  shows "inner_inv s" "distinct (map fst (put_locations s))"
    "map_of (put_locations s) l = Some p \<Longrightarrow> l < next_lsn (wal s)"
    "map_of (put_locations s) l = Some p \<Longrightarrow> located vals s p l"
    "map_of (index s) k = Some (seg, off, len, l) \<Longrightarrow> map_of (put_locations s) l = Some (k, seg, off, len)"
    "sid \<in> set (sealed s) \<Longrightarrow> sid \<noteq> active_id s" "sid \<in> set (sealed s) \<Longrightarrow> sid < next_free_id s"
    "lookup_file (tmp_name sid) (dir s) = None"
  using assms by (simp_all add: maps_inv_def del: map_of_eq_Some_iff split_paired_All)

lemma maps_invI:
  assumes "inner_inv s" "distinct (map fst (put_locations s))"
    "\<And>l p. map_of (put_locations s) l = Some p \<Longrightarrow> l < next_lsn (wal s) \<and> located vals s p l"
    "\<And>k seg off len l. map_of (index s) k = Some (seg, off, len, l) \<Longrightarrow> map_of (put_locations s) l = Some (k, seg, off, len)"
    "\<And>sid. sid \<in> set (sealed s) \<Longrightarrow> sid \<noteq> active_id s \<and> sid < next_free_id s" "\<And>sid. lookup_file (tmp_name sid) (dir s) = None"
  shows "maps_inv vals s"
  using assms unfolding maps_inv_def by blast

lemma stage_invD:
  assumes "stage_inv vals s cs"
  shows "lookup_file (seg_name (cs_new_id cs)) (dir s) = Some (cs_file cs)"
    "cs_new_id cs \<noteq> active_id s" "cs_new_id cs < next_free_id s" "cs_new_id cs \<notin> set (sealed s)"
    "cs_old_id cs \<noteq> active_id s" "cs_old_id cs < next_free_id s"
    "e \<in> set (cs_entries cs) \<Longrightarrow> re_lsn e < next_lsn (wal s)"
    "e \<in> set (cs_entries cs) \<Longrightarrow> holds_put vals s (cs_file cs) (re_offset e) (re_len e) (re_lsn e) (re_key e)"
    "l \<in> set (cs_dropped cs) \<Longrightarrow> l < next_lsn (wal s)"
    "l \<in> set (cs_dropped cs) \<Longrightarrow> map_of (index s) k \<noteq> Some (seg, off, len, l)"
    "map_of (put_locations s) l = Some (k, cs_old_id cs, off, len) \<Longrightarrow> l \<in> re_lsn ` set (cs_entries cs) \<or> l \<in> set (cs_dropped cs)"
  using assms unfolding stage_inv_def by simp_all

lemma stage_invI:
  assumes "lookup_file (seg_name (cs_new_id cs)) (dir s) = Some (cs_file cs)"
    "cs_new_id cs \<noteq> active_id s" "cs_new_id cs < next_free_id s" "cs_new_id cs \<notin> set (sealed s)"
    "cs_old_id cs \<noteq> active_id s" "cs_old_id cs < next_free_id s"
    "\<And>e. e \<in> set (cs_entries cs) \<Longrightarrow> re_lsn e < next_lsn (wal s) \<and> holds_put vals s (cs_file cs) (re_offset e) (re_len e) (re_lsn e) (re_key e)"
    "\<And>l. l \<in> set (cs_dropped cs) \<Longrightarrow> l < next_lsn (wal s)"
    "\<And>l k seg off len. l \<in> set (cs_dropped cs) \<Longrightarrow> map_of (index s) k \<noteq> Some (seg, off, len, l)"
    "\<And>l k off len. map_of (put_locations s) l = Some (k, cs_old_id cs, off, len) \<Longrightarrow>
       l \<in> re_lsn ` set (cs_entries cs) \<or> l \<in> set (cs_dropped cs)"
  shows "stage_inv vals s cs"
  unfolding stage_inv_def using assms by blast

lemma comp_inv_maps: "comp_inv vals F s \<Longrightarrow> maps_inv vals s"
  by (simp add: comp_inv_def)

lemmas comp_inv_inner = maps_invD(1) [OF comp_inv_maps]

section \<open>Steps\<close>

lemma holds_put_safe: "safe_step s s' \<Longrightarrow> holds_put vals s i off len l k \<Longrightarrow> holds_put vals s' i off len l k"
  by (simp add: safe_step_def holds_put_def)

lemma holds_put_vals: "vals' l = vals l \<Longrightarrow> holds_put vals' s i off len l k = holds_put vals s i off len l k"
  by (simp add: holds_put_def)

lemma located_safe:
  assumes "located vals s p l" "safe_step s s'" "\<And>x j. map_of (segments s) x = Some j \<Longrightarrow> map_of (segments s') x = Some j" "vals' l = vals l"
  shows "located vals' s' p l"
  using assms(1,3) holds_put_safe [OF assms(2)] by (fastforce simp: located_def holds_put_vals [of vals' l vals, OF assms(4)])

text \<open>What the writer may change while compactions are in flight.\<close>

definition evolves :: "Inner \<Rightarrow> Inner \<Rightarrow> bool" where
  "evolves s s' \<longleftrightarrow> safe_step s s' \<and> next_free_id s \<le> next_free_id s' \<and>
    (active_id s' = active_id s \<or> next_free_id s \<le> active_id s') \<and> next_lsn (wal s) \<le> next_lsn (wal s') \<and>
    set (sealed s') \<subseteq> insert (active_id s) (set (sealed s) \<union> {x. next_free_id s \<le> x}) \<and>
    (\<forall>sid i. lookup_file (seg_name sid) (dir s) = Some i \<longrightarrow> lookup_file (seg_name sid) (dir s') = Some i) \<and>
    (\<forall>l k seg off len. map_of (put_locations s') l = Some (k, seg, off, len) \<longrightarrow>
       map_of (put_locations s) l = Some (k, seg, off, len) \<or> seg = active_id s \<or> next_free_id s \<le> seg) \<and>
    (\<forall>k seg off len l. map_of (index s') k = Some (seg, off, len, l) \<longrightarrow>
       map_of (index s) k = Some (seg, off, len, l) \<or> next_lsn (wal s) \<le> l)"

lemma stage_inv_evolves:
  assumes cs: "stage_inv vals s cs" and e: "evolves s s'" and v: "\<And>l. l < next_lsn (wal s) \<Longrightarrow> vals' l = vals l"
  shows "stage_inv vals' s' cs"
proof (rule stage_invI)
  have safe: "safe_step s s'" and n: "next_free_id s \<le> next_free_id s'" and act: "active_id s' = active_id s \<or> next_free_id s \<le> active_id s'"
    and lsn: "next_lsn (wal s) \<le> next_lsn (wal s')"
    and sea: "set (sealed s') \<subseteq> insert (active_id s) (set (sealed s) \<union> {x. next_free_id s \<le> x})"
    using e by (simp_all add: evolves_def)
  note d = stage_invD [OF cs]
  show "lookup_file (seg_name (cs_new_id cs)) (dir s') = Some (cs_file cs)" using e d(1) by (simp add: evolves_def)
  show "cs_new_id cs \<noteq> active_id s'" "cs_old_id cs \<noteq> active_id s'" using act d(2,3,5,6) by auto
  show "cs_new_id cs < next_free_id s'" "cs_old_id cs < next_free_id s'" using n d(3,6) by auto
  show "cs_new_id cs \<notin> set (sealed s')" using sea d(2,3,4) by auto
  show "re_lsn x < next_lsn (wal s') \<and> holds_put vals' s' (cs_file cs) (re_offset x) (re_len x) (re_lsn x) (re_key x)"
    if "x \<in> set (cs_entries cs)" for x
    using d(7) [OF that] lsn holds_put_safe [OF safe d(8) [OF that]] holds_put_vals [of vals' "re_lsn x" vals, OF v] by simp
  show "l < next_lsn (wal s')" if "l \<in> set (cs_dropped cs)" for l using d(9) [OF that] lsn by auto
  show "map_of (index s') k \<noteq> Some (seg, off, len, l)" if "l \<in> set (cs_dropped cs)" for l k seg off len
  proof
    assume "map_of (index s') k = Some (seg, off, len, l)"
    then have "map_of (index s) k = Some (seg, off, len, l) \<or> next_lsn (wal s) \<le> l" using e unfolding evolves_def by blast
    then show False using d(9,10) [OF that] by auto
  qed
  show "l \<in> re_lsn ` set (cs_entries cs) \<or> l \<in> set (cs_dropped cs)" if "map_of (put_locations s') l = Some (k, cs_old_id cs, off, len)" for l k off len
  proof -
    have "map_of (put_locations s) l = Some (k, cs_old_id cs, off, len) \<or> cs_old_id cs = active_id s \<or> next_free_id s \<le> cs_old_id cs"
      using e that unfolding evolves_def by blast
    then show ?thesis using d(5,6) d(11) [of l k off len] by auto
  qed
qed

lemma comp_inv_evolves:
  assumes "comp_inv vals F s" "evolves s s'" "\<And>l. l < next_lsn (wal s) \<Longrightarrow> vals' l = vals l" "maps_inv vals' s'"
  shows "comp_inv vals' F s'"
  using assms(1,4) stage_inv_evolves [OF _ assms(2,3)] by (simp add: comp_inv_def)

text \<open>The invariant of the maps moves on with steps that keep the old locations; new ones must hold their put.\<close>

lemma maps_inv_step:
  assumes m: "maps_inv vals s" and i: "inner_inv s'" and safe: "safe_step s s'" and l: "next_lsn (wal s) \<le> next_lsn (wal s')"
    and segs: "\<And>x j. map_of (segments s) x = Some j \<Longrightarrow> map_of (segments s') x = Some j"
    and sealed: "\<And>sid. sid \<in> set (sealed s') \<Longrightarrow> sid \<noteq> active_id s' \<and> sid < next_free_id s'" and tmp: "\<And>sid. lookup_file (tmp_name sid) (dir s') = None"
    and pl: "distinct (map fst (put_locations s'))"
      "\<And>x p. map_of (put_locations s') x = Some p \<Longrightarrow>
         map_of (put_locations s) x = Some p \<and> vals' x = vals x \<or> x < next_lsn (wal s') \<and> located vals' s' p x"
    and ix: "\<And>k seg off len x. map_of (index s') k = Some (seg, off, len, x) \<Longrightarrow> map_of (put_locations s') x = Some (k, seg, off, len)"
  shows "maps_inv vals' s'"
proof (rule maps_invI [OF i pl(1) _ ix sealed tmp])
  fix x p assume "map_of (put_locations s') x = Some p"
  from pl(2) [OF this] show "x < next_lsn (wal s') \<and> located vals' s' p x"
  proof (elim disjE conjE)
    assume x: "map_of (put_locations s) x = Some p" "vals' x = vals x"
    show ?thesis using maps_invD(3) [OF m x(1)] l located_safe [where vals' = vals' and l = x, OF maps_invD(4) [OF m x(1)] safe segs x(2)] by auto
  qed simp
qed

lemma maps_inv_same:
  assumes m: "maps_inv vals s" and i: "inner_inv s'" and safe: "safe_step s s'" and l: "next_lsn (wal s) \<le> next_lsn (wal s')"
    and segs: "\<And>x j. map_of (segments s) x = Some j \<Longrightarrow> map_of (segments s') x = Some j"
    and eqs: "index s' = index s" "put_locations s' = put_locations s"
    and sealed: "\<And>sid. sid \<in> set (sealed s') \<Longrightarrow> sid \<noteq> active_id s' \<and> sid < next_free_id s'" and tmp: "\<And>sid. lookup_file (tmp_name sid) (dir s') = None"
  shows "maps_inv vals s'"
  by (rule maps_inv_step [OF m i safe l segs sealed tmp]) (use maps_invD(2,5) [OF m] in \<open>simp_all add: eqs del: map_of_eq_Some_iff\<close>)

lemma comp_inv_same:
  assumes c: "comp_inv vals F s" and i: "inner_inv s'" and safe: "safe_step s s'" and eqs: "segments s' = segments s" "index s' = index s"
    "put_locations s' = put_locations s" "sealed s' = sealed s" "active_id s' = active_id s" "next_free_id s' = next_free_id s"
    "\<And>n. lookup_file n (dir s') = lookup_file n (dir s)" and l: "next_lsn (wal s) \<le> next_lsn (wal s')"
  shows "comp_inv vals F s'"
proof (rule comp_inv_evolves [OF c _ refl])
  show "evolves s s'" using safe l by (auto simp: evolves_def eqs)
  note d = maps_invD [OF comp_inv_maps [OF c]]
  show "maps_inv vals s'" by (rule maps_inv_same [OF comp_inv_maps [OF c] i safe l]) (use d(6-8) in \<open>auto simp: eqs\<close>)
qed

lemma append_at_mono: "append_at rec l w = Inr w' \<Longrightarrow> next_lsn w \<le> next_lsn w'"
  by (auto simp: append_at_eq split: if_splits)

lemma inner_append_mono:
  assumes "inner_append rec s = (r, s')"
  shows "next_lsn (wal s) \<le> next_lsn (wal s')" "\<exists>w. s' = s\<lparr>wal := w\<rparr>"
  using assms append_at_mono by (auto simp: inner_append_def wal_append_def and_then_def Let_def split: sum.splits intro: exI [of _ "wal s"])

lemma seal_comp:
  assumes c: "comp_inv vals F s" and n: "unat (next_free_id s) + 1 < 2 ^ 64" and run: "seal_active_record s = (r, s')"
  shows "comp_inv vals F s'"
proof -
  have m: "maps_inv vals s" by (rule comp_inv_maps [OF c])
  note d = maps_invD [OF m]
  obtain e where e: "r = Inr e" using seal_succeeds [of s] run by auto
  note ok = seal_ok [OF d(1) n run]
  obtain w where w: "append_at (SegmentSeal (active_id s) (next_free_id s)) (next_lsn (wal s)) (wal s) = Inr w"
    and s': "s' = s\<lparr>next_free_id := next_free_id s + 1, wal := w, pending := True, sealed := sealed s @ [active_id s], active_id := next_free_id s, active_offset := 0\<rparr>"
    using run e by (auto simp: seal_active_record_def op_bind_Inr op_basic inner_append_Inr)
  have less: "next_free_id s < next_free_id s + 1" using n by (simp add: word_less_nat_alt unat_add_small)
  have act: "active_id s < next_free_id s" using d(1) by (simp add: inner_inv_def)
  have lsn: "next_lsn (wal s) \<le> next_lsn w" using append_at_mono [OF w] .
  show ?thesis
  proof (rule comp_inv_evolves [OF c _ refl])
    show "evolves s s'" using ok less lsn by (auto simp: evolves_def s')
    show "maps_inv vals s'"
    proof (rule maps_inv_same [OF m])
      show "inner_inv s'" "safe_step s s'" using ok by simp_all
      show "sid \<noteq> active_id s' \<and> sid < next_free_id s'" if "sid \<in> set (sealed s')" for sid
        using that d(6,7) [of sid] act less by (auto simp: s')
    qed (use lsn d(8) in \<open>simp_all add: s'\<close>)
  qed
qed

lemma seal_if_comp:
  assumes "comp_inv vals F s" "unat (next_free_id s) + 1 < 2 ^ 64" "seal_if b s = (r, s')"
  shows "comp_inv vals F s'"
  using assms seal_comp [OF assms(1,2)] by (auto simp: op_bind_def op_basic split: if_splits prod.splits sum.splits)

text \<open>The fields of the state after \<open>stage_body\<close>, whether it fails or not.\<close>

lemma open_segment_dir:
  assumes "open_segment sid s = (r, s')"
  shows "(lookup_file n (dir s) = Some i \<longrightarrow> lookup_file n (dir s') = Some i) \<and> (n \<noteq> seg_name sid \<longrightarrow> lookup_file n (dir s') = lookup_file n (dir s))"
proof (cases "lookup_file (seg_name sid) (dir s)")
  case None
  then show ?thesis using assms open_create_new(2) [OF None] by (auto simp: open_segment_def case_prod_beta split: if_splits)
next
  case (Some j)
  then show ?thesis using assms open_create_known [OF Some] by (auto simp: open_segment_def split: if_splits)
qed

lemma stage_body_fields:
  assumes "inner_inv s" "stage_body key v s = (r, s')"
  shows "sealed s' = sealed s" "active_id s' = active_id s" "next_lsn (wal s) \<le> next_lsn (wal s')"
    "lookup_file n (dir s) = Some i \<Longrightarrow> lookup_file n (dir s') = Some i" "lookup_file (tmp_name sid) (dir s') = lookup_file (tmp_name sid) (dir s)"
    "r = Inl e \<Longrightarrow> index s' = index s \<and> put_locations s' = put_locations s"
    "r = Inr (l, rs) \<Longrightarrow> l = next_lsn (wal s) \<and> next_free_id s' = next_free_id s \<and>
       put_locations s' = AList.update l (key, active_id s, active_offset s, of_nat (length v)) (put_locations s)"
    "r = Inr (l, rs) \<Longrightarrow> unat (next_lsn (wal s)) + 1 < 2 ^ 64 \<Longrightarrow> l < next_lsn (wal s')"
proof -
  obtain r1 s1 where o: "open_segment (active_id s) s = (r1, s1)" by force
  have "active_id s < next_free_id s" using assms(1) by (simp add: inner_inv_def)
  from open_segment_ok [OF assms(1) o this] obtain f d segs where r1: "r1 = Inr ()" "map_of (segments s1) (active_id s) = Some f"
    and s1: "s1 = s\<lparr>dir := d, segments := segs\<rparr>" by blast
  define s2 where "s2 = s1\<lparr>dir := write_file f (unat (active_offset s)) v d\<rparr>"
  have w: "write_value v s1 = (Inr (), s2)" using r1(2) by (simp add: write_value_def s1 s2_def)
  obtain p s3 where p: "inner_append (Put key (of_nat (length v)) (next_lsn (wal s2))) s2 = (p, s3)" by force
  obtain a s4 where a: "inner_append (AggDelta (deltas_for (rollup s3) key (of_nat (length v)))) s3 = (a, s4)" by force
  obtain w3 where s3: "s3 = s2\<lparr>wal := w3\<rparr>" using inner_append_mono(2) [OF p] by blast
  obtain w4 where s4: "s4 = s3\<lparr>wal := w4\<rparr>" using inner_append_mono(2) [OF a] by blast
  have m: "next_lsn (wal s) \<le> next_lsn w3" "next_lsn w3 \<le> next_lsn w4"
    using inner_append_mono(1) [OF p] inner_append_mono(1) [OF a] by (simp_all add: s3 s4 s2_def s1)
  have run: "stage_body key v s = (case p of Inl e \<Rightarrow> (Inl e, s3) | Inr _ \<Rightarrow> (case a of Inl e \<Rightarrow> (Inl e, s4)
      | Inr _ \<Rightarrow> (Inr (next_lsn (wal s), [(next_lsn (wal s), Put key (of_nat (length v)) (next_lsn (wal s))),
            (next_lsn (wal s3), AggDelta (deltas_for (rollup s3) key (of_nat (length v))))]),
          s4\<lparr>index := AList.update key (active_id s, active_offset s, of_nat (length v), next_lsn (wal s)) (index s),
             put_locations := AList.update (next_lsn (wal s)) (key, active_id s, active_offset s, of_nat (length v)) (put_locations s),
             rollup := rollup_record key (of_nat (length v)) (rollup s), active_offset := active_offset s + of_nat (length v),
             dirty_segments := List.insert (active_id s) (dirty_segments s), pending := True\<rparr>)))"
    using o r1(1) w p a by (simp add: stage_body_def op_bind_def op_basic Let_def s4 s3 s2_def s1 split: sum.split)
  note f = assms(2) [unfolded run] s3 s4 s2_def s1
  show "sealed s' = sealed s" "active_id s' = active_id s" using f by (auto split: sum.splits)
  show "next_lsn (wal s) \<le> next_lsn (wal s')" using f m by (auto split: sum.splits)
  have look: "lookup_file x (dir s') = lookup_file x d" for x using f by (auto split: sum.splits)
  show "lookup_file n (dir s') = Some i" if "lookup_file n (dir s) = Some i" using open_segment_dir [OF o, of n i] that by (simp add: look s1)
  show "lookup_file (tmp_name sid) (dir s') = lookup_file (tmp_name sid) (dir s)"
    using open_segment_dir [OF o, of "tmp_name sid"] tmp_not_seg by (simp add: look s1)
  show "index s' = index s \<and> put_locations s' = put_locations s" if "r = Inl e" using f that by (auto split: sum.splits)
  show "l = next_lsn (wal s) \<and> next_free_id s' = next_free_id s \<and>
       put_locations s' = AList.update l (key, active_id s, active_offset s, of_nat (length v)) (put_locations s)" if "r = Inr (l, rs)"
    using f that by (auto split: sum.splits)
  show "l < next_lsn (wal s')" if r: "r = Inr (l, rs)" and n: "unat (next_lsn (wal s)) + 1 < 2 ^ 64"
  proof -
    obtain l' where p': "p = Inr l'" using f r by (cases p) auto
    have "unat (next_lsn w3) = unat (next_lsn (wal s)) + 1" using append_next_Inr [OF p [unfolded p']] n by (simp add: s3 s2_def s1)
    then have "next_lsn (wal s) < next_lsn w4" using m(2) by (simp add: word_less_nat_alt word_le_nat_alt)
    then show ?thesis using f r by (auto split: sum.splits)
  qed
qed

lemma stage_body_comp:
  assumes c: "comp_inv vals F s" and v: "length v < 2 ^ 32" "unat (active_offset s) + length v < 2 ^ 64"
    and n: "unat (next_lsn (wal s)) + 1 < 2 ^ 64" and run: "stage_body key v s = (r, s')"
  shows "\<exists>vals'. comp_inv vals' F s'"
proof -
  have m: "maps_inv vals s" by (rule comp_inv_maps [OF c])
  note d = maps_invD [OF m] and f = stage_body_fields [OF maps_invD(1) [OF m] run]
  have ok: "inner_inv s'" "safe_step s s'" "next_free_id s' = next_free_id s"
    and segs: "\<And>x j. map_of (segments s) x = Some j \<Longrightarrow> map_of (segments s') x = Some j"
    using stage_body_ok [OF d(1) v run] by simp_all
  have sealed: "sid \<noteq> active_id s' \<and> sid < next_free_id s'" if "sid \<in> set (sealed s')" for sid
    using that d(6,7) by (simp add: f(1,2) ok(3))
  have tmp: "lookup_file (tmp_name sid) (dir s') = None" for sid using f(5) d(8) by simp
  show ?thesis
  proof (cases r)
    case (Inl e)
    have s': "index s' = index s" "put_locations s' = put_locations s" using f(6) [OF Inl] by simp_all
    have "evolves s s'" unfolding evolves_def s' f(1,2) ok(3) using ok(2) f(3,4) by auto
    then show ?thesis using comp_inv_evolves [OF c _ refl maps_inv_same [OF m ok(1,2) f(3) segs s' sealed tmp]] by blast
  next
    case (Inr y)
    obtain l rs where y: "r = Inr (l, rs)" using Inr by (cases y) simp
    let ?p = "(key, active_id s, active_offset s, of_nat (length v))" and ?vals = "vals(l := (key, v))"
    have l: "l = next_lsn (wal s)" and pl: "put_locations s' = AList.update l ?p (put_locations s)" and ll: "l < next_lsn (wal s')"
      using f(7) [OF y] f(8) [OF y n] by simp_all
    have ix: "index s' = AList.update key (active_id s, active_offset s, of_nat (length v), l) (index s)"
      and at: "\<exists>i. map_of (segments s') (active_id s) = Some i \<and> read_value (file_data (dir s') i) (active_offset s) (of_nat (length v)) = Inr v"
      using stage_body_ok [OF d(1) v run] y by auto
    have "map_of (index s') key = Some (active_id s, active_offset s, of_nat (length v), l)" by (simp add: ix update_conv')
    then obtain i where "map_of (segments s') (active_id s) = Some i" "protected_region s' i (active_offset s) (of_nat (length v))"
      using ok(1) unfolding inner_inv_def index_ok_def by blast
    then have new: "located ?vals s' ?p l" using at by (auto simp: located_def holds_put_def)
    have "maps_inv ?vals s'"
    proof (rule maps_inv_step [OF m ok(1,2) f(3) segs sealed tmp])
      show "distinct (map fst (put_locations s'))" using d(2) by (simp add: pl distinct_update)
      show "map_of (put_locations s) x = Some p \<and> ?vals x = vals x \<or> x < next_lsn (wal s') \<and> located ?vals s' p x"
        if "map_of (put_locations s') x = Some p" for x p using that new ll by (auto simp: pl update_conv' split: if_splits)
      show "map_of (put_locations s') x = Some (k, seg, off, len)" if "map_of (index s') k = Some (seg, off, len, x)" for k seg off len x
        using that d(5) [of k seg off len x] d(3) [of x] by (cases "k = key") (auto simp: pl ix update_conv' l simp del: map_of_eq_Some_iff)
    qed
    moreover have "evolves s s'" unfolding evolves_def f(1,2) ok(3) pl ix using ok(2) f(3,4) by (auto simp: update_conv' l split: if_splits)
    moreover have "?vals x = vals x" if "x < next_lsn (wal s)" for x using that by (auto simp: l)
    ultimately show ?thesis using comp_inv_evolves [OF c, of s' ?vals] by blast
  qed
qed

lemma stage_put_comp:
  assumes c: "comp_inv vals F s" and k: "counters_ok s (length v)" and n: "unat (next_lsn (wal s)) + 5 < 2 ^ 64"
    and run: "inner_stage_put key v s = (r, s')"
  shows "\<exists>vals'. comp_inv vals' F s'"
proof -
  have i: "inner_inv s" by (rule comp_inv_inner [OF c])
  have v: "length v < 2 ^ 32" and nf: "unat (next_free_id s) + 1 < 2 ^ 64" using k by (simp_all add: counters_ok_def)
  have body: "(\<exists>vals'. comp_inv vals' F s2) \<and> unat (next_free_id s2) + 1 < 2 ^ 64"
    if 1: "seal_if b s = (Inr rs0, s1)" and 2: "stage_body key v s1 = (r2, s2)" for b rs0 s1 r2 s2
  proof -
    have c1: "comp_inv vals F s1" using seal_if_comp [OF c nf 1] .
    have "unat (next_lsn (wal s1)) \<le> unat (next_lsn (wal s)) + 1"
      using 1 n seal_next [of s _ s1] by (auto simp: op_bind_Inr op_basic split: if_splits)
    then have room: "unat (active_offset s1) + length v < 2 ^ 64" "unat (next_free_id s1) + 1 < 2 ^ 64" "unat (next_lsn (wal s1)) + 1 < 2 ^ 64"
      using seal_if_ok [OF i nf 1] k n by (auto simp: counters_ok_def)
    then show ?thesis using stage_body_comp [OF c1 v room(1,3) 2] stage_body_ok [OF comp_inv_inner [OF c1] v room(1) 2] by simp
  qed
  from run v i nf show ?thesis
  proof (cases rule: stage_put_cases)
    case (1 rs0 s1 e)
    then show ?thesis using body by blast
  next
    case (2 rs0 s1 l rs1 s2 b r3)
    then obtain vals' where "comp_inv vals' F s2" "unat (next_free_id s2) + 1 < 2 ^ 64" using body by blast
    then show ?thesis using seal_if_comp 2(3) by blast
  qed
qed

lemma inner_sync_comp:
  assumes c: "comp_inv vals F s" and run: "inner_sync io s = (r, s')"
  shows "comp_inv vals F s'"
proof -
  obtain w where s': "s' = s\<lparr>wal := w\<rparr>" and w: "next_lsn w = next_lsn (wal s)" using run sync_keeps by (auto simp: inner_sync_def split: prod.splits)
  have i: "inner_inv s" by (rule comp_inv_inner [OF c])
  show ?thesis using comp_inv_same [OF c, of s'] inner_inv_same [OF i, of s'] safe_step_same_dir [of s' s] w by (simp add: s')
qed

lemma inner_commit_mono:
  assumes run: "inner_commit io lsn s = (r, s')"
  shows "next_lsn (wal s) \<le> next_lsn (wal s')" "put_locations s' = put_locations s" "sealed s' = sealed s"
proof -
  obtain r1 s1 where 1: "inner_append (Commit lsn) (fsync_dirty_segments s) = (r1, s1)" by force
  obtain w where s1: "s1 = (fsync_dirty_segments s)\<lparr>wal := w\<rparr>" and w: "next_lsn (wal s) \<le> next_lsn w"
    using inner_append_mono [OF 1] by (auto simp: fsync_dirty_segments_def)
  obtain r2 w2 where 2: "sync io w = (r2, w2)" by force
  show "next_lsn (wal s) \<le> next_lsn (wal s')" "put_locations s' = put_locations s" "sealed s' = sealed s"
    using run 1 2 w sync_keeps [OF 2]
    by (auto simp: inner_commit_def op_bind_def op_basic inner_sync_def s1 Let_def fsync_dirty_segments_def split: sum.splits)
qed

lemma inner_commit_comp:
  assumes c: "comp_inv vals F s" and run: "inner_commit io lsn s = (r, s')"
  shows "comp_inv vals F s'"
  using comp_inv_same [OF c] commit_ok [OF comp_inv_inner [OF c] run] commit_fields [OF run] inner_commit_mono [OF run] fsync_dirty_ok(1) [of _ s] by simp

section \<open>Copying\<close>

lemma pwrite_end: "pwrite (length data) v data = data @ v"
  by (simp add: pwrite_def)

lemma read_value_append: "read_value data off len = Inr v \<Longrightarrow> read_value (data @ bs) off len = Inr v"
  by (auto simp: read_value_def split: if_splits)

text \<open>The values of entries, written one after the other at their offsets.\<close>

definition entry_data :: "(Lsn \<Rightarrow> bytes) \<Rightarrow> RemapEntry list \<Rightarrow> bytes \<Rightarrow> bytes" where
  "entry_data g es data = fold (\<lambda>e. pwrite (unat (re_offset e)) (g (re_lsn e))) es data"

lemma entry_data_simps [simp]: "entry_data g [] data = data" "entry_data g (e # es) data = entry_data g es (pwrite (unat (re_offset e)) (g (re_lsn e)) data)"
  "entry_data g (es @ es') data = entry_data g es' (entry_data g es data)"
  by (simp_all add: entry_data_def)

text \<open>The copy loop appends the values to the new file and records where each of them is.\<close>

definition copied :: "nat \<Rightarrow> nat \<Rightarrow> (Lsn \<times> str \<times> u64 \<times> u32) list \<Rightarrow> disk \<Rightarrow> disk \<Rightarrow> RemapEntry list \<Rightarrow> bool" where
  "copied oldf newf keep d d' es \<longleftrightarrow>
    length (inodes d') = length (inodes d) \<and>
    (\<forall>j. j \<noteq> newf \<longrightarrow> file_data d' j = file_data d j) \<and> prefix (file_data d newf) (file_data d' newf) \<and>
    map re_lsn es = map fst keep \<and>
    (\<forall>j. file_synced d' j = file_synced d j) \<and> dir_entries d' = dir_entries d \<and>
    (\<forall>e \<in> set es. unat (re_offset e) + unat (re_len e) < 2 ^ 64 \<and> unat (re_offset e) + unat (re_len e) \<le> length (file_data d' newf)) \<and>
    (\<forall>e \<in> set es. \<exists>q. (re_lsn e, re_key e, q, re_len e) \<in> set keep \<and>
       read_value (file_data d' newf) (re_offset e) (re_len e) = read_value (file_data d oldf) q (re_len e)) \<and>
    (\<forall>g. (\<forall>l k q n. (l, k, q, n) \<in> set keep \<longrightarrow> read_value (file_data d oldf) q n = Inr (g l)) \<longrightarrow> file_data d' newf = entry_data g es (file_data d newf))"

lemma copied_Cons:
  assumes c: "copied oldf newf keep d1 d' es" and d1: "d1 = write_file newf (length (file_data d newf)) v d"
    and rd: "read_value (file_data d oldf) q n = Inr v" and ne: "oldf \<noteq> newf" and i: "newf < length (inodes d)"
    and off: "unat off = length (file_data d newf)" "unat off + unat n < 2 ^ 64"
  shows "copied oldf newf ((l, k, q, n) # keep) d d' (\<lparr>re_key = k, re_lsn = l, re_offset = off, re_len = n\<rparr> # es)"
proof -
  have v: "length v = unat n" using rd by (auto simp: read_value_def split: if_splits)
  have fd: "file_data d1 j = (if j = newf then file_data d newf @ v else file_data d j)" for j
    using i by (auto simp: d1 file_data_write_file pwrite_end)
  have pre: "prefix (file_data d newf @ v) (file_data d' newf)" using c fd by (simp add: copied_def)
  then obtain bs where bs: "file_data d' newf = (file_data d newf @ v) @ bs" by (auto simp: prefix_def)
  have "read_value (file_data d newf @ v) off n = Inr v" using off v by (simp add: read_value_def)
  then have "read_value (file_data d' newf) off n = read_value (file_data d oldf) q n"
    unfolding bs rd by (rule read_value_append)
  moreover have "file_data d1 oldf = file_data d oldf" using ne fd by simp
  moreover have "length (inodes d') = length (inodes d)" "dir_entries d' = dir_entries d" "\<forall>j. file_synced d' j = file_synced d j"
    using c by (simp_all add: copied_def d1 write_file_def) (simp add: set_data_def)
  moreover have "unat off + unat n < 2 ^ 64 \<and> unat off + unat n \<le> length (file_data d' newf)" using off v by (simp add: bs)
  moreover have "\<forall>j. j \<noteq> newf \<longrightarrow> file_data d' j = file_data d j" using c fd by (simp add: copied_def)
  moreover have "prefix (file_data d newf) (file_data d' newf)" using append_prefixD [OF pre] .
  moreover have "file_data d' newf = entry_data g es (pwrite (unat off) (g l) (file_data d newf))"
    if "\<forall>l' k' q' n'. (l', k', q', n') \<in> set ((l, k, q, n) # keep) \<longrightarrow> read_value (file_data d oldf) q' n' = Inr (g l')" for g
  proof -
    have "g l = v" using that rd by simp
    then have "pwrite (unat off) (g l) (file_data d newf) = file_data d1 newf" using off(1) by (simp add: fd pwrite_end)
    moreover have "file_data d' newf = entry_data g es (file_data d1 newf)" using c that ne by (simp add: copied_def fd)
    ultimately show ?thesis by simp
  qed
  ultimately show ?thesis using c unfolding copied_def by auto
qed

lemma copy_values_spec:
  assumes "newf < length (inodes (dir s))" "oldf \<noteq> newf" "unat off = length (file_data (dir s) newf)"
    "unat off + (\<Sum>(l, k, q, n) \<leftarrow> keep. unat n) < 2 ^ 64"
    "\<And>l k q n. (l, k, q, n) \<in> set keep \<Longrightarrow> \<exists>v. read_value (file_data (dir s) oldf) q n = Inr v"
  shows "\<exists>es d. copy_values oldf newf off keep s = (Inr es, s\<lparr>dir := d\<rparr>) \<and> copied oldf newf keep (dir s) d es"
  using assms
proof (induction keep arbitrary: off s)
  case Nil
  then show ?case by (intro exI [of _ "[]"] exI [of _ "dir s"]) (simp add: copied_def)
next
  case (Cons x keep)
  obtain l k q n where x: "x = (l, k, q, n)" by (metis prod_cases4)
  define v where "v = take (unat n) (drop (unat q) (file_data (dir s) oldf))"
  have rd: "read_value (file_data (dir s) oldf) q n = Inr v"
    using Cons.prems(5) [of l k q n] x by (auto simp: read_value_def v_def split: if_splits)
  have short: "\<not> (unat n \<noteq> 0 \<and> unat q + unat n > length (file_data (dir s) oldf))" and v: "length v = unat n"
    using rd by (auto simp: read_value_def v_def split: if_splits)
  define s1 where "s1 = s\<lparr>dir := write_file newf (unat off) v (dir s)\<rparr>"
  have fd: "file_data (dir s1) j = (if j = newf then file_data (dir s) newf @ v else file_data (dir s) j)" for j
    using Cons.prems(1,3) by (auto simp: s1_def file_data_write_file pwrite_end)
  have sum: "unat off + unat n + (\<Sum>(l, k, q, n) \<leftarrow> keep. unat n) < 2 ^ 64" using Cons.prems(4) by (simp add: x)
  have off: "unat (off + ucast n) = unat off + unat n" using sum by (subst unat_add_small) simp_all
  have old: "file_data (dir s1) oldf = file_data (dir s) oldf" using Cons.prems(2) by (simp add: fd)
  have "\<exists>es d. copy_values oldf newf (off + ucast n) keep s1 = (Inr es, s1\<lparr>dir := d\<rparr>) \<and> copied oldf newf keep (dir s1) d es"
  proof (rule Cons.IH)
    show "newf < length (inodes (dir s1))" using Cons.prems(1) by (simp add: s1_def)
    show "unat (off + ucast n) = length (file_data (dir s1) newf)" using off v Cons.prems(3) by (simp add: fd)
    show "unat (off + ucast n) + (\<Sum>(l, k, q, n) \<leftarrow> keep. unat n) < 2 ^ 64" using sum off by simp
    show "\<exists>v. read_value (file_data (dir s1) oldf) q n = Inr v" if "(l, k, q, n) \<in> set keep" for l k q n
      using Cons.prems(5) [of l k q n] that old by simp
  qed (use Cons.prems(2) in simp)
  then obtain es d where ih: "copy_values oldf newf (off + ucast n) keep s1 = (Inr es, s1\<lparr>dir := d\<rparr>)" "copied oldf newf keep (dir s1) d es"
    by blast
  let ?es = "\<lparr>re_key = k, re_lsn = l, re_offset = off, re_len = n\<rparr> # es"
  have "copy_values oldf newf off (x # keep) s = (Inr ?es, s\<lparr>dir := d\<rparr>)"
    using short ih(1) by (simp add: x op_bind_def op_basic flip: v_def s1_def) (simp add: s1_def)
  moreover have "copied oldf newf (x # keep) (dir s) d ?es"
    unfolding x using copied_Cons [OF ih(2) _ rd Cons.prems(2,1,3)] Cons.prems(3) sum by (simp add: s1_def)
  ultimately show ?case by blast
qed

lemma in_keep_list:
  assumes "distinct (map fst (put_locations s))"
  shows "(l, k, q, n) \<in> set (keep_list s h old) \<longleftrightarrow> map_of (put_locations s) l = Some (k, old, q, n) \<and> (l \<in> set (live_lsns s old) \<or> h < l)"
  using assms by (force simp: keep_list_def)

lemma in_dropped_puts:
  assumes "distinct (map fst (put_locations s))"
  shows "l \<in> fst ` set (dropped_puts s old keep) \<longleftrightarrow> (\<exists>k q n. map_of (put_locations s) l = Some (k, old, q, n)) \<and> l \<notin> fst ` set keep"
  using assms by (force simp: dropped_puts_def image_iff)

lemma keep_sum: "length (put_locations s) \<le> 2 ^ 32 \<Longrightarrow> (\<Sum>(l, k, q, n) \<leftarrow> keep_list s h old. unat n) < 2 ^ 64"
proof -
  assume a: "length (put_locations s) \<le> 2 ^ 32"
  have "(\<Sum>(l, k, q, n) \<leftarrow> keep. unat n) \<le> length keep * (2 ^ 32 - 1)" for keep :: "(Lsn \<times> str \<times> u64 \<times> u32) list"
  proof (induction keep)
    case (Cons x keep)
    obtain l k q n where x: "x = (l, k, q, n)" by (metis prod_cases4)
    have "unat n < 2 ^ 32" using unsigned_less [of n, where ?'a = nat] by simp
    then show ?case using Cons by (simp add: x)
  qed simp
  from this [of "keep_list s h old"] have "(\<Sum>(l, k, q, n) \<leftarrow> keep_list s h old. unat n) \<le> length (keep_list s h old) * (2 ^ 32 - 1)" .
  moreover have "length (keep_list s h old) \<le> length (put_locations s)" by (simp add: keep_list_def)
  ultimately show ?thesis using a by simp
qed

text \<open>Staging up to the remap records: a new file under the next free name, with the kept values, all of it synced.\<close>

definition new_file :: "Inner \<Rightarrow> (Lsn \<times> str \<times> u64 \<times> u32) list \<Rightarrow> nat \<Rightarrow> disk \<Rightarrow> RemapEntry list \<Rightarrow> bool" where
  "new_file s keep oldf d es \<longleftrightarrow> (let newf = length (inodes (dir s)) in
    (\<forall>x. lookup_file x d = (if x = seg_name (next_free_id s) then Some newf else lookup_file x (dir s))) \<and>
    length (inodes d) = Suc newf \<and> (\<forall>j. j \<noteq> newf \<longrightarrow> file_data d j = file_data (dir s) j) \<and>
    (\<forall>j. file_synced d j = (if j = newf then file_data d newf else file_synced (dir s) j)) \<and>
    (distinct (map fst (dir_entries (dir s))) \<longrightarrow> distinct (map fst (dir_entries d))) \<and>
    map re_lsn es = map fst keep \<and>
    (\<forall>e \<in> set es. unat (re_offset e) + unat (re_len e) < 2 ^ 64 \<and> unat (re_offset e) + unat (re_len e) \<le> length (file_data d newf)) \<and>
    (\<forall>e \<in> set es. \<exists>q. (re_lsn e, re_key e, q, re_len e) \<in> set keep \<and>
       read_value (file_data d newf) (re_offset e) (re_len e) = read_value (file_data (dir s) oldf) q (re_len e)) \<and>
    (\<forall>g. (\<forall>l k q n. (l, k, q, n) \<in> set keep \<longrightarrow> read_value (file_data (dir s) oldf) q n = Inr (g l)) \<longrightarrow> file_data d newf = entry_data g es []))"

lemma new_fileD:
  assumes "new_file s keep oldf d es"
  shows "lookup_file x d = (if x = seg_name (next_free_id s) then Some (length (inodes (dir s))) else lookup_file x (dir s))"
    "length (inodes d) = Suc (length (inodes (dir s)))" "j \<noteq> length (inodes (dir s)) \<Longrightarrow> file_data d j = file_data (dir s) j"
    "file_synced d j = (if j = length (inodes (dir s)) then file_data d (length (inodes (dir s))) else file_synced (dir s) j)"
    "distinct (map fst (dir_entries (dir s))) \<Longrightarrow> distinct (map fst (dir_entries d))" "re_lsn ` set es = fst ` set keep"
    "e \<in> set es \<Longrightarrow> unat (re_offset e) + unat (re_len e) < 2 ^ 64 \<and> unat (re_offset e) + unat (re_len e) \<le> length (file_data d (length (inodes (dir s))))"
    "e \<in> set es \<Longrightarrow> \<exists>q. (re_lsn e, re_key e, q, re_len e) \<in> set keep \<and>
       read_value (file_data d (length (inodes (dir s)))) (re_offset e) (re_len e) = read_value (file_data (dir s) oldf) q (re_len e)"
    "(\<And>l k q n. (l, k, q, n) \<in> set keep \<Longrightarrow> read_value (file_data (dir s) oldf) q n = Inr (g l)) \<Longrightarrow>
       file_data d (length (inodes (dir s))) = entry_data g es []" "length es = length keep"
proof -
  have "map re_lsn es = map fst keep" using assms by (simp add: new_file_def Let_def)
  then show "re_lsn ` set es = fst ` set keep" "length es = length keep" by (metis set_map, metis length_map)
qed (use assms in \<open>unfold new_file_def Let_def, blast+\<close>)

text \<open>The temporary file, created empty.\<close>

lemma open_tmp:
  assumes "lookup_file n d = None" "open_truncate n d = (i, d')"
  shows "i = length (inodes d)" "lookup_file x d' = (if x = n then Some i else lookup_file x d)" "length (inodes d') = Suc (length (inodes d))"
    "file_data d' j = file_data d j" "file_synced d' j = file_synced d j" "file_data d i = []"
    "distinct (map fst (dir_entries d)) \<Longrightarrow> distinct (map fst (dir_entries d'))"
proof -
  obtain d0 where d0: "open_create n d = (i, d0)" "d' = set_data i [] d0"
    using assms(2) by (auto simp: open_truncate_def split: prod.splits)
  note c = open_create_new [OF assms(1)]
  show i: "i = length (inodes d)" "lookup_file x d' = (if x = n then Some i else lookup_file x d)" "length (inodes d') = Suc (length (inodes d))"
    using c(1-3) d0 by simp_all
  show e: "file_data d i = []" by (simp add: i(1) file_data_def)
  show "file_data d' j = file_data d j" using c(4) [of j] c(3) d0 e i(1) by (auto simp: file_data_set_data)
  show "file_synced d' j = file_synced d j"
  proof -
    have "file_synced d0 j = file_synced d j"
      using d0(1) assms(1) by (auto simp: open_create_def file_synced_def nth_append empty_file_def)
    then show ?thesis by (simp add: d0(2))
  qed
  show "distinct (map fst (dir_entries d)) \<Longrightarrow> distinct (map fst (dir_entries d'))"
    using d0 assms(1) by (auto simp: open_create_def set_data_def distinct_update)
qed

text \<open>It is synced and takes its final name.\<close>

lemma rename_tmp:
  assumes tmp: "lookup_file (tmp_name new) d = Some newf"
  shows "\<exists>d'. rename_file (tmp_name new) (seg_name new) (sync_data newf d) = Inr d' \<and>
    (\<forall>x. lookup_file x d' = (if x = seg_name new then Some newf else if x = tmp_name new then None else lookup_file x d)) \<and>
    length (inodes d') = length (inodes d) \<and> (\<forall>j. file_data d' j = file_data d j) \<and>
    (\<forall>j. file_synced d' j = (if j = newf then file_data d newf else file_synced d j)) \<and>
    (distinct (map fst (dir_entries d)) \<longrightarrow> distinct (map fst (dir_entries d')))"
proof -
  let ?d = "sync_data newf d"
  define d' where "d' = ?d\<lparr>dir_entries := AList.update (seg_name new) newf (AList.delete (tmp_name new) (dir_entries ?d))\<rparr>"
  have "rename_file (tmp_name new) (seg_name new) ?d = Inr d'" using tmp by (simp add: rename_file_def d'_def)
  moreover have "lookup_file x d' = (if x = seg_name new then Some newf else if x = tmp_name new then None else lookup_file x ?d)" for x
    by (auto simp: d'_def lookup_file_def update_conv' delete_conv')
  moreover have "file_data d' j = file_data d j" "file_synced d' j = file_synced ?d j" for j
    using sync_data_simps(3) [of newf d j] by (auto simp: d'_def file_data_def file_synced_def)
  moreover have "length (inodes d') = length (inodes d)" using sync_data_simps(2) [of newf d] by (simp add: d'_def)
  moreover have "distinct (map fst (dir_entries d)) \<Longrightarrow> distinct (map fst (dir_entries d'))"
    by (simp add: d'_def sync_data_def distinct_update distinct_delete)
  ultimately show ?thesis by (intro exI [of _ d']) (simp add: file_synced_sync)
qed

lemma new_file_renamed:
  assumes cp: "copied oldf newf keep d1 d2 es" and tmp: "lookup_file (tmp_name (next_free_id s)) (dir s) = None"
    and o: "open_truncate (tmp_name (next_free_id s)) (dir s) = (newf, d1)"
  shows "\<exists>d3. rename_file (tmp_name (next_free_id s)) (seg_name (next_free_id s)) (sync_data newf d2) = Inr d3 \<and> new_file s keep oldf d3 es"
proof -
  let ?new = "next_free_id s"
  note c = open_tmp [OF tmp o]
  have look2: "lookup_file x d2 = lookup_file x d1" for x using cp by (simp add: copied_def lookup_file_def)
  have "lookup_file (tmp_name ?new) d2 = Some newf" using look2 c(2) by simp
  from rename_tmp [OF this] obtain d3 where ren: "rename_file (tmp_name ?new) (seg_name ?new) (sync_data newf d2) = Inr d3"
    and look3: "\<And>x. lookup_file x d3 = (if x = seg_name ?new then Some newf else if x = tmp_name ?new then None else lookup_file x d2)"
    and d3: "length (inodes d3) = length (inodes d2)" "\<And>j. file_data d3 j = file_data d2 j"
      "\<And>j. file_synced d3 j = (if j = newf then file_data d2 newf else file_synced d2 j)"
      "distinct (map fst (dir_entries d2)) \<Longrightarrow> distinct (map fst (dir_entries d3))" by blast
  have look: "lookup_file x d3 = (if x = seg_name ?new then Some newf else lookup_file x (dir s))" for x
    using look2 [of x] look3 [of x] c(2) [of x] tmp by auto
  have ino: "length (inodes d3) = Suc newf" using d3(1) cp c(1,3) by (simp add: copied_def)
  have dist: "distinct (map fst (dir_entries (dir s))) \<Longrightarrow> distinct (map fst (dir_entries d3))" using c(7) cp d3(4) by (simp add: copied_def)
  have "new_file s keep oldf d3 es"
    unfolding new_file_def Let_def c(1) [symmetric] using cp look ino dist c(4-6) d3(2,3) unfolding copied_def by simp
  then show ?thesis using ren by blast
qed

lemma compact_prepare_spec:
  assumes m: "maps_inv vals s" and old: "map_of (segments s) old = Some oldf" and n: "length (put_locations s) \<le> 2 ^ 32"
  shows "\<exists>es d w. compact_prepare h old s = (Inr (next_free_id s, length (inodes (dir s)), es, dropped_puts s old (keep_list s h old),
        next_lsn (wal s), SegmentSwap old (next_free_id s)), s\<lparr>next_free_id := next_free_id s + 1, dir := d, wal := w, pending := True\<rparr>) \<and>
    append_at (SegmentSwap old (next_free_id s)) (next_lsn (wal s)) (wal s) = Inr w \<and> new_file s (keep_list s h old) oldf d es"
proof -
  note d = maps_invD [OF m]
  let ?new = "next_free_id s" and ?keep = "keep_list s h old"
  obtain newf d1 where op: "open_truncate (tmp_name ?new) (dir s) = (newf, d1)" by force
  note c = open_tmp [OF d(8) op]
  define s1 where "s1 = s\<lparr>next_free_id := ?new + 1, dir := d1\<rparr>"
  have "\<exists>v. read_value (file_data (dir s1) oldf) q n = Inr v" if "(l, k, q, n) \<in> set ?keep" for l k q n
  proof -
    have "map_of (put_locations s) l = Some (k, old, q, n)" using that in_keep_list [OF d(2)] by simp
    from d(4) [OF this] show ?thesis using old by (auto simp: located_def holds_put_def s1_def c(4))
  qed
  then have "\<exists>es d. copy_values oldf newf 0 ?keep s1 = (Inr es, s1\<lparr>dir := d\<rparr>) \<and> copied oldf newf ?keep (dir s1) d es"
    using inner_inv_segment [OF d(1) old] keep_sum [OF n] c by (intro copy_values_spec) (simp_all add: s1_def)
  then obtain es d2 where run: "copy_values oldf newf 0 ?keep s1 = (Inr es, s1\<lparr>dir := d2\<rparr>)" and cp: "copied oldf newf ?keep d1 d2 es"
    by (auto simp: s1_def)
  obtain d3 where ren: "rename_file (tmp_name ?new) (seg_name ?new) (sync_data newf d2) = Inr d3" and new: "new_file s ?keep oldf d3 es"
    using new_file_renamed [OF cp d(8) op] by blast
  have look: "lookup_file (seg_name ?new) d3 = Some newf" using new_fileD(1) [OF new] c(1) by simp
  obtain w where w: "append_at (SegmentSwap old ?new) (next_lsn (wal s)) (wal s) = Inr w" by (auto simp: append_at_eq record_size_def)
  have "compact_prepare h old s = (Inr (?new, newf, es, dropped_puts s old ?keep, next_lsn (wal s), SegmentSwap old ?new),
      s\<lparr>next_free_id := ?new + 1, dir := d3, wal := w, pending := True\<rparr>)"
    using old run ren w look
    by (simp add: compact_prepare_def op Let_def op_bind_def op_basic open_existing_def dropped_puts_def s1_def inner_append_def wal_append_def)
  then show ?thesis using w new c(1) by blast
qed

end
