(* ===== verification/CompactionReads.thy ===== *)
theory CompactionReads
  imports CompactionInv
begin

text \<open>
  Staging and committing compactions keep the invariant of \<open>CompactionInv\<close>, and therefore every value that readers see.
\<close>

section \<open>Staging\<close>

lemma remap_loop_frame:
  assumes "remap_loop new es s = Some (r, s')"
  shows "(\<exists>w. s' = s\<lparr>wal := w, pending := pending s \<or> es \<noteq> []\<rparr>) \<and> next_lsn (wal s) \<le> next_lsn (wal s')"
proof -
  have "\<exists>rs. r = Inr rs \<and> (\<exists>w. s' = s\<lparr>wal := w, pending := pending s \<or> es \<noteq> []\<rparr>) \<and> next_lsn (wal s) \<le> next_lsn (wal s')"
  proof (rule remap_loop_rounds [OF assms, where P = "\<lambda>es s rs s'. (\<exists>w. s' = s\<lparr>wal := w, pending := pending s \<or> es \<noteq> []\<rparr>) \<and> next_lsn (wal s) \<le> next_lsn (wal s')"],
      goal_cases)
    case (1 s)
    show ?case by (intro conjI exI [of _ "wal s"]) simp_all
  next
    case (2 es s w rs s')
    then show ?case using append_at_mono [OF 2(2)] by auto
  qed
  then show ?thesis by blast
qed

lemma remap_loop_Inr:
  assumes "remap_loop new es s = Some (r, s')"
  shows "\<exists>rs. r = Inr rs"
  using remap_loop_rounds [OF assms, where P = "\<lambda>_ _ _ _. True"] by blast

text \<open>The records carry the entries in order, each within a block, at consecutive positions.\<close>

definition remap_records :: "u64 \<Rightarrow> RemapEntry list \<Rightarrow> entry list \<Rightarrow> Lsn \<Rightarrow> Lsn \<Rightarrow> bool" where
  "remap_records new es rs from to \<longleftrightarrow> (\<exists>chunks. map snd rs = map (SegmentRemap new) chunks \<and> concat chunks = es) \<and>
    (\<forall>rec \<in> snd ` set rs. record_size rec \<le> 4072) \<and> unat to \<le> unat from + length rs \<and> (unat to + 1 < 2 ^ 64 \<longrightarrow> map (unat \<circ> fst) rs = [unat from..<unat to])"

lemma append_at_le:
  assumes "append_at rec (next_lsn w) w = Inr w'"
  shows "unat (next_lsn w') \<le> unat (next_lsn w) + 1"
proof -
  have "unat (next_lsn w + 1) \<le> unat (next_lsn w) + 1" using unat_word_ariths(1) [of "next_lsn w" 1] by simp
  then show ?thesis using assms by (auto simp: append_at_eq max_def split: if_splits)
qed

lemma remap_records_Cons:
  assumes a: "append_at (SegmentRemap new (take j es)) (next_lsn w) w = Inr w'" and r: "remap_records new (drop j es) rs (next_lsn w') to"
    and le: "next_lsn w' \<le> to"
  shows "remap_records new es ((next_lsn w, SegmentRemap new (take j es)) # rs) (next_lsn w) to"
proof -
  note r = r [unfolded remap_records_def]
  have le: "unat (next_lsn w) \<le> unat (next_lsn w')" "unat (next_lsn w') \<le> unat to" using le append_at_mono [OF a] by (simp_all add: word_le_nat_alt)
  from r obtain chunks where "map snd rs = map (SegmentRemap new) chunks" "concat chunks = drop j es" by blast
  then have "\<exists>chunks. SegmentRemap new (take j es) # map snd rs = map (SegmentRemap new) chunks \<and> concat chunks = es"
    by (intro exI [of _ "take j es # chunks"]) simp
  moreover have "record_size (SegmentRemap new (take j es)) \<le> 4072" using a by (simp add: append_at_eq split: if_splits)
  moreover have "map (unat \<circ> fst) ((next_lsn w, SegmentRemap new (take j es)) # rs) = [unat (next_lsn w)..<unat to]" if n: "unat to + 1 < 2 ^ 64"
  proof -
    have "unat (next_lsn w') = unat (next_lsn w) + 1" using append_at_next [OF a] le n by simp
    then show ?thesis using r n le by (simp add: upt_conv_Cons)
  qed
  ultimately show ?thesis using r append_at_le [OF a] by (simp add: remap_records_def)
qed

lemma remap_loop_log:
  assumes "remap_loop new es s = Some (Inr rs, s')"
  shows "remap_records new es rs (next_lsn (wal s)) (next_lsn (wal s'))"
proof -
  have "\<exists>rs'. (Inr rs :: StoreError + entry list) = Inr rs' \<and> remap_records new es rs' (next_lsn (wal s)) (next_lsn (wal s')) \<and> next_lsn (wal s) \<le> next_lsn (wal s')"
  proof (rule remap_loop_rounds [OF assms, where P = "\<lambda>es s rs s'. remap_records new es rs (next_lsn (wal s)) (next_lsn (wal s')) \<and> next_lsn (wal s) \<le> next_lsn (wal s')"],
      goal_cases)
    case (1 s)
    show ?case by (simp add: remap_records_def)
  next
    case (2 es s w rs s')
    then show ?case using remap_records_Cons [OF 2(2), of rs "next_lsn (wal s')"] append_at_mono [OF 2(2)] by auto
  qed
  then show ?thesis by simp
qed

lemma choose_segment_Some:
  assumes m: "maps_inv vals s" and c: "choose_segment s h = Some old"
  shows "old \<in> set (sealed s)" "\<exists>i. map_of (segments s) old = Some i"
proof -
  have old: "old \<in> set (sealed s) \<and> reclaimable s h old > 0" using c by (auto simp: choose_segment_def find_Some_iff)
  then show "old \<in> set (sealed s)" by simp
  have "filter (\<lambda>(lsn, k, seg, off, len). seg = old \<and> lsn \<notin> set (live_lsns s old) \<and> lsn \<le> h) (put_locations s) \<noteq> []"
  proof
    assume "filter (\<lambda>(lsn, k, seg, off, len). seg = old \<and> lsn \<notin> set (live_lsns s old) \<and> lsn \<le> h) (put_locations s) = []"
    then have "reclaimable s h old = 0" unfolding reclaimable_def by simp
    then show False using old by simp
  qed
  then obtain l k off len where "(l, k, old, off, len) \<in> set (put_locations s)" by (auto simp: filter_empty_conv)
  then have "map_of (put_locations s) l = Some (k, old, off, len)" using maps_invD(2) [OF m] by simp
  from maps_invD(4) [OF m this] show "\<exists>i. map_of (segments s) old = Some i" by (auto simp: located_def)
qed

text \<open>Adding a file under the next free name is invisible to readers and to the writer.\<close>

definition file_added :: "Inner \<Rightarrow> Inner \<Rightarrow> bool" where
  "file_added s s' \<longleftrightarrow> (\<exists>d w p. s' = s\<lparr>next_free_id := next_free_id s + 1, dir := d, wal := w, pending := p\<rparr>) \<and>
    next_lsn (wal s) \<le> next_lsn (wal s') \<and>
    (\<forall>x. lookup_file x (dir s') = (if x = seg_name (next_free_id s) then Some (length (inodes (dir s))) else lookup_file x (dir s))) \<and>
    length (inodes (dir s')) = Suc (length (inodes (dir s))) \<and>
    (\<forall>j. j < length (inodes (dir s)) \<longrightarrow> file_data (dir s') j = file_data (dir s) j)"

lemma file_added_safe:
  assumes i: "inner_inv s" and f: "file_added s s'"
  shows "safe_step s s'"
proof -
  have "active_id s < next_free_id s" using i by (simp add: inner_inv_def)
  then have "lookup_file (seg_name (active_id s)) (dir s') = lookup_file (seg_name (active_id s)) (dir s)"
    using f by (auto simp: file_added_def seg_name_inj)
  moreover have "active_id s' = active_id s" "active_offset s' = active_offset s" using f by (auto simp: file_added_def)
  ultimately show ?thesis using f by (auto simp: safe_step_def protected_region_def file_added_def)
qed

lemma file_added_inner:
  assumes i: "inner_inv s" and f: "file_added s s'" and n: "unat (next_free_id s) + 1 < 2 ^ 64"
  shows "inner_inv s'"
proof -
  have less: "next_free_id s < next_free_id s + 1" using n by (simp add: word_less_nat_alt unat_add_small)
  have look: "\<And>x. lookup_file x (dir s') = (if x = seg_name (next_free_id s) then Some (length (inodes (dir s))) else lookup_file x (dir s))"
    and len: "length (inodes (dir s')) = Suc (length (inodes (dir s)))"
    using f by (simp_all add: file_added_def)
  have fields: "segments s' = segments s" "index s' = index s" "active_id s' = active_id s" "next_free_id s' = next_free_id s + 1"
    using f by (auto simp: file_added_def)
  have range: "\<And>x j. lookup_file x (dir s) = Some j \<Longrightarrow> j < length (inodes (dir s))"
    and inj: "\<And>x y j. lookup_file x (dir s) = Some j \<Longrightarrow> lookup_file y (dir s) = Some j \<Longrightarrow> x = y"
    using i by (simp_all add: inner_inv_def disk_ok_def)
  have dok: "disk_ok (dir s')"
    unfolding disk_ok_def look len using range inj by (fastforce split: if_splits dest: range)
  have free: "\<And>sid. next_free_id s \<le> sid \<Longrightarrow> lookup_file (seg_name sid) (dir s) = None"
    and segs: "\<And>sid j. map_of (segments s) sid = Some j \<Longrightarrow> lookup_file (seg_name sid) (dir s) = Some j"
    and act: "active_id s < next_free_id s" using i by (simp_all add: inner_inv_def)
  have "lookup_file (seg_name sid) (dir s') = Some j" if "map_of (segments s) sid = Some j" for sid j
    using segs [OF that] free [of sid] by (auto simp: look seg_name_inj)
  moreover have "lookup_file (seg_name sid) (dir s') = None" if "next_free_id s + 1 \<le> sid" for sid
    using free [of sid] less that by (auto simp: look seg_name_inj)
  moreover have "index_ok s' (segments s) (index s)"
    using safe_step_index [OF file_added_safe [OF i f]] i by (simp add: inner_inv_def)
  ultimately show ?thesis using dok act less by (auto simp: inner_inv_def fields)
qed

lemma file_added_comp:
  assumes c: "comp_inv vals F s" and f: "file_added s s'" and n: "unat (next_free_id s) + 1 < 2 ^ 64"
  shows "comp_inv vals F s'"
proof (rule comp_inv_evolves [OF c _ refl])
  note d = maps_invD [OF comp_inv_maps [OF c]]
  have less: "next_free_id s < next_free_id s + 1" using n by (simp add: word_less_nat_alt unat_add_small)
  have fields: "segments s' = segments s" "index s' = index s" "put_locations s' = put_locations s" "sealed s' = sealed s"
    "active_id s' = active_id s" "next_free_id s' = next_free_id s + 1" and l: "next_lsn (wal s) \<le> next_lsn (wal s')"
    and look: "lookup_file x (dir s') = (if x = seg_name (next_free_id s) then Some (length (inodes (dir s))) else lookup_file x (dir s))" for x
    using f by (auto simp: file_added_def)
  have safe: "safe_step s s'" using file_added_safe [OF d(1) f] .
  have free: "lookup_file (seg_name (next_free_id s)) (dir s) = None" using d(1) by (simp add: inner_inv_def)
  show "evolves s s'" unfolding evolves_def fields using safe l less free by (auto simp: look)
  show "maps_inv vals s'"
    by (rule maps_inv_same [OF comp_inv_maps [OF c] file_added_inner [OF d(1) f n] safe l])
      (use d(6,8) order.strict_trans [OF d(7) less] tmp_not_seg in \<open>simp_all add: fields look\<close>)
qed

lemma live_lsns_index: "map_of (index s) k = Some (old, off, len, l) \<Longrightarrow> l \<in> set (live_lsns s old)"
  by (force simp: live_lsns_def dest: map_of_SomeD)

lemma read_value_bound: "read_value data off len = Inr v \<Longrightarrow> len \<noteq> 0 \<Longrightarrow> unat off + unat len \<le> length data"
  by (auto simp: read_value_def unat_eq_0 split: if_splits)

text \<open>A put that is dropped is not in the index.\<close>

lemma dropped_dead:
  assumes m: "maps_inv vals s" and x: "x \<in> set (map fst (dropped_puts s old (keep_list s h old)))"
  shows "x < next_lsn (wal s)" "map_of (index s) key \<noteq> Some (seg, off, len, x)"
proof -
  note d = maps_invD [OF m]
  have "x \<in> fst ` set (dropped_puts s old (keep_list s h old))" using x by simp
  then obtain k q n where pl: "map_of (put_locations s) x = Some (k, old, q, n)" "x \<notin> fst ` set (keep_list s h old)"
    unfolding in_dropped_puts [OF d(2)] by blast
  show "x < next_lsn (wal s)" using d(3) [OF pl(1)] .
  have live: "x \<notin> set (live_lsns s old)" using pl in_keep_list [OF d(2), of x k q n h old] by force
  show "map_of (index s) key \<noteq> Some (seg, off, len, x)"
  proof
    assume ix: "map_of (index s) key = Some (seg, off, len, x)"
    then have "seg = old" using d(5) [OF ix] pl(1) by simp
    then show False using ix live live_lsns_index by blast
  qed
qed

lemma staged_stage_inv:
  assumes m: "maps_inv vals s" and f: "file_added s s'" and old: "old \<in> set (sealed s)" "map_of (segments s) old = Some oldf"
    and n: "unat (next_free_id s) + 1 < 2 ^ 64"
    and cs: "cs_new_id cs = next_free_id s" "cs_old_id cs = old" "cs_file cs = length (inodes (dir s))"
      "cs_dropped cs = map fst (dropped_puts s old (keep_list s h old))" "re_lsn ` set (cs_entries cs) = fst ` set (keep_list s h old)"
    and es: "\<And>e. e \<in> set (cs_entries cs) \<Longrightarrow> \<exists>q. (re_lsn e, re_key e, q, re_len e) \<in> set (keep_list s h old) \<and>
       read_value (file_data (dir s') (length (inodes (dir s)))) (re_offset e) (re_len e) = read_value (file_data (dir s) oldf) q (re_len e)"
  shows "stage_inv vals s' cs"
proof (rule stage_invI)
  note d = maps_invD [OF m]
  have less: "next_free_id s < next_free_id s + 1" using n by (simp add: word_less_nat_alt unat_add_small)
  have fields: "index s' = index s" "put_locations s' = put_locations s" "sealed s' = sealed s"
    "active_id s' = active_id s" "next_free_id s' = next_free_id s + 1" and l: "next_lsn (wal s) \<le> next_lsn (wal s')"
    and look: "\<And>x. lookup_file x (dir s') = (if x = seg_name (next_free_id s) then Some (length (inodes (dir s))) else lookup_file x (dir s))"
    and len: "length (inodes (dir s')) = Suc (length (inodes (dir s)))"
    using f by (auto simp: file_added_def)
  have act: "active_id s < next_free_id s" using d(1) by (simp add: inner_inv_def)
  show "lookup_file (seg_name (cs_new_id cs)) (dir s') = Some (cs_file cs)" by (simp add: look cs)
  show "cs_new_id cs \<noteq> active_id s'" "cs_new_id cs < next_free_id s'" "cs_new_id cs \<notin> set (sealed s')"
    "cs_old_id cs \<noteq> active_id s'" "cs_old_id cs < next_free_id s'"
    using act less d(7) d(6,7) [OF old(1)] by (auto simp: cs fields)
  have nact: "lookup_file (seg_name (active_id s)) (dir s') \<noteq> Some (length (inodes (dir s)))"
    using act d(1) by (auto simp: look seg_name_inj inner_inv_def disk_ok_def)
  show "re_lsn e < next_lsn (wal s') \<and> holds_put vals s' (cs_file cs) (re_offset e) (re_len e) (re_lsn e) (re_key e)"
    if e: "e \<in> set (cs_entries cs)" for e
  proof -
    obtain q where q: "(re_lsn e, re_key e, q, re_len e) \<in> set (keep_list s h old)"
      and rd: "read_value (file_data (dir s') (cs_file cs)) (re_offset e) (re_len e) = read_value (file_data (dir s) oldf) q (re_len e)"
      using es [OF e] cs(3) by auto
    have pl: "map_of (put_locations s) (re_lsn e) = Some (re_key e, old, q, re_len e)" using q in_keep_list [OF d(2)] by simp
    have "located vals s (re_key e, old, q, re_len e) (re_lsn e)" using d(4) [OF pl] .
    then have h: "read_value (file_data (dir s) oldf) q (re_len e) = Inr (snd (vals (re_lsn e)))" "fst (vals (re_lsn e)) = re_key e"
      using old(2) by (auto simp: located_def holds_put_def)
    have "protected_region s' (cs_file cs) (re_offset e) (re_len e)"
      using nact read_value_bound [OF rd [unfolded h(1)]] len by (auto simp: protected_region_def cs(3) fields)
    then show ?thesis using d(3) [OF pl] l rd h by (auto simp: holds_put_def)
  qed
  show "x < next_lsn (wal s')" if "x \<in> set (cs_dropped cs)" for x using dropped_dead(1) [OF m that [unfolded cs(4)]] l by simp
  show "map_of (index s') key \<noteq> Some (seg, off, len, x)" if "x \<in> set (cs_dropped cs)" for x key seg off len
    using dropped_dead(2) [OF m that [unfolded cs(4)]] by (simp add: fields)
next
  note d = maps_invD [OF m]
  fix l k off len assume "map_of (put_locations s') l = Some (k, cs_old_id cs, off, len)"
  then have "map_of (put_locations s) l = Some (k, old, off, len)" using f cs(2) by (auto simp: file_added_def)
  then show "l \<in> re_lsn ` set (cs_entries cs) \<or> l \<in> set (cs_dropped cs)"
    using in_dropped_puts [OF d(2), of l old "keep_list s h old"] cs(4,5) by auto
qed

text \<open>What a successful \<open>compact_stage\<close> has done.\<close>

lemma compact_stage_parts:
  assumes m: "maps_inv vals s" and n: "length (put_locations s) \<le> 2 ^ 32" and run: "inner_compact_stage h s = Some (r, s')"
    and c: "choose_segment s h = Some old"
  obtains cs oldf d w rs where "r = Inr (Some cs)" "old \<in> set (sealed s)" "map_of (segments s) old = Some oldf" "new_file s (keep_list s h old) oldf d (cs_entries cs)"
    "append_at (SegmentSwap old (next_free_id s)) (next_lsn (wal s)) (wal s) = Inr w"
    "remap_loop (next_free_id s) (cs_entries cs) (s\<lparr>next_free_id := next_free_id s + 1, dir := d, wal := w, pending := True\<rparr>) = Some (Inr rs, s')"
    "cs_old_id cs = old" "cs_new_id cs = next_free_id s" "cs_file cs = length (inodes (dir s))"
    "cs_dropped cs = map fst (dropped_puts s old (keep_list s h old))" "cs_records cs = (next_lsn (wal s), SegmentSwap old (next_free_id s)) # rs"
proof -
  obtain oldf where old: "old \<in> set (sealed s)" "map_of (segments s) old = Some oldf" using choose_segment_Some [OF m c] by blast
  obtain es d w where p: "compact_prepare h old s = (Inr (next_free_id s, length (inodes (dir s)), es, dropped_puts s old (keep_list s h old),
        next_lsn (wal s), SegmentSwap old (next_free_id s)), s\<lparr>next_free_id := next_free_id s + 1, dir := d, wal := w, pending := True\<rparr>)"
    "append_at (SegmentSwap old (next_free_id s)) (next_lsn (wal s)) (wal s) = Inr w" "new_file s (keep_list s h old) oldf d es"
    using compact_prepare_spec [OF m old(2) n, of h] by blast
  obtain r2 where loop: "remap_loop (next_free_id s) es (s\<lparr>next_free_id := next_free_id s + 1, dir := d, wal := w, pending := True\<rparr>) = Some (r2, s')"
    using run c p(1) by (auto simp: inner_compact_stage_def split: bind_splits prod.splits sum.splits)
  obtain rs where rs: "r2 = Inr rs" using remap_loop_Inr [OF loop] by blast
  define cs where "cs = \<lparr>cs_records = (next_lsn (wal s), SegmentSwap old (next_free_id s)) # rs,
      cs_freed = sum_list (map (\<lambda>(l, len). ucast len) (dropped_puts s old (keep_list s h old))), cs_old_id = old, cs_new_id = next_free_id s,
      cs_entries = es, cs_dropped = map fst (dropped_puts s old (keep_list s h old)), cs_file = length (inodes (dir s))\<rparr>"
  have "r = Inr (Some cs)" using run c p(1) loop rs by (simp add: inner_compact_stage_def cs_def)
  moreover have "cs_entries cs = es" by (simp add: cs_def)
  ultimately show thesis using that [of cs oldf d w rs] old p(2,3) loop rs by (simp add: cs_def)
qed

lemma compact_stage_comp:
  assumes c: "comp_inv vals F s" and run: "inner_compact_stage h s = Some (r, s')"
    and n: "unat (next_free_id s) + 1 < 2 ^ 64" "length (put_locations s) \<le> 2 ^ 32"
  shows "r = Inr None \<and> s' = s \<or> (\<exists>cs. r = Inr (Some cs) \<and> file_added s s' \<and> comp_inv vals (insert cs F) s' \<and> (\<forall>l \<in> set (cs_dropped cs). l \<le> h))"
proof (cases "choose_segment s h")
  case None
  then show ?thesis using run by (simp add: inner_compact_stage_def)
next
  case (Some old)
  have m: "maps_inv vals s" by (rule comp_inv_maps [OF c])
  note d = maps_invD [OF m]
  let ?new = "next_free_id s" and ?keep = "keep_list s h old"
  obtain cs oldf d1 w rs where r: "r = Inr (Some cs)" and old: "old \<in> set (sealed s)" "map_of (segments s) old = Some oldf" and nf: "new_file s ?keep oldf d1 (cs_entries cs)"
    and w: "append_at (SegmentSwap old ?new) (next_lsn (wal s)) (wal s) = Inr w"
    and loop: "remap_loop ?new (cs_entries cs) (s\<lparr>next_free_id := ?new + 1, dir := d1, wal := w, pending := True\<rparr>) = Some (Inr rs, s')"
    and cs: "cs_old_id cs = old" "cs_new_id cs = ?new" "cs_file cs = length (inodes (dir s))" "cs_dropped cs = map fst (dropped_puts s old ?keep)"
    by (rule compact_stage_parts [OF m n(2) run Some])
  have f: "file_added s s'"
    using remap_loop_frame [OF loop] append_at_mono [OF w] new_fileD(1-3) [OF nf] by (auto simp: file_added_def)
  have s'd: "dir s' = d1" using remap_loop_frame [OF loop] by auto
  have "comp_inv vals F s'" by (rule file_added_comp [OF c f n(1)])
  moreover have "stage_inv vals s' cs"
    by (rule staged_stage_inv [OF m f old n(1), where h = h]) (use new_fileD(6,8) [OF nf] in \<open>simp_all add: cs s'd\<close>)
  moreover have "stages_apart (insert cs F)"
  proof -
    have F: "cs_new_id a < ?new" "cs_old_id a < ?new" "cs_new_id a \<noteq> old" if "a \<in> F" for a
      using c that stage_invD(3,4,6) [of vals s a] old(1) by (auto simp: comp_inv_def)
    have "stages_apart F" using c by (simp add: comp_inv_def)
    then show ?thesis using F d(7) [OF old(1)] by (fastforce simp: stages_apart_def cs inj_on_def)
  qed
  moreover have "l \<le> h" if "l \<in> set (cs_dropped cs)" for l
  proof -
    have "l \<in> fst ` set (dropped_puts s old ?keep)" using that by (simp add: cs)
    then obtain k q n where "map_of (put_locations s) l = Some (k, old, q, n)" "l \<notin> fst ` set ?keep" unfolding in_dropped_puts [OF d(2)] by blast
    then show ?thesis using in_keep_list [OF d(2), of l k q n h old] by force
  qed
  ultimately show ?thesis using r f by (auto simp: comp_inv_def)
qed

section \<open>Repointing the maps\<close>

definition index_lsn :: "Inner \<Rightarrow> str \<Rightarrow> Lsn option" where
  "index_lsn s k = map_option (\<lambda>(seg, off, len, l). l) (map_of (index s) k)"

definition keys_agree :: "put_values \<Rightarrow> Inner \<Rightarrow> bool" where
  "keys_agree vals s \<longleftrightarrow> distinct (map fst (put_locations s)) \<and>
    (\<forall>l k seg off len. map_of (put_locations s) l = Some (k, seg, off, len) \<longrightarrow> k = fst (vals l)) \<and>
    (\<forall>k seg off len l. map_of (index s) k = Some (seg, off, len, l) \<longrightarrow> map_of (put_locations s) l = Some (k, seg, off, len))"

lemma remap_entry_eq:
  "remap_entry new e s = s\<lparr>index := if index_lsn s (re_key e) = Some (re_lsn e) then AList.update (re_key e) (new, re_offset e, re_len e, re_lsn e) (index s)
       else index s, put_locations := AList.update (re_lsn e) (re_key e, new, re_offset e, re_len e) (put_locations s)\<rparr>"
  by (auto simp: remap_entry_def index_lsn_def Let_def split: option.split)

lemma remap_fold_index: "index s = index s' \<Longrightarrow> index (fold (remap_entry new) es s) = index (fold (remap_entry new) es s')"
proof (induction es arbitrary: s s')
  case (Cons e es)
  have "index (remap_entry new e s) = index (remap_entry new e s')" using Cons.prems by (simp add: remap_entry_eq index_lsn_def)
  from Cons.IH [OF this] show ?case by simp
qed simp

lemma remap_fold_other: "\<exists>ix pl. fold (remap_entry new) es s = s\<lparr>index := ix, put_locations := pl\<rparr>"
proof (induction es arbitrary: s)
  case Nil
  show ?case by (intro exI [of _ "index s"] exI [of _ "put_locations s"]) simp
next
  case (Cons e es)
  from Cons.IH [of "remap_entry new e s"] show ?case by (auto simp: remap_entry_eq)
qed

lemma remap_entry_ok:
  assumes k: "keys_agree vals s" and e: "fst (vals (re_lsn e)) = re_key e"
  shows "keys_agree vals (remap_entry new e s)" "index_lsn (remap_entry new e s) = index_lsn s"
    "map_of (put_locations (remap_entry new e s)) = (map_of (put_locations s))(re_lsn e \<mapsto> (re_key e, new, re_offset e, re_len e))"
    "\<exists>ix pl. remap_entry new e s = s\<lparr>index := ix, put_locations := pl\<rparr>"
proof -
  let ?s = "remap_entry new e s"
  define hit where "hit = (index_lsn s (re_key e) = Some (re_lsn e))"
  note s = remap_entry_eq [of new e s, folded hit_def]
  show "\<exists>ix pl. ?s = s\<lparr>index := ix, put_locations := pl\<rparr>" using s by blast
  show pl: "map_of (put_locations ?s) = (map_of (put_locations s))(re_lsn e \<mapsto> (re_key e, new, re_offset e, re_len e))"
    by (simp add: s update_conv')
  show "index_lsn ?s = index_lsn s" by (rule ext) (auto simp: s index_lsn_def hit_def update_conv')
  have ix: "map_of (index ?s) = (if hit then (map_of (index s))(re_key e \<mapsto> (new, re_offset e, re_len e, re_lsn e)) else map_of (index s))"
    by (simp add: s update_conv')
  have key: "map_of (put_locations s) l = Some (k, seg, off, len) \<Longrightarrow> k = fst (vals l)"
    and idx: "map_of (index s) k = Some (seg, off, len, l) \<Longrightarrow> map_of (put_locations s) l = Some (k, seg, off, len)" for l k seg off len
    using k by (simp_all add: keys_agree_def del: map_of_eq_Some_iff)
  have "map_of (put_locations ?s) l = Some (k, seg, off, len)" if i: "map_of (index ?s) k = Some (seg, off, len, l)" for k seg off len l
  proof (cases "hit \<and> k = re_key e")
    case True
    then show ?thesis using i unfolding ix pl by auto
  next
    case False
    then have old: "map_of (index s) k = Some (seg, off, len, l)" using i by (auto simp: ix split: if_splits)
    have "l \<noteq> re_lsn e"
    proof
      assume l: "l = re_lsn e"
      then have "k = re_key e" using key [OF idx [OF old]] e by simp
      then have hit using old l by (simp add: hit_def index_lsn_def)
      then show False using False \<open>k = re_key e\<close> by simp
    qed
    then show ?thesis using idx [OF old] by (simp add: pl)
  qed
  moreover have "distinct (map fst (put_locations ?s))" using k by (simp add: s keys_agree_def distinct_update)
  ultimately show "keys_agree vals ?s" using key e by (auto simp: keys_agree_def pl simp del: map_of_eq_Some_iff split: if_splits)
qed

lemma remap_fold_ok:
  assumes "keys_agree vals s" "\<And>e. e \<in> set es \<Longrightarrow> fst (vals (re_lsn e)) = re_key e"
  shows "keys_agree vals (fold (remap_entry new) es s) \<and> index_lsn (fold (remap_entry new) es s) = index_lsn s \<and>
    (\<forall>l p. map_of (put_locations (fold (remap_entry new) es s)) l = Some p \<longrightarrow>
       (\<exists>e \<in> set es. l = re_lsn e \<and> p = (re_key e, new, re_offset e, re_len e)) \<or> l \<notin> re_lsn ` set es \<and> map_of (put_locations s) l = Some p) \<and>
    dom (map_of (put_locations s)) \<subseteq> dom (map_of (put_locations (fold (remap_entry new) es s))) \<and>
    (\<exists>ix pl. fold (remap_entry new) es s = s\<lparr>index := ix, put_locations := pl\<rparr>)"
  using assms
proof (induction es arbitrary: s)
  case Nil
  have "\<exists>ix pl. s = s\<lparr>index := ix, put_locations := pl\<rparr>" by (intro exI [of _ "index s"] exI [of _ "put_locations s"]) simp
  then show ?case using Nil by (simp del: map_of_eq_Some_iff)
next
  case (Cons e es)
  let ?s = "remap_entry new e s"
  have fe: "fst (vals (re_lsn e)) = re_key e" using Cons.prems(2) by simp
  note r = remap_entry_ok [OF Cons.prems(1) fe, of new]
  from r(4) obtain ix pl where s: "?s = s\<lparr>index := ix, put_locations := pl\<rparr>" by blast
  have ih: "keys_agree vals (fold (remap_entry new) es ?s) \<and> index_lsn (fold (remap_entry new) es ?s) = index_lsn ?s \<and>
    (\<forall>l p. map_of (put_locations (fold (remap_entry new) es ?s)) l = Some p \<longrightarrow>
       (\<exists>e \<in> set es. l = re_lsn e \<and> p = (re_key e, new, re_offset e, re_len e)) \<or> l \<notin> re_lsn ` set es \<and> map_of (put_locations ?s) l = Some p) \<and>
    dom (map_of (put_locations ?s)) \<subseteq> dom (map_of (put_locations (fold (remap_entry new) es ?s))) \<and>
    (\<exists>ix pl. fold (remap_entry new) es ?s = ?s\<lparr>index := ix, put_locations := pl\<rparr>)"
    using Cons.IH [OF r(1)] Cons.prems(2) by simp
  then have k: "keys_agree vals (fold (remap_entry new) es ?s)" and ln: "index_lsn (fold (remap_entry new) es ?s) = index_lsn ?s"
    and at: "\<And>l p. map_of (put_locations (fold (remap_entry new) es ?s)) l = Some p \<Longrightarrow>
       (\<exists>e \<in> set es. l = re_lsn e \<and> p = (re_key e, new, re_offset e, re_len e)) \<or> l \<notin> re_lsn ` set es \<and> map_of (put_locations ?s) l = Some p"
    and dm: "dom (map_of (put_locations ?s)) \<subseteq> dom (map_of (put_locations (fold (remap_entry new) es ?s)))"
    and fr: "\<exists>ix pl. fold (remap_entry new) es ?s = ?s\<lparr>index := ix, put_locations := pl\<rparr>" by blast+
  have "(\<exists>x \<in> set (e # es). l = re_lsn x \<and> p = (re_key x, new, re_offset x, re_len x)) \<or>
      l \<notin> re_lsn ` set (e # es) \<and> map_of (put_locations s) l = Some p"
    if "map_of (put_locations (fold (remap_entry new) es ?s)) l = Some p" for l p
    using at [OF that] r(3) by (auto split: if_splits)
  moreover have "dom (map_of (put_locations s)) \<subseteq> dom (map_of (put_locations (fold (remap_entry new) es ?s)))" using dm r(3) by auto
  moreover have "\<exists>ix pl. fold (remap_entry new) es ?s = s\<lparr>index := ix, put_locations := pl\<rparr>" using fr s by auto
  ultimately show ?case using k ln r(2) by simp
qed

lemma fold_delete: "map_of (fold AList.delete ds pl) l = (if l \<in> set ds then None else map_of pl l)"
  by (induction ds arbitrary: pl) (auto simp: delete_conv')

lemma distinct_fold_delete: "distinct (map fst pl) \<Longrightarrow> distinct (map fst (fold AList.delete ds pl))"
  by (induction ds arbitrary: pl) (simp_all add: distinct_delete)

lemma keys_agree_maps: "maps_inv vals s \<Longrightarrow> keys_agree vals s"
  unfolding keys_agree_def
  using maps_invD(2) [of vals s] maps_invD(4) [of vals s] maps_invD(5) [of vals s] by (fastforce simp: located_def holds_put_def)

text \<open>The state after \<open>compact_commit\<close>.\<close>

lemma compact_commit_fields:
  assumes m: "maps_inv vals s" and c: "stage_inv vals s cs"
  defines "s' \<equiv> inner_compact_commit cs s"
  shows "index_lsn s' = index_lsn s" "distinct (map fst (put_locations s'))"
    "map_of (index s') k = Some (seg, off, len, l) \<Longrightarrow> map_of (put_locations s') l = Some (k, seg, off, len)"
    "map_of (put_locations s') l = Some p \<Longrightarrow> l \<notin> set (cs_dropped cs) \<and>
       ((\<exists>e \<in> set (cs_entries cs). l = re_lsn e \<and> p = (re_key e, cs_new_id cs, re_offset e, re_len e)) \<or>
        l \<notin> re_lsn ` set (cs_entries cs) \<and> map_of (put_locations s) l = Some p)"
    "map_of (put_locations s) l = Some p \<Longrightarrow> l \<notin> set (cs_dropped cs) \<Longrightarrow> \<exists>p'. map_of (put_locations s') l = Some p'"
    "\<exists>ix pl. s' = s\<lparr>index := ix, put_locations := pl, segments := AList.update (cs_new_id cs) (cs_file cs) (AList.delete (cs_old_id cs) (segments s)),
       sealed := filter (\<lambda>i. i \<noteq> cs_old_id cs) (sealed s) @ [cs_new_id cs], dir := remove_file (seg_name (cs_old_id cs)) (dir s)\<rparr>"
proof -
  let ?t = "fold (remap_entry (cs_new_id cs)) (cs_entries cs) s"
  have "fst (vals (re_lsn e)) = re_key e" if "e \<in> set (cs_entries cs)" for e
    using stage_invD(8) [OF c that] by (simp add: holds_put_def)
  note f = remap_fold_ok [OF keys_agree_maps [OF m] this, where es = "cs_entries cs" and new = "cs_new_id cs"]
  have k: "keys_agree vals ?t" and ln: "index_lsn ?t = index_lsn s"
    and at: "\<And>l p. map_of (put_locations ?t) l = Some p \<Longrightarrow>
       (\<exists>e \<in> set (cs_entries cs). l = re_lsn e \<and> p = (re_key e, cs_new_id cs, re_offset e, re_len e)) \<or>
       l \<notin> re_lsn ` set (cs_entries cs) \<and> map_of (put_locations s) l = Some p"
    and dm: "dom (map_of (put_locations s)) \<subseteq> dom (map_of (put_locations ?t))"
    and fr: "\<exists>ix pl. ?t = s\<lparr>index := ix, put_locations := pl\<rparr>"
    using f by blast+
  have pl: "put_locations s' = fold AList.delete (cs_dropped cs) (put_locations ?t)" and ix: "index s' = index ?t"
    by (simp_all add: s'_def inner_compact_commit_def Let_def)
  show ln': "index_lsn s' = index_lsn s" unfolding ln [symmetric] by (rule ext) (simp add: index_lsn_def ix)
  show "distinct (map fst (put_locations s'))" using k by (simp add: pl distinct_fold_delete keys_agree_def)
  show "map_of (put_locations s') l = Some (k, seg, off, len)" if "map_of (index s') k = Some (seg, off, len, l)" for k seg off len l
  proof -
    have "index_lsn s k = Some l" using that by (simp flip: ln') (simp add: index_lsn_def)
    then have "l \<notin> set (cs_dropped cs)" using stage_invD(10) [OF c] by (auto simp: index_lsn_def)
    then show ?thesis using k that by (simp add: pl ix fold_delete keys_agree_def del: map_of_eq_Some_iff)
  qed
  show "l \<notin> set (cs_dropped cs) \<and>
       ((\<exists>e \<in> set (cs_entries cs). l = re_lsn e \<and> p = (re_key e, cs_new_id cs, re_offset e, re_len e)) \<or>
        l \<notin> re_lsn ` set (cs_entries cs) \<and> map_of (put_locations s) l = Some p)" if "map_of (put_locations s') l = Some p"
    using that at [of l p] by (simp add: pl fold_delete split: if_splits)
  show "\<exists>p'. map_of (put_locations s') l = Some p'" if "map_of (put_locations s) l = Some p" "l \<notin> set (cs_dropped cs)"
    using that dm by (auto simp: pl fold_delete)
  show "\<exists>ix pl. s' = s\<lparr>index := ix, put_locations := pl, segments := AList.update (cs_new_id cs) (cs_file cs) (AList.delete (cs_old_id cs) (segments s)),
       sealed := filter (\<lambda>i. i \<noteq> cs_old_id cs) (sealed s) @ [cs_new_id cs], dir := remove_file (seg_name (cs_old_id cs)) (dir s)\<rparr>"
  proof -
    obtain ix pl where t: "?t = s\<lparr>index := ix, put_locations := pl\<rparr>" using fr by blast
    show ?thesis
      by (intro exI [of _ ix] exI [of _ "fold AList.delete (cs_dropped cs) pl"]) (simp add: s'_def inner_compact_commit_def Let_def t)
  qed
qed

lemma lookup_remove: "lookup_file x (remove_file n d) = (if x = n then None else lookup_file x d)"
  by (simp add: lookup_file_def remove_file_def delete_conv')

lemma inodes_remove [simp]: "inodes (remove_file n d) = inodes d" "file_data (remove_file n d) i = file_data d i"
  by (simp_all add: remove_file_def file_data_def)

lemma compact_commit_maps:
  assumes m: "maps_inv vals s" and c: "stage_inv vals s cs" and ne: "cs_new_id cs \<noteq> cs_old_id cs"
  defines "s' \<equiv> inner_compact_commit cs s"
  shows "maps_inv vals s'" "safe_step s s'"
proof -
  note d = maps_invD [OF m] and b = stage_invD [OF c] and f = compact_commit_fields [OF m c, folded s'_def]
  let ?new = "cs_new_id cs" and ?old = "cs_old_id cs"
  have fields: "segments s' = AList.update ?new (cs_file cs) (AList.delete ?old (segments s))"
    "sealed s' = filter (\<lambda>i. i \<noteq> ?old) (sealed s) @ [?new]" "dir s' = remove_file (seg_name ?old) (dir s)"
    "active_id s' = active_id s" "active_offset s' = active_offset s" "next_free_id s' = next_free_id s" "wal s' = wal s"
    using f(6) by auto
  have segs: "map_of (segments s') x = (if x = ?new then Some (cs_file cs) else if x = ?old then None else map_of (segments s) x)" for x
    by (simp add: fields update_conv' delete_conv')
  show safe: "safe_step s s'"
    using b(5) by (auto simp: safe_step_def protected_region_def fields lookup_remove seg_name_inj)
  have at_new: "i = cs_file cs" if "map_of (segments s) ?new = Some i" for i using inner_inv_segment [OF d(1) that] b(1) by simp
  have loc: "l < next_lsn (wal s') \<and> located vals s' p l" if pl: "map_of (put_locations s') l = Some p" for l p
    using f(4) [OF pl]
  proof (elim conjE disjE bexE)
    fix e assume e: "e \<in> set (cs_entries cs)" "l = re_lsn e" "p = (re_key e, ?new, re_offset e, re_len e)"
    then show ?thesis using b(7) [OF e(1)] holds_put_safe [OF safe b(8) [OF e(1)]] by (simp add: located_def segs fields(7))
  next
    assume l: "l \<notin> set (cs_dropped cs)" "l \<notin> re_lsn ` set (cs_entries cs)" and pl: "map_of (put_locations s) l = Some p"
    obtain k seg off len where p: "p = (k, seg, off, len)" by (metis prod_cases4)
    have "seg \<noteq> ?old" using b(11) pl l by (auto simp: p)
    moreover obtain i where i: "map_of (segments s) seg = Some i" "holds_put vals s i off len l k"
      using d(4) [OF pl] by (auto simp: p located_def)
    ultimately have "map_of (segments s') seg = Some i" using at_new [of i] by (auto simp: segs)
    then show ?thesis using d(3) [OF pl] holds_put_safe [OF safe i(2)] by (auto simp: p located_def fields(7))
  qed
  have "index_ok s' (segments s') (index s')"
    unfolding index_ok_def using loc f(3) by (fastforce simp: located_def holds_put_def)
  moreover have "disk_ok (dir s')"
    using d(1) by (auto simp: inner_inv_def disk_ok_def fields lookup_remove split: if_splits)
  moreover have "lookup_file (seg_name sid) (dir s') = Some i" if "map_of (segments s') sid = Some i" for sid i
    using that b(1) ne inner_inv_segment [OF d(1), of sid i] by (auto simp: segs fields(3) lookup_remove seg_name_inj split: if_splits)
  moreover have "lookup_file (seg_name sid) (dir s') = None" if "next_free_id s \<le> sid" for sid
    using d(1) that by (simp add: inner_inv_def fields lookup_remove)
  ultimately have "inner_inv s'" using d(1) by (simp add: inner_inv_def fields)
  then show "maps_inv vals s'"
    by (rule maps_invI [OF _ f(2) loc f(3)]) (use d(6-8) b(2,3) in \<open>auto simp: fields lookup_remove\<close>)
qed

lemma compact_commit_comp:
  assumes c: "comp_inv vals F s" and cs: "cs \<in> F"
  defines "s' \<equiv> inner_compact_commit cs s"
  shows "comp_inv vals (F - {cs}) s'" "safe_step s s'"
proof -
  have m: "maps_inv vals s" by (rule comp_inv_maps [OF c])
  have st: "stage_inv vals s cs" and ap: "stages_apart F" using c cs by (simp_all add: comp_inv_def)
  have ne: "cs_new_id cs \<noteq> cs_old_id cs" using ap cs by (auto simp: stages_apart_def)
  note f = compact_commit_fields [OF m st, folded s'_def] and k = compact_commit_maps [OF m st ne, folded s'_def]
  show "safe_step s s'" by (rule k(2))
  have fields: "sealed s' = filter (\<lambda>i. i \<noteq> cs_old_id cs) (sealed s) @ [cs_new_id cs]" "dir s' = remove_file (seg_name (cs_old_id cs)) (dir s)"
    "active_id s' = active_id s" "next_free_id s' = next_free_id s" "wal s' = wal s" using f(6) by auto
  have "stage_inv vals s' x" if x: "x \<in> F" "x \<noteq> cs" for x
  proof (rule stage_invI)
    have "stage_inv vals s x" using c x by (simp add: comp_inv_def)
    note b = stage_invD [OF this]
    have a: "cs_new_id x \<noteq> cs_old_id cs" "cs_new_id cs \<noteq> cs_old_id x" "cs_new_id x \<noteq> cs_new_id cs"
      using ap cs x by (auto simp: stages_apart_def inj_on_def)
    show "lookup_file (seg_name (cs_new_id x)) (dir s') = Some (cs_file x)" using b(1) a(1) by (simp add: fields lookup_remove seg_name_inj)
    show "cs_new_id x \<noteq> active_id s'" "cs_new_id x < next_free_id s'" "cs_old_id x \<noteq> active_id s'" "cs_old_id x < next_free_id s'"
      "cs_new_id x \<notin> set (sealed s')" using b(2-6) a(3) by (simp_all add: fields)
    show "re_lsn e < next_lsn (wal s') \<and> holds_put vals s' (cs_file x) (re_offset e) (re_len e) (re_lsn e) (re_key e)"
      if "e \<in> set (cs_entries x)" for e using b(7) [OF that] holds_put_safe [OF k(2) b(8) [OF that]] by (simp add: fields)
    fix l assume l: "l \<in> set (cs_dropped x)"
    show "l < next_lsn (wal s')" using b(9) [OF l] by (simp add: fields)
    show "map_of (index s') key \<noteq> Some (seg, off, len, l)" for key seg off len
    proof
      assume "map_of (index s') key = Some (seg, off, len, l)"
      then have "index_lsn s key = Some l" by (simp flip: f(1)) (simp add: index_lsn_def)
      then show False using b(10) [OF l] by (auto simp: index_lsn_def)
    qed
  next
    fix l key off len assume "map_of (put_locations s') l = Some (key, cs_old_id x, off, len)"
    moreover have "cs_new_id cs \<noteq> cs_old_id x" using ap cs x by (auto simp: stages_apart_def)
    ultimately have "map_of (put_locations s) l = Some (key, cs_old_id x, off, len)"
      using f(4) [of l "(key, cs_old_id x, off, len)"] by auto
    then show "l \<in> re_lsn ` set (cs_entries x) \<or> l \<in> set (cs_dropped x)"
      using stage_invD(11) [of vals s x l key off len] c x by (simp add: comp_inv_def)
  qed
  moreover have "stages_apart (F - {cs})" using ap by (auto simp: stages_apart_def inj_on_def)
  ultimately show "comp_inv vals (F - {cs}) s'" using k(1) by (simp add: comp_inv_def)
qed

section \<open>Runs\<close>

text \<open>
  The runs of a store in which puts, commits, flushes and syncs, failing or not, interleave with compactions: the set holds the compactions that are staged
  and not yet committed. One that loses its quorum is never committed and leaves the set.
\<close>

inductive compacting :: "CompactStage set \<Rightarrow> Store \<Rightarrow> bool" where
  comp_open: "open_with_options empty_disk None m = (Inr st, d) \<Longrightarrow> compacting {} st"
| comp_put: "compacting F st \<Longrightarrow> counters_ok (inner st) (length v) \<Longrightarrow> unat (store_next_lsn st) + 5 < 2 ^ 64 \<Longrightarrow>
    stage_put key v st = (r, st') \<Longrightarrow> compacting F st'"
| comp_commit: "compacting F st \<Longrightarrow> commit io lsn st = (r', st') \<Longrightarrow> compacting F st'"
| comp_flush: "compacting F st \<Longrightarrow> flush io st = (r', st') \<Longrightarrow> compacting F st'"
| comp_sync: "compacting F st \<Longrightarrow> sync_wal io st = (r', st') \<Longrightarrow> compacting F st'"
| comp_stage: "compacting F st \<Longrightarrow> unat (next_free_id (inner st)) + 1 < 2 ^ 64 \<Longrightarrow> length (put_locations (inner st)) \<le> 2 ^ 32 \<Longrightarrow>
    compact_stage h st = Some (Inr (Some cs), st') \<Longrightarrow> compacting (insert cs F) st'"
| comp_finish: "compacting F st \<Longrightarrow> cs \<in> F \<Longrightarrow> compact_commit cs st = (freed, st') \<Longrightarrow> compacting (F - {cs}) st'"
| comp_abandon: "compacting F st \<Longrightarrow> G \<subseteq> F \<Longrightarrow> compacting G st"

text \<open>The runs of a store that was created empty, up to a compaction: accepted puts, commits, flushes and log syncs.\<close>

inductive plain_run :: "Store \<Rightarrow> bool" where
  plain_open: "open_with_options empty_disk None m = (Inr st, d) \<Longrightarrow> plain_run st"
| plain_put: "plain_run st \<Longrightarrow> room (inner st) v \<Longrightarrow> utf8_valid key \<Longrightarrow> unat (store_next_lsn st) + 5 < 2 ^ 64 \<Longrightarrow>
    stage_put key v st = (Inr sp, st') \<Longrightarrow> plain_run st'"
| plain_commit: "plain_run st \<Longrightarrow> commit IoOk lsn st = (r, st') \<Longrightarrow> plain_run st'"
| plain_flush: "plain_run st \<Longrightarrow> flush IoOk st = (r, st') \<Longrightarrow> plain_run st'"
| plain_sync_wal: "plain_run st \<Longrightarrow> sync_wal IoOk st = (r, st') \<Longrightarrow> plain_run st'"

lemma plain_compacting: "plain_run st \<Longrightarrow> compacting {} st"
  by (induction rule: plain_run.induct) (auto simp: room_def intro: compacting.intros)

definition compacting_inv :: "CompactStage set \<Rightarrow> Store \<Rightarrow> bool" where
  "compacting_inv F st \<longleftrightarrow> (\<exists>vals. comp_inv vals F (inner st)) \<and> index_ok (inner st) (snap_files (snap st)) (snap_index (snap st))"

lemma compacting_inv_step:
  assumes "compacting_inv F st" "safe_step (inner st) s'" "comp_inv vals F' s'"
  shows "compacting_inv F' (st\<lparr>inner := s'\<rparr>)" "compacting_inv F' (publish (st\<lparr>inner := s'\<rparr>))"
proof -
  show "compacting_inv F' (st\<lparr>inner := s'\<rparr>)" using assms safe_step_index [OF assms(2)] by (auto simp: compacting_inv_def)
  show "compacting_inv F' (publish (st\<lparr>inner := s'\<rparr>))"
    using assms(3) comp_inv_inner [OF assms(3)] by (auto simp: compacting_inv_def publish_def Snap_from_def inner_inv_def)
qed

lemma compacting_inv_commit:
  assumes c: "compacting_inv F st" and run: "commit io lsn st = (r, st')"
  shows "compacting_inv F st'"
proof (cases "pending (inner st)")
  case True
  obtain vals where v: "comp_inv vals F (inner st)" using c by (auto simp: compacting_inv_def)
  obtain r1 s1 where 1: "inner_commit io lsn (inner st) = (r1, s1)" by force
  note k = compacting_inv_step [OF c _ inner_commit_comp [OF v 1]]
  have "st' = st\<lparr>inner := s1\<rparr> \<or> st' = publish (st\<lparr>inner := s1\<rparr>)"
    using run True 1 by (auto simp: commit_def op_bind_def locked_def op_basic split: sum.splits)
  then show ?thesis using k commit_ok [OF comp_inv_inner [OF v] 1] by auto
next
  case False
  then show ?thesis using run c by (simp add: commit_def)
qed

lemma compacting_inv_open: "open_with_options empty_disk None m = (Inr st, d) \<Longrightarrow> compacting_inv {} st"
proof -
  assume o: "open_with_options empty_disk None m = (Inr st, d)"
  note i = open_empty_inner [OF o]
  have "store_inv st" by (rule store_inv_open [OF o])
  then have inv: "inner_inv (inner st)" and ix: "index_ok (inner st) (snap_files (snap st)) (snap_index (snap st))" by (simp_all add: store_inv_def)
  have "maps_inv (\<lambda>_. ([], [])) (inner st)"
    by (rule maps_invI [OF inv]) (use tmp_not_seg in \<open>auto simp: i(1) fresh_inner_def lookup_file_def\<close>)
  then show ?thesis using ix by (auto simp: compacting_inv_def comp_inv_def stages_apart_def)
qed

lemma compacting_inv: "compacting F st \<Longrightarrow> compacting_inv F st"
proof (induction rule: compacting.induct)
  case (comp_open m st d)
  then show ?case by (rule compacting_inv_open)
next
  case (comp_put F st v key r st')
  obtain vals where v: "comp_inv vals F (inner st)" using comp_put.IH by (auto simp: compacting_inv_def)
  obtain s1 where 1: "inner_stage_put key v (inner st) = (r, s1)" "st' = st\<lparr>inner := s1\<rparr>"
    using comp_put.hyps(4) by (auto simp: stage_put_def locked_def split: prod.splits)
  obtain vals' where "comp_inv vals' F s1" using stage_put_comp [OF v comp_put.hyps(2) _ 1(1)] comp_put.hyps(3) by (auto simp: store_next_lsn_def)
  then show ?case using compacting_inv_step(1) [OF comp_put.IH] stage_put_ok [OF comp_inv_inner [OF v] comp_put.hyps(2) 1(1)] 1(2) by blast
next
  case (comp_commit F st io lsn r' st')
  then show ?case using compacting_inv_commit by blast
next
  case (comp_flush F st io r' st')
  then show ?case using compacting_inv_commit by (auto simp: flush_def split: if_splits)
next
  case (comp_sync F st io r' st')
  obtain vals where v: "comp_inv vals F (inner st)" using comp_sync.IH by (auto simp: compacting_inv_def)
  obtain s1 where 1: "inner_sync io (inner st) = (r', s1)" "st' = st\<lparr>inner := s1\<rparr>"
    using comp_sync.hyps(2) by (auto simp: sync_wal_def locked_def split: prod.splits)
  have "safe_step (inner st) s1" using 1(1) by (auto simp: inner_sync_def split: prod.splits intro!: safe_step_same_dir)
  then show ?case using compacting_inv_step(1) [OF comp_sync.IH _ inner_sync_comp [OF v 1(1)]] 1(2) by blast
next
  case (comp_stage F st h cs st')
  obtain vals where v: "comp_inv vals F (inner st)" using comp_stage.IH by (auto simp: compacting_inv_def)
  obtain s1 where 1: "inner_compact_stage h (inner st) = Some (Inr (Some cs), s1)" "st' = st\<lparr>inner := s1\<rparr>"
    using comp_stage.hyps(4) by (auto simp: compact_stage_def)
  have "file_added (inner st) s1" "comp_inv vals (insert cs F) s1" using compact_stage_comp [OF v 1(1) comp_stage.hyps(2,3)] by auto
  then show ?case using compacting_inv_step(1) [OF comp_stage.IH file_added_safe [OF comp_inv_inner [OF v]]] 1(2) by blast
next
  case (comp_finish F st cs freed st')
  obtain vals where v: "comp_inv vals F (inner st)" using comp_finish.IH by (auto simp: compacting_inv_def)
  show ?case using compacting_inv_step(2) [OF comp_finish.IH compact_commit_comp(2,1) [OF v comp_finish.hyps(2)]] comp_finish.hyps(3)
    by (auto simp: compact_commit_def)
next
  case (comp_abandon F st G)
  have "comp_inv vals G s" if "comp_inv vals F s" for vals s
    using that comp_abandon.hyps(2) unfolding comp_inv_def stages_apart_def inj_on_def by blast
  then show ?case using comp_abandon.IH unfolding compacting_inv_def by blast
qed

section \<open>Reading\<close>

lemma read_published:
  assumes "maps_inv vals s"
  shows "store_get (publish (st\<lparr>inner := s\<rparr>)) key = Inr (map_option (\<lambda>l. snd (vals l)) (index_lsn s key))"
proof (cases "map_of (index s) key")
  case None
  then show ?thesis by (simp add: store_get_def publish_def Snap_from_def index_lsn_def)
next
  case (Some p)
  obtain seg off len l where p: "p = (seg, off, len, l)" by (metis prod_cases4)
  from maps_invD(4) [OF assms maps_invD(5) [OF assms Some [unfolded p]]] show ?thesis
    using Some by (auto simp: p located_def holds_put_def store_get_def publish_def Snap_from_def index_lsn_def read_snap_def)
qed

lemma value_published:
  assumes "maps_inv vals s" "map_of (put_locations s) l = Some p"
  shows "value_at (publish (st\<lparr>inner := s\<rparr>)) l = Inr (snd (vals l))"
  using maps_invD(4) [OF assms] assms(2) by (auto simp: located_def holds_put_def value_at_def publish_def Snap_from_def read_snap_def)

text \<open>
  A store with an empty value and two puts of one other key, the second of which is alone in its segment, so that the first segment is worth
  compacting and has a put to keep.
\<close>

lemma small_put_fits: "slash \<noteq> x \<Longrightarrow> put_fits s [x] v"
proof -
  assume "slash \<noteq> x"
  then have "record_size (AggDelta (deltas_for (rollup s) [x] (of_nat (length v)))) = 21"
    using single_segment [of "[x]"] by (simp add: deltas_for_def record_size_def split: prod.split)
  then show ?thesis by (simp add: put_fits_def) (simp add: record_size_def)
qed

lemma put_empty:
  assumes i: "inner_inv s" and o: "active_offset s = 0" "unat (next_free_id s) + 2 < 2 ^ 64" and n: "unat (next_lsn (wal s)) + 2 < 2 ^ 64"
  shows "\<exists>sp s'. inner_stage_put [98] [] s = (Inr sp, s') \<and> inner_inv s' \<and>
    index s' = AList.update [98] (active_id s, 0, 0, next_lsn (wal s)) (index s) \<and>
    put_locations s' = AList.update (next_lsn (wal s)) ([98], active_id s, 0, 0) (put_locations s) \<and>
    sealed s' = sealed s \<and> active_id s' = active_id s \<and> active_offset s' = 0 \<and> segment_max_bytes s' = segment_max_bytes s \<and>
    next_free_id s' = next_free_id s \<and> unat (next_lsn (wal s')) = unat (next_lsn (wal s)) + 2"
proof -
  have c: "counters_ok s (length ([] :: bytes))" using o by (simp add: counters_ok_def)
  obtain sp s' where run: "inner_stage_put [98] [] s = (Inr sp, s')" using stage_put_succeeds [OF i c small_put_fits [of 98]] by (auto simp: slash_def)
  obtain l rs where b: "stage_body [98] [] s = (Inr (l, rs), s')"
    using run o(1) by (auto simp: inner_stage_put_def op_bind_Inr op_basic)
  have v: "length ([] :: bytes) < 2 ^ 32" "unat (active_offset s) + length ([] :: bytes) < 2 ^ 64" using o(1) by simp_all
  note f = stage_body_fields [OF i b] and ok = stage_body_ok [OF i v b]
  have "active_offset s' = 0" using stage_body_run [OF i b] o(1) by (auto simp: staged_state_def)
  then show ?thesis using run f(1,2) f(7) [OF refl] ok stage_body_next [OF b n] o(1) by auto
qed

lemma put_alone:
  assumes i: "inner_inv s" and o: "active_offset s = 0" "segment_max_bytes s = 1" "unat (next_free_id s) + 2 < 2 ^ 64"
    and n: "unat (next_lsn (wal s)) + 3 < 2 ^ 64"
  shows "\<exists>sp s'. inner_stage_put [97] [x, y] s = (Inr sp, s') \<and> inner_inv s' \<and>
    index s' = AList.update [97] (active_id s, 0, 2, next_lsn (wal s)) (index s) \<and>
    put_locations s' = AList.update (next_lsn (wal s)) ([97], active_id s, 0, 2) (put_locations s) \<and>
    sealed s' = sealed s @ [active_id s] \<and> active_id s' = next_free_id s \<and> active_offset s' = 0 \<and> segment_max_bytes s' = 1 \<and>
    next_free_id s' = next_free_id s + 1 \<and> unat (next_lsn (wal s')) = unat (next_lsn (wal s)) + 3"
proof -
  let ?v = "[x, y]"
  have c: "counters_ok s (length ?v)" using o by (simp add: counters_ok_def)
  obtain sp s' where run: "inner_stage_put [97] ?v s = (Inr sp, s')" using stage_put_succeeds [OF i c small_put_fits [of 97]] by (auto simp: slash_def)
  obtain l rs s2 es where b: "stage_body [97] ?v s = (Inr (l, rs), s2)" "seal_if (segment_max_bytes s2 < 2) s2 = (Inr es, s')"
    using run o(1) by (auto simp: inner_stage_put_def op_bind_Inr op_basic)
  have v: "length ?v < 2 ^ 32" "unat (active_offset s) + length ?v < 2 ^ 64" using o(1) by simp_all
  note f = stage_body_fields [OF i b(1)] and ok = stage_body_ok [OF i v b(1)]
  have l: "l = next_lsn (wal s)" and max1: "segment_max_bytes s2 = 1" using f(7) [OF refl] ok o(2) by simp_all
  then obtain e where e: "seal_active_record s2 = (Inr e, s')" using b(2) by (auto simp: op_bind_Inr op_basic)
  have n2: "unat (next_lsn (wal s2)) = unat (next_lsn (wal s)) + 2" using stage_body_next [OF b(1)] n by simp
  have nf: "next_free_id s2 = next_free_id s" and i2: "inner_inv s2" using ok by simp_all
  have s': "put_locations s' = put_locations s2" "sealed s' = sealed s2 @ [active_id s2]" "active_id s' = next_free_id s2" "next_free_id s' = next_free_id s2 + 1"
    using e by (auto simp: seal_active_record_def op_bind_Inr op_basic inner_append_Inr)
  have "unat (next_free_id s2) + 1 < 2 ^ 64" using nf o(3) by simp
  note sl = seal_ok [OF i2 this e]
  have "unat (next_lsn (wal s')) = unat (next_lsn (wal s)) + 3" using seal_next [OF e] n2 n by simp
  then show ?thesis using run sl s' f(1,2) f(7) [OF refl] ok max1 nf l o(1) by auto
qed

lemma example_compaction:
  "\<exists>st. plain_run st \<and> choose_segment (inner st) 3 = Some 0 \<and> next_free_id (inner st) = 3 \<and>
    put_locations (inner st) = [(1, [98], 0, 0, 0), (3, [97], 0, 0, 2), (6, [97], 1, 0, 2)] \<and>
    index (inner st) = [([98], 0, 0, 0, 1), ([97], 1, 0, 2, 6)] \<and> next_lsn (wal (inner st)) = 9"
proof -
  obtain st where op: "open_with_options empty_disk None 1 = (Inr st, dir (inner st))" using open_empty by blast
  let ?s = "inner st"
  have w: "next_lsn (wal_open None) = 1" by (simp add: wal_open_None)
  have s: "active_offset ?s = 0" "segment_max_bytes ?s = 1" "next_free_id ?s = 1" "active_id ?s = 0" "index ?s = []" "put_locations ?s = []" "sealed ?s = []"
    "next_lsn (wal ?s) = 1" by (simp_all add: open_empty_inner [OF op] fresh_inner_def w)
  have i: "inner_inv ?s" using store_inv_open [OF op] by (simp add: store_inv_def)
  obtain sp0 s0 where p0: "inner_stage_put [98] [] ?s = (Inr sp0, s0)" "inner_inv s0" and
    s0: "index s0 = [([98], 0, 0, 0, 1)]" "put_locations s0 = [(1, [98], 0, 0, 0)]" "sealed s0 = []" "active_id s0 = 0" "active_offset s0 = 0"
      "segment_max_bytes s0 = 1" "next_free_id s0 = 1" "unat (next_lsn (wal s0)) = 3"
    using put_empty [OF i s(1)] s by auto
  have l0: "next_lsn (wal s0) = 3" using s0(8) by (simp add: word_unat_eq_iff)
  obtain sp1 s1 where p1: "inner_stage_put [97] [1, 2] s0 = (Inr sp1, s1)" "inner_inv s1" and
    s1: "index s1 = [([98], 0, 0, 0, 1), ([97], 0, 0, 2, 3)]" "put_locations s1 = [(1, [98], 0, 0, 0), (3, [97], 0, 0, 2)]" "sealed s1 = [0]"
      "active_id s1 = 1" "active_offset s1 = 0" "segment_max_bytes s1 = 1" "next_free_id s1 = 2" "unat (next_lsn (wal s1)) = 6"
    using put_alone [OF p0(2) s0(5,6), of 1 2] s0 l0 by auto
  have l1: "next_lsn (wal s1) = 6" using s1(8) by (simp add: word_unat_eq_iff)
  obtain sp2 s2 where p2: "inner_stage_put [97] [3, 4] s1 = (Inr sp2, s2)" and
    s2: "index s2 = [([98], 0, 0, 0, 1), ([97], 1, 0, 2, 6)]" "put_locations s2 = [(1, [98], 0, 0, 0), (3, [97], 0, 0, 2), (6, [97], 1, 0, 2)]"
      "sealed s2 = [0, 1]" "next_free_id s2 = 3" "unat (next_lsn (wal s2)) = 9"
    using put_alone [OF p1(2) s1(5,6), of 3 4] s1 l1 by auto
  have l2: "next_lsn (wal s2) = 9" using s2(5) by (simp add: word_unat_eq_iff)
  have r: "plain_run st" using op by (rule plain_open)
  have r0: "plain_run (st\<lparr>inner := s0\<rparr>)"
    by (rule plain_put [OF r, of "[]" "[98]" sp0]) (simp_all add: room_def counters_ok_def s store_next_lsn_def stage_put_def locked_def p0(1))
  have r1: "plain_run (st\<lparr>inner := s1\<rparr>)"
    by (rule plain_put [OF r0, of "[1, 2]" "[97]" sp1]) (simp_all add: room_def counters_ok_def s0 l0 store_next_lsn_def stage_put_def locked_def p1(1))
  have r2: "plain_run (st\<lparr>inner := s2\<rparr>)"
    by (rule plain_put [OF r1, of "[3, 4]" "[97]" sp2]) (simp_all add: room_def counters_ok_def s1 l1 store_next_lsn_def stage_put_def locked_def p2)
  have "choose_segment s2 3 = Some 0" by (simp add: choose_segment_def reclaimable_def live_lsns_def s2)
  then show ?thesis using r2 s2 l2 by (intro exI [of _ "st\<lparr>inner := s2\<rparr>"]) simp
qed

lemma kept_key_fits:
  assumes m: "maps_inv vals s" and k: "\<forall>(l, k, p) \<in> set (put_locations s). length k < 4040"
    and e: "\<exists>q. (re_lsn e, re_key e, q, re_len e) \<in> set (keep_list s h old) \<and> Q q"
  shows "22 + length (re_key e) \<le> remap_budget"
proof -
  obtain q where "(re_lsn e, re_key e, q, re_len e) \<in> set (keep_list s h old)" using e by blast
  then have "map_of (put_locations s) (re_lsn e) = Some (re_key e, old, q, re_len e)" using in_keep_list [OF maps_invD(2) [OF m]] by blast
  then show ?thesis using k by (auto simp: remap_budget_eq dest!: map_of_SomeD)
qed

lemma stage_ends:
  assumes m: "maps_inv vals s" and k: "\<forall>(l, k, p) \<in> set (put_locations s). length k < 4040" and n: "length (put_locations s) \<le> 2 ^ 32"
  shows "\<exists>r s'. inner_compact_stage h s = Some (Inr r, s') \<and> (r = None \<longleftrightarrow> choose_segment s h = None)"
proof (cases "choose_segment s h")
  case None
  then show ?thesis by (simp add: inner_compact_stage_def)
next
  case (Some old)
  obtain oldf where old: "map_of (segments s) old = Some oldf" using choose_segment_Some [OF m Some] by blast
  obtain new f es dr swap s1 d where p: "compact_prepare h old s = (Inr (new, f, es, dr, swap), s1)" and nf: "new_file s (keep_list s h old) oldf d es"
    using compact_prepare_spec [OF m old n, of h] by blast
  have "22 + length (re_key e) \<le> remap_budget" if e: "e \<in> set es" for e by (rule kept_key_fits [OF m k new_fileD(8) [OF nf e]])
  from remap_loop_ends [OF this, where new = new and s = s1] obtain rs s' where "remap_loop new es s1 = Some (Inr rs, s')" by blast
  then show ?thesis using Some p by (simp add: inner_compact_stage_def)
qed

lemma example_staged:
  "\<exists>st cs st1. plain_run st \<and> compacting {} st \<and> choose_segment (inner st) 3 = Some 0 \<and> next_free_id (inner st) = 3 \<and>
    put_locations (inner st) = [(1, [98], 0, 0, 0), (3, [97], 0, 0, 2), (6, [97], 1, 0, 2)] \<and>
    compact_stage 3 st = Some (Inr (Some cs), st1) \<and> compacting {cs} st1 \<and> keep_list (inner st) 3 0 \<noteq> [] \<and> next_lsn (wal (inner st)) = 9"
proof -
  obtain st where run: "plain_run st" and e: "compacting {} st" "choose_segment (inner st) 3 = Some 0" "next_free_id (inner st) = 3"
    "put_locations (inner st) = [(1, [98], 0, 0, 0), (3, [97], 0, 0, 2), (6, [97], 1, 0, 2)]"
    "index (inner st) = [([98], 0, 0, 0, 1), ([97], 1, 0, 2, 6)]" "next_lsn (wal (inner st)) = 9" using example_compaction plain_compacting by blast
  obtain vals where "comp_inv vals {} (inner st)" using compacting_inv [OF e(1)] by (auto simp: compacting_inv_def)
  from stage_ends [OF comp_inv_maps [OF this], of 3] obtain cs s' where "inner_compact_stage 3 (inner st) = Some (Inr (Some cs), s')"
    using e(2,4) by auto
  then have c: "compact_stage 3 st = Some (Inr (Some cs), st\<lparr>inner := s'\<rparr>)" by (simp add: compact_stage_def)
  have "compacting (insert cs {}) (st\<lparr>inner := s'\<rparr>)" by (rule comp_stage [OF e(1) _ _ c]) (use e(3,4) in simp_all)
  moreover have "keep_list (inner st) 3 0 \<noteq> []" by (simp add: keep_list_def live_lsns_def e(4,5))
  ultimately show ?thesis using run e(1-4,6) c by blast
qed

section \<open>Properties\<close>

text \<open>
  C9. Compaction keeps every value: in any interleaving of puts, commits, flushes and syncs with any number of compactions in flight,
  committing a compaction changes, for every key and prefix, nothing of what a publication would show; every put that it does not drop is
  still read by its position; readers of the previous snapshot still read the same, although the old segment file is deleted.\<close>

theorem compaction_keeps_reads:
  assumes "compacting F st" and "cs \<in> F" and "compact_commit cs st = (r, st')"
  shows "r = Inr (cs_freed cs) \<and> (\<forall>key. store_get st' key = store_get (publish st) key \<and> (\<exists>v. store_get st' key = Inr v)) \<and>
    (\<forall>pre. capacity st' pre = capacity (publish st) pre) \<and>
    (\<forall>l v. value_at (publish st) l = Inr v \<longrightarrow> l \<notin> set (cs_dropped cs) \<longrightarrow> value_at st' l = Inr v) \<and>
    (\<forall>key. store_get (st'\<lparr>snap := snap st\<rparr>) key = store_get st key) \<and>
    lookup_file (seg_name (cs_old_id cs)) (dir (inner st')) = None"
proof -
  have i: "compacting_inv F st" using compacting_inv [OF assms(1)] .
  then obtain vals where c: "comp_inv vals F (inner st)" and ix: "index_ok (inner st) (snap_files (snap st)) (snap_index (snap st))"
    by (auto simp: compacting_inv_def)
  let ?s = "inner_compact_commit cs (inner st)"
  have st': "r = Inr (cs_freed cs)" "st' = publish (st\<lparr>inner := ?s\<rparr>)" using assms(3) by (simp_all add: compact_commit_def)
  note k = compact_commit_comp [OF c assms(2)]
  have m: "maps_inv vals (inner st)" "maps_inv vals ?s" using comp_inv_maps c k(1) by blast+
  have st: "stage_inv vals (inner st) cs" using c assms(2) by (simp add: comp_inv_def)
  note f = compact_commit_fields [OF m(1) st]
  have pub: "publish st = publish (st\<lparr>inner := inner st\<rparr>)" by simp
  have "store_get st' key = store_get (publish st) key \<and> (\<exists>v. store_get st' key = Inr v)" for key
    unfolding st' pub read_published [OF m(1)] read_published [OF m(2)] f(1) by simp
  moreover have "capacity st' pre = capacity (publish st) pre" for pre
    using f(6) by (auto simp: st' capacity_def publish_def Snap_from_def)
  moreover have "value_at st' l = Inr v" if v: "value_at (publish st) l = Inr v" and l: "l \<notin> set (cs_dropped cs)" for l v
  proof -
    obtain p where p: "map_of (put_locations (inner st)) l = Some p"
      using v by (auto simp: value_at_def publish_def Snap_from_def split: option.splits)
    then obtain p' where "map_of (put_locations ?s) l = Some p'" using f(5) l by blast
    then show ?thesis using value_published [OF m(2), of l p' st] value_published [OF m(1) p, of st] v by (simp add: st')
  qed
  moreover have "store_get (st'\<lparr>snap := snap st\<rparr>) key = store_get st key" for key
    using store_get_safe [OF ix k(2)] by (simp add: st' publish_def)
  moreover have "lookup_file (seg_name (cs_old_id cs)) (dir (inner st')) = None" using f(6) by (auto simp: st' publish_def lookup_remove)
  ultimately show ?thesis using st'(1) by blast
qed

theorem compaction_keeps_reads_witness:
  "\<exists>st cs st'. compacting {cs} st \<and> compact_commit cs st = (Inr (cs_freed cs), st') \<and> (\<forall>key. store_get st' key = store_get (publish st) key) \<and>
     lookup_file (seg_name (cs_old_id cs)) (dir (inner st')) = None"
proof -
  obtain cs st where c: "compacting {cs} st" using example_staged by blast
  let ?st = "snd (compact_commit cs st)"
  have "compact_commit cs st = (Inr (cs_freed cs), ?st)" by (simp add: compact_commit_def)
  from compaction_keeps_reads [OF c _ this] this c show ?thesis by blast
qed

text \<open>
  C24. Compaction makes progress: while keys are shorter than 4040 bytes, there are at most \<open>2 ^ 32\<close> puts and a segment number is free, staging a
  compaction ends without an error. It stages nothing only if no sealed segment has a dead put up to the horizon, drops
  only puts up to the horizon, and changes nothing of what readers see or what a publication would show.\<close>

theorem compaction_stages:
  assumes "compacting F st" and "\<forall>(l, k, p) \<in> set (put_locations (inner st)). length k < 4040"
    and "unat (next_free_id (inner st)) + 1 < 2 ^ 64" and "length (put_locations (inner st)) \<le> 2 ^ 32"
  shows "\<exists>r st'. compact_stage h st = Some (Inr r, st') \<and> (r = None \<longleftrightarrow> choose_segment (inner st) h = None) \<and>
    (\<forall>cs. r = Some cs \<longrightarrow> compacting (insert cs F) st' \<and> (\<forall>l \<in> set (cs_dropped cs). l \<le> h)) \<and>
    (\<forall>key. store_get (publish st') key = store_get (publish st) key \<and> store_get st' key = store_get st key)"
proof -
  obtain vals where c: "comp_inv vals F (inner st)" and ix: "index_ok (inner st) (snap_files (snap st)) (snap_index (snap st))"
    using compacting_inv [OF assms(1)] by (auto simp: compacting_inv_def)
  have m: "maps_inv vals (inner st)" by (rule comp_inv_maps [OF c])
  obtain r s' where run: "inner_compact_stage h (inner st) = Some (Inr r, s')" and none: "r = None \<longleftrightarrow> choose_segment (inner st) h = None"
    using stage_ends [OF m assms(2,4)] by blast
  have st': "compact_stage h st = Some (Inr r, st\<lparr>inner := s'\<rparr>)" using run by (simp add: compact_stage_def)
  have safe: "safe_step (inner st) s'" and m': "maps_inv vals s'" and ln: "index_lsn s' = index_lsn (inner st)"
    using compact_stage_comp [OF c run assms(3,4)] file_added_safe [OF comp_inv_inner [OF c], of s'] m
    by (auto simp: comp_inv_def file_added_def index_lsn_def fun_eq_iff)
  have "compacting (insert cs F) (st\<lparr>inner := s'\<rparr>) \<and> (\<forall>l \<in> set (cs_dropped cs). l \<le> h)" if "r = Some cs" for cs
    using compact_stage_comp [OF c run assms(3,4)] that comp_stage [OF assms(1,3,4) st' [unfolded that]] by auto
  moreover have "store_get (publish (st\<lparr>inner := s'\<rparr>)) key = store_get (publish st) key" for key
    using read_published [OF m', of st key] read_published [OF m, of st key] ln by simp
  moreover have "store_get (st\<lparr>inner := s'\<rparr>) key = store_get st key" for key using store_get_safe [OF ix safe] .
  ultimately show ?thesis using st' none by (intro exI [of _ r] exI [of _ "st\<lparr>inner := s'\<rparr>"]) simp
qed

theorem compaction_stages_witness:
  "\<exists>st cs st'. compacting {} st \<and> compact_stage 3 st = Some (Inr (Some cs), st') \<and> compacting {cs} st' \<and> (\<forall>l \<in> set (cs_dropped cs). l \<le> 3)"
proof -
  obtain st where e: "compacting {} st" "choose_segment (inner st) 3 = Some 0" "next_free_id (inner st) = 3"
    "put_locations (inner st) = [(1, [98], 0, 0, 0), (3, [97], 0, 0, 2), (6, [97], 1, 0, 2)]" using example_compaction plain_compacting by blast
  obtain r st' where r: "compact_stage 3 st = Some (Inr r, st')" "r \<noteq> None"
    "\<forall>cs. r = Some cs \<longrightarrow> compacting (insert cs {}) st' \<and> (\<forall>l \<in> set (cs_dropped cs). l \<le> 3)"
    using compaction_stages [OF e(1), of 3] e(2-4) by auto
  then show ?thesis using e(1) by blast
qed

end
