(* ===== verification/Protocol.thy ===== *)
theory Protocol
  imports Disk
begin

text \<open>
  The frames of \<^verbatim>\<open>crates/shardvault-node/src/protocol.rs\<close>: a little-endian length followed by the serialized
  frame. The serializer is the \<open>bincode\<close> package, which is a parameter here: \<open>ser\<close> and \<open>deser\<close> stand for its
  \<open>serialize\<close> and \<open>deserialize\<close>, and what the code relies on is that deserializing gives back what was serialized.
\<close>

section \<open>The code\<close>

definition ROLE_LEADER :: u8 where "ROLE_LEADER = 0"
definition ROLE_FOLLOWER :: u8 where "ROLE_FOLLOWER = 1"

definition MAX_FRAME :: nat where "MAX_FRAME = 64 * 1024 * 1024"

datatype Frame =
    Hello u64 u8
  | PutReq u64 str bytes
  | PutOk u64
  | PutErr u64 string
  | GetReq u64 str
  | GetOk u64 "bytes option"
  | Append Lsn Record "bytes option"
  | SyncBarrier Lsn
  | SyncAck Lsn
  | NeedFrom Lsn
  | StatusReq
  | StatusOk u64 "(u64 \<times> u64) list"
  | ProbeFsync
  | ProbeFsyncResp u64
  | Compact
  | CompactDone u64
  | ListReq u64 str
  | ListOk u64 "(str \<times> u32) list"
  | CapacityReq u64 str
  | CapacityOk u64 "u64 \<times> u64" "u64 \<times> u64"
  | SimulateFailure u64
  | SimulateFailureDone

datatype io_error = InvalidData string | UnexpectedEof

definition bad_data :: "string \<Rightarrow> io_error" where
  "bad_data e = InvalidData e"

text \<open>The writer is the bytes written so far; writing to it does not fail.\<close>

definition send_frame :: "(Frame \<Rightarrow> string + bytes) \<Rightarrow> Frame \<Rightarrow> bytes \<Rightarrow> (io_error + unit) \<times> bytes" where
  "send_frame ser frame w = (case ser frame of
     Inl e \<Rightarrow> (Inl (bad_data e), w)
   | Inr body \<Rightarrow>
       if length body > MAX_FRAME then (Inl (bad_data ''frame too large''), w)
       else (Inr (), w @ to_le 4 (of_nat (length body) :: u32) @ body))"

text \<open>
  The reader is the bytes that are still to come before the connection ends. A read that meets the end
  consumes what was there.
\<close>

definition recv_frame :: "(bytes \<Rightarrow> string + Frame) \<Rightarrow> bytes \<Rightarrow> (io_error + Frame) \<times> bytes" where
  "recv_frame deser r =
    (if length r < 4 then (Inl UnexpectedEof, [])
     else let n = unat (from_le (take 4 r) :: u32); r = drop 4 r
          in if n > MAX_FRAME then (Inl (bad_data ''frame too large''), r)
             else if length r < n then (Inl UnexpectedEof, [])
             else (case deser (take n r) of Inl e \<Rightarrow> (Inl (bad_data e), drop n r) | Inr f \<Rightarrow> (Inr f, drop n r)))"

section \<open>Streams of frames\<close>

fun send_frames :: "(Frame \<Rightarrow> string + bytes) \<Rightarrow> Frame list \<Rightarrow> bytes \<Rightarrow> (io_error + unit) \<times> bytes" where
  "send_frames ser [] w = (Inr (), w)"
| "send_frames ser (f # fs) w = (case send_frame ser f w of (Inl e, w) \<Rightarrow> (Inl e, w) | (Inr _, w) \<Rightarrow> send_frames ser fs w)"

fun recv_frames :: "(bytes \<Rightarrow> string + Frame) \<Rightarrow> nat \<Rightarrow> bytes \<Rightarrow> (io_error + Frame list) \<times> bytes" where
  "recv_frames deser 0 r = (Inr [], r)"
| "recv_frames deser (Suc n) r = (case recv_frame deser r of
     (Inl e, r) \<Rightarrow> (Inl e, r)
   | (Inr f, r) \<Rightarrow> (case recv_frames deser n r of (Inl e, r) \<Rightarrow> (Inl e, r) | (Inr fs, r) \<Rightarrow> (Inr (f # fs), r)))"

lemma unat_frame_len: "n \<le> MAX_FRAME \<Longrightarrow> unat (of_nat n :: u32) = n"
  by (simp add: MAX_FRAME_def unat_of_nat)

lemma recv_sent:
  assumes "deser body = Inr f" "length body \<le> MAX_FRAME"
  shows "recv_frame deser (to_le 4 (of_nat (length body) :: u32) @ body @ rest) = (Inr f, rest)"
  using assms by (simp add: recv_frame_def Let_def from_to_le unat_frame_len)

lemma send_frames_stream:
  assumes "send_frames ser fs w = (Inr (), w')" "\<And>f b. ser f = Inr b \<Longrightarrow> deser b = Inr f"
  shows "\<exists>s. w' = w @ s \<and> recv_frames deser (length fs) (s @ rest) = (Inr fs, rest)"
  using assms(1)
proof (induction fs arbitrary: w)
  case (Cons f fs)
  from Cons.prems obtain body where b: "ser f = Inr body" "length body \<le> MAX_FRAME"
    and r: "send_frames ser fs (w @ to_le 4 (of_nat (length body) :: u32) @ body) = (Inr (), w')"
    by (auto simp: send_frame_def split: sum.splits if_splits)
  from Cons.IH [OF r] obtain s where s: "w' = (w @ to_le 4 (of_nat (length body) :: u32) @ body) @ s"
    "recv_frames deser (length fs) (s @ rest) = (Inr fs, rest)" by blast
  have "recv_frames deser (length (f # fs)) ((to_le 4 (of_nat (length body) :: u32) @ body @ s) @ rest) = (Inr (f # fs), rest)"
    using recv_sent [of deser body f "s @ rest"] assms(2) [OF b(1)] b(2) s(2) by simp
  then show ?case using s(1) by auto
qed simp

lemma recv_frame_body:
  assumes "recv_frame deser r = (Inr f, r')"
  shows "\<exists>body. r = to_le 4 (of_nat (length body) :: u32) @ body @ r' \<and> length body \<le> MAX_FRAME \<and> deser body = Inr f"
proof -
  let ?n = "unat (from_le (take 4 r) :: u32)"
  have n: "4 \<le> length r" "?n \<le> MAX_FRAME" "4 + ?n \<le> length r" "deser (take ?n (drop 4 r)) = Inr f" "r' = drop ?n (drop 4 r)"
    using assms by (auto simp: recv_frame_def Let_def split: if_splits sum.splits)
  have l: "length (take ?n (drop 4 r)) = ?n" using n(3) by simp
  have "to_le 4 (of_nat ?n :: u32) = take 4 r" using n(1) to_from_le [of "take 4 r" 4, where 'a = 32] by simp
  then have "r = to_le 4 (of_nat (length (take ?n (drop 4 r))) :: u32) @ take ?n (drop 4 r) @ r'"
    unfolding l n(5) by (metis append_take_drop_id)
  then show ?thesis using n(2,4) l by (intro exI [of _ "take ?n (drop 4 r)"]) simp
qed

section \<open>Properties\<close>

text \<open>
  C32. Frames survive the wire: with a serializer that deserializes what it serialized, any sequence of frames that is
  sent on a connection without an error is received on the other side as the same sequence, and the bytes that follow
  are untouched.\<close>

theorem frames_roundtrip:
  assumes "\<And>f b. ser f = Inr b \<Longrightarrow> deser b = Inr f" and "send_frames ser fs [] = (Inr (), s)"
  shows "recv_frames deser (length fs) (s @ rest) = (Inr fs, rest)"
  using send_frames_stream [OF assms(2,1)] by auto

text \<open>A serializer for two frames, with the tags of the wire format.\<close>

definition small_ser :: "Frame \<Rightarrow> string + bytes" where
  "small_ser f = (case f of StatusReq \<Rightarrow> Inr [10, 0, 0, 0] | ProbeFsync \<Rightarrow> Inr [12, 0, 0, 0] | _ \<Rightarrow> Inl ''unsupported'')"

definition small_deser :: "bytes \<Rightarrow> string + Frame" where
  "small_deser b = (if b = [10, 0, 0, 0] then Inr StatusReq else if b = [12, 0, 0, 0] then Inr ProbeFsync else Inl ''bad tag'')"

theorem frames_roundtrip_witness:
  "send_frames small_ser [StatusReq, ProbeFsync] [] = (Inr (), [4, 0, 0, 0, 10, 0, 0, 0, 4, 0, 0, 0, 12, 0, 0, 0]) \<and>
   recv_frames small_deser 2 ([4, 0, 0, 0, 10, 0, 0, 0, 4, 0, 0, 0, 12, 0, 0, 0] @ [9]) = (Inr [StatusReq, ProbeFsync], [9])"
proof -
  have c: "small_ser f = Inr b \<Longrightarrow> small_deser b = Inr f" for f b
    by (cases f) (auto simp: small_ser_def small_deser_def)
  have s: "send_frames small_ser [StatusReq, ProbeFsync] [] = (Inr (), [4, 0, 0, 0, 10, 0, 0, 0, 4, 0, 0, 0, 12, 0, 0, 0])"
  proof -
    have "to_le 4 (4 :: u32) = [4, 0, 0, 0]" by code_simp
    then show ?thesis by (simp add: send_frame_def small_ser_def MAX_FRAME_def)
  qed
  have two: "length [StatusReq, ProbeFsync] = 2" by simp
  show ?thesis
    using s frames_roundtrip [where ser = small_ser and deser = small_deser and rest = "[9]", OF c s] unfolding two by blast
qed

text \<open>
  C33. Bounds of a received frame: whatever bytes arrive, \<open>recv_frame\<close> never accepts a body longer than 64 MiB; it refuses a larger
  declared length before reading any of the body, reports the end of the stream exactly when the length or the
  body is incomplete, and otherwise consumes exactly the length field and the body. The length that
  \<open>send_frame\<close> writes never wraps around.\<close>

theorem frame_bounds:
  "(recv_frame deser r = (Inr f, r') \<longrightarrow>
      (\<exists>body. r = to_le 4 (of_nat (length body) :: u32) @ body @ r' \<and> length body \<le> MAX_FRAME \<and> deser body = Inr f)) \<and>
   (4 \<le> length r \<longrightarrow> MAX_FRAME < unat (from_le (take 4 r) :: u32) \<longrightarrow> recv_frame deser r = (Inl (bad_data ''frame too large''), drop 4 r)) \<and>
   (fst (recv_frame deser r) = Inl UnexpectedEof \<longleftrightarrow> length r < 4 \<or>
      unat (from_le (take 4 r) :: u32) \<le> MAX_FRAME \<and> length r < 4 + unat (from_le (take 4 r) :: u32)) \<and>
   (send_frame ser g w = (Inr (), w') \<longrightarrow>
      (\<exists>body. ser g = Inr body \<and> w' = w @ to_le 4 (of_nat (length body) :: u32) @ body \<and> unat (of_nat (length body) :: u32) = length body))"
proof (intro conjI impI)
  show "recv_frame deser r = (Inr f, r') \<Longrightarrow>
      \<exists>body. r = to_le 4 (of_nat (length body) :: u32) @ body @ r' \<and> length body \<le> MAX_FRAME \<and> deser body = Inr f"
    by (rule recv_frame_body)
  show "4 \<le> length r \<Longrightarrow> MAX_FRAME < unat (from_le (take 4 r) :: u32) \<Longrightarrow> recv_frame deser r = (Inl (bad_data ''frame too large''), drop 4 r)"
    by (simp add: recv_frame_def Let_def)
  show "fst (recv_frame deser r) = Inl UnexpectedEof \<longleftrightarrow> length r < 4 \<or>
      unat (from_le (take 4 r) :: u32) \<le> MAX_FRAME \<and> length r < 4 + unat (from_le (take 4 r) :: u32)"
    by (auto simp: recv_frame_def Let_def bad_data_def split: sum.split)
  show "send_frame ser g w = (Inr (), w') \<Longrightarrow>
      \<exists>body. ser g = Inr body \<and> w' = w @ to_le 4 (of_nat (length body) :: u32) @ body \<and> unat (of_nat (length body) :: u32) = length body"
    using unat_frame_len by (auto simp: send_frame_def not_less split: sum.splits if_splits)
qed

text \<open>A frame too large to be sent, and a length field that is refused.\<close>

theorem frame_bounds_witness:
  "recv_frame small_deser [0, 0, 0, 5, 1, 2] = (Inl (bad_data ''frame too large''), [1, 2])"
proof -
  have "(from_le [0, 0, 0, 5] :: u32) = 83886080" by code_simp
  then show ?thesis using frame_bounds [where r = "[0, 0, 0, 5, 1, 2]" and deser = small_deser] by (simp add: MAX_FRAME_def)
qed

end
