(* ===== verification/Node.thy ===== *)
theory Node
  imports Protocol Recovery
begin

text \<open>
  Single-leader replication, \<^verbatim>\<open>crates/shardvault-node/src/node.rs\<close>: the leader's state, the threads that process a
  put and a compaction, the follower links with their frame queues, and the follower's apply loop. A
  thread is a program counter with its local variables; each of its steps is one section of the code that holds a
  lock or touches one shared variable, so that any interleaving of threads is a sequence of steps.
  The environment (sockets, clocks, failing syncs) chooses the steps and their outcomes. A round of \<open>await_quorum\<close>, the
  handling of one received acknowledgement and a GET read several atomics or a lock one after the other
  in the code; here each of them is one step.
\<close>

section \<open>Configuration\<close>

text \<open>\<open>str::parse::<u64>\<close>: an optional plus sign, then decimal digits whose value fits.\<close>

definition parse_u64 :: "string \<Rightarrow> u64 option" where
  "parse_u64 s =
    (let ds = (case s of [] \<Rightarrow> [] | c # r \<Rightarrow> if c = CHR ''+'' then r else s)
     in if ds = [] \<or> \<not> list_all is_digit ds \<or> parse_digits ds \<ge> 2 ^ 64 then None else Some (of_nat (parse_digits ds)))"

text \<open>The argument is the value of \<open>SV_SEGMENT_MAX_BYTES\<close>, if set.\<close>

definition store_options :: "string option \<Rightarrow> u64" where
  "store_options var = (case Option.bind var parse_u64 of None \<Rightarrow> default_segment_max_bytes | Some n \<Rightarrow> n)"

record Config =
  cfg_id :: u64
  cfg_addr :: string
  cfg_peers :: "string list"
  cfg_role :: u8

text \<open>\<open>Display for StoreError\<close>; of an operating-system error only the kind is known here, and shown.\<close>

definition kind_msg :: "ErrorKind \<Rightarrow> string" where
  "kind_msg k = (case k of NotFound \<Rightarrow> ''entity not found'' | WriteZero \<Rightarrow> ''write zero'' | OtherKind \<Rightarrow> ''other error'')"

definition store_error_msg :: "StoreError \<Rightarrow> string" where
  "store_error_msg e = (case e of
     Io k \<Rightarrow> ''io error: '' @ kind_msg k
   | Corrupt msg \<Rightarrow> ''store corruption: '' @ msg
   | RecordTooLarge \<Rightarrow> ''record exceeds block payload capacity'')"

section \<open>The leader\<close>

record FollowerLink =
  link_id :: u64
  link_addr :: string
  match_index :: Lsn
  committed_through :: Lsn
  alive :: bool
  fqueue :: "Frame list"

record Leader =
  leader_store :: Store
  commit_index :: Lsn
  followers :: "FollowerLink list"
  failed :: "u64 list"
  quorum :: u64

definition enqueue :: "Frame list \<Rightarrow> FollowerLink \<Rightarrow> FollowerLink" where
  "enqueue frames f = f\<lparr>fqueue := fqueue f @ frames\<rparr>"

definition quorum_size :: "nat \<Rightarrow> u64" where
  "quorum_size peers = of_nat (div_ceil peers 2)"

definition new_link :: "nat \<times> string \<Rightarrow> FollowerLink" where
  "new_link p = \<lparr>link_id = of_nat (fst p), link_addr = snd p, match_index = 0, committed_through = 0, alive = False, fqueue = []\<rparr>"

definition leader_new :: "Config \<Rightarrow> string option \<Rightarrow> disk \<Rightarrow> os_file option \<Rightarrow> StoreError + Leader" where
  "leader_new cfg var d wal_log = and_then (fst (open_with_options d wal_log (store_options var))) (\<lambda>store.
     Inr \<lparr>leader_store = store, commit_index = store_next_lsn store - 1,
          followers = map new_link (filter (\<lambda>(i, addr). of_nat i \<noteq> cfg_id cfg) (enumerate 0 (cfg_peers cfg))),
          failed = [], quorum = quorum_size (length (cfg_peers cfg))\<rparr>)"

definition is_put :: "Record \<Rightarrow> bool" where
  "is_put rec = (case rec of Put key len stripe \<Rightarrow> True | _ \<Rightarrow> False)"

definition batch_frames :: "entry list \<Rightarrow> bytes option \<Rightarrow> Lsn \<Rightarrow> Frame list" where
  "batch_frames records value batch_end =
    map (\<lambda>(lsn, rec). Append lsn rec (if is_put rec then value else None)) records @ [SyncBarrier batch_end]"

definition send_batch :: "entry list \<Rightarrow> bytes option \<Rightarrow> Lsn \<Rightarrow> Leader \<Rightarrow> Leader" where
  "send_batch records value batch_end ld = ld\<lparr>followers := map (enqueue (batch_frames records value batch_end)) (followers ld)\<rparr>"

text \<open>One round of the loop of \<open>await_quorum\<close>; \<open>Inr False\<close> is another round.\<close>

definition acks :: "Leader \<Rightarrow> Lsn \<Rightarrow> u64" where
  "acks ld batch_end = of_nat (1 + length (filter (\<lambda>f. match_index f \<ge> batch_end) (followers ld)))"

definition reachable_nodes :: "Leader \<Rightarrow> u64" where
  "reachable_nodes ld = 1 + of_nat (length (filter alive (followers ld)))"

definition await_round :: "bool \<Rightarrow> Lsn \<Rightarrow> Leader \<Rightarrow> string + bool" where
  "await_round past_deadline batch_end ld =
    (if acks ld batch_end \<ge> quorum ld then Inr True
     else if reachable_nodes ld < quorum ld \<and> past_deadline then Inl ''quorum lost''
     else Inr False)"

text \<open>The thread of \<open>process_put\<close>.\<close>

datatype put_pc =
    PutStage str bytes
  | PutSync "entry list" bytes
  | PutSend "entry list" bytes
  | PutAwait "entry list"
  | PutCommit "entry list"
  | PutIndex "entry list" Lsn
  | PutAnnounce "entry list" Lsn
  | PutAcked "entry list"
  | PutFailed string

definition batch_end_of :: "entry list \<Rightarrow> Lsn" where
  "batch_end_of records = fst (last records)"

fun put_step :: "sync_io \<Rightarrow> bool \<Rightarrow> put_pc \<Rightarrow> Leader \<Rightarrow> put_pc \<times> Leader" where
  "put_step io late (PutStage key value) ld = (case stage_put key value (leader_store ld) of
     (Inl e, st) \<Rightarrow> (PutFailed (store_error_msg e), ld\<lparr>leader_store := st\<rparr>)
   | (Inr staged, st) \<Rightarrow> (PutSync (staged_records staged) value, ld\<lparr>leader_store := st\<rparr>))"
| "put_step io late (PutSync rs value) ld = (case sync_wal io (leader_store ld) of
     (Inl e, st) \<Rightarrow> (PutFailed (store_error_msg e), ld\<lparr>leader_store := st\<rparr>)
   | (Inr _, st) \<Rightarrow> (PutSend rs value, ld\<lparr>leader_store := st\<rparr>))"
| "put_step io late (PutSend rs value) ld = (PutAwait rs, send_batch rs (Some value) (batch_end_of rs) ld)"
| "put_step io late (PutAwait rs) ld = (case await_round late (batch_end_of rs) ld of
     Inl msg \<Rightarrow> (PutFailed msg, ld)
   | Inr done_waiting \<Rightarrow> (if done_waiting then PutCommit rs else PutAwait rs, ld))"
| "put_step io late (PutCommit rs) ld = (case commit io (batch_end_of rs) (leader_store ld) of
     (Inl e, st) \<Rightarrow> (PutFailed (store_error_msg e), ld\<lparr>leader_store := st\<rparr>)
   | (Inr _, st) \<Rightarrow> (PutIndex rs (store_next_lsn st - 1), ld\<lparr>leader_store := st\<rparr>))"
| "put_step io late (PutIndex rs commit_block) ld = (PutAnnounce rs commit_block, ld\<lparr>commit_index := commit_block\<rparr>)"
| "put_step io late (PutAnnounce rs commit_block) ld =
     (PutAcked rs, send_batch [(commit_block, Commit (batch_end_of rs))] None commit_block ld)"
| "put_step io late (PutAcked rs) ld = (PutAcked rs, ld)"
| "put_step io late (PutFailed msg) ld = (PutFailed msg, ld)"

text \<open>The thread of \<open>process_compact\<close>. \<open>None\<close> is a staging step that never returns.\<close>

datatype compact_pc =
    CompactStart
  | CompactSync CompactStage
  | CompactSend CompactStage
  | CompactAwait CompactStage
  | CompactCommit CompactStage
  | CompactApply CompactStage Lsn
  | CompactIndex CompactStage Lsn u64
  | CompactAnnounce CompactStage Lsn u64
  | CompactFreed u64
  | CompactFailed string

definition compact_horizon :: "Leader \<Rightarrow> Lsn" where
  "compact_horizon ld = (case followers ld of
     [] \<Rightarrow> commit_index ld
   | f # fs \<Rightarrow> fold min (map committed_through fs) (committed_through f))"

fun compact_step :: "sync_io \<Rightarrow> bool \<Rightarrow> compact_pc \<Rightarrow> Leader \<Rightarrow> (compact_pc \<times> Leader) option" where
  "compact_step io late CompactStart ld =
    map_option (\<lambda>(r, st). (case r of
        Inl e \<Rightarrow> CompactFailed (store_error_msg e)
      | Inr None \<Rightarrow> CompactFreed 0
      | Inr (Some stage) \<Rightarrow> CompactSync stage, ld\<lparr>leader_store := st\<rparr>))
      (compact_stage (compact_horizon ld) (leader_store ld))"
| "compact_step io late (CompactSync stage) ld = Some (case sync_wal io (leader_store ld) of
     (Inl e, st) \<Rightarrow> (CompactFailed (store_error_msg e), ld\<lparr>leader_store := st\<rparr>)
   | (Inr _, st) \<Rightarrow> (CompactSend stage, ld\<lparr>leader_store := st\<rparr>))"
| "compact_step io late (CompactSend stage) ld =
     Some (CompactAwait stage, send_batch (cs_records stage) None (batch_end_of (cs_records stage)) ld)"
| "compact_step io late (CompactAwait stage) ld = Some (case await_round late (batch_end_of (cs_records stage)) ld of
     Inl msg \<Rightarrow> (CompactFailed msg, ld)
   | Inr done_waiting \<Rightarrow> (if done_waiting then CompactCommit stage else CompactAwait stage, ld))"
| "compact_step io late (CompactCommit stage) ld = Some (case commit io (batch_end_of (cs_records stage)) (leader_store ld) of
     (Inl e, st) \<Rightarrow> (CompactFailed (store_error_msg e), ld\<lparr>leader_store := st\<rparr>)
   | (Inr _, st) \<Rightarrow> (CompactApply stage (store_next_lsn st - 1), ld\<lparr>leader_store := st\<rparr>))"
| "compact_step io late (CompactApply stage commit_block) ld = Some (case compact_commit stage (leader_store ld) of
     (Inl e, st) \<Rightarrow> (CompactFailed (store_error_msg e), ld\<lparr>leader_store := st\<rparr>)
   | (Inr freed, st) \<Rightarrow> (CompactIndex stage commit_block freed, ld\<lparr>leader_store := st\<rparr>))"
| "compact_step io late (CompactIndex stage commit_block freed) ld =
     Some (CompactAnnounce stage commit_block freed, ld\<lparr>commit_index := commit_block\<rparr>)"
| "compact_step io late (CompactAnnounce stage commit_block freed) ld =
     Some (CompactFreed freed, send_batch [(commit_block, Commit (batch_end_of (cs_records stage)))] None commit_block ld)"
| "compact_step io late (CompactFreed freed) ld = Some (CompactFreed freed, ld)"
| "compact_step io late (CompactFailed msg) ld = Some (CompactFailed msg, ld)"

section \<open>Follower links\<close>

text \<open>\<open>handle_backfill\<close>: a value that cannot be read ends it without any effect on the queue.\<close>

fun backfill_appends :: "Store \<Rightarrow> Lsn \<Rightarrow> Lsn \<Rightarrow> entry list \<Rightarrow> Frame list option" where
  "backfill_appends st from ci [] = Some []"
| "backfill_appends st from ci ((lsn, rec) # rest) =
    (if lsn < from \<or> lsn > ci then backfill_appends st from ci rest
     else if is_put rec then (case value_at st lsn of
         Inl e \<Rightarrow> None
       | Inr v \<Rightarrow> map_option (\<lambda>fs. Append lsn rec (Some v) # fs) (backfill_appends st from ci rest))
     else map_option (\<lambda>fs. Append lsn rec None # fs) (backfill_appends st from ci rest))"

definition above_commit :: "Lsn \<Rightarrow> Frame \<Rightarrow> bool" where
  "above_commit ci frame = (case frame of
     Append lsn rec data \<Rightarrow> lsn > ci | SyncBarrier lsn \<Rightarrow> lsn > ci | _ \<Rightarrow> False)"

definition update_link :: "nat \<Rightarrow> (FollowerLink \<Rightarrow> FollowerLink) \<Rightarrow> Leader \<Rightarrow> Leader" where
  "update_link i g ld = (if i < length (followers ld) then ld\<lparr>followers := (followers ld)[i := g (followers ld ! i)]\<rparr> else ld)"

definition backfill_read :: "Lsn \<Rightarrow> Leader \<Rightarrow> (Lsn \<times> Frame list) option" where
  "backfill_read from ld = map_option (\<lambda>frames. (commit_index ld, frames))
     (backfill_appends (leader_store ld) from (commit_index ld) (scan_wal (leader_store ld)))"

definition backfill_install :: "nat \<Rightarrow> Lsn \<Rightarrow> Frame list \<Rightarrow> Leader \<Rightarrow> Leader" where
  "backfill_install i ci frames = update_link i (\<lambda>f. f\<lparr>fqueue := frames @ [SyncBarrier ci] @ filter (above_commit ci) (fqueue f)\<rparr>)"

text \<open>The log is read first and the queue rearranged later; in between, other threads may run.\<close>

definition handle_backfill :: "nat \<Rightarrow> Lsn \<Rightarrow> Leader \<Rightarrow> Leader" where
  "handle_backfill i from ld = (case backfill_read from ld of None \<Rightarrow> ld | Some (ci, frames) \<Rightarrow> backfill_install i ci frames ld)"

text \<open>
  \<open>dialer_loop\<close>: a connection that was answered with \<open>NeedFrom\<close> is backfilled and alive; frames that arrive later
  are acknowledgements or further requests.
\<close>

definition dial_connect :: "nat \<Rightarrow> Lsn \<Rightarrow> Leader \<Rightarrow> Leader" where
  "dial_connect i from ld = (if i < length (followers ld) \<and> link_id (followers ld ! i) \<in> set (failed ld) then ld
     else update_link i (\<lambda>f. f\<lparr>alive := True\<rparr>) (handle_backfill i from ld))"

definition dial_receive :: "nat \<Rightarrow> Frame \<Rightarrow> Leader \<Rightarrow> Leader" where
  "dial_receive i frame ld = (case frame of
     SyncAck lsn \<Rightarrow> update_link i (\<lambda>f.
       let f = f\<lparr>match_index := max (match_index f) lsn\<rparr>
       in if lsn \<ge> commit_index ld then f\<lparr>committed_through := commit_index ld\<rparr> else f) ld
   | NeedFrom lsn \<Rightarrow> handle_backfill i lsn ld
   | _ \<Rightarrow> ld)"

definition dial_disconnect :: "nat \<Rightarrow> Leader \<Rightarrow> Leader" where
  "dial_disconnect i ld = update_link i (\<lambda>f. f\<lparr>alive := False\<rparr>) ld"

text \<open>\<open>writer_loop\<close> takes the first frame; when sending it fails the loop ends and the frame is gone.\<close>

definition writer_pop :: "nat \<Rightarrow> Leader \<Rightarrow> Frame option \<times> Leader" where
  "writer_pop i ld = (if i < length (followers ld) then
     (case fqueue (followers ld ! i) of
        [] \<Rightarrow> (None, ld)
      | frame # rest \<Rightarrow> (Some frame, update_link i (\<lambda>f. f\<lparr>fqueue := rest\<rparr>) ld))
     else (None, ld))"

section \<open>Clients\<close>

datatype client_action = Reply Frame | StartPut u64 str bytes | StartCompact | Ignore

text \<open>\<open>count\<close> is the number of syncs that \<open>fault::count\<close> reports.\<close>

definition handle_client :: "u64 \<Rightarrow> Frame \<Rightarrow> Leader \<Rightarrow> client_action \<times> Leader" where
  "handle_client count frame ld = (case frame of
     PutReq rid key value \<Rightarrow> (StartPut rid key value, ld)
   | GetReq rid key \<Rightarrow> (Reply (GetOk rid (case get_upto (leader_store ld) key (commit_index ld) of Inr v \<Rightarrow> v | Inl e \<Rightarrow> None)), ld)
   | StatusReq \<Rightarrow> (Reply (StatusOk (commit_index ld) (map (\<lambda>f. (link_id f, match_index f)) (followers ld))), ld)
   | ProbeFsync \<Rightarrow> (Reply (ProbeFsyncResp count), ld)
   | Compact \<Rightarrow> (StartCompact, ld)
   | ListReq rid pre \<Rightarrow> (Reply (ListOk rid (keys_with_prefix (leader_store ld) pre)), ld)
   | CapacityReq rid pre \<Rightarrow>
       (let agg = capacity (leader_store ld) pre;
            brute = fold (\<lambda>(k, len) (c, b). (c + 1, b + ucast len)) (keys_with_prefix (leader_store ld) pre) (0, 0)
        in (Reply (CapacityOk rid (object_count agg, byte_count agg) brute), ld))
   | SimulateFailure node_id \<Rightarrow>
       (Reply SimulateFailureDone, ld\<lparr>failed := List.insert node_id (failed ld),
          followers := map (\<lambda>f. if link_id f = node_id then f\<lparr>alive := False\<rparr> else f) (followers ld)\<rparr>)
   | _ \<Rightarrow> (Ignore, ld))"

definition put_response :: "u64 \<Rightarrow> put_pc \<Rightarrow> Frame option" where
  "put_response rid pc = (case pc of PutAcked rs \<Rightarrow> Some (PutOk rid) | PutFailed msg \<Rightarrow> Some (PutErr rid msg) | _ \<Rightarrow> None)"

definition compact_response :: "compact_pc \<Rightarrow> Frame option" where
  "compact_response pc = (case pc of CompactFreed freed \<Rightarrow> Some (CompactDone freed) | CompactFailed msg \<Rightarrow> Some (CompactDone 0) | _ \<Rightarrow> None)"

section \<open>The follower\<close>

definition store_last_commit_block :: "Store \<Rightarrow> Lsn" where
  "store_last_commit_block st = last_commit_block (inner st)"

definition store_applied_upto :: "Store \<Rightarrow> Lsn" where
  "store_applied_upto st = applied_upto (inner st)"

definition need_from :: "Store \<Rightarrow> Frame" where
  "need_from st = NeedFrom (store_last_commit_block st + 1)"

text \<open>One round of \<open>apply_loop\<close>: the reply, if any, and whether the connection is kept.\<close>

definition apply_frame :: "sync_io \<Rightarrow> Frame \<Rightarrow> Store \<Rightarrow> (Frame option \<times> bool) \<times> Store" where
  "apply_frame io frame st = (case frame of
     Append lsn rec data \<Rightarrow>
       if lsn \<le> store_last_commit_block st then ((None, True), st)
       else (case apply_record lsn rec data st of
         (Inl e, st) \<Rightarrow> ((None, False), st) | (Inr _, st) \<Rightarrow> ((None, True), st))
   | SyncBarrier lsn \<Rightarrow> (case sync_all io st of
       (Inl e, st) \<Rightarrow> ((None, False), st)
     | (Inr _, st) \<Rightarrow> ((Some (SyncAck (store_applied_upto st)), True), st))
   | _ \<Rightarrow> ((None, True), st))"

fun apply_frames :: "Frame list \<Rightarrow> Store \<Rightarrow> Frame list \<times> Store" where
  "apply_frames [] st = ([], st)"
| "apply_frames (frame # rest) st = (case apply_frame IoOk frame st of
     ((reply, keep), st) \<Rightarrow>
       (let out = (case reply of None \<Rightarrow> [] | Some r \<Rightarrow> [r])
        in if \<not> keep then (out, st) else (let (out', st) = apply_frames rest st in (out @ out', st))))"

text \<open>
  \<open>run_follower\<close> and \<open>FollowerRunner\<close>: connections are numbered; the newest one that says hello as a leader replaces the
  current one, which is shut down, and is handed to the apply loop. The result is the connection shut
  down, if any, and whether the channel to the apply loop is still open.
\<close>

record FollowerRunner =
  runner_current :: "nat option"
  new_streams :: "nat list"
  apply_loop_gone :: bool

definition on_leader_connect :: "nat \<Rightarrow> FollowerRunner \<Rightarrow> (string + nat option) \<times> FollowerRunner" where
  "on_leader_connect stream r =
    (let old = runner_current r; r = r\<lparr>runner_current := Some stream\<rparr>
     in if apply_loop_gone r then (Inl ''apply loop gone'', r)
        else (Inr old, r\<lparr>new_streams := new_streams r @ [stream]\<rparr>))"

definition follower_accept :: "nat \<Rightarrow> Frame \<Rightarrow> FollowerRunner \<Rightarrow> (string + nat option) \<times> FollowerRunner" where
  "follower_accept stream frame r = (case frame of
     Hello i role \<Rightarrow> if role = ROLE_LEADER then on_leader_connect stream r else (Inr None, r)
   | _ \<Rightarrow> (Inr None, r))"

lemma follower_accept_current:
  "follower_accept stream (Hello i ROLE_LEADER) r = (x, r') \<Longrightarrow>
    runner_current r' = Some stream \<and> (\<not> apply_loop_gone r \<longrightarrow> x = Inr (runner_current r) \<and> last (new_streams r') = stream)"
  by (auto simp: follower_accept_def on_leader_connect_def Let_def split: if_splits)

end
