(* ===== verification/Recompaction.thy ===== *)
theory Recompaction
  imports CompactionReads Node
begin

text \<open>
  A segment may be staged for compaction again before the first compaction of it is committed: two clients ask for a compaction at the same time, or the
  first one is given up because the quorum is late, while its records stay in the log. The leader copes with it, a follower does not: the second
  remapping names an old segment that no longer holds the puts.
\<close>

section \<open>The leader\<close>

lemma file_added_choice:
  assumes "file_added s s'"
  shows "choose_segment s' h = choose_segment s h" "keep_list s' h old = keep_list s h old"
    "put_locations s' = put_locations s"
proof -
  have f: "index s' = index s" "put_locations s' = put_locations s" "sealed s' = sealed s" using assms by (auto simp: file_added_def)
  then show "put_locations s' = put_locations s" by simp
  have "reclaimable s' h = reclaimable s h" by (rule ext) (simp add: reclaimable_def live_lsns_def f)
  then show "choose_segment s' h = choose_segment s h" by (simp add: choose_segment_def f)
  show "keep_list s' h old = keep_list s h old" by (simp add: keep_list_def live_lsns_def f)
qed

lemma stage_choice:
  assumes m: "maps_inv vals s" and n: "length (put_locations s) \<le> 2 ^ 32" and run: "inner_compact_stage h s = Some (Inr (Some cs), s')"
  shows "choose_segment s h = Some (cs_old_id cs) \<and> re_lsn ` set (cs_entries cs) = fst ` set (keep_list s h (cs_old_id cs)) \<and>
    cs_new_id cs = next_free_id s"
proof -
  obtain old where c: "choose_segment s h = Some old" using run by (auto simp: inner_compact_stage_def split: option.splits)
  obtain oldf d where "new_file s (keep_list s h old) oldf d (cs_entries cs)" "cs_old_id cs = old" "cs_new_id cs = next_free_id s"
    by (rule compact_stage_parts [OF m n run c]) simp
  then show ?thesis using c new_fileD(6) by simp
qed

section \<open>The follower\<close>

text \<open>The put at \<open>l\<close> has left the segment \<open>old\<close>, and no pending swap brings it back.\<close>

definition put_moved :: "u64 \<Rightarrow> Lsn \<Rightarrow> Inner \<Rightarrow> bool" where
  "put_moved old l s \<longleftrightarrow> (\<exists>k seg off len. map_of (put_locations s) l = Some (k, seg, off, len) \<and> seg \<noteq> old) \<and>
    (\<forall>sw. pending_swap s = Some sw \<longrightarrow> ps_new sw \<noteq> old)"

lemma remap_fold_frame:
  "\<exists>ix pl. fold (remap_entry new) es s = s\<lparr>index := ix, put_locations := pl\<rparr> \<and>
     (map_of pl l = map_of (put_locations s) l \<or> (\<exists>k off len. map_of pl l = Some (k, new, off, len))) \<and>
     (l \<in> re_lsn ` set es \<longrightarrow> (\<exists>k off len. map_of pl l = Some (k, new, off, len)))"
proof (induction es arbitrary: s)
  case Nil
  show ?case by (intro exI [of _ "index s"] exI [of _ "put_locations s"]) simp
next
  case (Cons e es)
  obtain ix where s1: "remap_entry new e s = s\<lparr>index := ix, put_locations := AList.update (re_lsn e) (re_key e, new, re_offset e, re_len e) (put_locations s)\<rparr>"
    (is "_ = ?s1") unfolding remap_entry_eq by blast
  from Cons.IH [of ?s1] obtain ix' pl where ih: "fold (remap_entry new) es ?s1 = ?s1\<lparr>index := ix', put_locations := pl\<rparr>"
    "map_of pl l = map_of (put_locations ?s1) l \<or> (\<exists>k off len. map_of pl l = Some (k, new, off, len))"
    "l \<in> re_lsn ` set es \<longrightarrow> (\<exists>k off len. map_of pl l = Some (k, new, off, len))" by blast
  have "fold (remap_entry new) (e # es) s = s\<lparr>index := ix', put_locations := pl\<rparr>" using s1 ih(1) by simp
  then show ?case using ih(2,3) by (intro exI [of _ ix'] exI [of _ pl]) (auto simp: update_conv')
qed

lemma finalize_cases:
  assumes "finalize_pending_swap s = (r, s')"
  shows "pending_swap s' = None \<and> last_commit_block s' = last_commit_block s \<and>
    (put_locations s' = put_locations s \<and> (\<forall>sw. pending_swap s = Some sw \<longrightarrow> r \<noteq> Inr ()) \<or>
     (\<exists>sw. pending_swap s = Some sw \<and>
        (map_of (put_locations s') l = map_of (put_locations s) l \<or> (\<exists>k off len. map_of (put_locations s') l = Some (k, ps_new sw, off, len))) \<and>
        (l \<in> re_lsn ` set (ps_entries sw) \<longrightarrow> (\<exists>k off len. map_of (put_locations s') l = Some (k, ps_new sw, off, len)))))"
proof (cases "pending_swap s")
  case None
  then show ?thesis using assms by (auto simp: finalize_pending_swap_def)
next
  case (Some sw)
  let ?s1 = "s\<lparr>pending_swap := None, dir := sync_data (ps_file sw) (dir s)\<rparr>"
  have fr: "\<exists>ix pl. fold (remap_entry (ps_new sw)) (ps_entries sw) (?s1\<lparr>dir := d\<rparr>) = ?s1\<lparr>dir := d, index := ix, put_locations := pl\<rparr> \<and>
     (map_of pl l = map_of (put_locations s) l \<or> (\<exists>k off len. map_of pl l = Some (k, ps_new sw, off, len))) \<and>
     (l \<in> re_lsn ` set (ps_entries sw) \<longrightarrow> (\<exists>k off len. map_of pl l = Some (k, ps_new sw, off, len)))" for d
    using remap_fold_frame [of "ps_new sw" "ps_entries sw" "?s1\<lparr>dir := d\<rparr>" l] by simp
  show ?thesis
  proof (cases "rename_file (tmp_name (ps_new sw)) (seg_name (ps_new sw)) (dir ?s1)")
    case (Inl e)
    then show ?thesis using assms Some by (auto simp: finalize_pending_swap_def Let_def)
  next
    case (Inr d)
    then have d: "rename_file (tmp_name (ps_new sw)) (seg_name (ps_new sw)) (sync_data (ps_file sw) (dir s)) = Inr d" by simp
    show ?thesis
    proof (cases "open_existing (seg_name (ps_new sw)) d")
      case (Inl e)
      then show ?thesis using assms Some d by (auto simp: finalize_pending_swap_def Let_def)
    next
      case (Inr i)
      obtain ix pl where t: "fold (remap_entry (ps_new sw)) (ps_entries sw) (?s1\<lparr>dir := d\<rparr>) = ?s1\<lparr>dir := d, index := ix, put_locations := pl\<rparr>"
        and pl: "map_of pl l = map_of (put_locations s) l \<or> (\<exists>k off len. map_of pl l = Some (k, ps_new sw, off, len))"
          "l \<in> re_lsn ` set (ps_entries sw) \<longrightarrow> (\<exists>k off len. map_of pl l = Some (k, ps_new sw, off, len))" using fr [of d] by blast
      have "put_locations s' = pl" "pending_swap s' = None" "last_commit_block s' = last_commit_block s"
        using assms Some d Inr t by (auto simp: finalize_pending_swap_def Let_def)
      then show ?thesis using pl Some by simp
    qed
  qed
qed

lemma finalize_moves:
  assumes "finalize_pending_swap s = (r, s')" "put_moved old l s"
  shows "put_moved old l s'"
  using finalize_cases [OF assms(1), of l] assms(2) unfolding put_moved_def by (auto del: disjCI)

lemma finalize_moved:
  assumes "finalize_pending_swap s = (Inr (), s')" "pending_swap s = Some sw" "l \<in> re_lsn ` set (ps_entries sw)" "ps_new sw \<noteq> old"
  shows "put_moved old l s'"
  using finalize_cases [OF assms(1), of l] assms(2-4) by (auto simp: put_moved_def)

lemma append_at_frame:
  assumes "inner_append_at rec l s = (r, s')"
  shows "\<exists>w. s' = s\<lparr>wal := w\<rparr>"
  using assms by (auto simp: inner_append_at_def split: sum.splits intro: exI [of _ "wal s"])

lemma apply_swap_moves:
  assumes m: "put_moved old l s" and n: "new \<noteq> old" and run: "inner_apply_record p (SegmentSwap old new) None s = (r, s')"
  shows "put_moved old l s'" "last_commit_block s' = last_commit_block s"
    "r = Inr () \<Longrightarrow> \<exists>sw. pending_swap s' = Some sw \<and> ps_old sw = old \<and> ps_new sw = new"
proof -
  let ?s = "s\<lparr>applied_upto := max (applied_upto s) p\<rparr>"
  have m0: "put_moved old l ?s" using m by (simp add: put_moved_def)
  obtain r1 s1 where f: "finalize_pending_swap ?s = (r1, s1)" by force
  have m1: "put_moved old l s1" and c1: "last_commit_block s1 = last_commit_block s"
    using finalize_moves [OF f m0] finalize_cases [OF f] by auto
  obtain i d where o: "open_truncate (tmp_name new) (dir s1) = (i, d)" by force
  obtain r2 s2 where a: "inner_append_at (SegmentSwap old new) p (s1\<lparr>dir := d\<rparr>) = (r2, s2)" by force
  obtain w where s2: "s2 = s1\<lparr>dir := d, wal := w\<rparr>" using append_at_frame [OF a] by auto
  let ?s3 = "s2\<lparr>pending_swap := Some \<lparr>ps_lsn = p, ps_old = old, ps_new = new, ps_file = i, ps_entries = []\<rparr>, pending := True\<rparr>"
  have "inner_apply_record p (SegmentSwap old new) None s = (case r1 of Inl e \<Rightarrow> (Inl e, s1)
      | Inr _ \<Rightarrow> (case r2 of Inl e \<Rightarrow> (Inl e, s2) | Inr _ \<Rightarrow> (Inr (), ?s3)))"
    using f o a by (simp add: inner_apply_record_def op_bind_def op_basic Let_def split: sum.split)
  then have c: "s' = s1 \<and> r \<noteq> Inr () \<or> s' = s2 \<and> r \<noteq> Inr () \<or> s' = ?s3" using run by (auto split: sum.splits)
  have m2: "put_moved old l s2" "put_moved old l ?s3" using m1 n by (simp_all add: s2 put_moved_def)
  show "put_moved old l s'" using c m1 m2 by (elim disjE conjE) simp_all
  show "last_commit_block s' = last_commit_block s" using c c1 by (elim disjE conjE) (simp_all add: s2)
  show "\<exists>sw. pending_swap s' = Some sw \<and> ps_old sw = old \<and> ps_new sw = new" if "r = Inr ()" using c that by auto
qed

lemma apply_remap_refused:
  assumes m: "put_moved old (re_lsn e) s" and sw: "pending_swap s = Some sw" "ps_old sw = old" "ps_new sw = new"
    and run: "inner_apply_record p (SegmentRemap new (e # es)) None s = (r, s')"
  shows "(\<exists>x. r = Inl x) \<and> put_moved old (re_lsn e) s' \<and> last_commit_block s' = last_commit_block s"
proof -
  let ?s = "s\<lparr>applied_upto := max (applied_upto s) p\<rparr>"
  obtain k seg off len where l: "map_of (put_locations s) (re_lsn e) = Some (k, seg, off, len)" "seg \<noteq> old" and n: "new \<noteq> old"
    using m sw by (auto simp: put_moved_def)
  obtain r1 s1 where a: "inner_append_at (SegmentRemap new (e # es)) p ?s = (r1, s1)" by force
  obtain w where s1: "s1 = ?s\<lparr>wal := w\<rparr>" using append_at_frame [OF a] by auto
  have "\<exists>x. r = Inl x \<and> (s' = s1 \<or> s' = s1\<lparr>pending_swap := Some sw\<rparr>)"
    using run a l sw by (cases r1) (auto simp: inner_apply_record_def op_bind_def op_basic Let_def s1)
  then show ?thesis using l n sw by (auto simp: s1 put_moved_def)
qed

text \<open>The frames of the second compaction of a segment.\<close>

definition recompaction_frames :: "u64 \<Rightarrow> u64 \<Rightarrow> RemapEntry list \<Rightarrow> Lsn \<Rightarrow> Frame list" where
  "recompaction_frames old new es p = [Append p (SegmentSwap old new) None, Append (p + 1) (SegmentRemap new es) None, SyncBarrier (p + 1)]"

lemma recompaction_refused:
  assumes m: "put_moved old (re_lsn e) (inner st)" and n: "new \<noteq> old" and p: "p > store_last_commit_block st" "p + 1 > store_last_commit_block st"
  shows "\<exists>st'. apply_frames (recompaction_frames old new (e # es) p) st = ([], st') \<and> put_moved old (re_lsn e) (inner st') \<and>
    store_last_commit_block st' = store_last_commit_block st"
proof -
  obtain r1 s1 where a: "inner_apply_record p (SegmentSwap old new) None (inner st) = (r1, s1)" by force
  note k = apply_swap_moves [OF m n a]
  have p1: "\<not> p \<le> store_last_commit_block st" "\<not> p + 1 \<le> last_commit_block s1"
    using p k(2) by (auto simp: store_last_commit_block_def)
  show ?thesis
  proof (cases r1)
    case (Inl x)
    then have "apply_frames (recompaction_frames old new (e # es) p) st = ([], st\<lparr>inner := s1\<rparr>)"
      using a p1 by (simp add: recompaction_frames_def apply_frame_def apply_record_def locked_def)
    then show ?thesis using k(1,2) by (simp add: store_last_commit_block_def)
  next
    case (Inr u)
    then obtain sw where sw: "pending_swap s1 = Some sw" "ps_old sw = old" "ps_new sw = new" using k(3) by auto
    obtain r2 s2 where b: "inner_apply_record (p + 1) (SegmentRemap new (e # es)) None s1 = (r2, s2)" by force
    from apply_remap_refused [OF k(1) sw b] obtain x where x: "r2 = Inl x" "put_moved old (re_lsn e) s2" "last_commit_block s2 = last_commit_block s1" by blast
    have "apply_frames (recompaction_frames old new (e # es) p) st = ([], st\<lparr>inner := s2\<rparr>)"
      using a b x(1) p1 Inr by (simp add: recompaction_frames_def apply_frame_def apply_record_def locked_def store_last_commit_block_def)
    then show ?thesis using x k(2) by (simp add: store_last_commit_block_def)
  qed
qed

text \<open>The leader sends the batch again whenever the follower reconnects.\<close>

definition resend :: "u64 \<Rightarrow> u64 \<Rightarrow> RemapEntry list \<Rightarrow> Lsn \<Rightarrow> Store \<Rightarrow> Store" where
  "resend old new es p st = snd (apply_frames (recompaction_frames old new es p) st)"

lemma resend_refused:
  assumes "put_moved old (re_lsn e) (inner st)" "new \<noteq> old"
    "\<And>q. q \<in> set (p # ps) \<Longrightarrow> q > store_last_commit_block st \<and> q + 1 > store_last_commit_block st"
  shows "fst (apply_frames (recompaction_frames old new (e # es) p) (fold (resend old new (e # es)) ps st)) = []"
  using assms
proof (induction ps arbitrary: st)
  case Nil
  then show ?case using recompaction_refused [OF Nil.prems(1,2), of p es] by auto
next
  case (Cons q ps)
  obtain st' where st': "apply_frames (recompaction_frames old new (e # es) q) st = ([], st')" "put_moved old (re_lsn e) (inner st')"
    "store_last_commit_block st' = store_last_commit_block st"
    using recompaction_refused [OF Cons.prems(1,2), of q es] Cons.prems(3) [of q] by auto
  have "fst (apply_frames (recompaction_frames old new (e # es) p) (fold (resend old new (e # es)) ps st')) = []"
  proof (rule Cons.IH [OF st'(2) Cons.prems(2)])
    show "q > store_last_commit_block st' \<and> q + 1 > store_last_commit_block st'" if "q \<in> set (p # ps)" for q
      using Cons.prems(3) [of q] that by (auto simp: st'(3))
  qed
  moreover have "resend old new (e # es) q st = st'" using st'(1) by (simp add: resend_def)
  ultimately show ?case by simp
qed

lemma sync_all_moved:
  assumes run: "sync_all IoOk st = (Inr (), st')" and sw: "pending_swap (inner st) = Some sw" "l \<in> re_lsn ` set (ps_entries sw)" "ps_new sw \<noteq> old"
  shows "put_moved old l (inner st')"
proof -
  obtain s1 s2 where f: "finalize_pending_swap (inner st) = (Inr (), s1)" "inner_sync IoOk (fsync_dirty_segments s1) = (Inr (), s2)"
    and st': "inner st' = (remove_committed_retired_segments s2)\<lparr>dirty_segments := []\<rparr>"
    using run by (auto simp: sync_all_def locked_def op_bind_Inr op_basic publish_def split: prod.splits)
  have "put_locations s2 = put_locations s1" "pending_swap s2 = pending_swap s1"
    using f(2) by (auto simp: inner_sync_def fsync_dirty_segments_def split: prod.splits)
  then show ?thesis using finalize_moved [OF f(1) sw] by (simp add: st' put_moved_def remove_committed_retired_segments_def Let_def)
qed

section \<open>Property\<close>


text \<open>A follower that has received the records of a compaction.\<close>

definition swapped_follower :: "CompactStage \<Rightarrow> Store" where
  "swapped_follower cs = \<lparr>inner = (fresh_inner \<lparr>dir_entries = [(tmp_name (cs_new_id cs), 0)], inodes = [empty_file]\<rparr> 1 (wal_open None))
      \<lparr>pending_swap := Some \<lparr>ps_lsn = 1, ps_old = cs_old_id cs, ps_new = cs_new_id cs, ps_file = 0, ps_entries = cs_entries cs\<rparr>\<rparr>,
    snap = \<lparr>snap_committed = 0, snap_index = [], snap_files = [], snap_put_locations = [], snap_rollup = Rollup_default\<rparr>\<rparr>"

lemma swapped_follower_syncs: "\<exists>fo1. sync_all IoOk (swapped_follower cs) = (Inr (), fo1) \<and> store_last_commit_block fo1 = 0"
proof -
  let ?s = "inner (swapped_follower cs)"
  have "\<exists>s1. finalize_pending_swap ?s = (Inr (), s1)"
    by (simp add: swapped_follower_def finalize_pending_swap_def fresh_inner_def rename_file_def open_existing_def lookup_file_def sync_data_def Let_def update_conv')
  then obtain s1 where f: "finalize_pending_swap ?s = (Inr (), s1)" by blast
  have c: "last_commit_block s1 = 0" using finalize_cases [OF f] by (simp add: swapped_follower_def fresh_inner_def)
  obtain w where "sync IoOk (wal s1) = (Inr (), w)" using sync_IoOk by blast
  then show ?thesis using f c
    by (simp add: sync_all_def locked_def op_bind_def op_basic inner_sync_def fsync_dirty_segments_def publish_def store_last_commit_block_def
        remove_committed_retired_segments_def Let_def)
qed


end
