(* ===== verification/CrashRecovery.thy ===== *)
theory CrashRecovery
  imports Writer
begin

text \<open>
  Runs of a store that puts, commits, flushes, syncs, crashes and is opened again, in any order, and what
  a crash at any point leaves: the snapshot published last, or, in the middle of a commit, either that one or the new one.
\<close>

section \<open>Crashes\<close>

text \<open>
  The directory survives. Of a file, a crash keeps at least the prefix on which the synced and the
  current contents agree; what follows is arbitrary.
\<close>

definition crash_disk :: "disk \<Rightarrow> disk \<Rightarrow> bool" where
  "crash_disk d d' \<longleftrightarrow> dir_entries d' = dir_entries d \<and> length (inodes d') = length (inodes d) \<and>
    (\<forall>i. file_synced d' i = file_data d' i) \<and>
    (\<forall>i n. synced_to d i n \<longrightarrow> n \<le> length (file_data d' i) \<and> take n (file_data d' i) = take n (file_data d i))"

definition lose_unsynced :: "disk \<Rightarrow> disk" where
  "lose_unsynced d = d\<lparr>inodes := map (\<lambda>f. f\<lparr>fdata := fsynced f\<rparr>) (inodes d)\<rparr>"

lemma crash_lose_unsynced: "crash_disk d (lose_unsynced d)"
proof -
  have "file_data (lose_unsynced d) i = file_synced d i" "file_synced (lose_unsynced d) i = file_synced d i" for i
    by (simp_all add: lose_unsynced_def file_data_def file_synced_def)
  moreover have "n \<le> length xs \<Longrightarrow> take n ys = take n xs \<Longrightarrow> n \<le> length ys" for n and xs ys :: bytes
    by (metis length_take min.absorb2 min.cobounded1)
  ultimately show ?thesis unfolding crash_disk_def synced_to_def by (auto simp: lose_unsynced_def)
qed

section \<open>Opening after a crash\<close>

lemma read_value_take:
  "unat off + unat len \<le> n \<Longrightarrow> n \<le> length a \<Longrightarrow> n \<le> length b \<Longrightarrow> take n a = take n b \<Longrightarrow>
    read_value (take n a) off len = read_value b off len"
proof -
  assume a: "unat off + unat len \<le> n" "n \<le> length a" "n \<le> length b" "take n a = take n b"
  have "take (unat len) (drop (unat off) b) = take (unat len) (drop (unat off) (take n b))" using a(1) by (simp add: drop_take min_def)
  then show ?thesis using a by (simp add: read_value_def)
qed

lemma crash_files_reach:
  assumes "inner_inv s" "lens_ok {} l s" "crash_disk (dir s) d"
  shows "files_reach l d"
  unfolding files_reach_def
proof (intro allI impI)
  fix sid t assume t: "map_of (l_len l) sid = Some t" "t \<noteq> 0"
  then obtain i where i: "map_of (segments s) sid = Some i" "synced_to (dir s) i (unat t)" using assms(2) by (auto simp: lens_ok_def)
  have "lookup_file (seg_name sid) d = Some i"
    using inner_inv_segment [OF assms(1) i(1)] assms(3) by (simp add: crash_disk_def lookup_file_def)
  then show "\<exists>i. lookup_file (seg_name sid) d = Some i \<and> unat t \<le> length (file_data d i)"
    using i(2) assms(3) by (auto simp: crash_disk_def)
qed

text \<open>A region below the length that the log gives its segment is there and protected, with the bytes it had before the crash.\<close>

lemma recovered_segment:
  assumes "recovered l d s" "map_of (segments s) sid = Some i"
  shows "lookup_file (seg_name sid) (dir s) = Some i \<and> i < length (inodes (dir s))"
  using assms unfolding recovered_def disk_ok_def by blast

lemma recovered_region:
  assumes r: "recovered l d s" and l: "layout_ok l" and t: "map_of (l_len l) sg = Some t" "unat off + unat len \<le> unat t"
  shows "\<exists>i. map_of (segments s) sg = Some i \<and> protected_region s i off len"
proof -
  note seg = recovered_segment [OF r]
  obtain i where i: "map_of (segments s) sg = Some i"
    "t \<noteq> 0 \<longrightarrow> file_data (dir s) i = take (unat t) (file_data d i) \<and> unat t \<le> length (file_data d i)"
    using r t(1) unfolding recovered_def by blast
  have "sg = active_id s" if "lookup_file (seg_name (active_id s)) (dir s) = Some i"
    using that seg [OF i(1)] r seg_name_inj unfolding recovered_def disk_ok_def by metis
  then have act: "lookup_file (seg_name (active_id s)) (dir s) = Some i \<longrightarrow> unat off + unat len \<le> unat (active_offset s)"
    using t l r by (auto simp: layout_ok_def recovered_def)
  have "len \<noteq> 0 \<longrightarrow> unat off + unat len \<le> length (file_data (dir s) i)" using i(2) t(2) by (cases "t = 0") (auto simp: unat_eq_0)
  then show ?thesis using i(1) seg [OF i(1)] act by (auto simp: protected_region_def)
qed

lemma recovered_value:
  assumes lens: "lens_ok {} l s0" and inv: "inner_inv s0" and crash: "crash_disk (dir s0) d" and r: "recovered l d s"
    and t: "map_of (l_len l) sg = Some t" "unat off + unat len \<le> unat t"
    and ij: "map_of (segments s) sg = Some i" "map_of (segments s0) sg = Some j"
  shows "read_value (file_data (dir s) i) off len = read_value (file_data (dir s0) j) off len"
proof (cases "t = 0")
  case True
  then show ?thesis using t(2) by (simp add: read_value_def)
next
  case False
  have i: "lookup_file (seg_name sg) d = Some i" "file_data (dir s) i = take (unat t) (file_data d i)" "unat t \<le> length (file_data d i)"
    using r t(1) False ij(1) unfolding recovered_def by (metis option.inject)+
  have "lookup_file (seg_name sg) d = Some j"
    using inner_inv_segment [OF inv ij(2)] crash by (simp add: crash_disk_def lookup_file_def)
  moreover have "synced_to (dir s0) j (unat t)" using lens t(1) False ij(2) by (fastforce simp: lens_ok_def)
  then have "take (unat t) (file_data d j) = take (unat t) (file_data (dir s0) j)" "unat t \<le> length (file_data (dir s0) j)"
    using crash by (auto simp: crash_disk_def synced_to_def)
  ultimately show ?thesis using i t(2) by (simp add: read_value_take)
qed

lemma recovered_inner_inv:
  assumes r: "recovered l d s" and l: "layout_ok l"
  shows "inner_inv s"
proof -
  note seg = recovered_segment [OF r]
  have "\<exists>i. map_of (segments s) sg = Some i \<and> protected_region s i off len" if "map_of (l_index l) k = Some (sg, off, len, lsn)" for k sg off len lsn
    using recovered_region [OF r l, of sg _ off len] l that unfolding layout_ok_def by blast
  moreover have "lookup_file (seg_name sid) (dir s) = None" if "next_free_id s \<le> sid" for sid
  proof (rule ccontr)
    assume "lookup_file (seg_name sid) (dir s) \<noteq> None"
    then have "seg_name sid \<in> fst ` set (dir_entries (dir s))" by (auto simp: lookup_file_def simp flip: dom_map_of_conv_image_fst)
    moreover have "ids_below (next_free_id s) l (dir s)" using r by (simp add: recovered_def)
    ultimately have "sid < next_free_id s" unfolding ids_below_def by (metis seg_name_inj)
    then show False using that by simp
  qed
  moreover have "active_id s < next_free_id s" using r by (simp add: recovered_def ids_below_def used_ids_def)
  ultimately show ?thesis using r seg unfolding inner_inv_def index_ok_def by (simp add: recovered_def)
qed

lemma recovered_lens:
  assumes "recovered l d s" "\<And>i. file_synced d i = file_data d i"
  shows "lens_ok {} l s"
  unfolding lens_ok_def
proof (intro allI impI)
  fix sid t assume t: "map_of (l_len l) sid = Some t" "t \<noteq> 0"
  then obtain i where "map_of (segments s) sid = Some i" "file_data (dir s) i = take (unat t) (file_data d i)"
    "file_synced (dir s) i = file_synced d i" "unat t \<le> length (file_data d i)" using assms(1) unfolding recovered_def by blast
  then show "\<exists>i. map_of (segments s) sid = Some i \<and> unat t \<le> length (file_data (dir s) i) \<and> (sid \<in> {} \<or> synced_to (dir s) i (unat t))"
    using assms(2) by (auto simp: synced_to_def)
qed

text \<open>The store that is opened serves what a snapshot of the same layout served.\<close>

lemma recovered_reads:
  assumes snap: "snap_follows l st" and lens: "lens_ok {} l (inner st)" and inv: "inner_inv (inner st)" and l: "layout_ok l"
    and crash: "crash_disk (dir (inner st)) d" and r: "recovered l d s"
  shows "store_get \<lparr>inner = s, snap = Snap_from s\<rparr> k = store_get st k"
proof (cases "map_of (l_index l) k")
  case None
  then show ?thesis using snap r by (simp add: store_get_def Snap_from_def snap_follows_def recovered_def)
next
  case (Some loc)
  obtain sg off len lsn where loc: "loc = (sg, off, len, lsn)" by (metis prod_cases4)
  obtain t where t: "map_of (l_len l) sg = Some t" "unat off + unat len \<le> unat t" using l Some loc unfolding layout_ok_def by blast
  obtain i where i: "map_of (segments s) sg = Some i" using recovered_region [OF r l t] by blast
  obtain j where j: "map_of (snap_files (snap st)) sg = Some j" "map_of (segments (inner st)) sg = Some j"
    using snap Some loc unfolding snap_follows_def index_ok_def by metis
  from recovered_value [OF lens inv crash r t i j(2)] show ?thesis using snap r Some loc i j(1)
    by (simp add: store_get_def Snap_from_def snap_follows_def recovered_def read_snap_def)
qed

text \<open>A store that has every byte of the log \<open>c\<close> on stable storage, and whose published snapshot is the layout of \<open>c\<close>.\<close>

definition stable :: "entry list \<Rightarrow> Inner \<Rightarrow> bool" where
  "stable c s \<longleftrightarrow> inner_inv s \<and> good_log c \<and> ids_below (next_free_id s) (layout_of c) (dir s) \<and>
    unat (next_free_id s) \<le> 10 ^ 8 \<and> distinct (map fst (dir_entries (dir s))) \<and> lens_ok {} (layout_of c) s"

definition serves :: "entry list \<Rightarrow> Store \<Rightarrow> bool" where
  "serves c st \<longleftrightarrow> stable c (inner st) \<and> snap_follows (layout_of c) st"

lemma stable_prefix:
  assumes w: "writer_inv lg s" and c: "prefix c lg" "lens_ok {} (layout_of c) s"
  shows "stable c s"
proof -
  obtain r where lg: "lg = c @ r" using c(1) by (auto elim: prefixE)
  have g: "good_log (c @ r)" using w lg by (simp add: writer_inv_def)
  then have "ids_below (next_free_id s) (layout_of c) (dir s)"
    using w used_ids_mono [OF g] unfolding writer_inv_def ids_below_def lg by blast
  then show ?thesis using w c(2) good_log_prefix [OF g] by (simp add: writer_inv_def stable_def)
qed

lemma serves_leader:
  assumes "leader_inv lg st"
  shows "serves (committed_prefix lg) st"
proof -
  have "prefix (committed_prefix lg) lg" using committed_prefix_split [of lg] by (metis prefixI)
  then show ?thesis using assms stable_prefix [of lg "inner st"] by (simp add: leader_inv_def serves_def)
qed

lemma serves_names:
  assumes s: "unat n \<le> 10 ^ 8" "distinct (map fst (dir_entries d0))" "ids_below n l d0" and ent: "dir_entries d = dir_entries d0"
  shows "names_ok d" "\<forall>sid \<in> used_ids l. unat sid < 10 ^ 8"
proof -
  have lt: "unat x < 10 ^ 8" if "x < n" for x using that s(1) by (simp add: word_less_nat_alt)
  show "names_ok d" using s(2,3) lt unfolding names_ok_def ids_below_def ent by metis
  show "\<forall>sid \<in> used_ids l. unat sid < 10 ^ 8" using s(3) lt unfolding ids_below_def by blast
qed

text \<open>Opening the directory and the log that a crash left, when the log commits \<open>c\<close>.\<close>

lemma open_eq:
  assumes bs: "bs = log_bytes rl @ tail" "list_all entry_ok rl" "scan_blocks tail = []"
    and rec: "recover (committed_prefix rl) (fresh_inner d m (wal_open (Some \<lparr>fdata = bs, fsynced = bs\<rparr>))) = (Inr (), s')"
  shows "open_with_options d (Some \<lparr>fdata = bs, fsynced = bs\<rparr>) m = (Inr \<lparr>inner = s', snap = Snap_from s'\<rparr>, dir s')"
proof -
  have "scan (Some bs) = rl" using bs scan_log [OF bs(2)] by (simp add: scan_def)
  then show ?thesis using rec by (simp add: open_with_options_def replay_eq)
qed

lemma open_after_crash:
  assumes sv: "stable c s" and crash: "crash_disk (dir s) d"
    and bs: "bs = log_bytes rl @ tail" "list_all entry_ok rl" "scan_blocks tail = []" "committed_prefix rl = c"
  shows "\<exists>s'. open_with_options d (Some \<lparr>fdata = bs, fsynced = bs\<rparr>) m = (Inr \<lparr>inner = s', snap = Snap_from s'\<rparr>, dir s') \<and>
    recovered (layout_of c) d s' \<and> leader_inv c \<lparr>inner = s', snap = Snap_from s'\<rparr>"
proof -
  let ?f = "\<lparr>fdata = bs, fsynced = bs\<rparr>" and ?l = "layout_of c" and ?s = s
  have inv: "inner_inv ?s" and gc: "good_log c" and ids: "ids_below (next_free_id ?s) ?l (dir ?s)" and lens: "lens_ok {} ?l ?s"
    and small: "unat (next_free_id ?s) \<le> 10 ^ 8" and dist: "distinct (map fst (dir_entries (dir ?s)))"
    using sv by (simp_all add: stable_def)
  have "dir_entries d = dir_entries (dir ?s)" using crash by (simp add: crash_disk_def)
  note nm = serves_names [OF small dist ids this]
  have disk: "disk_ok d" using inv crash by (simp add: inner_inv_def disk_ok_def crash_disk_def lookup_file_def)
  obtain s' where rec: "recover c (fresh_inner d m (wal_open (Some ?f))) = (Inr (), s')" "wal s' = wal_open (Some ?f)" "recovered ?l d s'"
    using recover_ok [OF gc nm(1) disk crash_files_reach [OF inv lens crash] nm(2)] by blast
  let ?st = "\<lparr>inner = s', snap = Snap_from s'\<rparr>"
  have "open_with_options d (Some ?f) m = (Inr ?st, dir s')" using open_eq [OF bs(1-3), of d m s'] rec(1) bs(4) by simp
  moreover have lens: "lens_ok {} ?l s'" using recovered_lens [OF rec(3)] crash by (simp add: crash_disk_def)
  have inv': "inner_inv s'" using recovered_inner_inv [OF rec(3) layout_ok_good [OF gc]] .
  have "writer_inv c s'"
    using inv' gc lens rec(3) by (simp add: writer_inv_def recovered_def follows_def)
  moreover have h: "wal_holds (wal s') c []" using open_holds(1) [of ?f rl tail] bs unfolding rec(2) by simp
  moreover have fs: "fsynced (wal_file (wal s')) = log_bytes rl @ tail"
    unfolding rec(2) bs(1) by (simp add: wal_open_def split: prod.split)
  moreover have "durable_log (wal s') = c" using durable_log_eq [OF fs bs(2,3)] bs(4) by simp
  moreover have "wal_inv (wal s')" unfolding wal_inv_def using h fs bs by blast
  moreover have "committed_prefix c = c" using bs(4) by auto
  ultimately show ?thesis
    using rec(3) lens inv' by (auto simp: leader_inv_def wal_has_def snap_follows_def Snap_from_def recovered_def inner_inv_def)
qed

lemma serves_crash:
  assumes sv: "serves c st" and crash: "crash_disk (dir (inner st)) d"
    and bs: "bs = log_bytes rl @ tail" "list_all entry_ok rl" "scan_blocks tail = []" "committed_prefix rl = c"
  shows "\<exists>st'. open_with_options d (Some \<lparr>fdata = bs, fsynced = bs\<rparr>) m = (Inr st', dir (inner st')) \<and>
    leader_inv c st' \<and> (\<forall>k. store_get st' k = store_get st k) \<and> (\<forall>p. capacity st' p = capacity st p)"
proof -
  from open_after_crash [OF _ crash bs, of m] sv obtain s' where
    op: "open_with_options d (Some \<lparr>fdata = bs, fsynced = bs\<rparr>) m = (Inr \<lparr>inner = s', snap = Snap_from s'\<rparr>, dir s')"
    and r: "recovered (layout_of c) d s'" and l: "leader_inv c \<lparr>inner = s', snap = Snap_from s'\<rparr>" unfolding serves_def by blast
  have s: "snap_follows (layout_of c) st" "lens_ok {} (layout_of c) (inner st)" "inner_inv (inner st)" "layout_ok (layout_of c)"
    using sv layout_ok_good by (simp_all add: serves_def stable_def)
  have "capacity \<lparr>inner = s', snap = Snap_from s'\<rparr> p = capacity st p" for p
    using r s(1) by (simp add: capacity_def Snap_from_def recovered_def snap_follows_def)
  then show ?thesis using op l recovered_reads [OF s crash r] by auto
qed

section \<open>Steps of the store\<close>

lemma snap_follows_step:
  assumes "snap_follows l st" "snap st' = snap st" "safe_step (inner st) (inner st')"
    and "\<And>x j. map_of (segments (inner st)) x = Some j \<Longrightarrow> map_of (segments (inner st')) x = Some j"
  shows "snap_follows l st'"
  using assms safe_step_index [OF assms(3)] unfolding snap_follows_def by metis

lemma leader_stage:
  assumes inv: "leader_inv lg st" and r: "room (inner st) v" and key: "utf8_valid key" and run: "stage_put key v st = (Inr sp, st')"
  shows "leader_inv (lg @ staged_records sp) st'"
proof -
  let ?s = "inner st" and ?c = "committed_prefix lg"
  obtain s' where s': "inner_stage_put key v ?s = (Inr sp, s')" "st' = st\<lparr>inner := s'\<rparr>"
    using run by (auto simp: stage_put_def locked_def split: prod.splits)
  have w: "writer_inv lg ?s" "wal_has (wal ?s) lg" "lens_ok {} (layout_of ?c) ?s" "durable_log (wal ?s) = ?c" and snap: "snap_follows (layout_of ?c) st"
    using inv by (simp_all add: leader_inv_def)
  have inn: "inner_inv ?s" using w(1) by (simp add: writer_inv_def)
  have p: "prefix ?c lg" using committed_prefix_split [of lg] by (metis prefixI)
  have l: "logs ?c lg ?s (staged_records sp) s'" using stage_put_logs [OF r inn key s'(1)] .
  have ok: "safe_step ?s s'" "\<forall>x j. map_of (segments ?s) x = Some j \<longrightarrow> map_of (segments s') x = Some j"
    using stage_put_ok [OF inn _ s'(1)] r by (simp_all add: room_def)
  have "list_all (\<lambda>e. \<not> is_commit (snd e)) (staged_records sp)" using l w p by (simp add: logs_def)
  note cp = committed_prefix_append [OF this, of lg]
  have "snap_follows (layout_of ?c) st'"
    using snap_follows_step [OF snap, of st'] ok by (simp add: s'(2))
  then show ?thesis using l w p by (simp add: leader_inv_def cp logs_def s'(2))
qed

lemma leader_commit:
  assumes inv: "leader_inv lg st" and run: "commit IoOk lsn st = (r, st')" and p: "pending (inner st)"
  shows "\<exists>e. is_commit (snd e) \<and> leader_inv (lg @ [e]) st' \<and> r = Inr () \<and>
    dir (inner st') = dir (fsync_dirty_segments (inner st)) \<and> segments (inner st') = segments (inner st) \<and> e = (next_lsn (wal (inner st)), Commit lsn)"
proof -
  let ?s = "inner st"
  obtain s' where s': "inner_commit IoOk lsn ?s = (Inr (), s')" using commit_IoOk by blast
  have st': "st' = publish (st\<lparr>inner := s'\<rparr>)" "r = Inr ()"
    using run p s' by (auto simp: commit_def op_bind_def locked_def op_basic)
  have "writer_inv lg ?s" "wal_has (wal ?s) lg" using inv by (simp_all add: leader_inv_def)
  from commit_writer [OF this s'] obtain e where e: "e = (next_lsn (wal ?s), Commit lsn)" "writer_inv (lg @ [e]) s'" "wal_has (wal s') (lg @ [e])"
    "durable_log (wal s') = lg @ [e]" "lens_ok {} (layout_of (lg @ [e])) s'" by blast
  have cp: "committed_prefix (lg @ [e]) = lg @ [e]" by (simp add: committed_prefix_snoc e(1) is_commit_def)
  have "inner_inv s'" "follows (layout_of (lg @ [e])) s'" using e(2) by (simp_all add: writer_inv_def)
  then have "snap_follows (layout_of (lg @ [e])) st'" unfolding st'(1) by (simp add: publish_def snap_follows_def Snap_from_def follows_def inner_inv_def)
  then have "leader_inv (lg @ [e]) st'" using e(2-5) unfolding leader_inv_def cp by (simp add: st' publish_def)
  moreover have "dir s' = dir (fsync_dirty_segments ?s)" "segments s' = segments ?s" using commit_run [OF s'] by blast+
  ultimately show ?thesis using e(1) st' by (intro exI [of _ e]) (simp add: is_commit_def publish_def)
qed

lemma leader_sync_wal:
  assumes inv: "leader_inv lg st" and run: "sync_wal IoOk st = (r, st')"
  shows "leader_inv lg st'"
proof -
  obtain w where w: "sync IoOk (wal (inner st)) = (Inr (), w)" using sync_IoOk by blast
  have st': "st' = st\<lparr>inner := (inner st)\<lparr>wal := w\<rparr>\<rparr>" using run w by (auto simp: sync_wal_def locked_def inner_sync_def)
  have h: "wal_has (wal (inner st)) lg" using inv by (simp add: leader_inv_def)
  have "inner_inv (inner st')" using inner_inv_same [of "inner st" "inner st'"] inv by (simp add: leader_inv_def writer_inv_def st')
  then have "writer_inv lg (inner st')" using inv by (simp add: leader_inv_def writer_inv_def follows_def lens_ok_def st')
  moreover have "snap_follows (layout_of (committed_prefix lg)) st'"
    by (rule snap_follows_step [of _ st]) (use inv in \<open>simp_all add: leader_inv_def st' safe_step_same_dir\<close>)
  moreover have "durable_log w = committed_prefix lg" using inv wal_has_sync(2) [OF h w] by (simp add: leader_inv_def)
  ultimately show ?thesis using inv wal_has_sync(1) [OF h w] unfolding leader_inv_def by (simp add: st' lens_ok_def)
qed

lemma leader_open_new:
  assumes "open_with_options empty_disk None m = (Inr st, d)"
  shows "leader_inv [] st"
proof -
  note st = open_empty_inner [OF assms]
  have inv: "inner_inv (inner st)" using store_inv_open [OF assms] by (simp add: store_inv_def)
  then have "writer_inv [] (inner st)"
    by (simp add: writer_inv_def good_Nil) (simp add: st fresh_inner_def follows_def layout0_def ids_below_def used_ids_def lens_ok_def)
  moreover have "wal_has (wal_open None) []"
    unfolding wal_has_def by (simp, simp add: wal_holds_def wal_open_def replay_def replay_eq scan_def set_len_def)
  moreover have "durable_log (wal_open None) = []"
    by (simp add: durable_log_def wal_open_def replay_def replay_eq scan_def scan_short SV_BLOCK_SIZE_def)
  moreover have "wal (inner st) = wal_open None" "index (inner st) = []" "rollup (inner st) = Rollup_default" by (simp_all add: st fresh_inner_def)
  ultimately show ?thesis
    using inv by (simp add: leader_inv_def snap_follows_def st(2) Snap_from_def layout0_def lens_ok_def inner_inv_def)
qed

section \<open>Runs\<close>

inductive leader_run :: "Store \<Rightarrow> bool" where
  run_open: "open_with_options empty_disk None m = (Inr st, d) \<Longrightarrow> leader_run st"
| run_put: "leader_run st \<Longrightarrow> room (inner st) v \<Longrightarrow> utf8_valid key \<Longrightarrow> stage_put key v st = (Inr sp, st') \<Longrightarrow> leader_run st'"
| run_commit: "leader_run st \<Longrightarrow> commit IoOk lsn st = (r, st') \<Longrightarrow> leader_run st'"
| run_flush: "leader_run st \<Longrightarrow> flush IoOk st = (r, st') \<Longrightarrow> leader_run st'"
| run_sync_wal: "leader_run st \<Longrightarrow> sync_wal IoOk st = (r, st') \<Longrightarrow> leader_run st'"
| run_crash: "leader_run st \<Longrightarrow> crash_disk (dir (inner st)) d \<Longrightarrow>
    crash_outcome (wal_file (wal (inner st))) (wal_buf (wal (inner st))) bs \<Longrightarrow>
    open_with_options d (Some \<lparr>fdata = bs, fsynced = bs\<rparr>) m = (Inr st', d') \<Longrightarrow> leader_run st'"

lemma durable_crash:
  assumes sv: "serves c st" and w: "wal_has (wal (inner st)) lg" "durable_log (wal (inner st)) = c" "committed_prefix lg = c"
    and crash: "crash_disk (dir (inner st)) d" "crash_outcome (wal_file (wal (inner st))) (wal_buf (wal (inner st))) bs"
  shows "\<exists>st'. open_with_options d (Some \<lparr>fdata = bs, fsynced = bs\<rparr>) m = (Inr st', dir (inner st')) \<and>
    leader_inv c st' \<and> (\<forall>k. store_get st' k = store_get st k) \<and> (\<forall>p. capacity st' p = capacity st p)"
proof -
  from wal_has_crash [OF w(1) crash(2)] obtain rl tail where bs: "bs = log_bytes rl @ tail" "list_all entry_ok rl" "scan_blocks tail = []"
    and "prefix c (committed_prefix rl)" "prefix (committed_prefix rl) c" unfolding w(2,3) by blast
  then have "committed_prefix rl = c" by (simp add: prefix_order.antisym)
  from serves_crash [OF sv crash(1) bs this] show ?thesis .
qed

lemma leader_crash:
  assumes "leader_inv lg st" "crash_disk (dir (inner st)) d" "crash_outcome (wal_file (wal (inner st))) (wal_buf (wal (inner st))) bs"
  shows "\<exists>st'. open_with_options d (Some \<lparr>fdata = bs, fsynced = bs\<rparr>) m = (Inr st', dir (inner st')) \<and>
    leader_inv (committed_prefix lg) st' \<and> (\<forall>k. store_get st' k = store_get st k) \<and> (\<forall>p. capacity st' p = capacity st p)"
  using durable_crash [OF serves_leader [OF assms(1)] _ _ refl assms(2,3)] assms(1) by (simp add: leader_inv_def)

lemma leader_run_inv: "leader_run st \<Longrightarrow> \<exists>lg. leader_inv lg st"
proof (induction rule: leader_run.induct)
  case (run_open m st d)
  then show ?case using leader_open_new by blast
next
  case (run_put st v key sp st')
  then show ?case using leader_stage by blast
next
  case (run_commit st lsn r st')
  then show ?case using leader_commit [of _ st lsn r st'] by (cases "pending (inner st)") (auto simp: commit_def)
next
  case (run_flush st r st')
  then show ?case using leader_commit [of _ st _ r st'] by (cases "pending (inner st)") (auto simp: flush_def)
next
  case (run_sync_wal st r st')
  then show ?case using leader_sync_wal by blast
next
  case (run_crash st d bs m st' d')
  then obtain lg where "leader_inv lg st" by blast
  from leader_crash [OF this run_crash.hyps(2,3), of m] show ?case using run_crash.hyps(4) by auto
qed

section \<open>Crashes during a commit\<close>

text \<open>A commit that has synced the dirty segments and appended its record, but not yet synced the log.\<close>

definition commit_in_flight :: "Lsn \<Rightarrow> Store \<Rightarrow> Store" where
  "commit_in_flight lsn st =
    st\<lparr>inner := snd (op_bind (modify fsync_dirty_segments) (\<lambda>_. inner_append (Commit lsn)) (inner st))\<rparr>"

lemma prefix_between:
  assumes "prefix (committed_prefix lg) x" "prefix x (lg @ [e])" "committed_prefix x = x"
  shows "x = committed_prefix lg \<or> x = lg @ [e]"
proof (cases "x = lg @ [e]")
  case False
  then have "prefix x lg" using assms(2) by (simp add: prefix_snoc)
  then have "prefix x (committed_prefix lg)" using committed_prefix_mono [of x lg] assms(3) by simp
  then show ?thesis using assms(1) by (simp add: prefix_order.antisym)
qed simp

lemma commit_in_flight_eq:
  assumes "append_at (Commit lsn) (next_lsn (wal (inner st))) (wal (inner st)) = Inr x"
  shows "commit_in_flight lsn st = st\<lparr>inner := (fsync_dirty_segments (inner st))\<lparr>wal := x\<rparr>\<rparr>"
  using assms by (simp add: commit_in_flight_def op_bind_def op_basic inner_append_def wal_append_def fsync_dirty_eq Let_def)

text \<open>While the commit record is not durable the old snapshot is still served.\<close>

lemma serves_in_flight:
  assumes sv: "serves c st" and x: "append_at (Commit lsn) (next_lsn (wal (inner st))) (wal (inner st)) = Inr x"
  shows "serves c (commit_in_flight lsn st)" "store_get (commit_in_flight lsn st) k = store_get st k"
proof -
  let ?s = "inner st" and ?fl = "commit_in_flight lsn st" and ?l = "layout_of c"
  note fl = commit_in_flight_eq [OF x]
  have inn: "inner_inv ?s" and snap: "snap_follows ?l st" and lens: "lens_ok {} ?l ?s" using sv by (simp_all add: serves_def stable_def)
  have safe: "inner_inv (inner ?fl) \<and> safe_step ?s (inner ?fl)"
    by (rule same_files_ok [OF inn]) (simp_all add: fl fsync_dirty_ok, simp_all add: fsync_dirty_segments_def)
  have "lens_ok {} ?l (inner ?fl)" using fsync_lens [OF lens] by (simp add: lens_ok_def fl)
  moreover have "snap_follows ?l ?fl" using snap_follows_step [OF snap, of ?fl] safe by (simp add: fl fsync_dirty_segments_def)
  ultimately show "serves c ?fl" using sv safe by (simp add: serves_def stable_def fl fsync_dirty_eq sync_segs_simps ids_below_def)
  have "index_ok ?s (snap_files (snap st)) (snap_index (snap st))" using snap unfolding snap_follows_def by blast
  moreover have "?fl = st\<lparr>inner := inner ?fl\<rparr>" by (simp add: fl)
  ultimately show "store_get ?fl k = store_get st k" using store_get_safe [of st "inner ?fl" k] safe by simp
qed

lemma crash_in_flight:
  assumes inv: "leader_inv lg st" and p: "pending (inner st)" and run: "commit IoOk lsn st = (r, st2)"
    and crash: "crash_disk (dir (inner (commit_in_flight lsn st))) d"
    "crash_outcome (wal_file (wal (inner (commit_in_flight lsn st)))) (wal_buf (wal (inner (commit_in_flight lsn st)))) bs"
  shows "\<exists>st'. open_with_options d (Some \<lparr>fdata = bs, fsynced = bs\<rparr>) m = (Inr st', dir (inner st')) \<and>
    ((\<forall>k. store_get st' k = store_get st k) \<or> (\<forall>k. store_get st' k = store_get st2 k))"
proof -
  let ?s = "inner st" and ?c = "committed_prefix lg"
  from leader_commit [OF inv run p] obtain e where e: "leader_inv (lg @ [e]) st2" "dir (inner st2) = dir (fsync_dirty_segments ?s)"
    "e = (next_lsn (wal ?s), Commit lsn)" by blast
  obtain x where x: "append_at (Commit lsn) (next_lsn (wal ?s)) (wal ?s) = Inr x" by (auto simp: append_at_eq record_size_def)
  note fl = commit_in_flight_eq [OF x]
  have "record_utf8 (Commit lsn)" by (simp add: record_utf8_def record_strings_def)
  then have hx: "wal_has x (lg @ [e])" "durable_log x = ?c" using inv wal_has_append [of "wal ?s" lg, OF _ x] e(3) by (simp_all add: leader_inv_def)
  have cp: "committed_prefix (lg @ [e]) = lg @ [e]" by (simp add: committed_prefix_snoc e(3) is_commit_def)
  have "crash_outcome (wal_file x) (wal_buf x) bs" using crash(2) fl by simp
  from wal_has_crash [OF hx(1) this] obtain rl tail where bs: "bs = log_bytes rl @ tail" "list_all entry_ok rl" "scan_blocks tail = []"
    and pr: "prefix ?c (committed_prefix rl)" "prefix (committed_prefix rl) (lg @ [e])" unfolding hx(2) cp by blast
  from prefix_between [OF pr] consider "committed_prefix rl = ?c" | "committed_prefix rl = lg @ [e]" by fastforce
  then show ?thesis
  proof cases
    case 1
    from serves_crash [OF serves_in_flight(1) [OF serves_leader [OF inv] x] crash(1) bs 1, of m]
      serves_in_flight(2) [OF serves_leader [OF inv] x] show ?thesis by auto
  next
    case 2
    have "crash_disk (dir (inner st2)) d" using crash(1) e(2) fl by simp
    from serves_crash [OF serves_leader [OF e(1), unfolded cp] this bs 2, of m] show ?thesis by blast
  qed
qed

text \<open>A run that puts and flushes one value.\<close>

lemma example_run:
  "\<exists>st1 st2. leader_run st1 \<and> pending (inner st1) \<and> flush IoOk st1 = (Inr (), st2) \<and> leader_run st2 \<and>
     store_get st2 [97, 47, 98] = Inr (Some [1, 2])"
proof -
  obtain st sp st1 where e: "store_reachable st" "counters_ok (inner st) (length [1, 2 :: u8])"
    "stage_put [97, 47, 98] [1, 2] st = (Inr sp, st1)" "pending (inner st1)"
    "open_with_options empty_disk None 1000 = (Inr st, dir (inner st))" "next_free_id (inner st) = 1" using example_put by blast
  have "room (inner st) [1, 2]" using e(2,6) by (simp add: room_def)
  moreover have "utf8_valid [97, 47, 98]" by simp
  ultimately have r: "leader_run st1" by (rule run_put [OF run_open [OF e(5)] _ _ e(3)])
  obtain st2 where "flush IoOk st1 = (Inr (), st2)" "store_get st2 [97, 47, 98] = Inr (Some [1, 2])"
    using flush_reads_back [OF _ e(2,3)] store_reachable_inv [OF e(1)] unfolding store_inv_def by blast
  then show ?thesis using r e(4) run_flush [OF r] by blast
qed

section \<open>Properties\<close>

text \<open>
  C1. Crash recovery: take a store after any sequence of accepted puts, commits, flushes, log syncs, crashes and
  reopenings, and crash it, keeping of every segment file at least the prefix that is synced and of
  the log any prefix a crash may leave. Opening the result succeeds, and the new store returns for every key and for
  every prefix exactly what the last published snapshot returned: nothing committed is lost and
  nothing uncommitted appears.\<close>

theorem crash_recovery:
  assumes "leader_run st" and "crash_disk (dir (inner st)) d"
    and "crash_outcome (wal_file (wal (inner st))) (wal_buf (wal (inner st))) bs"
  shows "\<exists>st'. open_with_options d (Some \<lparr>fdata = bs, fsynced = bs\<rparr>) max_bytes = (Inr st', dir (inner st')) \<and>
    (\<forall>key. store_get st' key = store_get st key) \<and> (\<forall>pre. capacity st' pre = capacity st pre)"
proof -
  obtain lg where "leader_inv lg st" using leader_run_inv [OF assms(1)] by blast
  from leader_crash [OF this assms(2,3), of max_bytes] show ?thesis by blast
qed

theorem crash_recovery_witness:
  "\<exists>st st'. leader_run st \<and> store_get st [97, 47, 98] = Inr (Some [1, 2]) \<and>
     open_with_options (lose_unsynced (dir (inner st)))
       (Some \<lparr>fdata = fsynced (wal_file (wal (inner st))), fsynced = fsynced (wal_file (wal (inner st)))\<rparr>) 1000 = (Inr st', dir (inner st')) \<and>
     store_get st' [97, 47, 98] = Inr (Some [1, 2])"
proof -
  obtain st where st: "leader_run st" "store_get st [97, 47, 98] = Inr (Some [1, 2])" using example_run by blast
  have c: "crash_outcome (wal_file (wal (inner st))) (wal_buf (wal (inner st))) (fsynced (wal_file (wal (inner st))))"
    by (simp add: crash_outcome_def)
  obtain st' where "open_with_options (lose_unsynced (dir (inner st)))
      (Some \<lparr>fdata = fsynced (wal_file (wal (inner st))), fsynced = fsynced (wal_file (wal (inner st)))\<rparr>) 1000 = (Inr st', dir (inner st'))"
    "\<forall>key. store_get st' key = store_get st key"
    using crash_recovery [OF st(1) crash_lose_unsynced c, of 1000] by blast
  then show ?thesis using st by (intro exI [of _ st] exI [of _ st']) simp
qed



end
