(* ===== verification/CompactionCrash.thy ===== *)
theory CompactionCrash
  imports CompactionReads CrashRecovery
begin

text \<open>
  Crashes during a compaction. The leader stages a compaction, syncs the log, commits, and only then deletes the old segment. Until the
  commit record is durable a restart ignores the swap; from then on it redoes the swap from the log.
\<close>

section \<open>The records of a compaction\<close>

lemma remap_loop_records:
  assumes run: "remap_loop new es s = Some (Inr rs, s')" and "\<forall>e \<in> set es. utf8_valid (re_key e)" "wal_has (wal s) lg"
  shows "wal_has (wal s') (lg @ rs) \<and> durable_log (wal s') = durable_log (wal s)"
proof -
  let ?P = "\<lambda>es s rs s'. \<forall>lg. (\<forall>e \<in> set es. utf8_valid (re_key e)) \<longrightarrow> wal_has (wal s) lg \<longrightarrow>
    wal_has (wal s') (lg @ rs) \<and> durable_log (wal s') = durable_log (wal s)"
  have "\<exists>rs'. (Inr rs :: StoreError + entry list) = Inr rs' \<and> ?P es s rs' s'"
  proof (rule remap_loop_rounds [OF run, where P = ?P], goal_cases)
    case (2 es s w rs s')
    let ?j = "chunk_len remap_budget es" and ?l = "next_lsn (wal s)"
    show ?case
    proof (intro allI impI)
      fix lg assume u: "\<forall>e \<in> set es. utf8_valid (re_key e)" and h: "wal_has (wal s) lg"
      have "record_utf8 (SegmentRemap new (take ?j es))" using u by (auto simp: record_utf8_def record_strings_def list_all_iff dest: in_set_takeD)
      note w = wal_has_append [OF h 2(2) this]
      have "\<forall>e \<in> set (drop ?j es). utf8_valid (re_key e)" using u by (auto dest: in_set_dropD)
      then show "wal_has (wal s') (lg @ (?l, SegmentRemap new (take ?j es)) # rs) \<and> durable_log (wal s') = durable_log (wal s)"
        using 2(3) [THEN spec, of "lg @ [(?l, SegmentRemap new (take ?j es))]"] w by simp
    qed
  qed simp
  then show ?thesis using assms(2,3) by simp
qed

text \<open>Replaying the records of a compaction leaves the maps alone and notes the swap with its entries.\<close>

lemma replay_remaps:
  assumes "map snd rs = map (SegmentRemap new) chunks"
  shows "proj (fold replay_record rs r) = proj r \<and> rs_swap_pairs (fold replay_record rs r) = rs_swap_pairs r \<and>
    (case map_of (rs_remaps (fold replay_record rs r)) new of None \<Rightarrow> [] | Some es \<Rightarrow> es) =
      (case map_of (rs_remaps r) new of None \<Rightarrow> [] | Some es \<Rightarrow> es) @ concat chunks"
  using assms
proof (induction rs arbitrary: r chunks)
  case (Cons e rs)
  then obtain c cs where c: "chunks = c # cs" "map snd rs = map (SegmentRemap new) cs" "snd e = SegmentRemap new c" by (cases chunks) auto
  have e: "proj (replay_record e r) = proj r" "rs_swap_pairs (replay_record e r) = rs_swap_pairs r"
    "(case map_of (rs_remaps (replay_record e r)) new of None \<Rightarrow> [] | Some es \<Rightarrow> es) =
      (case map_of (rs_remaps r) new of None \<Rightarrow> [] | Some es \<Rightarrow> es) @ c"
    using c(3) by (cases e; simp add: replay_record_def proj_def Let_def update_conv')+
  show ?case using Cons.IH [OF c(2), of "replay_record e r"] e c(1) by simp
qed simp

lemma good_no_remaps: "good_log lg \<Longrightarrow> rs_remaps (fold replay_record lg r) = rs_remaps r"
proof (induction rule: good_log.induct)
  case (good_snoc lg e)
  have "rs_remaps (replay_record e r') = rs_remaps r'" for r'
    using good_snoc(2) by (cases e; cases "snd e") (auto simp: replay_record_def good_entry_def Let_def)
  then show ?case using good_snoc by simp
qed simp

text \<open>The log of a compaction: puts, the swap, its entries and the commit.\<close>

definition compaction_log :: "entry list \<Rightarrow> u64 \<Rightarrow> u64 \<Rightarrow> RemapEntry list \<Rightarrow> entry list \<Rightarrow> bool" where
  "compaction_log lg old new es lg' \<longleftrightarrow> good_log lg \<and> (\<exists>p rs q c chunks. lg' = lg @ (p, SegmentSwap old new) # rs @ [(q, Commit c)] \<and>
    map snd rs = map (SegmentRemap new) chunks \<and> concat chunks = es)"

lemma replay_compaction:
  fixes d m w
  assumes "compaction_log lg old new es lg'"
  defines "r \<equiv> fold replay_record lg' \<lparr>rs_inner = fresh_inner d m w, rs_committed = [], rs_swap_pairs = [], rs_remaps = []\<rparr>"
  shows "proj r = layout_of lg" "rs_swap_pairs r = [(old, new)]"
    "(case map_of (rs_remaps r) new of None \<Rightarrow> [] | Some es \<Rightarrow> es) = es"
    "dir (rs_inner r) = d" "segments (rs_inner r) = []" "wal (rs_inner r) = w" "dirty_segments (rs_inner r) = []"
proof -
  let ?r0 = "\<lparr>rs_inner = fresh_inner d m w, rs_committed = [], rs_swap_pairs = [], rs_remaps = []\<rparr>"
  obtain p rs q c chunks where lg': "lg' = lg @ (p, SegmentSwap old new) # rs @ [(q, Commit c)]" and rs: "map snd rs = map (SegmentRemap new) chunks" "concat chunks = es"
    and good: "good_log lg" using assms by (auto simp: compaction_log_def)
  define r1 where "r1 = fold replay_record lg ?r0"
  have r1: "proj r1 = layout_of lg" "rs_swap_pairs r1 = []" "rs_remaps r1 = []"
    using good_no_swaps [OF good] good_no_remaps [OF good] by (simp_all add: r1_def proj_replays layout_of_def) (simp add: proj_def fresh_inner_def layout0_def)
  define r2 where "r2 = replay_record (p, SegmentSwap old new) r1"
  have r2: "proj r2 = layout_of lg" "rs_swap_pairs r2 = [(old, new)]" "rs_remaps r2 = []"
    using r1 by (simp_all add: r2_def replay_record_def proj_def Let_def)
  have r: "r = replay_record (q, Commit c) (fold replay_record rs r2)" by (simp add: r_def lg' r1_def r2_def)
  note f = replay_remaps [OF rs(1), of r2]
  show "proj r = layout_of lg" "rs_swap_pairs r = [(old, new)]" "(case map_of (rs_remaps r) new of None \<Rightarrow> [] | Some es \<Rightarrow> es) = es"
    using f r2 rs(2) by (simp_all add: r replay_record_def proj_def Let_def)
  show "dir (rs_inner r) = d" "segments (rs_inner r) = []" "wal (rs_inner r) = w" "dirty_segments (rs_inner r) = []"
    using replays_keep by (simp_all add: r_def fresh_inner_def)
qed

section \<open>Redoing a swap\<close>

definition entries_end :: "RemapEntry list \<Rightarrow> u64" where
  "entries_end es = fold (\<lambda>e m. max m (re_offset e + ucast (re_len e))) es 0"

lemma entries_end_eq: "entries_end es = fold max (map (\<lambda>e. re_offset e + ucast (re_len e)) es) 0"
proof -
  have "fold (\<lambda>e m. max m (f e)) es a = fold max (map f es) a" for f :: "RemapEntry \<Rightarrow> u64" and a
    by (induction es arbitrary: a) (simp_all add: max.commute)
  then show ?thesis by (simp add: entries_end_def)
qed

lemma entries_end_ge:
  assumes "e \<in> set es" "unat (re_offset e) + unat (re_len e) < 2 ^ 64"
  shows "unat (re_offset e) + unat (re_len e) \<le> unat (entries_end es)"
proof -
  have "re_offset e + ucast (re_len e) \<le> entries_end es" using assms(1) by (auto simp: entries_end_eq intro!: fold_max_ge)
  then show ?thesis using assms(2) by (simp add: word_le_nat_alt unat_add_small)
qed

lemma entries_end_le:
  assumes "\<And>e. e \<in> set es \<Longrightarrow> unat (re_offset e) + unat (re_len e) \<le> n"
  shows "unat (entries_end es) \<le> n"
proof -
  have "entries_end es = 0 \<or> (\<exists>e \<in> set es. entries_end es = re_offset e + ucast (re_len e))"
    using fold_max_in [of "map (\<lambda>e. re_offset e + ucast (re_len e)) es" "0 :: u64"] by (auto simp: entries_end_eq)
  moreover have "unat (re_offset e + ucast (re_len e)) \<le> unat (re_offset e) + unat (re_len e)" for e
    by (simp add: unat_word_ariths)
  then have "unat (re_offset e + ucast (re_len e)) \<le> n" if "e \<in> set es" for e using assms [OF that] order_trans by blast
  ultimately show ?thesis by auto
qed

definition swap_lens :: "layout \<Rightarrow> u64 \<Rightarrow> u64 \<Rightarrow> RemapEntry list \<Rightarrow> (u64 \<times> u64) list" where
  "swap_lens l old new es = AList.update old 0 (AList.update new (entries_end es) (all_lens l))"

lemma recover_compaction_eq:
  assumes log: "compaction_log lg old new es lg'" and ix: "index s = l_index (layout_of lg)"
  shows "\<exists>s0. recover lg' (fresh_inner d m w) = fit_files (swap_lens (layout_of lg) old new es) [old] s0 \<and>
    index s0 = index (fold (remap_entry new) es s) \<and> rollup s0 = l_rollup (layout_of lg) \<and> active_id s0 = l_act (layout_of lg) \<and>
    dir s0 = d \<and> segments s0 = [] \<and> wal s0 = w"
proof -
  define r where "r = fold replay_record lg' \<lparr>rs_inner = fresh_inner d m w, rs_committed = [], rs_swap_pairs = [], rs_remaps = []\<rparr>"
  note f = replay_compaction [OF log, of d m w, folded r_def]
  have pr: "index (rs_inner r) = l_index (layout_of lg)" "rollup (rs_inner r) = l_rollup (layout_of lg)" "active_id (rs_inner r) = l_act (layout_of lg)"
    "active_offset (rs_inner r) = l_off (layout_of lg)" "rs_committed r = l_len (layout_of lg)" unfolding f(1) [symmetric] by (simp_all add: proj_def)
  let ?t = "fold (remap_entry new) es (rs_inner r)"
  let ?s0 = "?t\<lparr>sealed := filter (\<lambda>i. i \<noteq> old) (sealed ?t) @ [new]\<rparr>"
  have "recover lg' (fresh_inner d m w) = fit_files (swap_lens (layout_of lg) old new es) [old] ?s0"
    unfolding recover_eq Let_def r_def [symmetric] using f(2,3) pr
    by (simp add: replay_swap_def Let_def all_lens_def swap_lens_def entries_end_def)
  moreover have "index ?s0 = index (fold (remap_entry new) es s)" using remap_fold_index [of "rs_inner r" s] ix pr(1) by simp
  moreover obtain ix' pl where "?t = (rs_inner r)\<lparr>index := ix', put_locations := pl\<rparr>" using remap_fold_other by blast
  ultimately show ?thesis using pr f(4-6) by (intro exI [of _ ?s0]) simp
qed

text \<open>A store that has logged a swap: the new segment, and everything else the log refers to outside the segments \<open>U\<close>, is on stable storage.\<close>

definition swap_ready :: "put_values \<Rightarrow> entry list \<Rightarrow> CompactStage \<Rightarrow> u64 set \<Rightarrow> Inner \<Rightarrow> bool" where
  "swap_ready vals lg cs U s \<longleftrightarrow> maps_inv vals s \<and> stage_inv vals s cs \<and> cs_new_id cs \<noteq> cs_old_id cs \<and> good_log lg \<and>
    follows (layout_of lg) s \<and> lens_ok U (layout_of lg) s \<and> ids_below (next_free_id s) (layout_of lg) (dir s) \<and>
    unat (next_free_id s) \<le> 10 ^ 8 \<and> distinct (map fst (dir_entries (dir s))) \<and> map_of (segments s) (cs_new_id cs) = None \<and>
    synced_to (dir s) (cs_file cs) (length (file_data (dir s) (cs_file cs))) \<and>
    (\<forall>e \<in> set (cs_entries cs). unat (re_offset e) + unat (re_len e) < 2 ^ 64 \<and>
       unat (re_offset e) + unat (re_len e) \<le> length (file_data (dir s) (cs_file cs)))"

lemma swap_target:
  assumes r: "swap_ready vals lg cs {} s" and t: "map_of (swap_lens (layout_of lg) (cs_old_id cs) (cs_new_id cs) (cs_entries cs)) sid = Some t" "t \<noteq> 0"
  shows "\<exists>i. sid \<noteq> cs_old_id cs \<and> lookup_file (seg_name sid) (dir s) = Some i \<and> synced_to (dir s) i (unat t)"
proof (cases "sid = cs_new_id cs")
  case True
  have st: "stage_inv vals s cs" and ne: "cs_new_id cs \<noteq> cs_old_id cs" and sy: "synced_to (dir s) (cs_file cs) (length (file_data (dir s) (cs_file cs)))"
    and b: "\<And>e. e \<in> set (cs_entries cs) \<Longrightarrow> unat (re_offset e) + unat (re_len e) \<le> length (file_data (dir s) (cs_file cs))"
    using r by (simp_all add: swap_ready_def)
  have "t = entries_end (cs_entries cs)" using t(1) ne True by (simp add: swap_lens_def update_conv')
  then have "unat t \<le> length (file_data (dir s) (cs_file cs))" using entries_end_le [OF b] by simp
  then have "synced_to (dir s) (cs_file cs) (unat t)" using sy by (simp add: synced_to_def) (metis min.absorb1 take_take)
  then show ?thesis using True ne stage_invD(1) [OF st] by blast
next
  case False
  have lok: "layout_ok (layout_of lg)" and lens: "lens_ok {} (layout_of lg) s" and m: "maps_inv vals s"
    using r layout_ok_good by (simp_all add: swap_ready_def)
  have "sid \<noteq> cs_old_id cs" "map_of (all_lens (layout_of lg)) sid = Some t" using t False by (auto simp: swap_lens_def update_conv' split: if_splits)
  moreover have "map_of (l_len (layout_of lg)) sid = Some t" using all_lens_nonzero [OF lok calculation(2) t(2)] .
  then obtain i where "map_of (segments s) sid = Some i" "synced_to (dir s) i (unat t)" using lens t(2) unfolding lens_ok_def by blast
  ultimately show ?thesis using inner_inv_segment [OF maps_invD(1) [OF m]] by blast
qed

lemma swap_located:
  assumes r: "swap_ready vals lg cs {} s" and k: "map_of (index (inner_compact_commit cs s)) k = Some (seg, off, len, l)"
  shows "\<exists>t i. map_of (swap_lens (layout_of lg) (cs_old_id cs) (cs_new_id cs) (cs_entries cs)) seg = Some t \<and> unat off + unat len \<le> unat t \<and>
    lookup_file (seg_name seg) (dir s) = Some i \<and> read_value (file_data (dir s) i) off len = Inr (snd (vals l))"
proof -
  let ?s = "inner_compact_commit cs s" and ?old = "cs_old_id cs" and ?new = "cs_new_id cs"
  have m: "maps_inv vals s" and st: "stage_inv vals s cs" and ne: "?new \<noteq> ?old" and fl: "follows (layout_of lg) s"
    and lok: "layout_ok (layout_of lg)" and nn: "map_of (segments s) ?new = None"
    and b: "\<And>e. e \<in> set (cs_entries cs) \<Longrightarrow> unat (re_offset e) + unat (re_len e) < 2 ^ 64"
    using r layout_ok_good by (simp_all add: swap_ready_def)
  note f = compact_commit_fields [OF m st] and m' = compact_commit_maps(1) [OF m st ne]
  have pl: "map_of (put_locations ?s) l = Some (k, seg, off, len)" using f(3) [OF k] .
  obtain i where i: "map_of (segments ?s) seg = Some i" "read_value (file_data (dir ?s) i) off len = Inr (snd (vals l))"
    using maps_invD(4) [OF m' pl] by (auto simp: located_def holds_put_def)
  have fd: "file_data (dir ?s) i = file_data (dir s) i" and segs: "map_of (segments ?s) seg = (if seg = ?new then Some (cs_file cs) else if seg = ?old then None else map_of (segments s) seg)"
    using f(6) by (auto simp: update_conv' delete_conv')
  have look: "lookup_file (seg_name seg) (dir s) = Some i"
    using i(1) stage_invD(1) [OF st] inner_inv_segment [OF maps_invD(1) [OF m], of seg i] by (auto simp: segs split: if_splits)
  have "\<exists>t. map_of (swap_lens (layout_of lg) ?old ?new (cs_entries cs)) seg = Some t \<and> unat off + unat len \<le> unat t"
    using f(4) [OF pl]
  proof (elim conjE disjE bexE)
    fix e assume e: "e \<in> set (cs_entries cs)" "(k, seg, off, len) = (re_key e, ?new, re_offset e, re_len e)"
    then show ?thesis using entries_end_ge [OF e(1) b [OF e(1)]] ne by (simp add: swap_lens_def update_conv')
  next
    assume p0: "map_of (put_locations s) l = Some (k, seg, off, len)"
    have "seg \<noteq> ?new" using maps_invD(4) [OF m p0] nn by (auto simp: located_def)
    then have old: "seg \<noteq> ?old" using i(1) by (auto simp: segs)
    have "index_lsn s k = Some l" unfolding f(1) [symmetric] using k by (simp add: index_lsn_def)
    then obtain p where p: "map_of (index s) k = Some p" "snd (snd (snd p)) = l" by (auto simp: index_lsn_def)
    then have "map_of (index s) k = Some (seg, off, len, l)" using maps_invD(5) [OF m, of k] p0 by (cases p) fastforce
    then obtain t where "map_of (l_len (layout_of lg)) seg = Some t" "unat off + unat len \<le> unat t"
      using lok fl unfolding layout_ok_def follows_def by metis
    then show ?thesis using old \<open>seg \<noteq> ?new\<close> all_lens_Some by (auto simp: swap_lens_def update_conv')
  qed
  then show ?thesis using look i(2) fd by simp
qed

text \<open>What a crash leaves once the swap is logged: the old segment may be gone.\<close>

definition swap_crash :: "u64 \<Rightarrow> disk \<Rightarrow> disk \<Rightarrow> bool" where
  "swap_crash old d0 d \<longleftrightarrow> names_ok d \<and> disk_ok d \<and> (\<forall>x. x \<noteq> seg_name old \<longrightarrow> lookup_file x d = lookup_file x d0) \<and>
    (\<forall>i n. synced_to d0 i n \<longrightarrow> n \<le> length (file_data d i) \<and> take n (file_data d i) = take n (file_data d0 i))"

lemma synced_remove [simp]: "synced_to (remove_file n d) i k = synced_to d i k"
  by (simp add: synced_to_def file_synced_def)

lemma crash_swap:
  assumes r: "swap_ready vals lg cs {} s" and d: "crash_disk (dir s) d \<or> crash_disk (dir (inner_compact_commit cs s)) d"
  shows "swap_crash (cs_old_id cs) (dir s) d"
proof -
  let ?n = "seg_name (cs_old_id cs)" and ?s = "inner_compact_commit cs s"
  have m: "maps_inv vals s" and st: "stage_inv vals s cs" and ne: "cs_new_id cs \<noteq> cs_old_id cs"
    and ids: "ids_below (next_free_id s) (layout_of lg) (dir s)" "unat (next_free_id s) \<le> 10 ^ 8" "distinct (map fst (dir_entries (dir s)))"
    using r by (simp_all add: swap_ready_def)
  have s': "dir ?s = remove_file ?n (dir s)" using compact_commit_fields(6) [OF m st] by auto
  have i: "inner_inv s" "inner_inv ?s" using maps_invD(1) m compact_commit_maps(1) [OF m st ne] by blast+
  obtain d0 where d0: "crash_disk d0 d" "d0 = dir s \<or> d0 = remove_file ?n (dir s)" using d unfolding s' by blast
  have "distinct (map fst (dir_entries d0))" "ids_below (next_free_id s) (layout_of lg) d0"
    using ids d0(2) by (auto simp: ids_below_def remove_file_def AList.delete_eq distinct_delete [unfolded AList.delete_eq])
  moreover have "dir_entries d = dir_entries d0" using d0(1) by (simp add: crash_disk_def)
  ultimately have "names_ok d" using serves_names(1) [OF ids(2)] by blast
  moreover have "disk_ok d0" using i d0(2) s' unfolding inner_inv_def by metis
  then have "disk_ok d" using d0(1) by (simp add: disk_ok_def crash_disk_def lookup_file_def)
  moreover have "lookup_file x d = lookup_file x (dir s)" if "x \<noteq> ?n" for x
    using d0 that lookup_remove [of x ?n "dir s"] by (auto simp: crash_disk_def lookup_file_def)
  ultimately show ?thesis using d0 by (auto simp: swap_crash_def crash_disk_def)
qed

lemma swap_crash_target:
  assumes "swap_ready vals lg cs {} s" "swap_crash (cs_old_id cs) (dir s) d"
    "map_of (swap_lens (layout_of lg) (cs_old_id cs) (cs_new_id cs) (cs_entries cs)) sid = Some t" "t \<noteq> 0"
  shows "\<exists>i. lookup_file (seg_name sid) d = Some i \<and> lookup_file (seg_name sid) (dir s) = Some i \<and> synced_to (dir s) i (unat t)"
  using swap_target [OF assms(1,3,4)] assms(2) unfolding swap_crash_def by (metis seg_name_inj)

lemma swap_lens_small:
  assumes r: "swap_ready vals lg cs {} s"
  shows "\<forall>sid \<in> insert (l_act (layout_of lg)) (fst ` set (swap_lens (layout_of lg) (cs_old_id cs) (cs_new_id cs) (cs_entries cs))). unat sid < 10 ^ 8"
proof -
  have st: "stage_inv vals s cs" and ids: "ids_below (next_free_id s) (layout_of lg) (dir s)" and n: "unat (next_free_id s) \<le> 10 ^ 8"
    using r by (simp_all add: swap_ready_def)
  have "insert (l_act (layout_of lg)) (fst ` set (swap_lens (layout_of lg) (cs_old_id cs) (cs_new_id cs) (cs_entries cs))) \<subseteq>
      insert (cs_old_id cs) (insert (cs_new_id cs) (used_ids (layout_of lg)))"
    unfolding all_lens_ids [symmetric]
    by (auto simp: swap_lens_def update_conv' all_lens_def simp flip: dom_map_of_conv_image_fst split: if_splits)
  moreover have "\<forall>sid \<in> insert (cs_old_id cs) (insert (cs_new_id cs) (used_ids (layout_of lg))). sid < next_free_id s"
    using ids stage_invD(3,6) [OF st] by (simp add: ids_below_def)
  ultimately show ?thesis using n unfolding word_less_nat_alt by (meson less_le_trans subsetD)
qed

lemma swap_reads:
  assumes r: "swap_ready vals lg cs {} s" and c: "swap_crash (cs_old_id cs) (dir s) d"
    and f: "fitted (swap_lens (layout_of lg) (cs_old_id cs) (cs_new_id cs) (cs_entries cs)) d s'" and ix: "index s' = index (inner_compact_commit cs s)"
  shows "store_get \<lparr>inner = s', snap = Snap_from s'\<rparr> key = Inr (map_option (\<lambda>l. snd (vals l)) (index_lsn (inner_compact_commit cs s) key))"
proof (cases "map_of (index s') key")
  case None
  then show ?thesis by (simp add: store_get_def Snap_from_def index_lsn_def flip: ix)
next
  case (Some p)
  obtain seg off len l where p: "p = (seg, off, len, l)" by (metis prod_cases4)
  obtain t i where t: "map_of (swap_lens (layout_of lg) (cs_old_id cs) (cs_new_id cs) (cs_entries cs)) seg = Some t" "unat off + unat len \<le> unat t"
    "lookup_file (seg_name seg) (dir s) = Some i" "read_value (file_data (dir s) i) off len = Inr (snd (vals l))"
    using swap_located [OF r Some [unfolded p ix]] by blast
  obtain j where j: "map_of (segments s') seg = Some j" "t \<noteq> 0 \<longrightarrow> lookup_file (seg_name seg) d = Some j \<and> file_data (dir s') j = take (unat t) (file_data d j)"
    using f t(1) unfolding fitted_def by blast
  have "read_value (file_data (dir s') j) off len = read_value (file_data (dir s) i) off len"
  proof (cases "t = 0")
    case True
    then show ?thesis using t(2) by (simp add: read_value_def)
  next
    case False
    then have y: "i = j" "synced_to (dir s) i (unat t)" using swap_crash_target [OF r c t(1) False] j(2) t(3) by auto
    then have "unat t \<le> length (file_data d i) \<and> take (unat t) (file_data d i) = take (unat t) (file_data (dir s) i)" using c unfolding swap_crash_def by blast
    then show ?thesis using y j(2) False t(2) by (simp add: read_value_take synced_to_def)
  qed
  then show ?thesis using Some t(4) j(1) by (simp add: store_get_def Snap_from_def index_lsn_def p read_snap_def flip: ix)
qed

lemma redo_swap:
  assumes r: "swap_ready vals lg cs {} s" and log: "compaction_log lg (cs_old_id cs) (cs_new_id cs) (cs_entries cs) lg'"
    and c: "swap_crash (cs_old_id cs) (dir s) d"
  shows "\<exists>s'. recover lg' (fresh_inner d m w) = (Inr (), s') \<and> rollup s' = rollup s \<and>
    (\<forall>k. store_get \<lparr>inner = s', snap = Snap_from s'\<rparr> k = Inr (map_option (\<lambda>l. snd (vals l)) (index_lsn s k)))"
proof -
  let ?L = "swap_lens (layout_of lg) (cs_old_id cs) (cs_new_id cs) (cs_entries cs)"
  have mi: "maps_inv vals s" and st: "stage_inv vals s cs" and fl: "follows (layout_of lg) s" using r by (simp_all add: swap_ready_def)
  obtain s0 where run: "recover lg' (fresh_inner d m w) = fit_files ?L [cs_old_id cs] s0" and
    s0: "index s0 = index (fold (remap_entry (cs_new_id cs)) (cs_entries cs) s)" "rollup s0 = l_rollup (layout_of lg)" "active_id s0 = l_act (layout_of lg)"
      "dir s0 = d" "segments s0 = []"
    using recover_compaction_eq [OF log, of s d m w] fl by (auto simp: follows_def)
  have ix: "index s0 = index (inner_compact_commit cs s)" by (simp add: s0(1) inner_compact_commit_def Let_def)
  have "lens_reach ?L d" using swap_crash_target [OF r c] c unfolding lens_reach_def swap_crash_def by blast
  moreover have "distinct (map fst ?L)" by (simp add: swap_lens_def distinct_update distinct_all_lens)
  moreover have "target_of ?L (cs_old_id cs) = 0" by (simp add: target_of_def swap_lens_def update_conv')
  ultimately obtain d3 segs k where fit: "fit_files ?L [cs_old_id cs] s0 = (Inr (), s0\<lparr>next_free_id := k, dir := d3, segments := segs\<rparr>)"
    and f: "fitted ?L d (s0\<lparr>next_free_id := k, dir := d3, segments := segs\<rparr>)"
    using fit_files_ok [of s0 ?L "[cs_old_id cs]"] swap_lens_small [OF r] c s0(3-5) by (auto simp: swap_crash_def)
  show ?thesis using swap_reads [OF r c f] ix run fit s0(2) fl compact_commit_fields(1) [OF mi st] by (simp add: follows_def)
qed

section \<open>Runs without a crash\<close>

lemma plain_leader: "plain_run st \<Longrightarrow> leader_run st"
  by (induction rule: plain_run.induct) (auto intro: leader_run.intros)

definition keys_utf8 :: "Inner \<Rightarrow> bool" where
  "keys_utf8 s \<longleftrightarrow> (\<forall>l k p. map_of (put_locations s) l = Some (k, p) \<longrightarrow> utf8_valid k)"

lemma keys_utf8_same: "keys_utf8 s \<Longrightarrow> put_locations s' = put_locations s \<Longrightarrow> keys_utf8 s'"
  by (simp add: keys_utf8_def)

lemma seal_if_puts: "seal_if b s = (Inr rs, s') \<Longrightarrow> put_locations s' = put_locations s"
  by (auto simp: seal_active_record_def op_bind_Inr op_basic inner_append_Inr split: if_splits)

lemma stage_put_utf8:
  assumes k: "keys_utf8 s" and key: "utf8_valid key" and i: "inner_inv s" and n: "unat (next_free_id s) + 1 \<le> 10 ^ 8"
    and run: "inner_stage_put key v s = (Inr sp, s')"
  shows "keys_utf8 s'"
proof -
  obtain b rs0 s1 l rs1 s2 b2 rs2 where 1: "seal_if b s = (Inr rs0, s1)" and 2: "stage_body key v s1 = (Inr (l, rs1), s2)"
    and 3: "seal_if b2 s2 = (Inr rs2, s')" by (rule stage_put_parts [OF run])
  have i1: "inner_inv s1" using maybe_seal [OF 1 n i] by blast
  have "put_locations s' = AList.update l (key, active_id s1, active_offset s1, of_nat (length v)) (put_locations s)"
    using stage_body_fields(7) [OF i1 2 refl] seal_if_puts [OF 1] seal_if_puts [OF 3] by simp
  then show ?thesis using k key by (auto simp: keys_utf8_def update_conv')
qed

lemma commit_puts:
  assumes "commit IoOk lsn st = (r, st')"
  shows "put_locations (inner st') = put_locations (inner st)"
proof (cases "pending (inner st)")
  case True
  obtain s' where s': "inner_commit IoOk lsn (inner st) = (Inr (), s')" using commit_IoOk by blast
  then have "put_locations s' = put_locations (inner st)"
    by (auto simp: inner_commit_def op_bind_Inr op_basic inner_append_Inr inner_sync_Inr Let_def fsync_dirty_eq)
  then show ?thesis using assms True s' by (auto simp: commit_def op_bind_def locked_def op_basic publish_def)
qed (use assms in \<open>simp add: commit_def\<close>)

lemma plain_utf8: "plain_run st \<Longrightarrow> keys_utf8 (inner st)"
proof (induction rule: plain_run.induct)
  case (plain_open m st d)
  then show ?case using open_empty_inner(1) [OF plain_open] by (simp add: keys_utf8_def fresh_inner_def)
next
  case (plain_put st v key sp st')
  obtain lg where "leader_inv lg st" using leader_run_inv [OF plain_leader [OF plain_put.hyps(1)]] by blast
  then have i: "inner_inv (inner st)" by (simp add: leader_inv_def writer_inv_def)
  show ?case using stage_put_utf8 [OF plain_put.IH plain_put.hyps(3) i] plain_put.hyps(2,5)
    by (auto simp: stage_put_def locked_def room_def split: prod.splits)
next
  case (plain_commit st lsn r st')
  then show ?case using keys_utf8_same commit_puts by blast
next
  case (plain_flush st r st')
  then show ?case using keys_utf8_same commit_puts by (auto simp: flush_def split: if_splits)
next
  case (plain_sync_wal st r st')
  then have "put_locations (inner st') = put_locations (inner st)" by (auto simp: sync_wal_def locked_def inner_sync_def split: prod.splits)
  then show ?case using keys_utf8_same [OF plain_sync_wal.IH] by blast
qed

section \<open>Steps of a compaction\<close>

lemma file_added_lens:
  assumes nf: "new_file s keep oldf d es" and l: "lens_ok U l s" and i: "inner_inv s" and s': "dir s' = d" "segments s' = segments s"
  shows "lens_ok U l s'"
proof -
  have "j \<noteq> length (inodes (dir s))" if "map_of (segments s) sid = Some j" for sid j using inner_inv_segment [OF i that] by simp
  then show ?thesis using l new_fileD(3,4) [OF nf] s' unfolding lens_ok_def synced_to_def by (metis (no_types, lifting))
qed

lemma new_file_names:
  assumes nf: "new_file s keep oldf d es" and ids: "ids_below (next_free_id s) l (dir s)" and n: "unat (next_free_id s) + 1 \<le> 10 ^ 8"
  shows "ids_below (next_free_id s + 1) l d"
proof (rule ids_below_step [OF ids])
  have less: "next_free_id s < next_free_id s + 1" using n by (simp add: word_less_nat_alt unat_add_small)
  then show "x < next_free_id s + 1" if "x < next_free_id s" for x using that by simp
  fix x assume "x \<in> fst ` set (dir_entries d)"
  then have "lookup_file x d \<noteq> None" by (simp add: lookup_file_def map_of_eq_None_iff)
  then have "x = seg_name (next_free_id s) \<or> lookup_file x (dir s) \<noteq> None" using new_fileD(1) [OF nf, of x] by (auto split: if_splits)
  then show "x \<in> fst ` set (dir_entries (dir s)) \<or> (\<exists>sid. x = seg_name sid \<and> sid < next_free_id s + 1)"
    using less by (auto simp: lookup_file_def map_of_eq_None_iff)
qed simp

text \<open>Staging logs the records of the compaction and commits nothing.\<close>

lemma stage_logged:
  assumes h: "wal_has (wal s) lg" and good: "good_log lg" and dist: "distinct (map fst (put_locations s))" and u: "keys_utf8 s"
    and nf: "new_file s (keep_list s h old) oldf d es" and w: "append_at (SegmentSwap old new) (next_lsn (wal s)) (wal s) = Inr w"
    and loop: "remap_loop new es (s\<lparr>next_free_id := n, dir := d, wal := w, pending := True\<rparr>) = Some (Inr rs, s')"
  shows "\<exists>xs. wal_has (wal s') (lg @ xs) \<and> durable_log (wal s') = durable_log (wal s) \<and> list_all (\<lambda>e. \<not> is_commit (snd e)) xs \<and>
    (\<forall>q lsn. compaction_log lg old new es (lg @ xs @ [(q, Commit lsn)]))"
proof -
  have ku: "\<forall>e \<in> set es. utf8_valid (re_key e)"
  proof
    fix e assume "e \<in> set es"
    from new_fileD(8) [OF nf this] obtain q where "(re_lsn e, re_key e, q, re_len e) \<in> set (keep_list s h old)" by blast
    then have "map_of (put_locations s) (re_lsn e) = Some (re_key e, old, q, re_len e)" unfolding in_keep_list [OF dist] by blast
    then show "utf8_valid (re_key e)" using u unfolding keys_utf8_def by blast
  qed
  let ?e = "(next_lsn (wal s), SegmentSwap old new)"
  have "record_utf8 (SegmentSwap old new)" by (simp add: record_utf8_def record_strings_def)
  note a = wal_has_append [OF h w this]
  have "wal_has (wal s') ((lg @ [?e]) @ rs) \<and> durable_log (wal s') = durable_log w \<and> (\<exists>chunks. map snd rs = map (SegmentRemap new) chunks \<and> concat chunks = es)"
    using remap_loop_records [OF loop ku, of "lg @ [?e]"] remap_loop_log [OF loop] a by (simp add: remap_records_def)
  then obtain chunks where r: "wal_has (wal s') (lg @ ?e # rs)" "durable_log (wal s') = durable_log (wal s)"
    and ch: "map snd rs = map (SegmentRemap new) chunks" "concat chunks = es" using a by auto
  have "\<not> is_commit (snd x)" if "x \<in> set rs" for x
  proof -
    have "snd x \<in> set (map (SegmentRemap new) chunks)" using that unfolding ch(1) [symmetric] by simp
    then show ?thesis by (auto simp: is_commit_def)
  qed
  then have "list_all (\<lambda>e. \<not> is_commit (snd e)) (?e # rs)" by (simp add: list_all_iff is_commit_def)
  moreover have "compaction_log lg old new es (lg @ (?e # rs) @ [(q, Commit lsn)])" for q lsn
    using good ch unfolding compaction_log_def by auto
  ultimately show ?thesis using r by blast
qed

text \<open>It leaves the new segment on stable storage and the published snapshot as it was.\<close>

lemma stage_files:
  assumes inv: "leader_inv lg st" and c: "comp_inv vals {} (inner st)" and n: "unat (next_free_id (inner st)) + 1 \<le> 10 ^ 8"
    and nf: "new_file (inner st) keep oldf d (cs_entries cs)" and cs: "cs_new_id cs = next_free_id (inner st)" "cs_file cs = length (inodes (dir (inner st)))"
    and s1: "s1 = (inner st)\<lparr>next_free_id := next_free_id (inner st) + 1, dir := d, wal := w, pending := True\<rparr>"
    and f: "file_added (inner st) s1" and c1: "comp_inv vals {cs} s1"
  shows "swap_ready vals lg cs (set (dirty_segments s1)) s1 \<and> serves (committed_prefix lg) (st\<lparr>inner := s1\<rparr>)"
proof -
  let ?s = "inner st" and ?new = "next_free_id (inner st)" and ?c = "committed_prefix lg"
  have w: "writer_inv lg ?s" using inv by (simp add: leader_inv_def)
  note sv = serves_leader [OF inv]
  have i: "inner_inv ?s" and new: "map_of (segments ?s) ?new = None"
    using w by (auto simp: writer_inv_def inner_inv_def) (metis not_None_eq option.distinct(1) order_refl)
  have small: "unat (?new + 1) \<le> 10 ^ 8" using n by (simp add: unat_add_small)
  have dist: "distinct (map fst (dir_entries d))" using new_fileD(5) [OF nf] w by (simp add: writer_inv_def)
  have "synced_to d (cs_file cs) (length (file_data d (cs_file cs)))" using new_fileD(4) [OF nf] by (simp add: cs(2) synced_to_def)
  moreover have "cs_new_id cs \<noteq> cs_old_id cs" using c1 by (auto simp: comp_inv_def stages_apart_def)
  moreover have "lens_ok (set (dirty_segments ?s)) (layout_of lg) s1"
    using file_added_lens [OF nf _ i] w by (simp add: writer_inv_def s1)
  moreover have "ids_below (?new + 1) (layout_of lg) d" using new_file_names [OF nf _ n] w by (simp add: writer_inv_def)
  ultimately have "swap_ready vals lg cs (set (dirty_segments s1)) s1"
    using c1 w small dist new new_fileD(7) [OF nf] unfolding swap_ready_def
    by (simp add: comp_inv_def writer_inv_def s1 cs follows_def)
  moreover have "serves ?c (st\<lparr>inner := s1\<rparr>)"
  proof -
    have "lens_ok {} (layout_of ?c) s1" using file_added_lens [OF nf _ i] sv by (simp add: serves_def stable_def s1)
    moreover have "snap_follows (layout_of ?c) (st\<lparr>inner := s1\<rparr>)"
      by (rule snap_follows_step [of _ st]) (use sv file_added_safe [OF i f] in \<open>simp_all add: serves_def stable_def s1\<close>)
    moreover have "ids_below (?new + 1) (layout_of ?c) d" using new_file_names [OF nf _ n] sv by (simp add: serves_def stable_def)
    ultimately show ?thesis using comp_inv_inner [OF c1] sv small dist by (simp add: serves_def stable_def s1)
  qed
  ultimately show ?thesis by blast
qed

lemma stage_ready:
  assumes inv: "leader_inv lg st" and c: "comp_inv vals {} (inner st)" and u: "keys_utf8 (inner st)"
    and n: "unat (next_free_id (inner st)) + 1 \<le> 10 ^ 8" "length (put_locations (inner st)) \<le> 2 ^ 32"
    and run: "compact_stage h st = Some (Inr (Some cs), st1)"
  shows "\<exists>xs. swap_ready vals lg cs (set (dirty_segments (inner st1))) (inner st1) \<and> serves (committed_prefix lg) st1 \<and> pending (inner st1) \<and>
    comp_inv vals {cs} (inner st1) \<and>
    wal_has (wal (inner st1)) (lg @ xs) \<and> durable_log (wal (inner st1)) = committed_prefix lg \<and> list_all (\<lambda>e. \<not> is_commit (snd e)) xs \<and>
    (\<forall>q lsn. compaction_log lg (cs_old_id cs) (cs_new_id cs) (cs_entries cs) (lg @ xs @ [(q, Commit lsn)]))"
proof -
  let ?s = "inner st" and ?new = "next_free_id (inner st)"
  have m: "maps_inv vals ?s" by (rule comp_inv_maps [OF c])
  obtain s1 where run': "inner_compact_stage h ?s = Some (Inr (Some cs), s1)" and st1: "st1 = st\<lparr>inner := s1\<rparr>"
    using run by (auto simp: compact_stage_def)
  obtain old where old: "choose_segment ?s h = Some old" using run' by (auto simp: inner_compact_stage_def split: option.splits)
  obtain oldf d w rs where nf: "new_file ?s (keep_list ?s h old) oldf d (cs_entries cs)"
    and w: "append_at (SegmentSwap old ?new) (next_lsn (wal ?s)) (wal ?s) = Inr w"
    and loop: "remap_loop ?new (cs_entries cs) (?s\<lparr>next_free_id := ?new + 1, dir := d, wal := w, pending := True\<rparr>) = Some (Inr rs, s1)"
    and cs: "cs_old_id cs = old" "cs_new_id cs = ?new" "cs_file cs = length (inodes (dir ?s))"
    by (rule compact_stage_parts [OF m n(2) run' old]) simp
  have "unat ?new + 1 < 2 ^ 64" using n(1) by simp
  from compact_stage_comp [OF c run' this n(2)] have f: "file_added ?s s1" and c1: "comp_inv vals {cs} s1" by auto
  obtain w1 where s1: "s1 = ?s\<lparr>next_free_id := ?new + 1, dir := d, wal := w1, pending := True\<rparr>"
    using remap_loop_frame [OF loop] by auto
  have "good_log lg" "wal_has (wal ?s) lg" "durable_log (wal ?s) = committed_prefix lg" using inv by (simp_all add: leader_inv_def writer_inv_def)
  with stage_logged [OF _ _ maps_invD(2) [OF m] u nf w loop, of lg] stage_files [OF inv c n(1) nf cs(2,3) s1 f c1] c1 cs show ?thesis
    by (simp add: st1) (simp add: s1)
qed

lemma swap_ready_sync:
  assumes r: "swap_ready vals lg cs U s" and c: "comp_inv vals {cs} s" and run: "inner_sync io s = (x, s')"
  shows "swap_ready vals lg cs U s'" "comp_inv vals {cs} s'"
proof -
  obtain w where s': "s' = s\<lparr>wal := w\<rparr>" using run by (auto simp: inner_sync_def split: prod.splits)
  show c': "comp_inv vals {cs} s'" by (rule inner_sync_comp [OF c run])
  then show "swap_ready vals lg cs U s'" using r unfolding swap_ready_def by (simp add: comp_inv_def s' follows_def lens_ok_def)
qed

lemma swap_ready_commit:
  assumes r: "swap_ready vals lg cs (set (dirty_segments s)) s" and c: "comp_inv vals {cs} s" and run: "inner_commit IoOk lsn s = (Inr (), s')"
  shows "swap_ready vals lg cs {} s'"
proof -
  have d: "dir s' = dir (fsync_dirty_segments s)" "segments s' = segments s" "index s' = index s" "rollup s' = rollup s"
    "active_id s' = active_id s" "active_offset s' = active_offset s" "next_free_id s' = next_free_id s" using commit_run [OF run] by blast+
  have "comp_inv vals {cs} s'" by (rule inner_commit_comp [OF c run])
  moreover have "lens_ok {} (layout_of lg) s'" using r fsync_lens [of "set (dirty_segments s)" "layout_of lg" s] d(1,2)
    by (simp add: swap_ready_def lens_ok_def fsync_dirty_eq)
  ultimately show ?thesis using r unfolding swap_ready_def
    by (simp add: comp_inv_def d follows_def fsync_dirty_eq sync_segs_simps ids_below_def synced_to_sync_segs)
qed

lemma serves_sync:
  assumes sv: "serves c st" and run: "sync_wal IoOk st = (r, st')"
  shows "serves c st'"
proof -
  obtain w where st': "st' = st\<lparr>inner := (inner st)\<lparr>wal := w\<rparr>\<rparr>" using run by (auto simp: sync_wal_def locked_def inner_sync_def split: prod.splits)
  have "inner_inv (inner st')" using inner_inv_same [of "inner st" "inner st'"] sv by (simp add: serves_def stable_def st')
  moreover have "snap_follows (layout_of c) st'"
    by (rule snap_follows_step [of _ st]) (use sv in \<open>simp_all add: serves_def stable_def st' safe_step_same_dir\<close>)
  ultimately show ?thesis using sv by (simp add: serves_def stable_def st' lens_ok_def)
qed

text \<open>Opening after a crash that kept the commit record.\<close>

lemma redo_open:
  assumes r: "swap_ready vals lg cs {} s" and log: "compaction_log lg (cs_old_id cs) (cs_new_id cs) (cs_entries cs) lg'"
    and d: "crash_disk (dir s) d \<or> crash_disk (dir (inner_compact_commit cs s)) d"
    and bs: "bs = log_bytes rl @ tail" "list_all entry_ok rl" "scan_blocks tail = []" "committed_prefix rl = lg'"
  shows "\<exists>st'. open_with_options d (Some \<lparr>fdata = bs, fsynced = bs\<rparr>) m = (Inr st', dir (inner st')) \<and>
    (\<forall>k. store_get st' k = store_get (publish (st\<lparr>inner := s\<rparr>)) k) \<and> (\<forall>p. capacity st' p = capacity (publish (st\<lparr>inner := s\<rparr>)) p)"
proof -
  have m: "maps_inv vals s" using r by (simp add: swap_ready_def)
  obtain s' where s': "recover lg' (fresh_inner d m (wal_open (Some \<lparr>fdata = bs, fsynced = bs\<rparr>))) = (Inr (), s')" "rollup s' = rollup s"
    "\<And>k. store_get \<lparr>inner = s', snap = Snap_from s'\<rparr> k = Inr (map_option (\<lambda>l. snd (vals l)) (index_lsn s k))"
    using redo_swap [OF r log crash_swap [OF r d], of m "wal_open (Some \<lparr>fdata = bs, fsynced = bs\<rparr>)"] by blast
  have "open_with_options d (Some \<lparr>fdata = bs, fsynced = bs\<rparr>) m = (Inr \<lparr>inner = s', snap = Snap_from s'\<rparr>, dir s')"
    using open_eq [OF bs(1-3), of d m s'] s'(1) bs(4) by simp
  moreover have "capacity \<lparr>inner = s', snap = Snap_from s'\<rparr> p = capacity (publish (st\<lparr>inner := s\<rparr>)) p" for p
    using s'(2) by (simp add: capacity_def Snap_from_def publish_def)
  ultimately show ?thesis using s'(3) read_published [OF m, of st] by auto
qed

text \<open>A compaction whose records are logged and not yet committed.\<close>

definition swap_pending :: "put_values \<Rightarrow> entry list \<Rightarrow> entry list \<Rightarrow> CompactStage \<Rightarrow> Store \<Rightarrow> bool" where
  "swap_pending vals lg xs cs st \<longleftrightarrow> swap_ready vals lg cs (set (dirty_segments (inner st))) (inner st) \<and> comp_inv vals {cs} (inner st) \<and>
    pending (inner st) \<and> serves (committed_prefix lg) st \<and> wal_has (wal (inner st)) (lg @ xs) \<and> durable_log (wal (inner st)) = committed_prefix lg \<and>
    committed_prefix (lg @ xs) = committed_prefix lg \<and>
    (\<forall>q lsn. compaction_log lg (cs_old_id cs) (cs_new_id cs) (cs_entries cs) (lg @ xs @ [(q, Commit lsn)]))"

lemma stage_pending:
  assumes run: "plain_run st" and n: "unat (next_free_id (inner st)) + 1 \<le> 10 ^ 8" "length (put_locations (inner st)) \<le> 2 ^ 32"
    and stage: "compact_stage h st = Some (Inr (Some cs), st1)"
  shows "\<exists>vals lg xs. swap_pending vals lg xs cs st1"
proof -
  obtain lg where lg: "leader_inv lg st" using leader_run_inv [OF plain_leader [OF run]] by blast
  obtain vals where c: "comp_inv vals {} (inner st)" using compacting_inv [OF plain_compacting [OF run]] by (auto simp: compacting_inv_def)
  obtain xs where "swap_ready vals lg cs (set (dirty_segments (inner st1))) (inner st1) \<and> serves (committed_prefix lg) st1 \<and> pending (inner st1) \<and>
    comp_inv vals {cs} (inner st1) \<and> wal_has (wal (inner st1)) (lg @ xs) \<and> durable_log (wal (inner st1)) = committed_prefix lg \<and>
    list_all (\<lambda>e. \<not> is_commit (snd e)) xs \<and> (\<forall>q lsn. compaction_log lg (cs_old_id cs) (cs_new_id cs) (cs_entries cs) (lg @ xs @ [(q, Commit lsn)]))"
    using stage_ready [OF lg c plain_utf8 [OF run] n stage] by blast
  then have "swap_pending vals lg xs cs st1" using committed_prefix_append [of xs lg] by (simp add: swap_pending_def)
  then show ?thesis by blast
qed

lemma sync_pending:
  assumes p: "swap_pending vals lg xs cs st" and run: "sync_wal IoOk st = (r, st')"
  shows "swap_pending vals lg xs cs st'"
proof -
  obtain w where w: "sync IoOk (wal (inner st)) = (Inr (), w)" using sync_IoOk by blast
  then have i: "inner_sync IoOk (inner st) = (Inr (), (inner st)\<lparr>wal := w\<rparr>)" by (simp add: inner_sync_def)
  have st': "st' = st\<lparr>inner := (inner st)\<lparr>wal := w\<rparr>\<rparr>" using run i by (auto simp: sync_wal_def locked_def)
  have h: "wal_has (wal (inner st)) (lg @ xs)" "serves (committed_prefix lg) st" using p by (simp_all add: swap_pending_def)
  have "durable_log w = committed_prefix lg" using wal_has_sync(2) [OF h(1) w] p by (simp add: swap_pending_def)
  moreover have "swap_ready vals lg cs (set (dirty_segments (inner st))) ((inner st)\<lparr>wal := w\<rparr>)" "comp_inv vals {cs} ((inner st)\<lparr>wal := w\<rparr>)"
    using p swap_ready_sync [OF _ _ i] by (auto simp: swap_pending_def)
  ultimately show ?thesis using p serves_sync [OF h(2) run] wal_has_sync(1) [OF h(1) w] by (simp add: swap_pending_def st')
qed

text \<open>Committing it: the log that the commit leaves, before and after its sync.\<close>

lemma commit_pending:
  assumes p: "swap_pending vals lg xs cs st" and run: "commit IoOk lsn st = (r, st')"
  obtains x lg' where "append_at (Commit lsn) (next_lsn (wal (inner st))) (wal (inner st)) = Inr x" "wal_has x lg'" "durable_log x = committed_prefix lg"
    "committed_prefix lg' = lg'" "lg' = lg @ xs @ [(next_lsn (wal (inner st)), Commit lsn)]"
    "wal_has (wal (inner st')) lg'" "durable_log (wal (inner st')) = lg'" "swap_ready vals lg cs {} (inner st')" "st' = publish st'"
    "dir (inner st') = dir (fsync_dirty_segments (inner st))"
proof -
  let ?s = "inner st" and ?lg = "lg @ xs @ [(next_lsn (wal (inner st)), Commit lsn)]"
  have pd: "pending ?s" "wal_has (wal ?s) (lg @ xs)" "durable_log (wal ?s) = committed_prefix lg" using p by (simp_all add: swap_pending_def)
  obtain s' where s': "inner_commit IoOk lsn ?s = (Inr (), s')" using commit_IoOk by blast
  have st': "st' = publish (st\<lparr>inner := s'\<rparr>)" using run pd(1) s' by (auto simp: commit_def op_bind_def locked_def op_basic)
  obtain x where x: "append_at (Commit lsn) (next_lsn (wal ?s)) (wal ?s) = Inr x" "sync IoOk x = (Inr (), wal s')" "dirty x" "dir s' = dir (fsync_dirty_segments ?s)"
    using commit_run [OF s'] by blast
  have "record_utf8 (Commit lsn)" by (simp add: record_utf8_def record_strings_def)
  from wal_has_append [OF pd(2) x(1) this] have hx: "wal_has x ?lg" "durable_log x = committed_prefix lg" using pd(3) by simp_all
  have cp: "committed_prefix ?lg = ?lg" using committed_prefix_snoc [of "lg @ xs"] by (simp add: is_commit_def)
  have "swap_ready vals lg cs {} s'" using p swap_ready_commit [OF _ _ s'] by (simp add: swap_pending_def)
  then show thesis
    using that [OF x(1) hx cp refl] wal_has_sync [OF hx(1) x(2)] x(3,4) cp by (simp add: st' publish_def Snap_from_def)
qed

lemma crash_committing:
  assumes p: "swap_pending vals lg xs cs st" and run: "commit IoOk lsn st = (r, st')"
    and crash: "crash_disk (dir (inner (commit_in_flight lsn st))) d"
      "crash_outcome (wal_file (wal (inner (commit_in_flight lsn st)))) (wal_buf (wal (inner (commit_in_flight lsn st)))) bs"
  shows "\<exists>st2. open_with_options d (Some \<lparr>fdata = bs, fsynced = bs\<rparr>) m = (Inr st2, dir (inner st2)) \<and>
    ((\<forall>k. store_get st2 k = store_get st k) \<or> (\<forall>k. store_get st2 k = store_get st' k))"
proof -
  let ?c = "committed_prefix lg"
  obtain x lg' where x: "append_at (Commit lsn) (next_lsn (wal (inner st))) (wal (inner st)) = Inr x" "wal_has x lg'" "durable_log x = ?c" "committed_prefix lg' = lg'"
    and lg': "lg' = lg @ xs @ [(next_lsn (wal (inner st)), Commit lsn)]"
    and st': "swap_ready vals lg cs {} (inner st')" "st' = publish st'" "dir (inner st') = dir (fsync_dirty_segments (inner st))"
    by (rule commit_pending [OF p run])
  have sv: "serves ?c st" and cx: "committed_prefix (lg @ xs) = ?c"
    and log: "compaction_log lg (cs_old_id cs) (cs_new_id cs) (cs_entries cs) lg'" using p lg' by (simp_all add: swap_pending_def)
  note fl = commit_in_flight_eq [OF x(1)]
  have "crash_outcome (wal_file x) (wal_buf x) bs" using crash(2) fl by simp
  from wal_has_crash [OF x(2) this] obtain rl tail where bs: "bs = log_bytes rl @ tail" "list_all entry_ok rl" "scan_blocks tail = []"
    and pr: "prefix ?c (committed_prefix rl)" "prefix (committed_prefix rl) lg'" unfolding x(3,4) by blast
  from prefix_between [of "lg @ xs" "committed_prefix rl"] pr consider "committed_prefix rl = ?c" | "committed_prefix rl = lg'"
    unfolding cx by (fastforce simp: lg')
  then show ?thesis
  proof cases
    case 1
    from serves_crash [OF serves_in_flight(1) [OF sv x(1)] crash(1) bs 1, of m] serves_in_flight(2) [OF sv x(1)] show ?thesis by auto
  next
    case 2
    have "crash_disk (dir (inner st')) d" using crash(1) st'(3) fl by simp
    with redo_open [OF st'(1) log _ bs 2, of d m st'] st'(2) show ?thesis by auto
  qed
qed

text \<open>Between the commit and the deletion of the old segment, and after it.\<close>

lemma crash_committed:
  assumes p: "swap_pending vals lg xs cs st2" and run: "commit IoOk lsn st2 = (r3, st3)" and fin: "compact_commit cs st3 = (r4, st4)"
    and st: "st = st3 \<or> st = st4" and crash: "crash_disk (dir (inner st)) d" "crash_outcome (wal_file (wal (inner st))) (wal_buf (wal (inner st))) bs"
  shows "\<exists>st'. open_with_options d (Some \<lparr>fdata = bs, fsynced = bs\<rparr>) m = (Inr st', dir (inner st')) \<and>
    (\<forall>k. store_get st' k = store_get st k) \<and> (\<forall>p. capacity st' p = capacity st p)"
proof -
  let ?s = "inner st3"
  obtain lg' where lg': "committed_prefix lg' = lg'" "lg' = lg @ xs @ [(next_lsn (wal (inner st2)), Commit lsn)]" "wal_has (wal ?s) lg'" "durable_log (wal ?s) = lg'"
    and st3: "swap_ready vals lg cs {} ?s" "st3 = publish st3" by (rule commit_pending [OF p run])
  have st4: "st4 = publish (st3\<lparr>inner := inner_compact_commit cs ?s\<rparr>)" using fin by (simp add: compact_commit_def)
  have m: "maps_inv vals ?s" and stg: "stage_inv vals ?s cs" and ne: "cs_new_id cs \<noteq> cs_old_id cs" using st3(1) by (simp_all add: swap_ready_def)
  note f = compact_commit_fields [OF m stg] and m4 = compact_commit_maps(1) [OF m stg ne]
  have "store_get st3 k = Inr (map_option (\<lambda>l. snd (vals l)) (index_lsn ?s k))" for k using st3(2) read_published [OF m, of st3 k] by simp
  then have get: "store_get st k = store_get st3 k" for k using st st4 f(1) read_published [OF m4, of st3 k] by auto
  have "snap_rollup (snap st3) = rollup ?s" using arg_cong [OF st3(2), of "\<lambda>s. snap_rollup (snap s)"] by (simp add: publish_def Snap_from_def)
  then have cap: "capacity st p = capacity st3 p" for p using st st4 f(6) by (auto simp: capacity_def publish_def Snap_from_def)
  have "crash_outcome (wal_file (wal ?s)) (wal_buf (wal ?s)) bs" using crash(2) st st4 f(6) by (auto simp: publish_def)
  from wal_has_crash [OF lg'(3) this] obtain rl tail where bs: "bs = log_bytes rl @ tail" "list_all entry_ok rl" "scan_blocks tail = []"
    and "prefix lg' (committed_prefix rl)" "prefix (committed_prefix rl) lg'" unfolding lg'(1,4) by blast
  then have "committed_prefix rl = lg'" by (simp add: prefix_order.antisym)
  moreover have "compaction_log lg (cs_old_id cs) (cs_new_id cs) (cs_entries cs) lg'" using p lg'(2) by (simp add: swap_pending_def)
  moreover have "crash_disk (dir ?s) d \<or> crash_disk (dir (inner_compact_commit cs ?s)) d" using crash(1) st st4 by (auto simp: publish_def)
  ultimately show ?thesis using redo_open [OF st3(1) _ _ bs, of lg' d m st3] st3(2) get cap by simp
qed

section \<open>Properties\<close>

text \<open>
  C10. Compaction survives crashes: a store that was created empty and has taken puts, commits, flushes and log syncs stages a compaction, syncs the log, commits
  and deletes the old segment. A crash after any of these four steps, with whatever part of the unsynced data kept, leaves a
  directory and a log that open again and give, for every key and prefix, exactly what the store published last. A crash inside the commit gives what
  was published before it or what is published after it.\<close>

theorem compaction_crash_safe:
  assumes "plain_run st" and "unat (next_free_id (inner st)) + 1 \<le> 10 ^ 8" and "length (put_locations (inner st)) \<le> 2 ^ 32"
    and "compact_stage h st = Some (Inr (Some cs), st1)" and "sync_wal IoOk st1 = (r2, st2)" and "commit IoOk lsn st2 = (r3, st3)"
    and "compact_commit cs st3 = (r4, st4)" and "x \<in> {st1, st2, commit_in_flight lsn st2, st3, st4}"
    and "crash_disk (dir (inner x)) d" and "crash_outcome (wal_file (wal (inner x))) (wal_buf (wal (inner x))) bs"
  shows "\<exists>st'. open_with_options d (Some \<lparr>fdata = bs, fsynced = bs\<rparr>) max_bytes = (Inr st', dir (inner st')) \<and>
    (if x = commit_in_flight lsn st2 then (\<forall>key. store_get st' key = store_get st2 key) \<or> (\<forall>key. store_get st' key = store_get st3 key)
     else (\<forall>key. store_get st' key = store_get x key) \<and> (\<forall>pre. capacity st' pre = capacity x pre))"
proof -
  obtain vals lg xs where p1: "swap_pending vals lg xs cs st1" using stage_pending [OF assms(1-4)] by blast
  have p2: "swap_pending vals lg xs cs st2" using sync_pending [OF p1 assms(5)] .
  consider "x = commit_in_flight lsn st2" | "x \<noteq> commit_in_flight lsn st2" "x = st1 \<or> x = st2" | "x \<noteq> commit_in_flight lsn st2" "x = st3 \<or> x = st4"
    using assms(8) by blast
  then show ?thesis
  proof cases
    case 1
    then show ?thesis using crash_committing [OF p2 assms(6), of d bs max_bytes] assms(9,10) by simp
  next
    case 2
    then have "swap_pending vals lg xs cs x" using p1 p2 by blast
    then have "serves (committed_prefix lg) x" "wal_has (wal (inner x)) (lg @ xs)" "durable_log (wal (inner x)) = committed_prefix lg"
      "committed_prefix (lg @ xs) = committed_prefix lg" by (simp_all add: swap_pending_def)
    from durable_crash [OF this assms(9,10), of max_bytes] show ?thesis using 2(1) by auto
  next
    case 3
    from crash_committed [OF p2 assms(6,7) 3(2) assms(9,10), of max_bytes] show ?thesis using 3(1) by simp
  qed
qed

theorem compaction_crash_safe_witness:
  "\<exists>st cs st1 st2 lsn st3 st4 st'. plain_run st \<and> compact_stage 3 st = Some (Inr (Some cs), st1) \<and> sync_wal IoOk st1 = (Inr (), st2) \<and>
     commit IoOk lsn st2 = (Inr (), st3) \<and> compact_commit cs st3 = (Inr (cs_freed cs), st4) \<and>
     open_with_options (lose_unsynced (dir (inner st4)))
       (Some \<lparr>fdata = fsynced (wal_file (wal (inner st4))), fsynced = fsynced (wal_file (wal (inner st4)))\<rparr>) 1000 = (Inr st', dir (inner st')) \<and>
     (\<forall>key. store_get st' key = store_get st4 key)"
proof -
  obtain st cs st1 where run: "plain_run st" "next_free_id (inner st) = 3" "length (put_locations (inner st)) = 3"
    "compact_stage 3 st = Some (Inr (Some cs), st1)" using example_staged by force
  have n: "unat (next_free_id (inner st)) + 1 \<le> 10 ^ 8" "length (put_locations (inner st)) \<le> 2 ^ 32" using run(2,3) by simp_all
  obtain w where "sync IoOk (wal (inner st1)) = (Inr (), w)" using sync_IoOk by blast
  then obtain st2 where s2: "sync_wal IoOk st1 = (Inr (), st2)" by (simp add: sync_wal_def locked_def inner_sync_def)
  have p: "pending (inner st2)" using stage_pending [OF run(1) n run(4)] sync_pending [OF _ s2] by (auto simp: swap_pending_def)
  obtain s3 where s3: "inner_commit IoOk 9 (inner st2) = (Inr (), s3)" using commit_IoOk by blast
  let ?st3 = "publish (st2\<lparr>inner := s3\<rparr>)" let ?st4 = "publish (?st3\<lparr>inner := inner_compact_commit cs s3\<rparr>)"
  have c: "commit IoOk 9 st2 = (Inr (), ?st3)" using p s3 by (simp add: commit_def op_bind_def locked_def op_basic)
  have f: "compact_commit cs ?st3 = (Inr (cs_freed cs), ?st4)" by (simp add: compact_commit_def publish_def)
  have "\<not> pending s3" using s3 by (auto simp: inner_commit_def op_bind_Inr op_basic inner_append_Inr inner_sync_Inr Let_def)
  then have "\<not> pending (inner ?st4)"
    using remap_fold_other [of "cs_new_id cs" "cs_entries cs" s3] by (auto simp: publish_def inner_compact_commit_def Let_def)
  moreover have "pending (inner (commit_in_flight 9 st2))"
    using p by (auto simp: commit_in_flight_def op_bind_def op_basic inner_append_def fsync_dirty_eq split: sum.splits prod.splits)
  ultimately have ne: "?st4 \<noteq> commit_in_flight 9 st2" by metis
  have o: "crash_outcome (wal_file (wal (inner ?st4))) (wal_buf (wal (inner ?st4))) (fsynced (wal_file (wal (inner ?st4))))" by (simp add: crash_outcome_def)
  obtain st' where "open_with_options (lose_unsynced (dir (inner ?st4)))
      (Some \<lparr>fdata = fsynced (wal_file (wal (inner ?st4))), fsynced = fsynced (wal_file (wal (inner ?st4)))\<rparr>) 1000 = (Inr st', dir (inner st'))"
    "\<forall>key. store_get st' key = store_get ?st4 key"
    using compaction_crash_safe [OF run(1) n run(4) s2 c f _ crash_lose_unsynced o, of 1000] ne by auto
  then show ?thesis using run(1,4) s2 c f by blast
qed

end
