(* ===== verification/Stripe.thy ===== *)
theory Stripe
  imports ReedSolomon Disk
begin

text \<open>
  Erasure-coded stripes, \<^verbatim>\<open>crates/shardvault-core/src/stripe.rs\<close>: an object is cut into data shards, extended by
  parity shards, and every shard is a file of checksummed blocks in the directory of its node. The
  proofs use the codec through \<open>erasure_code\<close> and the block format through \<open>block_layer\<close>.
\<close>

section \<open>Shard files\<close>

text \<open>
  The files below the base directory, by path; a path is text. Directories are created on demand by
  \<open>create_dir_all\<close> and are not represented. The quoted form of a path is the one without characters to escape.
\<close>

type_synonym stripe_fs = "string \<rightharpoonup> bytes"

definition LEN_PREFIX :: nat where "LEN_PREFIX = 8"

definition node_dir :: "string \<Rightarrow> nat \<Rightarrow> string" where
  "node_dir base node = base @ ''/nodes/n'' @ show_nat node"

definition shard_path :: "string \<Rightarrow> nat \<Rightarrow> u64 \<Rightarrow> string" where
  "shard_path base node stripe_id = node_dir base node @ ''/stripe-'' @ show_nat (unat stripe_id) @ ''.dat''"

definition debug_path :: "string \<Rightarrow> string" where
  "debug_path path = [CHR 0x22] @ path @ [CHR 0x22]"

function chunks :: "nat \<Rightarrow> 'a list \<Rightarrow> 'a list list" where
  "chunks n xs = (if n = 0 \<or> xs = [] then [] else take n xs # chunks n (drop n xs))"
  by auto
termination by (relation "measure (\<lambda>(n, xs). length xs)") auto

declare chunks.simps [simp del]

fun write_chunks :: "string \<Rightarrow> nat \<Rightarrow> bytes list \<Rightarrow> (stripe_fs, unit) op" where
  "write_chunks path i [] fs = (Inr (), fs)"
| "write_chunks path i (chunk # rest) fs = (case encode (of_nat i) chunk 0 of
     Inl e \<Rightarrow> (Inl (Corrupt (''block encode failed: '' @ block_error_msg e)), fs)
   | Inr encoded \<Rightarrow> write_chunks path (Suc i) rest
       (fs(path \<mapsto> (case fs path of None \<Rightarrow> [] | Some data \<Rightarrow> data) @ encoded)))"

definition write_shard :: "string \<Rightarrow> nat \<Rightarrow> u64 \<Rightarrow> bytes \<Rightarrow> (stripe_fs, unit) op" where
  "write_shard base node stripe_id shard fs =
    (let path = shard_path base node stripe_id
     in write_chunks path 0 (chunks SV_BLOCK_PAYLOAD_MAX shard) (fs(path \<mapsto> [])))"

function read_blocks :: "string \<Rightarrow> bytes \<Rightarrow> bytes \<Rightarrow> StoreError + bytes" where
  "read_blocks path file out =
    (if file = [] then Inr out
     else if length file < SV_BLOCK_SIZE then Inl (Corrupt (''torn block in '' @ debug_path path))
     else case decode (take SV_BLOCK_SIZE file) of
         Inl e \<Rightarrow> Inl (Corrupt (''block decode failed in '' @ debug_path path @ '': '' @ block_error_msg e))
       | Inr decoded \<Rightarrow> read_blocks path (drop SV_BLOCK_SIZE file) (out @ blk_payload decoded))"
  by auto
termination by (relation "measure (\<lambda>(path, file, out). length file)") (auto simp: SV_BLOCK_SIZE_def)

declare read_blocks.simps [simp del]

definition read_shard :: "string \<Rightarrow> nat \<Rightarrow> u64 \<Rightarrow> stripe_fs \<Rightarrow> StoreError + bytes" where
  "read_shard base node stripe_id fs =
    (let path = shard_path base node stripe_id
     in case fs path of
          None \<Rightarrow> Inl (Io NotFound)
        | Some file \<Rightarrow> and_then (read_blocks path file []) (\<lambda>out.
            if out = [] then Inl (Corrupt (''empty shard file '' @ debug_path path)) else Inr out))"

section \<open>Writing and reading stripes\<close>

text \<open>\<open>StripeWriter\<close> and \<open>StripeReader\<close> have the same fields; \<open>None\<close> is the panic of a bad shape.\<close>

record stripe_io =
  st_base :: string
  st_rs :: reed_solomon

definition stripe_new :: "string \<Rightarrow> nat \<Rightarrow> nat \<Rightarrow> stripe_io option" where
  "stripe_new base k m = map_option (\<lambda>rs. \<lparr>st_base = base, st_rs = rs\<rparr>) (rs_new k m)"

definition data_shard :: "bytes \<Rightarrow> nat \<Rightarrow> nat \<Rightarrow> bytes" where
  "data_shard data shard_len i =
    (let shard = replicate (shard_len + LEN_PREFIX) 0
     in if i = 0 then
          (let shard = write_at 0 (to_le 8 (of_nat (length data) :: u64)) shard;
               copy = min (length data) shard_len
           in write_at LEN_PREFIX (take copy data) shard)
        else
          (let start = i * shard_len
           in if start < length data
              then (let copy = min (length data - start) shard_len in write_at 0 (take copy (drop start data)) shard)
              else shard))"

definition stripe_write :: "stripe_io \<Rightarrow> u64 \<Rightarrow> bytes \<Rightarrow> stripe_fs \<Rightarrow> ((StoreError + unit) \<times> stripe_fs) option" where
  "stripe_write w stripe_id data fs =
    (let k = data_shard_count (st_rs w);
         shard_len = div_ceil (length data) k;
         data_shards = map (data_shard data shard_len) [0..<k]
     in do {
       parity \<leftarrow> rs_encode (st_rs w) data_shards;
       Some (op_bind (op_for (\<lambda>(node, shard). write_shard (st_base w) node stripe_id shard) (enumerate 0 data_shards))
         (\<lambda>_. op_for (\<lambda>(j, shard). write_shard (st_base w) (k + j) stripe_id shard) (enumerate 0 parity)) fs) })"

text \<open>\<open>Display for EcError\<close>\<close>

definition ec_error_msg :: "ec_error \<Rightarrow> string" where
  "ec_error_msg e = (case e of
     TooFewShards \<Rightarrow> ''fewer than k surviving shards''
   | InconsistentShards \<Rightarrow> ''shard count or lengths are inconsistent'')"

text \<open>The loop over the first \<open>k\<close> shards; an absent shard would panic.\<close>

fun join_shards :: "nat \<Rightarrow> nat \<Rightarrow> nat \<Rightarrow> bytes option list \<Rightarrow> bytes \<Rightarrow> (StoreError + bytes) option" where
  "join_shards full shard_len i [] out = Some (Inr out)"
| "join_shards full shard_len i (None # rest) out = None"
| "join_shards full shard_len i (Some s # rest) out =
    (if length s \<noteq> full then Some (Inl (Corrupt ''shard length mismatch''))
     else join_shards full shard_len (Suc i) rest
       (out @ (if i = 0 then take shard_len (drop LEN_PREFIX s) else take shard_len s)))"

definition stripe_read :: "stripe_io \<Rightarrow> u64 \<Rightarrow> stripe_fs \<Rightarrow> (StoreError + bytes) option" where
  "stripe_read r stripe_id fs =
    (let n = shard_count (st_rs r);
         shards = map (\<lambda>node. case read_shard (st_base r) node stripe_id fs of Inl e \<Rightarrow> None | Inr s \<Rightarrow> Some s) [0..<n]
     in do {
       res \<leftarrow> rs_reconstruct (st_rs r) shards;
       case res of
         Inl e \<Rightarrow> Some (Inl (Corrupt (''stripe '' @ show_nat (unat stripe_id) @ '': '' @ ec_error_msg e)))
       | Inr shards \<Rightarrow>
           let k = data_shard_count (st_rs r) in
           do {
             slot \<leftarrow> aget shards 0;
             case slot of
               None \<Rightarrow> Some (Inl (Corrupt ''data shard 0 missing after reconstruction''))
             | Some first \<Rightarrow>
                 if length first < LEN_PREFIX then Some (Inl (Corrupt ''shard too short''))
                 else
                   let data_len = unat (from_le (take LEN_PREFIX first) :: u64);
                       shard_len = length first - LEN_PREFIX
                   in if data_len > shard_len * k then Some (Inl (Corrupt ''stripe length field out of range''))
                      else map_option (\<lambda>res. and_then res (\<lambda>out. Inr (take data_len out)))
                        (join_shards (length first) shard_len 0 (take k shards) []) } })"

section \<open>Shard files hold their shards\<close>

lemma takeWhile_digits: "takeWhile is_digit (show_nat n @ CHR ''/'' # r) = show_nat n"
  using digits_show_nat [of n] by (simp add: takeWhile_append list_all_iff is_digit_def)

lemma shard_path_inj: "shard_path base n a = shard_path base n' a' \<longleftrightarrow> n = n' \<and> a = a'"
proof
  assume eq: "shard_path base n a = shard_path base n' a'"
  let ?t = "\<lambda>n a. show_nat n @ CHR ''/'' # ''stripe-'' @ show_nat (unat a) @ ''.dat''"
  have t: "?t n a = ?t n' a'" using eq by (simp add: shard_path_def node_dir_def)
  have "n = n'" using arg_cong [OF t, of "takeWhile is_digit"] unfolding takeWhile_digits by (simp only: show_nat_inj)
  moreover from this have "show_nat (unat a) = show_nat (unat a')" using t by simp
  ultimately show "n = n' \<and> a = a'" by (simp add: show_nat_inj word_unat_eq_iff)
qed simp

lemma concat_chunks: "0 < n \<Longrightarrow> concat (chunks n xs) = xs"
  by (induction n xs rule: chunks.induct) (auto simp: chunks.simps [of n xs for n xs])

lemma chunks_le: "c \<in> set (chunks n xs) \<Longrightarrow> length c \<le> n"
proof (induction n xs rule: chunks.induct)
  case (1 n xs)
  then show ?case by (cases "n = 0 \<or> xs = []") (auto simp: chunks.simps [of n xs])
qed

text \<open>The file of a list of chunks.\<close>

fun shard_blocks :: "nat \<Rightarrow> bytes list \<Rightarrow> bytes" where
  "shard_blocks i [] = []"
| "shard_blocks i (c # cs) = (case encode (of_nat i) c 0 of Inl e \<Rightarrow> [] | Inr b \<Rightarrow> b) @ shard_blocks (Suc i) cs"

definition shard_file :: "bytes \<Rightarrow> bytes" where
  "shard_file shard = shard_blocks 0 (chunks SV_BLOCK_PAYLOAD_MAX shard)"

lemma write_chunks_ok:
  assumes "\<forall>c \<in> set cs. length c \<le> SV_BLOCK_PAYLOAD_MAX" "fs path = Some old"
  shows "write_chunks path i cs fs = (Inr (), fs(path \<mapsto> old @ shard_blocks i cs))"
  using assms
proof (induction cs arbitrary: i fs old)
  case (Cons c cs)
  obtain b where b: "encode (of_nat i) c 0 = Inr b" using c_blocks.enc_total Cons.prems(1) by (metis list.set_intros(1))
  have "write_chunks path (Suc i) cs (fs(path \<mapsto> old @ b)) = (Inr (), (fs(path \<mapsto> old @ b))(path \<mapsto> (old @ b) @ shard_blocks (Suc i) cs))"
    by (rule Cons.IH) (use Cons.prems in simp_all)
  then show ?case using Cons.prems b by (auto simp: fun_eq_iff)
qed (simp add: map_upd_triv)

lemma write_shard_ok: "write_shard base node sid shard fs = (Inr (), fs(shard_path base node sid \<mapsto> shard_file shard))"
  unfolding write_shard_def Let_def shard_file_def
  by (subst write_chunks_ok [where old = "[]"]) (auto dest: chunks_le)

lemma read_blocks_step:
  "read_blocks path file out =
    (if file = [] then Inr out else case next_block decode SV_BLOCK_SIZE file of
       Some (b, rest) \<Rightarrow> read_blocks path rest (out @ blk_payload b)
     | None \<Rightarrow> (if length file < SV_BLOCK_SIZE then Inl (Corrupt (''torn block in '' @ debug_path path))
         else Inl (Corrupt (''block decode failed in '' @ debug_path path @ '': '' @
           block_error_msg (projl (decode (take SV_BLOCK_SIZE file)))))))"
  by (subst read_blocks.simps) (auto simp: next_block_def split: sum.split)

lemma read_blocks_append:
  assumes "\<forall>c \<in> set cs. length c \<le> SV_BLOCK_PAYLOAD_MAX"
  shows "read_blocks path (shard_blocks i cs @ rest) out = read_blocks path rest (out @ concat cs)"
  using assms
proof (induction cs arbitrary: i out)
  case (Cons c cs)
  obtain b where b: "encode (of_nat i) c 0 = Inr b" using c_blocks.enc_total Cons.prems(1) by (metis list.set_intros(1))
  have "b \<noteq> []" using c_blocks.enc_size [OF b] c_blocks.size_pos by auto
  then show ?case
    using Cons.IH [of "Suc i" "out @ c"] Cons.prems c_blocks.next_block_enc [OF b]
    by (simp add: b read_blocks_step [of path "b @ shard_blocks (Suc i) cs @ rest"])
qed simp

lemma read_shard_file:
  assumes "fs (shard_path base node sid) = Some (shard_file shard)" "shard \<noteq> []"
  shows "read_shard base node sid fs = Inr shard"
  using assms read_blocks_append [of "chunks SV_BLOCK_PAYLOAD_MAX shard" _ 0 "[]" "[]"] chunks_le [of _ SV_BLOCK_PAYLOAD_MAX shard]
    concat_chunks [of SV_BLOCK_PAYLOAD_MAX shard]
  by (auto simp: read_shard_def shard_file_def Let_def read_blocks.simps [of _ "[]"] sv_consts)

text \<open>Writing a list of shards to consecutive nodes.\<close>

lemma write_shards_ok:
  "\<exists>fs'. op_for (\<lambda>(j, shard). write_shard base (off + j) sid shard) (enumerate i ss) fs = (Inr (), fs') \<and>
    (\<forall>j<length ss. fs' (shard_path base (off + i + j) sid) = Some (shard_file (ss ! j))) \<and>
    (\<forall>p. (\<forall>j<length ss. p \<noteq> shard_path base (off + i + j) sid) \<longrightarrow> fs' p = fs p)"
proof (induction ss arbitrary: i fs)
  case (Cons x ss)
  let ?fs1 = "fs(shard_path base (off + i) sid \<mapsto> shard_file x)"
  obtain fs' where r: "op_for (\<lambda>(j, shard). write_shard base (off + j) sid shard) (enumerate (Suc i) ss) ?fs1 = (Inr (), fs')"
    and a: "\<forall>j<length ss. fs' (shard_path base (off + Suc i + j) sid) = Some (shard_file (ss ! j))"
    and b: "\<And>p. (\<forall>j<length ss. p \<noteq> shard_path base (off + Suc i + j) sid) \<Longrightarrow> fs' p = ?fs1 p"
    using Cons.IH [of "Suc i" ?fs1] by blast
  have "fs' (shard_path base (off + i + j) sid) = Some (shard_file ((x # ss) ! j))" if "j < length (x # ss)" for j
    using that a b [of "shard_path base (off + i) sid"] by (cases j) (auto simp: shard_path_inj)
  moreover have "fs' p = fs p" if p: "\<forall>j<length (x # ss). p \<noteq> shard_path base (off + i + j) sid" for p
  proof -
    have "p \<noteq> shard_path base (off + Suc i + j) sid" if "j < length ss" for j using p that by (auto dest: spec [of _ "Suc j"])
    moreover have "p \<noteq> shard_path base (off + i) sid" using p by (auto dest: spec [of _ 0])
    ultimately show ?thesis using b [of p] by simp
  qed
  moreover have "op_for (\<lambda>(j, shard). write_shard base (off + j) sid shard) (enumerate i (x # ss)) fs = (Inr (), fs')"
    using r by (simp add: op_bind_def write_shard_ok [of base "off + i" sid x fs])
  ultimately show ?case by blast
qed (simp add: op_basic)

section \<open>Splitting and joining\<close>

definition pad :: "nat \<Rightarrow> bytes \<Rightarrow> bytes" where
  "pad n xs = xs @ replicate (n - length xs) 0"

lemma write_at_zeros: "length xs \<le> n \<Longrightarrow> write_at 0 xs (replicate n 0) = pad n xs"
  by (simp add: write_at_def pad_def)

lemma data_shard_0: "data_shard data sl 0 = to_le 8 (of_nat (length data) :: u64) @ pad sl (take sl data)"
proof -
  have "write_at 0 (to_le 8 (of_nat (length data) :: u64)) (replicate (sl + 8) 0) = to_le 8 (of_nat (length data) :: u64) @ replicate sl 0"
    by (simp add: write_at_def)
  then show ?thesis by (simp add: data_shard_def LEN_PREFIX_def write_at_def pad_def min_def Let_def)
qed

lemma data_shard_Suc: "0 < i \<Longrightarrow> data_shard data sl i = pad (sl + LEN_PREFIX) (take sl (drop (i * sl) data))"
proof -
  assume "0 < i"
  moreover have "take (min (length data - i * sl) sl) (drop (i * sl) data) = take sl (drop (i * sl) data)" by (simp add: min_def)
  ultimately show ?thesis by (auto simp: data_shard_def Let_def write_at_zeros pad_def)
qed

lemma length_data_shard: "length (data_shard data sl i) = sl + LEN_PREFIX"
  by (cases "i = 0") (auto simp: data_shard_0 data_shard_Suc pad_def LEN_PREFIX_def min_def)

definition shard_payload :: "nat \<Rightarrow> nat \<Rightarrow> bytes \<Rightarrow> bytes" where
  "shard_payload sl i s = (if i = 0 then take sl (drop LEN_PREFIX s) else take sl s)"

lemma data_shard_payload: "shard_payload sl i (data_shard data sl i) = pad sl (take sl (drop (i * sl) data))"
  by (cases "i = 0") (auto simp: shard_payload_def data_shard_0 data_shard_Suc pad_def LEN_PREFIX_def min_def)

lemma join_shards_ok:
  "\<forall>s \<in> set ss. length s = full \<Longrightarrow>
    join_shards full sl i (map Some ss) out = Some (Inr (out @ concat (map (\<lambda>(j, s). shard_payload sl j s) (enumerate i ss))))"
  by (induction ss arbitrary: i out) (auto simp: shard_payload_def)

lemma pad_slice: "length data \<le> n \<Longrightarrow> i * sl + sl \<le> n \<Longrightarrow>
    pad sl (take sl (drop (i * sl) data)) = take sl (drop (i * sl) (data @ replicate (n - length data) 0))"
  by (auto simp: pad_def min_def take_replicate)

lemma concat_slices: "concat (map (\<lambda>i. take sl (drop (i * sl) xs)) [0..<k]) = take (k * sl) xs"
  by (induction k) (simp_all add: take_add [symmetric] add.commute)

lemma joined_payloads:
  assumes "length data \<le> k * sl"
  shows "take (length data) (concat (map (\<lambda>(j, s). shard_payload sl j s) (enumerate 0 (map (data_shard data sl) [0..<k])))) = data"
proof -
  let ?p = "data @ replicate (k * sl - length data) 0"
  have "map (\<lambda>(j, s). shard_payload sl j s) (enumerate 0 (map (data_shard data sl) [0..<k])) = map (\<lambda>i. take sl (drop (i * sl) ?p)) [0..<k]"
  proof (rule nth_equalityI)
    fix i assume "i < length (map (\<lambda>(j, s). shard_payload sl j s) (enumerate 0 (map (data_shard data sl) [0..<k])))"
    then have i: "i < k" by simp
    then have "Suc i * sl \<le> k * sl" by (intro mult_le_mono1) simp
    then have "i * sl + sl \<le> k * sl" by simp
    then show "map (\<lambda>(j, s). shard_payload sl j s) (enumerate 0 (map (data_shard data sl) [0..<k])) ! i = map (\<lambda>i. take sl (drop (i * sl) ?p)) [0..<k] ! i"
      using i pad_slice [OF assms, of i] by (simp add: nth_enumerate_eq data_shard_payload)
  qed simp
  then show ?thesis using assms by (simp only: concat_slices) simp
qed

section \<open>Stripes\<close>

lemma stripe_write_ok:
  assumes io: "stripe_new base k m = Some io" and ds: "ds = map (data_shard data (div_ceil (length data) k)) [0..<k]"
  shows "\<exists>ps fs'. rs_encode (st_rs io) ds = Some ps \<and> length ps = m \<and> (\<forall>p \<in> set ps. length p = div_ceil (length data) k + LEN_PREFIX) \<and>
    stripe_write io sid data fs = Some (Inr (), fs') \<and>
    (\<forall>node<k + m. fs' (shard_path base node sid) = Some (shard_file ((ds @ ps) ! node))) \<and>
    (\<forall>p. (\<forall>node<k + m. p \<noteq> shard_path base node sid) \<longrightarrow> fs' p = fs p)"
proof -
  obtain rs where rs: "rs_new k m = Some rs" "io = \<lparr>st_base = base, st_rs = rs\<rparr>" using io by (auto simp: stripe_new_def)
  have k: "data_shard_count rs = k" using rs_new_Some [OF rs(1)] by (simp add: data_shard_count_def)
  have len: "length ds = k" "\<forall>d \<in> set ds. length d = div_ceil (length data) k + LEN_PREFIX" by (auto simp: ds length_data_shard)
  obtain ps where ps: "rs_encode rs ds = Some ps" "length ps = m" "\<forall>p \<in> set ps. length p = div_ceil (length data) k + LEN_PREFIX"
    using rs_code.encode_total [OF rs(1) len] by blast
  obtain fs1 where f1: "op_for (\<lambda>(j, shard). write_shard base (0 + j) sid shard) (enumerate 0 ds) fs = (Inr (), fs1)"
    "\<forall>j<length ds. fs1 (shard_path base (0 + 0 + j) sid) = Some (shard_file (ds ! j))"
    "\<forall>p. (\<forall>j<length ds. p \<noteq> shard_path base (0 + 0 + j) sid) \<longrightarrow> fs1 p = fs p" using write_shards_ok by blast
  obtain fs2 where f2: "op_for (\<lambda>(j, shard). write_shard base (k + j) sid shard) (enumerate 0 ps) fs1 = (Inr (), fs2)"
    "\<forall>j<length ps. fs2 (shard_path base (k + 0 + j) sid) = Some (shard_file (ps ! j))"
    "\<forall>p. (\<forall>j<length ps. p \<noteq> shard_path base (k + 0 + j) sid) \<longrightarrow> fs2 p = fs1 p" using write_shards_ok by blast
  have "stripe_write io sid data fs = Some (Inr (), fs2)"
    using f1(1) f2(1) ps(1) k by (simp add: stripe_write_def Let_def rs(2) ds op_bind_def)
  moreover have "fs2 (shard_path base node sid) = Some (shard_file ((ds @ ps) ! node))" if "node < k + m" for node
  proof (cases "node < k")
    case True
    then show ?thesis using f1(2) f2(3) len(1) by (auto simp: nth_append shard_path_inj)
  next
    case False
    then show ?thesis using f2(2) len(1) ps(2) that by (auto simp: nth_append dest: spec [of _ "node - k"])
  qed
  moreover have "fs2 p = fs p" if "\<forall>node<k + m. p \<noteq> shard_path base node sid" for p
    using that f1(3) f2(3) len(1) ps(2) by simp
  ultimately show ?thesis using ps rs(2) by auto
qed

definition lost_nodes :: "stripe_io \<Rightarrow> u64 \<Rightarrow> stripe_fs \<Rightarrow> nat list" where
  "lost_nodes io sid fs = filter (\<lambda>node. case read_shard (st_base io) node sid fs of Inl e \<Rightarrow> True | Inr s \<Rightarrow> False) [0..<shard_count (st_rs io)]"

text \<open>What \<open>read\<close> returns when every shard file is intact or unreadable.\<close>

lemma stripe_read_ok:
  assumes io: "stripe_new base k m = Some io" and ds: "ds = map (data_shard data (div_ceil (length data) k)) [0..<k]"
    and ps: "rs_encode (st_rs io) ds = Some ps" and small: "length data < 2 ^ 64"
    and files: "\<forall>node<k + m. fs (shard_path base node sid) = Some (shard_file ((ds @ ps) ! node)) \<or> (\<exists>e. read_shard base node sid fs = Inl e)"
  shows "stripe_read io sid fs = Some (if length (lost_nodes io sid fs) \<le> m then Inr data
    else Inl (Corrupt (''stripe '' @ show_nat (unat sid) @ '': '' @ ec_error_msg TooFewShards)))"
proof -
  let ?sl = "div_ceil (length data) k"
  obtain rs where rs: "rs_new k m = Some rs" "io = \<lparr>st_base = base, st_rs = rs\<rparr>" using io by (auto simp: stripe_new_def)
  have n: "rs_k rs = k" "rs_m rs = m" "1 \<le> k" using rs_new_Some [OF rs(1)] by (auto simp: wf_rs_def)
  have len: "length ds = k" "\<forall>d \<in> set ds. length d = ?sl + LEN_PREFIX" by (auto simp: ds length_data_shard)
  have pl: "length ps = m" "\<forall>p \<in> set ps. length p = ?sl + LEN_PREFIX"
    using rs_code.encode_total [OF rs(1) len] ps rs(2) by auto
  define slot where "slot = (\<lambda>node. case read_shard base node sid fs of Inl e \<Rightarrow> None | Inr s \<Rightarrow> Some s)"
  have "slot node = None \<or> slot node = Some ((ds @ ps) ! node)" if "node < k + m" for node
  proof -
    have "(ds @ ps) ! node \<in> set (ds @ ps)" using that len(1) pl(1) by (intro nth_mem) simp
    then have "length ((ds @ ps) ! node) = ?sl + LEN_PREFIX" using len(2) pl(2) by auto
    then have "(ds @ ps) ! node \<noteq> []" by (auto simp: LEN_PREFIX_def)
    then show ?thesis using files that read_shard_file by (fastforce simp: slot_def)
  qed
  then have er: "erasure_of (ds @ ps) (map slot [0..<k + m])"
    using len(1) pl(1) by (auto simp: erasure_of_def list_all2_conv_all_nth)
  have lost: "length (filter (\<lambda>s. s = None) (map slot [0..<k + m])) = length (lost_nodes io sid fs)"
    by (simp add: lost_nodes_def rs(2) filter_map comp_def shard_count_def n slot_def sum.case_eq_if cong: filter_cong)
  have rec: "rs_reconstruct rs (map slot [0..<k + m]) = (if length (lost_nodes io sid fs) \<le> m
      then Some (Inr (map Some (ds @ ps))) else Some (Inl TooFewShards))"
    using rs_code.reconstruct_by_losses [OF rs(1) len _ er] ps rs(2) lost by simp
  show ?thesis
  proof (cases "length (lost_nodes io sid fs) \<le> m")
    case False
    then show ?thesis using rec by (simp add: stripe_read_def Let_def rs(2) shard_count_def n slot_def)
  next
    case True
    have d0: "ds ! 0 = data_shard data ?sl 0" using n(3) by (simp add: ds)
    have a0: "aget (map Some (ds @ ps)) 0 = Some (Some (ds ! 0))" using len(1) n(3) by (simp add: aget_def nth_append)
    have fl: "length (ds ! 0) = ?sl + LEN_PREFIX" by (simp add: d0 length_data_shard)
    have dl: "unat (from_le (take LEN_PREFIX (ds ! 0)) :: u64) = length data"
      using small by (simp add: d0 data_shard_0 LEN_PREFIX_def from_to_le unat_of_nat)
    have cov: "length data \<le> ?sl * k" using div_ceil_covers [of k "length data"] n(3) by (simp add: mult.commute)
    have j: "join_shards (?sl + LEN_PREFIX) ?sl 0 (map Some ds) [] =
        Some (Inr (concat (map (\<lambda>(j, s). shard_payload ?sl j s) (enumerate 0 ds))))" using join_shards_ok [OF len(2)] by simp
    have "take k (map Some (ds @ ps)) = map Some ds" using len(1) by simp
    then have "stripe_read io sid fs = Some (Inr (take (length data) (concat (map (\<lambda>(j, s). shard_payload ?sl j s) (enumerate 0 ds)))))"
      using True rec a0 fl dl cov j by (simp add: stripe_read_def Let_def rs(2) shard_count_def n slot_def data_shard_count_def)
    then show ?thesis using joined_payloads [of data k ?sl] cov True by (simp add: ds mult.commute)
  qed
qed

section \<open>Damaged files\<close>

lemma read_blocks_torn: "length f mod SV_BLOCK_SIZE \<noteq> 0 \<Longrightarrow> \<exists>e. read_blocks p f acc = Inl e"
proof (induction p f acc rule: read_blocks.induct)
  case (1 p f acc)
  show ?case
  proof (cases "length f < SV_BLOCK_SIZE")
    case False
    then have "length (drop SV_BLOCK_SIZE f) mod SV_BLOCK_SIZE \<noteq> 0" using 1(2) by (simp add: le_mod_geq)
    then show ?thesis using 1(1) 1(2) False by (auto simp: read_blocks.simps [of p f acc] split: sum.split)
  qed (use 1(2) in \<open>auto simp: read_blocks.simps [of p f acc]\<close>)
qed

lemma shard_blocks_append: "shard_blocks i (xs @ ys) = shard_blocks i xs @ shard_blocks (i + length xs) ys"
  by (induction xs arbitrary: i) simp_all

lemma length_shard_blocks: "\<forall>c \<in> set cs. length c \<le> SV_BLOCK_PAYLOAD_MAX \<Longrightarrow> length (shard_blocks i cs) = length cs * SV_BLOCK_SIZE"
proof (induction cs arbitrary: i)
  case (Cons c cs)
  obtain b where b: "encode (of_nat i) c 0 = Inr b" using c_blocks.enc_total Cons.prems by (metis list.set_intros(1))
  show ?case using Cons c_blocks.enc_size [OF b] by (simp add: b)
qed simp

lemma write_at_inside:
  "i + length ys \<le> length b \<Longrightarrow> write_at (length xs + i) ys (xs @ b @ zs) = xs @ write_at i ys b @ zs"
  by (simp add: write_at_def)

lemma read_blocks_burst:
  assumes cs: "\<forall>c \<in> set cs. length c \<le> SV_BLOCK_PAYLOAD_MAX" and b: "b < length cs"
    and burst: "guarded_burst (length (cs ! b)) i (length ys)"
    and new: "take (length ys) (drop (b * SV_BLOCK_SIZE + i) (shard_blocks 0 cs)) \<noteq> ys"
  shows "\<exists>e. read_blocks path (write_at (b * SV_BLOCK_SIZE + i) ys (shard_blocks 0 cs)) [] = Inl e"
proof -
  let ?pre = "shard_blocks 0 (take b cs)" and ?c = "cs ! b" and ?post = "shard_blocks (Suc b) (drop (Suc b) cs)"
  have c: "length ?c \<le> SV_BLOCK_PAYLOAD_MAX" using cs b by simp
  obtain blk where e: "encode (of_nat b) ?c 0 = Inr blk" using c_blocks.enc_total [OF c] by blast
  have lb: "length blk = SV_BLOCK_SIZE" using c_blocks.enc_size [OF e] .
  have pcs: "\<forall>c \<in> set (take b cs). length c \<le> SV_BLOCK_PAYLOAD_MAX" using cs by (auto dest: in_set_takeD)
  have lp: "length ?pre = b * SV_BLOCK_SIZE" using length_shard_blocks [OF pcs, of 0] b by simp
  have "cs = take b cs @ ?c # drop (Suc b) cs" using b by (simp add: id_take_nth_drop)
  then have f: "shard_blocks 0 cs = ?pre @ blk @ ?post"
    using shard_blocks_append [of 0 "take b cs" "?c # drop (Suc b) cs"] e b by simp
  have c4: "length ?c \<le> 4072" using c by (simp add: sv_consts)
  have fits: "i + length ys \<le> length blk" using burst lb c4 by (auto simp: guarded_burst_def sv_consts)
  have new': "take (length ys) (drop i blk) \<noteq> ys" using new fits by (simp add: f lp [symmetric])
  have "blk = block_image (of_nat b) ?c 0 (image_crc (of_nat b) ?c 0)" using e c4 by (simp add: encode_eq)
  then have bad: "decode (write_at i ys blk) = Inl Crc"
    using decode_burst [OF _ _ _ burst new'] c4 by (auto simp: decode_image get_u32le_image unat_payload_len)
  have lw: "length (write_at i ys blk) = SV_BLOCK_SIZE" using fits lb by (simp add: write_at_def)
  have "next_block decode SV_BLOCK_SIZE (write_at i ys blk @ ?post) = None" using bad lw by (simp add: next_block_def)
  moreover have "write_at i ys blk @ ?post \<noteq> []" using lw by (auto simp: SV_BLOCK_SIZE_def)
  ultimately have "\<exists>e. read_blocks path (write_at i ys blk @ ?post) (concat (take b cs)) = Inl e"
    by (subst read_blocks_step) simp
  then show ?thesis using read_blocks_append [OF pcs, of path 0] write_at_inside [OF fits, of ?pre ?post] by (simp add: f lp)
qed

text \<open>A file cut at a block boundary reads as a shorter shard.\<close>

lemma concat_take_chunks: "0 < n \<Longrightarrow> concat (take b (chunks n xs)) = take (b * n) xs"
proof (induction b arbitrary: xs)
  case (Suc b)
  then show ?case by (subst chunks.simps) (auto simp: take_add)
qed simp

lemma read_shard_cut:
  assumes "fs (shard_path base node sid) = Some (take (b * SV_BLOCK_SIZE) (shard_file shard))" "0 < b" "shard \<noteq> []"
  shows "read_shard base node sid fs = Inr (take (b * SV_BLOCK_PAYLOAD_MAX) shard)"
proof -
  let ?cs = "chunks SV_BLOCK_PAYLOAD_MAX shard"
  have cs: "\<forall>c \<in> set ?cs. length c \<le> SV_BLOCK_PAYLOAD_MAX" using chunks_le by blast
  have tcs: "\<forall>c \<in> set (take b ?cs). length c \<le> SV_BLOCK_PAYLOAD_MAX" using cs by (auto dest: in_set_takeD)
  have l: "length (shard_blocks 0 (take b ?cs)) = min (length ?cs) b * SV_BLOCK_SIZE" using length_shard_blocks [OF tcs, of 0] by simp
  have "shard_blocks 0 ?cs = shard_blocks 0 (take b ?cs) @ shard_blocks (min (length ?cs) b) (drop b ?cs)"
    using shard_blocks_append [of 0 "take b ?cs" "drop b ?cs"] by simp
  then have "take (b * SV_BLOCK_SIZE) (shard_file shard) = shard_blocks 0 (take b ?cs)"
    using l by (cases "b \<le> length ?cs") (simp_all add: shard_file_def min_def)
  moreover have "read_blocks path (shard_blocks 0 (take b ?cs)) [] = Inr (take (b * SV_BLOCK_PAYLOAD_MAX) shard)" for path
    using read_blocks_append [OF tcs, of path 0 "[]" "[]"] concat_take_chunks [of SV_BLOCK_PAYLOAD_MAX b shard]
    by (simp add: read_blocks.simps [of path "[]"] sv_consts)
  ultimately show ?thesis using assms by (simp add: read_shard_def Let_def sv_consts)
qed

lemma stripe_shape: "1 \<le> k \<Longrightarrow> 1 \<le> m \<Longrightarrow> k + m \<le> 255 \<Longrightarrow> \<exists>io. stripe_new base k m = Some io"
  using rs_new_spec [of k m] by (auto simp: stripe_new_def)

lemma read_shard_local: "fs (shard_path base node sid) = fs' (shard_path base node sid) \<Longrightarrow> read_shard base node sid fs = read_shard base node sid fs'"
  by (simp add: read_shard_def)

lemma stripe_io_fields:
  assumes "stripe_new base k m = Some io"
  shows "st_base io = base" "shard_count (st_rs io) = k + m" "1 \<le> k" "1 \<le> m"
  using assms rs_new_Some [of k m] by (auto simp: stripe_new_def shard_count_def wf_rs_def)

lemma written_shards:
  assumes io: "stripe_new base k m = Some io" and w: "stripe_write io sid data fs = Some (Inr (), fs1)" and node: "node < k + m"
  shows "\<exists>s. fs1 (shard_path base node sid) = Some (shard_file s) \<and> length s = div_ceil (length data) k + LEN_PREFIX \<and>
    read_shard base node sid fs1 = Inr s"
proof -
  define ds where "ds = map (data_shard data (div_ceil (length data) k)) [0..<k]"
  obtain ps where ps: "length ps = m" "\<forall>p \<in> set ps. length p = div_ceil (length data) k + LEN_PREFIX"
    "fs1 (shard_path base node sid) = Some (shard_file ((ds @ ps) ! node))"
    using stripe_write_ok [OF io ds_def, of sid fs] w node by auto
  have "(ds @ ps) ! node \<in> set (ds @ ps)" using node ps(1) by (intro nth_mem) (simp add: ds_def)
  then have l: "length ((ds @ ps) ! node) = div_ceil (length data) k + LEN_PREFIX" using ps(2) by (auto simp: ds_def length_data_shard)
  then have "(ds @ ps) ! node \<noteq> []" by (auto simp: LEN_PREFIX_def)
  then show ?thesis using ps(3) l read_shard_file by blast
qed

lemma lost_one:
  assumes io: "stripe_new base k m = Some io" and w: "stripe_write io sid data fs = Some (Inr (), fs1)" and n: "n < k + m"
    and "read_shard base n sid fs2 = Inl e" and keep: "\<And>node. node \<noteq> n \<Longrightarrow> fs2 (shard_path base node sid) = fs1 (shard_path base node sid)"
  shows "lost_nodes io sid fs2 = [n]"
proof -
  have "(case read_shard base node sid fs2 of Inl e \<Rightarrow> True | Inr s \<Rightarrow> False) = (node = n)" if "node < k + m" for node
    using written_shards [OF io w that] read_shard_local [of fs2 base node sid fs1] keep [of node] assms(4) by (cases "node = n") auto
  then have "lost_nodes io sid fs2 = filter (\<lambda>node. node = n) [0..<k + m]"
    unfolding lost_nodes_def stripe_io_fields [OF io] by (intro filter_cong) auto
  moreover have "filter (\<lambda>node. node = n) [0..<j] = (if n < j then [n] else [])" for j by (induction j) auto
  ultimately show ?thesis using n by simp
qed

lemma length_shard_file: "s \<noteq> [] \<Longrightarrow> SV_BLOCK_SIZE \<le> length (shard_file s)"
proof -
  assume "s \<noteq> []"
  then have "chunks SV_BLOCK_PAYLOAD_MAX s \<noteq> []" by (simp add: chunks.simps [of _ s] sv_consts)
  then show ?thesis using length_shard_blocks [of "chunks SV_BLOCK_PAYLOAD_MAX s" 0] chunks_le [of _ SV_BLOCK_PAYLOAD_MAX s]
    by (cases "chunks SV_BLOCK_PAYLOAD_MAX s") (auto simp: shard_file_def)
qed

text \<open>With all shards present but one of the first \<open>k\<close> of another length, reconstruction refuses.\<close>

lemma reconstruct_inconsistent:
  assumes rs: "rs_new k m = Some rs" and k: "2 \<le> k" and n: "length ss = k + m" "node < k"
    and len: "\<And>i. i < k \<Longrightarrow> i \<noteq> node \<Longrightarrow> length (ss ! i) = l" "length (ss ! node) \<noteq> l"
  shows "rs_reconstruct rs (map Some ss) = Some (Inl InconsistentShards)"
proof -
  have rk: "rs_k rs = k" "rs_m rs = m" using rs_new_Some [OF rs] by auto
  have sh: "shard_at (map Some ss) i = Some (ss ! i)" if "i < k + m" for i
    using that n(1) by (simp add: shard_at_def aget_def)
  have "filter (present (map Some ss)) [0..<k + m] = [0..<k + m]"
    by (rule filter_True) (auto simp: present_def aget_def n(1))
  then have sv: "take k (filter (present (map Some ss)) [0..<k + m]) = [0..<k]" "length (filter (present (map Some ss)) [0..<k + m]) = k + m" by simp_all
  have m: "mapM (\<lambda>i. map_option length (shard_at (map Some ss) i)) [0..<k] = Some (map (\<lambda>i. length (ss ! i)) [0..<k])"
    by (rule mapM_Some) (simp add: sh)
  have "\<exists>i<k. length (ss ! i) \<noteq> length (ss ! 0)"
  proof (cases "node = 0")
    case True
    then show ?thesis using len(1) [of 1] len(2) k by (intro exI [of _ 1]) auto
  next
    case False
    then show ?thesis using len(1) [of 0] len(2) k n(2) by (intro exI [of _ node]) auto
  qed
  then have "list_ex (\<lambda>x. x \<noteq> length (ss ! 0)) (map (\<lambda>i. length (ss ! i)) [0..<k])" by (auto simp: list_ex_iff)
  then show ?thesis using k n sv m sh [of 0] by (simp add: rs_reconstruct_def Let_def rk aget_def)
qed

section \<open>Properties\<close>

text \<open>
  C13. Stripes survive losses: for every shape \<open>k, m \<ge> 1\<close>, \<open>k + m \<le> 255\<close> and every object, writing a stripe succeeds and
  touches no other file. Afterwards, whatever happens to the shard files, as long as each is either
  unchanged or no longer readable, \<open>read\<close> returns exactly the object when at most \<open>m\<close> are
  unreadable, and reports too few shards otherwise.\<close>

theorem stripe_survives_losses:
  assumes "stripe_new base k m = Some io" and "length data < 2 ^ 64"
  shows "\<exists>fs1. stripe_write io sid data fs = Some (Inr (), fs1) \<and>
    (\<forall>p. (\<forall>node<k + m. p \<noteq> shard_path base node sid) \<longrightarrow> fs1 p = fs p) \<and>
    (\<forall>fs2. (\<forall>node<k + m. fs2 (shard_path base node sid) = fs1 (shard_path base node sid) \<or> (\<exists>e. read_shard base node sid fs2 = Inl e)) \<longrightarrow>
       stripe_read io sid fs2 = Some (if length (lost_nodes io sid fs2) \<le> m then Inr data
         else Inl (Corrupt (''stripe '' @ show_nat (unat sid) @ '': '' @ ec_error_msg TooFewShards))))"
proof -
  define ds where "ds = map (data_shard data (div_ceil (length data) k)) [0..<k]"
  obtain ps fs1 where w: "rs_encode (st_rs io) ds = Some ps" "stripe_write io sid data fs = Some (Inr (), fs1)"
    "\<forall>node<k + m. fs1 (shard_path base node sid) = Some (shard_file ((ds @ ps) ! node))"
    "\<forall>p. (\<forall>node<k + m. p \<noteq> shard_path base node sid) \<longrightarrow> fs1 p = fs p"
    using stripe_write_ok [OF assms(1) ds_def] by blast
  show ?thesis using w(2-4) stripe_read_ok [OF assms(1) ds_def w(1) assms(2)] by (intro exI [of _ fs1]) simp
qed

theorem stripe_survives_losses_witness:
  "\<exists>io fs1. stripe_new ''d'' 2 1 = Some io \<and> stripe_write io 7 [1, 2, 3] Map.empty = Some (Inr (), fs1) \<and>
     stripe_read io 7 (fs1(shard_path ''d'' 0 7 := None)) = Some (Inr [1, 2, 3])"
proof -
  obtain io where io: "stripe_new ''d'' 2 1 = Some io" using stripe_shape [of 2 1] by auto
  obtain fs1 where w: "stripe_write io 7 [1, 2, 3] Map.empty = Some (Inr (), fs1)"
    and r: "\<And>fs2. \<forall>node<2 + 1. fs2 (shard_path ''d'' node 7) = fs1 (shard_path ''d'' node 7) \<or> (\<exists>e. read_shard ''d'' node 7 fs2 = Inl e) \<Longrightarrow>
      stripe_read io 7 fs2 = Some (if length (lost_nodes io 7 fs2) \<le> 1 then Inr [1, 2, 3]
         else Inl (Corrupt (''stripe '' @ show_nat (unat (7 :: u64)) @ '': '' @ ec_error_msg TooFewShards)))"
    using stripe_survives_losses [OF io, of "[1, 2, 3]" 7 Map.empty] by auto
  define fs2 where "fs2 = fs1(shard_path ''d'' 0 7 := None)"
  have gone: "read_shard ''d'' 0 7 fs2 = Inl (Io NotFound)" by (simp add: read_shard_def fs2_def)
  have keep: "node \<noteq> 0 \<Longrightarrow> fs2 (shard_path ''d'' node 7) = fs1 (shard_path ''d'' node 7)" for node
    by (simp add: shard_path_inj fs2_def)
  have "lost_nodes io 7 fs2 = [0]" by (rule lost_one [OF io w _ gone keep]) simp_all
  moreover have "fs2 (shard_path ''d'' node 7) = fs1 (shard_path ''d'' node 7) \<or> (\<exists>e. read_shard ''d'' node 7 fs2 = Inl e)" for node
    by (cases "node = 0") (use gone keep in simp_all)
  ultimately have "stripe_read io 7 fs2 = Some (Inr [1, 2, 3])" using r [of fs2] by simp
  then show ?thesis using io w unfolding fs2_def by blast
qed

text \<open>
  C22. Damage counts as loss: a shard file that is missing, empty, cut inside a block, or that has a burst of up to four
  bytes changed in the checksummed part of one of its blocks is unreadable, so that \<open>read\<close> treats the shard as erased;
  with a single shard damaged in such a way the object is still returned.\<close>

theorem stripe_damage_detected:
  assumes "stripe_new base k m = Some io" and "stripe_write io sid data fs = Some (Inr (), fs1)" and "node < k + m"
    and "length data < 2 ^ 64" and "fs1 (shard_path base node sid) = Some file"
    and "damaged = None \<or> damaged = Some [] \<or> (\<exists>n. damaged = Some (take n file) \<and> n < length file \<and> n mod SV_BLOCK_SIZE \<noteq> 0) \<or>
      (\<exists>b i ys s. read_shard base node sid fs1 = Inr s \<and> b < length (chunks SV_BLOCK_PAYLOAD_MAX s) \<and>
         guarded_burst (length (chunks SV_BLOCK_PAYLOAD_MAX s ! b)) i (length ys) \<and>
         take (length ys) (drop (b * SV_BLOCK_SIZE + i) file) \<noteq> ys \<and> damaged = Some (write_at (b * SV_BLOCK_SIZE + i) ys file))"
  shows "(\<exists>e. read_shard base node sid (fs1(shard_path base node sid := damaged)) = Inl e) \<and>
    stripe_read io sid (fs1(shard_path base node sid := damaged)) = Some (Inr data)"
proof -
  define fs2 where "fs2 = fs1(shard_path base node sid := damaged)"
  have look: "fs2 (shard_path base node sid) = damaged" by (simp add: fs2_def)
  obtain s where s: "file = shard_file s" "read_shard base node sid fs1 = Inr s"
    using written_shards [OF assms(1-3)] assms(5) by auto
  have cs: "\<forall>c \<in> set (chunks SV_BLOCK_PAYLOAD_MAX s). length c \<le> SV_BLOCK_PAYLOAD_MAX" using chunks_le by blast
  have "damaged = None \<or> damaged = Some [] \<or> (\<exists>bad. damaged = Some bad \<and> (\<exists>e. read_blocks (shard_path base node sid) bad [] = Inl e))"
    using assms(6)
  proof (elim disjE exE conjE)
    fix n assume "damaged = Some (take n file)" "n < length file" "n mod SV_BLOCK_SIZE \<noteq> 0"
    then show ?thesis using read_blocks_torn [of "take n file"] by simp
  next
    fix b i ys s' assume "read_shard base node sid fs1 = Inr s'" "b < length (chunks SV_BLOCK_PAYLOAD_MAX s')"
      "guarded_burst (length (chunks SV_BLOCK_PAYLOAD_MAX s' ! b)) i (length ys)"
      "take (length ys) (drop (b * SV_BLOCK_SIZE + i) file) \<noteq> ys" "damaged = Some (write_at (b * SV_BLOCK_SIZE + i) ys file)"
    then show ?thesis using read_blocks_burst [OF cs, of b i ys] s by (simp add: shard_file_def)
  qed simp_all
  then obtain e where e: "read_shard base node sid fs2 = Inl e"
    by (auto simp: read_shard_def look Let_def read_blocks.simps [of _ "[]"])
  have keep: "node' \<noteq> node \<Longrightarrow> fs2 (shard_path base node' sid) = fs1 (shard_path base node' sid)" for node'
    by (simp add: shard_path_inj fs2_def)
  have lost: "lost_nodes io sid fs2 = [node]" by (rule lost_one [OF assms(1-3) e keep])
  define ds where "ds = map (data_shard data (div_ceil (length data) k)) [0..<k]"
  obtain ps where ps: "rs_encode (st_rs io) ds = Some ps"
    "\<forall>node<k + m. fs1 (shard_path base node sid) = Some (shard_file ((ds @ ps) ! node))"
    using stripe_write_ok [OF assms(1) ds_def, of sid fs] assms(2) by auto
  have "\<forall>n<k + m. fs2 (shard_path base n sid) = Some (shard_file ((ds @ ps) ! n)) \<or> (\<exists>e. read_shard base n sid fs2 = Inl e)"
    using ps(2) keep e by metis
  from stripe_read_ok [OF assms(1) ds_def ps(1) assms(4) this] have "stripe_read io sid fs2 = Some (Inr data)"
    using lost stripe_io_fields(4) [OF assms(1)] by simp
  then show ?thesis using e unfolding fs2_def by blast
qed

theorem stripe_damage_detected_witness:
  "\<exists>io fs1 file. stripe_write io 7 [1, 2, 3] Map.empty = Some (Inr (), fs1) \<and> fs1 (shard_path ''d'' 1 7) = Some file \<and>
     stripe_read io 7 (fs1(shard_path ''d'' 1 7 := Some (take 100 file))) = Some (Inr [1, 2, 3])"
proof -
  obtain io where io: "stripe_new ''d'' 2 1 = Some io" using stripe_shape [of 2 1] by auto
  obtain fs1 where w: "stripe_write io 7 [1, 2, 3] Map.empty = Some (Inr (), fs1)" using stripe_write_ok [OF io refl] by blast
  obtain s where s: "fs1 (shard_path ''d'' 1 7) = Some (shard_file s)" "length s = div_ceil (length [1, 2, 3 :: u8]) 2 + LEN_PREFIX"
    using written_shards [OF io w, of 1] by auto
  have "s \<noteq> []" using s(2) by (auto simp: LEN_PREFIX_def)
  then have "100 < length (shard_file s) \<and> 100 mod SV_BLOCK_SIZE \<noteq> 0" using length_shard_file [of s] by (simp add: SV_BLOCK_SIZE_def)
  then show ?thesis using stripe_damage_detected [OF io w _ _ s(1), of "Some (take 100 (shard_file s))"] w s(1) by auto
qed



end
