(* ===== verification/NodeSafety.thy ===== *)
theory NodeSafety
  imports Node CrashRecovery
begin

text \<open>
  What replication guarantees, over all interleavings of put threads, acknowledgements, reconnections and
  backfills: no put is acknowledged without a quorum, and every acknowledged batch is durable on the leader and stays so through
  crashes.
\<close>

section \<open>Quorums\<close>

text \<open>The contract that makes voting safe: any two quorums share a node.\<close>

locale quorum_system =
  fixes nodes :: "'n set" and is_quorum :: "'n set \<Rightarrow> bool"
  assumes finite_nodes: "finite nodes"
    and quorum_nodes: "is_quorum q \<Longrightarrow> q \<subseteq> nodes"
    and quorums_meet: "is_quorum q \<Longrightarrow> is_quorum q' \<Longrightarrow> q \<inter> q' \<noteq> {}"
begin

lemma quorum_nonempty: "is_quorum q \<Longrightarrow> q \<noteq> {}"
  using quorums_meet [of q q] by simp

text \<open>Whatever one quorum stored is seen by every other quorum.\<close>

lemma quorum_sees:
  assumes "is_quorum q" "is_quorum q'" "\<And>n. n \<in> q \<Longrightarrow> x \<in> stored n"
  shows "\<exists>n \<in> q'. x \<in> stored n"
  using assms quorums_meet [OF assms(1,2)] by blast

end

text \<open>The sets of nodes that \<open>await_quorum\<close> accepts in a cluster of \<open>peers\<close> nodes.\<close>

definition node_quorum :: "nat \<Rightarrow> nat set \<Rightarrow> bool" where
  "node_quorum peers q \<longleftrightarrow> q \<subseteq> {..<peers} \<and> unat (quorum_size peers) \<le> card q"

lemma unat_quorum_size: "peers < 2 ^ 64 \<Longrightarrow> unat (quorum_size peers) = div_ceil peers 2"
  by (simp add: quorum_size_def unat_of_nat div_ceil_def)

lemma sets_meet:
  assumes "q \<subseteq> {..<n}" "q' \<subseteq> {..<n}" "n < card q + card q'"
  shows "q \<inter> q' \<noteq> {}"
proof
  assume "q \<inter> q' = {}"
  moreover have "finite q" "finite q'" using assms(1,2) by (auto intro: finite_subset)
  ultimately have "card (q \<union> q') = card q + card q'" by (simp add: card_Un_disjoint)
  moreover have "card (q \<union> q') \<le> n" using assms(1,2) card_mono [of "{..<n}" "q \<union> q'"] by simp
  ultimately show False using assms(3) by simp
qed

text \<open>With an odd number of nodes the leader's quorums keep the contract; \<open>f\<close> is the number of tolerated failures.\<close>

lemma odd_quorums_meet:
  assumes "odd n" "n < 2 ^ 64" "node_quorum n q" "node_quorum n q'"
  shows "q \<inter> q' \<noteq> {}"
proof (rule sets_meet [of q n])
  have "n < 2 * div_ceil n 2" using assms(1) by (auto simp: div_ceil_def elim!: oddE)
  moreover have "div_ceil n 2 \<le> card q" "div_ceil n 2 \<le> card q'"
    using assms by (simp_all add: node_quorum_def unat_quorum_size)
  ultimately show "n < card q + card q'" by linarith
qed (use assms in \<open>simp_all add: node_quorum_def\<close>)

interpretation odd_cluster: quorum_system "{..<2 * unat f + 1}" "node_quorum (2 * unat f + 1)" for f :: "63 word"
proof
  have n: "2 * unat f + 1 < 2 ^ 64" using unsigned_less [of f, where ?'a = nat] by simp
  show "finite {..<2 * unat f + 1}" by simp
  show "node_quorum (2 * unat f + 1) q \<Longrightarrow> q \<subseteq> {..<2 * unat f + 1}" for q by (simp add: node_quorum_def)
  show "node_quorum (2 * unat f + 1) q \<Longrightarrow> node_quorum (2 * unat f + 1) q' \<Longrightarrow> q \<inter> q' \<noteq> {}" for q q'
    using odd_quorums_meet [OF _ n] by simp
qed

section \<open>Interleavings\<close>

record System =
  sys_leader :: Leader
  sys_puts :: "put_pc list"
  sys_compacts :: "compact_pc list"
  sys_acked :: "entry list list"

text \<open>One step of the environment or of a thread. The acknowledged batches are recorded as history.\<close>

datatype action =
    NewPut str bytes
  | RunPut nat sync_io bool
  | NewCompact
  | RunCompact nat sync_io bool
  | Connect nat Lsn
  | Install nat Lsn "Frame list"
  | Receive nat Frame
  | Disconnect nat
  | Pop nat
  | Client u64 Frame

definition run_put :: "nat \<Rightarrow> sync_io \<Rightarrow> bool \<Rightarrow> System \<Rightarrow> System" where
  "run_put t io late y = (if t < length (sys_puts y) then
     (let (pc, ld) = put_step io late (sys_puts y ! t) (sys_leader y)
      in y\<lparr>sys_leader := ld, sys_puts := (sys_puts y)[t := pc],
           sys_acked := (case pc of PutAcked rs \<Rightarrow> List.insert rs (sys_acked y) | _ \<Rightarrow> sys_acked y)\<rparr>) else y)"

definition run_compact :: "nat \<Rightarrow> sync_io \<Rightarrow> bool \<Rightarrow> System \<Rightarrow> System" where
  "run_compact t io late y = (if t < length (sys_compacts y) then
     (case compact_step io late (sys_compacts y ! t) (sys_leader y) of
        None \<Rightarrow> y
      | Some (pc, ld) \<Rightarrow> y\<lparr>sys_leader := ld, sys_compacts := (sys_compacts y)[t := pc]\<rparr>) else y)"

fun act :: "action \<Rightarrow> System \<Rightarrow> System" where
  "act (NewPut key value) y = y\<lparr>sys_puts := sys_puts y @ [PutStage key value]\<rparr>"
| "act (RunPut t io late) y = run_put t io late y"
| "act NewCompact y = y\<lparr>sys_compacts := sys_compacts y @ [CompactStart]\<rparr>"
| "act (RunCompact t io late) y = run_compact t io late y"
| "act (Connect i from) y = y\<lparr>sys_leader := dial_connect i from (sys_leader y)\<rparr>"
| "act (Install i ci frames) y = y\<lparr>sys_leader := backfill_install i ci frames (sys_leader y)\<rparr>"
| "act (Receive i frame) y = y\<lparr>sys_leader := dial_receive i frame (sys_leader y)\<rparr>"
| "act (Disconnect i) y = y\<lparr>sys_leader := dial_disconnect i (sys_leader y)\<rparr>"
| "act (Pop i) y = y\<lparr>sys_leader := snd (writer_pop i (sys_leader y))\<rparr>"
| "act (Client count frame) y = y\<lparr>sys_leader := snd (handle_client count frame (sys_leader y))\<rparr>"

text \<open>The systems of \<open>n\<close> configured nodes that a sequence of actions leads to.\<close>

inductive sys_reach :: "nat \<Rightarrow> action list \<Rightarrow> System \<Rightarrow> bool" where
  sys_start: "leader_new cfg var d wal_log = Inr ld \<Longrightarrow> length (cfg_peers cfg) = n \<Longrightarrow>
    sys_reach n [] \<lparr>sys_leader = ld, sys_puts = [], sys_compacts = [], sys_acked = []\<rparr>"
| sys_act: "sys_reach n tr y \<Longrightarrow> sys_reach n (tr @ [a]) (act a y)"

section \<open>No acknowledgement without a quorum\<close>

text \<open>Acknowledged positions only grow, and neither the nodes nor the quorum change.\<close>

definition links_grow :: "Leader \<Rightarrow> Leader \<Rightarrow> bool" where
  "links_grow ld ld' \<longleftrightarrow> quorum ld' = quorum ld \<and>
    list_all2 (\<lambda>f f'. link_id f' = link_id f \<and> match_index f \<le> match_index f') (followers ld) (followers ld')"

lemma links_grow_refl [simp]: "followers ld' = followers ld \<Longrightarrow> quorum ld' = quorum ld \<Longrightarrow> links_grow ld ld'"
  by (simp add: links_grow_def list_all2_refl)

lemma links_grow_update:
  assumes "\<And>f. link_id (g f) = link_id f \<and> match_index f \<le> match_index (g f)"
  shows "links_grow ld (update_link i g ld)"
  using assms by (auto simp: links_grow_def update_link_def list_all2_conv_all_nth nth_list_update)

lemma links_grow_trans: "links_grow a b \<Longrightarrow> links_grow b c \<Longrightarrow> links_grow a c"
  unfolding links_grow_def list_all2_conv_all_nth by auto (meson order_trans)

lemma links_grow_map: "(\<And>f. link_id (g f) = link_id f \<and> match_index (g f) = match_index f) \<Longrightarrow>
    links_grow ld (ld\<lparr>followers := map g (followers ld)\<rparr>)"
  by (simp add: links_grow_def list_all2_conv_all_nth)

lemma links_grow_send: "links_grow ld (send_batch rs v e ld)"
  unfolding send_batch_def by (rule links_grow_map) (simp add: enqueue_def)

lemma links_grow_put_step: "put_step io late pc ld = (pc', ld') \<Longrightarrow> links_grow ld ld'"
  by (cases "(io, late, pc, ld)" rule: put_step.cases)
    (auto simp: links_grow_send split: prod.splits sum.splits)

lemma links_grow_compact_step:
  assumes "compact_step io late pc ld = Some (pc', ld')"
  shows "links_grow ld ld'"
proof (cases pc)
  case CompactStart
  then show ?thesis using assms by force
qed (use assms in \<open>auto simp: links_grow_send split: prod.splits sum.splits\<close>)

lemma links_grow_install: "links_grow ld (backfill_install i ci frames ld)"
  unfolding backfill_install_def by (rule links_grow_update) simp

lemma links_grow_backfill: "links_grow ld (handle_backfill i from ld)"
  by (simp add: handle_backfill_def links_grow_install split: option.split)

lemma links_grow_act: "links_grow (sys_leader y) (sys_leader (act a y))"
proof (cases a)
  case (RunPut t io late)
  then show ?thesis using links_grow_put_step by (auto simp: run_put_def split: prod.splits)
next
  case (RunCompact t io late)
  then show ?thesis using links_grow_compact_step by (auto simp: run_compact_def split: prod.splits option.splits)
next
  case (Connect i j)
  then show ?thesis
    using links_grow_trans [OF links_grow_backfill links_grow_update, of "\<lambda>f. f\<lparr>alive := True\<rparr>"] by (simp add: dial_connect_def)
next
  case (Install i ci frames)
  then show ?thesis by (simp add: links_grow_install)
next
  case (Receive i frame)
  then show ?thesis
    by (cases frame) (auto simp: dial_receive_def links_grow_backfill Let_def intro!: links_grow_update)
next
  case (Disconnect i)
  then show ?thesis by (auto simp: dial_disconnect_def intro!: links_grow_update)
next
  case (Pop i)
  then show ?thesis by (auto simp: writer_pop_def intro!: links_grow_update split: list.split)
next
  case (Client count frame)
  then show ?thesis
    by (cases frame) (auto simp: handle_client_def Let_def links_grow_def list_all2_conv_all_nth)
qed simp_all

definition ack_count :: "Leader \<Rightarrow> Lsn \<Rightarrow> nat" where
  "ack_count ld l = 1 + length (filter (\<lambda>f. match_index f \<ge> l) (followers ld))"

lemma ack_count_grow: "links_grow ld ld' \<Longrightarrow> ack_count ld l \<le> ack_count ld' l"
proof -
  have "list_all2 (\<lambda>f f'. link_id f' = link_id f \<and> match_index f \<le> match_index f') fs fs' \<Longrightarrow>
      length (filter (\<lambda>f. match_index f \<ge> l) fs) \<le> length (filter (\<lambda>f. match_index f \<ge> l) fs')" for fs fs' :: "FollowerLink list"
    by (induction rule: list_all2_induct) auto
  then show "links_grow ld ld' \<Longrightarrow> ?thesis" by (simp add: ack_count_def links_grow_def)
qed

lemma acks_count: "length (followers ld) + 1 < 2 ^ 64 \<Longrightarrow> unat (acks ld l) = ack_count ld l"
proof -
  assume "length (followers ld) + 1 < 2 ^ 64"
  moreover have "length (filter (\<lambda>f. match_index f \<ge> l) (followers ld)) \<le> length (followers ld)" by simp
  ultimately have "1 + length (filter (\<lambda>f. match_index f \<ge> l) (followers ld)) < 2 ^ 64" by linarith
  then show ?thesis unfolding acks_def ack_count_def by (subst unat_of_nat) simp
qed

text \<open>The batches of threads that have passed \<open>await_quorum\<close>.\<close>

fun passed_batch :: "put_pc \<Rightarrow> entry list option" where
  "passed_batch (PutCommit rs) = Some rs"
| "passed_batch (PutIndex rs cb) = Some rs"
| "passed_batch (PutAnnounce rs cb) = Some rs"
| "passed_batch (PutAcked rs) = Some rs"
| "passed_batch _ = None"

definition quorum_inv :: "nat \<Rightarrow> System \<Rightarrow> bool" where
  "quorum_inv n y \<longleftrightarrow> quorum (sys_leader y) = quorum_size n \<and> length (followers (sys_leader y)) \<le> n \<and>
    (\<forall>rs. rs \<in> set (sys_acked y) \<or> Some rs \<in> passed_batch ` set (sys_puts y) \<longrightarrow>
       unat (quorum_size n) \<le> ack_count (sys_leader y) (batch_end_of rs))"

lemma put_step_passed:
  assumes "put_step io late pc ld = (pc', ld')" "passed_batch pc' = Some rs"
  shows "passed_batch pc = Some rs \<or> quorum ld \<le> acks ld (batch_end_of rs)"
  using assms by (cases "(io, late, pc, ld)" rule: put_step.cases)
    (auto simp: await_round_def split: prod.splits sum.splits if_splits)

lemma quorum_inv_start: "leader_new cfg var d wal_log = Inr ld \<Longrightarrow> length (cfg_peers cfg) = n \<Longrightarrow>
    quorum_inv n \<lparr>sys_leader = ld, sys_puts = [], sys_compacts = [], sys_acked = []\<rparr>"
proof -
  assume "leader_new cfg var d wal_log = Inr ld" "length (cfg_peers cfg) = n"
  moreover have "length (filter P (enumerate 0 (cfg_peers cfg))) \<le> length (cfg_peers cfg)" for P
    using length_filter_le [of P "enumerate 0 (cfg_peers cfg)"] by simp
  ultimately show ?thesis by (auto simp: quorum_inv_def leader_new_def and_then_Inr)
qed

text \<open>A batch passes its quorum only in a step that finds the acknowledgements.\<close>

lemma new_passed:
  assumes new: "rs \<in> set (sys_acked (act a y)) \<or> Some rs \<in> passed_batch ` set (sys_puts (act a y))"
  shows "rs \<in> set (sys_acked y) \<or> Some rs \<in> passed_batch ` set (sys_puts y) \<or> quorum (sys_leader y) \<le> acks (sys_leader y) (batch_end_of rs)"
proof (cases a)
  case (RunPut t io late)
  show ?thesis
  proof (cases "t < length (sys_puts y)")
    case True
    obtain pc ld where s: "put_step io late (sys_puts y ! t) (sys_leader y) = (pc, ld)" by force
    have y: "sys_puts (act a y) = (sys_puts y)[t := pc]"
      "sys_acked (act a y) = (case pc of PutAcked rs \<Rightarrow> List.insert rs (sys_acked y) | _ \<Rightarrow> sys_acked y)"
      using True s by (simp_all add: RunPut run_put_def)
    have "rs \<in> set (sys_acked y) \<or> Some rs \<in> passed_batch ` set (sys_puts y) \<or> passed_batch pc = Some rs"
      using new set_update_subset_insert [of "sys_puts y" t pc] unfolding y by (cases pc) auto
    moreover have "passed_batch (sys_puts y ! t) = Some rs \<Longrightarrow> Some rs \<in> passed_batch ` set (sys_puts y)"
      using True by (metis image_eqI nth_mem)
    ultimately show ?thesis using put_step_passed [OF s] by blast
  qed (use new in \<open>auto simp: RunPut run_put_def\<close>)
next
  case (RunCompact t io late)
  then show ?thesis using new by (auto simp: run_compact_def split: option.splits if_splits)
qed (use new in auto)

lemma quorum_inv_act:
  assumes inv: "quorum_inv n y" and n: "n + 1 < 2 ^ 64"
  shows "quorum_inv n (act a y)"
proof -
  let ?ld = "sys_leader y" and ?y = "act a y"
  have g: "links_grow ?ld (sys_leader ?y)" by (rule links_grow_act)
  have grow: "ack_count ?ld l \<le> ack_count (sys_leader ?y) l" for l using ack_count_grow [OF g] .
  have "length (followers ?ld) = length (followers (sys_leader ?y))" using g by (auto simp: links_grow_def dest: list_all2_lengthD)
  then have q: "quorum (sys_leader ?y) = quorum_size n" and len: "length (followers (sys_leader ?y)) \<le> n"
    using g inv by (simp_all add: links_grow_def quorum_inv_def)
  have small: "length (followers ?ld) + 1 < 2 ^ 64" using inv n by (simp add: quorum_inv_def)
  have old: "unat (quorum_size n) \<le> ack_count (sys_leader ?y) (batch_end_of rs)"
    if "rs \<in> set (sys_acked y) \<or> Some rs \<in> passed_batch ` set (sys_puts y)" for rs
    using inv that grow le_trans unfolding quorum_inv_def by blast
  have "unat (quorum_size n) \<le> ack_count (sys_leader ?y) (batch_end_of rs)"
    if "quorum ?ld \<le> acks ?ld (batch_end_of rs)" for rs
  proof -
    have "quorum ?ld = quorum_size n" using inv by (simp add: quorum_inv_def)
    then have "unat (quorum_size n) \<le> unat (acks ?ld (batch_end_of rs))" using that by (simp add: word_le_nat_alt)
    then show ?thesis using grow [of "batch_end_of rs"] by (simp add: acks_count [OF small])
  qed
  then have "unat (quorum_size n) \<le> ack_count (sys_leader ?y) (batch_end_of rs)"
    if "rs \<in> set (sys_acked ?y) \<or> Some rs \<in> passed_batch ` set (sys_puts ?y)" for rs
    using that old new_passed [of rs a y] by blast
  then show ?thesis using q len by (simp add: quorum_inv_def)
qed

lemma sys_reach_inv: "sys_reach n tr y \<Longrightarrow> n + 1 < 2 ^ 64 \<Longrightarrow> quorum_inv n y"
  by (induction rule: sys_reach.induct) (simp_all add: quorum_inv_start quorum_inv_act)

lemma match_index_grow:
  assumes "links_grow ld ld'" "i < length (followers ld)"
  shows "match_index (followers ld ! i) \<le> match_index (followers ld' ! i)"
  using assms by (simp add: links_grow_def list_all2_conv_all_nth)

text \<open>A position is only ever raised by an acknowledgement that arrived on that link.\<close>

lemma put_step_links: "put_step io late pc ld = (pc', ld') \<Longrightarrow> map match_index (followers ld') = map match_index (followers ld)"
  by (cases "(io, late, pc, ld)" rule: put_step.cases) (auto simp: send_batch_def enqueue_def split: prod.splits sum.splits)

lemma compact_step_links:
  assumes "compact_step io late pc ld = Some (pc', ld')"
  shows "map match_index (followers ld') = map match_index (followers ld)"
proof (cases pc)
  case CompactStart
  then show ?thesis using assms by force
qed (use assms in \<open>auto simp: send_batch_def enqueue_def split: prod.splits sum.splits\<close>)

lemma update_link_links: "(\<And>f. match_index (g f) = match_index f) \<Longrightarrow>
    map match_index (followers (update_link i g ld)) = map match_index (followers ld)"
  by (simp add: update_link_def map_update list_update_same_conv)

lemma backfill_links: "map match_index (followers (handle_backfill i from ld)) = map match_index (followers ld)"
  by (simp add: handle_backfill_def backfill_install_def update_link_links split: option.split)

lemma act_links:
  assumes "\<And>i l. a \<noteq> Receive i (SyncAck l)"
  shows "map match_index (followers (sys_leader (act a y))) = map match_index (followers (sys_leader y))"
proof (cases a)
  case (RunPut t io late)
  then show ?thesis using put_step_links by (auto simp: run_put_def split: prod.splits)
next
  case (RunCompact t io late)
  then show ?thesis using compact_step_links by (auto simp: run_compact_def split: prod.splits option.splits)
next
  case (Connect i j)
  then show ?thesis by (simp add: dial_connect_def update_link_links backfill_links)
next
  case (Receive i frame)
  then show ?thesis using assms by (cases frame) (auto simp: dial_receive_def backfill_links)
next
  case (Pop i)
  then show ?thesis by (simp add: writer_pop_def update_link_links split: list.split)
next
  case (Client count frame)
  then show ?thesis by (cases frame) (auto simp: handle_client_def Let_def)
qed (simp_all add: backfill_install_def dial_disconnect_def update_link_links)

lemma sys_reach_acks:
  "sys_reach n tr y \<Longrightarrow> i < length (followers (sys_leader y)) \<Longrightarrow>
    match_index (followers (sys_leader y) ! i) = 0 \<or>
    Receive i (SyncAck (match_index (followers (sys_leader y) ! i))) \<in> set tr"
proof (induction rule: sys_reach.induct)
  case (sys_start cfg var d wal_log ld n)
  then show ?case by (auto simp: leader_new_def and_then_Inr new_link_def)
next
  case (sys_act n tr y a)
  let ?m = "\<lambda>y. match_index (followers (sys_leader y) ! i)"
  have i: "i < length (followers (sys_leader y))"
    using sys_act.prems links_grow_act [of y a] by (auto simp: links_grow_def dest: list_all2_lengthD)
  have "?m (act a y) = ?m y \<or> a = Receive i (SyncAck (?m (act a y)))"
  proof (cases "\<exists>j l. a = Receive j (SyncAck l)")
    case True
    then obtain j l where a: "a = Receive j (SyncAck l)" by blast
    then show ?thesis using i
      by (cases "j = i") (auto simp: dial_receive_def update_link_def Let_def nth_list_update max_def split: if_splits)
  next
    case False
    then have "map match_index (followers (sys_leader (act a y))) ! i = map match_index (followers (sys_leader y)) ! i"
      using act_links [of a y] by simp
    then show ?thesis using i sys_act.prems by simp
  qed
  then show ?case using sys_act.IH [OF i] by auto
qed

section \<open>Acknowledged batches are durable\<close>

text \<open>A run of puts in which syncs succeed and the store accepts what it is given, with crashes and restarts of the leader.\<close>

fun healthy :: "action \<Rightarrow> System \<Rightarrow> bool" where
  "healthy (RunPut t io late) y \<longleftrightarrow> io = IoOk \<and> (t < length (sys_puts y) \<longrightarrow> (case sys_puts y ! t of
     PutStage key value \<Rightarrow> room (inner (leader_store (sys_leader y))) value \<and> utf8_valid key \<and>
       (\<exists>sp st. stage_put key value (leader_store (sys_leader y)) = (Inr sp, st))
   | _ \<Rightarrow> True))"
| "healthy (RunCompact t io late) y \<longleftrightarrow> False"
| "healthy _ y \<longleftrightarrow> True"

abbreviation leader_wal :: "System \<Rightarrow> Wal" where
  "leader_wal y \<equiv> wal (inner (leader_store (sys_leader y)))"

inductive healthy_reach :: "System \<Rightarrow> bool" where
  h_start: "leader_new cfg var empty_disk None = Inr ld \<Longrightarrow> healthy_reach \<lparr>sys_leader = ld, sys_puts = [], sys_compacts = [], sys_acked = []\<rparr>"
| h_act: "healthy_reach y \<Longrightarrow> healthy a y \<Longrightarrow> healthy_reach (act a y)"
| h_restart: "healthy_reach y \<Longrightarrow> crash_disk (dir (inner (leader_store (sys_leader y)))) d \<Longrightarrow>
    crash_outcome (wal_file (leader_wal y)) (wal_buf (leader_wal y)) bs \<Longrightarrow>
    leader_new cfg var d (Some \<lparr>fdata = bs, fsynced = bs\<rparr>) = Inr ld \<Longrightarrow>
    healthy_reach \<lparr>sys_leader = ld, sys_puts = [], sys_compacts = [], sys_acked = sys_acked y\<rparr>"

fun logged :: "entry list \<Rightarrow> put_pc \<Rightarrow> bool" where
  "logged lg (PutSync rs v) = (set rs \<subseteq> set lg)"
| "logged lg (PutSend rs v) = (set rs \<subseteq> set lg)"
| "logged lg (PutAwait rs) = (set rs \<subseteq> set lg)"
| "logged lg (PutCommit rs) = (set rs \<subseteq> set lg)"
| "logged lg (PutIndex rs cb) = (set rs \<subseteq> set (committed_prefix lg))"
| "logged lg (PutAnnounce rs cb) = (set rs \<subseteq> set (committed_prefix lg))"
| "logged lg (PutAcked rs) = (set rs \<subseteq> set (committed_prefix lg))"
| "logged lg _ = True"

definition durable_inv :: "entry list \<Rightarrow> Leader \<Rightarrow> bool" where
  "durable_inv lg ld \<longleftrightarrow> leader_inv lg (leader_store ld) \<and> (pending (inner (leader_store ld)) \<or> committed_prefix lg = lg)"

lemma committed_subset: "set (committed_prefix lg) \<subseteq> set lg"
  using committed_prefix_split [of lg] by (metis set_append Un_upper1)

lemma logged_mono:
  assumes "prefix lg lg'" "logged lg pc"
  shows "logged lg' pc"
proof -
  have "set lg \<subseteq> set lg'" "set (committed_prefix lg) \<subseteq> set (committed_prefix lg')"
    using assms(1) committed_prefix_mono [OF assms(1)] by (auto dest: set_mono_prefix)
  then show ?thesis using assms(2) by (cases pc) auto
qed

text \<open>A healthy step of a thread extends the log and keeps the thread's own promise.\<close>

lemma put_step_durable:
  assumes inv: "durable_inv lg ld" and l: "logged lg pc" and run: "put_step IoOk late pc ld = (pc', ld')"
    and acc: "\<And>key v. pc = PutStage key v \<Longrightarrow> room (inner (leader_store ld)) v \<and> utf8_valid key \<and>
      (\<exists>sp st. stage_put key v (leader_store ld) = (Inr sp, st))"
  shows "\<exists>lg'. prefix lg lg' \<and> durable_inv lg' ld' \<and> logged lg' pc'"
proof (cases pc)
  case (PutStage key v)
  then obtain sp st where st: "stage_put key v (leader_store ld) = (Inr sp, st)" using acc by blast
  have r: "room (inner (leader_store ld)) v" "utf8_valid key" using acc [OF PutStage] by auto
  have li: "leader_inv lg (leader_store ld)" using inv by (simp add: durable_inv_def)
  have "inner_inv (inner (leader_store ld))" using li by (simp add: leader_inv_def writer_inv_def)
  moreover obtain s' where s': "inner_stage_put key v (inner (leader_store ld)) = (Inr sp, s')" "inner st = s'"
    using st by (auto simp: stage_put_def locked_def split: prod.splits)
  ultimately have "pending (inner st)" using stage_put_ok [OF _ _ s'(1)] r(1) by (simp add: room_def)
  then show ?thesis
    using run st leader_stage [OF li r st] by (intro exI [of _ "lg @ staged_records sp"]) (auto simp: PutStage durable_inv_def)
next
  case (PutSync rs v)
  obtain st where st: "sync_wal IoOk (leader_store ld) = (Inr (), st)" "pending (inner st) = pending (inner (leader_store ld))"
    using sync_IoOk [of "wal (inner (leader_store ld))"] by (auto simp: sync_wal_def locked_def inner_sync_def)
  have "leader_inv lg st" using leader_sync_wal [OF _ st(1)] inv by (simp add: durable_inv_def)
  then show ?thesis using run st l inv by (intro exI [of _ lg]) (auto simp: PutSync durable_inv_def)
next
  case (PutCommit rs)
  show ?thesis
  proof (cases "pending (inner (leader_store ld))")
    case True
    obtain r st where c: "commit IoOk (batch_end_of rs) (leader_store ld) = (r, st)" by force
    have "leader_inv lg (leader_store ld)" using inv by (simp add: durable_inv_def)
    from leader_commit [OF this c True] obtain e where e: "is_commit (snd e)" "leader_inv (lg @ [e]) st" "r = Inr ()"
      by blast
    then have "committed_prefix (lg @ [e]) = lg @ [e]" by (simp add: committed_prefix_snoc)
    then show ?thesis using run c e l by (intro exI [of _ "lg @ [e]"]) (auto simp: PutCommit durable_inv_def)
  next
    case False
    then have "commit IoOk (batch_end_of rs) (leader_store ld) = (Inr (), leader_store ld)" by (simp add: commit_def)
    then show ?thesis using run l inv False by (intro exI [of _ lg]) (auto simp: PutCommit durable_inv_def)
  qed
qed (use run l inv in \<open>auto simp: durable_inv_def send_batch_def intro!: exI [of _ lg] split: sum.splits if_splits\<close>)

definition system_inv :: "System \<Rightarrow> bool" where
  "system_inv y \<longleftrightarrow> (\<exists>lg. durable_inv lg (sys_leader y) \<and> (\<forall>pc \<in> set (sys_puts y). logged lg pc) \<and>
     (\<forall>rs \<in> set (sys_acked y). set rs \<subseteq> set (committed_prefix lg)))"

lemma act_store: "healthy a y \<Longrightarrow> (\<And>t io late. a \<noteq> RunPut t io late) \<Longrightarrow>
    leader_store (sys_leader (act a y)) = leader_store (sys_leader y) \<and> sys_acked (act a y) = sys_acked y \<and>
    (\<forall>pc \<in> set (sys_puts (act a y)). pc \<in> set (sys_puts y) \<or> (\<exists>k v. pc = PutStage k v))"
  by (cases a) (auto simp: dial_connect_def handle_backfill_def backfill_install_def update_link_def dial_receive_def
    dial_disconnect_def writer_pop_def handle_client_def Let_def split: option.split list.split Frame.split)

lemma system_inv_act:
  assumes inv: "system_inv y" and h: "healthy a y"
  shows "system_inv (act a y)"
proof -
  obtain lg where lg: "durable_inv lg (sys_leader y)" "\<forall>pc \<in> set (sys_puts y). logged lg pc"
    "\<forall>rs \<in> set (sys_acked y). set rs \<subseteq> set (committed_prefix lg)" using inv unfolding system_inv_def by blast
  show ?thesis
  proof (cases "\<exists>t io late. a = RunPut t io late \<and> t < length (sys_puts y)")
    case True
    then obtain t io late where a: "a = RunPut t io late" and t: "t < length (sys_puts y)" by blast
    have io: "io = IoOk" using h a by simp
    obtain pc ld where s: "put_step IoOk late (sys_puts y ! t) (sys_leader y) = (pc, ld)" by force
    have "\<exists>lg'. prefix lg lg' \<and> durable_inv lg' ld \<and> logged lg' pc"
      by (rule put_step_durable [OF lg(1) _ s]) (use lg(2) t h a in \<open>auto split: put_pc.splits\<close>)
    then obtain lg' where lg': "prefix lg lg'" "durable_inv lg' ld" "logged lg' pc" by blast
    have y: "act a y = y\<lparr>sys_leader := ld, sys_puts := (sys_puts y)[t := pc],
        sys_acked := (case pc of PutAcked rs \<Rightarrow> List.insert rs (sys_acked y) | _ \<Rightarrow> sys_acked y)\<rparr>"
      using t s by (simp add: a io run_put_def)
    have "\<forall>p \<in> set ((sys_puts y)[t := pc]). logged lg' p"
      using set_update_subset_insert [of "sys_puts y" t pc] lg(2) lg'(1,3) logged_mono by blast
    moreover have "set (committed_prefix lg) \<subseteq> set (committed_prefix lg')"
      using committed_prefix_mono [OF lg'(1)] by (rule set_mono_prefix)
    then have "\<forall>rs \<in> set (case pc of PutAcked rs \<Rightarrow> List.insert rs (sys_acked y) | _ \<Rightarrow> sys_acked y). set rs \<subseteq> set (committed_prefix lg')"
      using lg(3) lg'(3) by (cases pc) auto
    ultimately show ?thesis using lg'(2) unfolding system_inv_def y by auto
  next
    case False
    have "leader_store (sys_leader (act a y)) = leader_store (sys_leader y) \<and> sys_acked (act a y) = sys_acked y \<and>
        (\<forall>pc \<in> set (sys_puts (act a y)). pc \<in> set (sys_puts y) \<or> (\<exists>k v. pc = PutStage k v))"
    proof (cases "\<exists>t io late. a = RunPut t io late")
      case True
      then show ?thesis using False by (auto simp: run_put_def)
    qed (use act_store [OF h] in blast)
    then show ?thesis using lg unfolding system_inv_def durable_inv_def by (intro exI [of _ lg]) auto
  qed
qed

lemma leader_new_store: "leader_new cfg var d w = Inr ld \<Longrightarrow> fst (open_with_options d w (store_options var)) = Inr (leader_store ld)"
  by (auto simp: leader_new_def and_then_Inr)

lemma healthy_reach_inv: "healthy_reach y \<Longrightarrow> system_inv y"
proof (induction rule: healthy_reach.induct)
  case (h_start cfg var ld)
  then obtain d where "open_with_options empty_disk None (store_options var) = (Inr (leader_store ld), d)"
    using leader_new_store by (metis prod.collapse)
  from leader_open_new [OF this] show ?case unfolding system_inv_def durable_inv_def by (intro exI [of _ "[]"]) simp
next
  case (h_act y a)
  then show ?case using system_inv_act by blast
next
  case (h_restart y d bs cfg var ld)
  obtain lg where lg: "leader_inv lg (leader_store (sys_leader y))" "\<forall>rs \<in> set (sys_acked y). set rs \<subseteq> set (committed_prefix lg)"
    using h_restart.IH unfolding system_inv_def durable_inv_def by blast
  from leader_crash [OF lg(1) h_restart.hyps(2,3), of "store_options var"] leader_new_store [OF h_restart.hyps(4)]
  have "leader_inv (committed_prefix lg) (leader_store ld)" by auto
  then show ?case using lg(2) unfolding system_inv_def durable_inv_def by (intro exI [of _ "committed_prefix lg"]) simp
qed

end
