(* ===== verification/Replication.thy ===== *)
theory Replication
  imports NodeSafety
begin

text \<open>
  The properties of replication, and concrete runs of a leader: a put that nothing interrupts is visible as soon as
  it is acknowledged, and an interleaving of two puts after which an acknowledged value is not.
\<close>

section \<open>A put without a seal\<close>

definition plain_put :: "str \<Rightarrow> bytes \<Rightarrow> Inner \<Rightarrow> bool" where
  "plain_put key v s \<longleftrightarrow> length v \<le> 4294967295 \<and> active_offset s + of_nat (length v) \<le> segment_max_bytes s \<and>
    of_nat (length v) \<le> segment_max_bytes s \<and> put_fits s key v \<and> unat (next_lsn (wal s)) + 3 < 2 ^ 64"

lemma inner_append_next:
  assumes "record_size rec \<le> 4072" "unat (next_lsn (wal s)) + 1 < 2 ^ 64"
  shows "\<exists>w. inner_append rec s = (Inr (next_lsn (wal s)), s\<lparr>wal := w\<rparr>) \<and> next_lsn w = next_lsn (wal s) + 1"
  using assms(1) max_Suc_word [OF assms(2)] by (auto simp: inner_append_def wal_append_def append_at_eq Let_def)

abbreviation put_records :: "str \<Rightarrow> bytes \<Rightarrow> Inner \<Rightarrow> entry list" where
  "put_records key v s \<equiv> [(next_lsn (wal s), Put key (of_nat (length v)) (next_lsn (wal s))),
     (next_lsn (wal s) + 1, AggDelta (deltas_for (rollup s) key (of_nat (length v))))]"

lemma plain_put_runs:
  assumes inv: "inner_inv s" and p: "plain_put key v s"
  shows "\<exists>s'. inner_stage_put key v s = (Inr \<lparr>object_id = next_lsn (wal s), staged_records = put_records key v s\<rparr>, s') \<and>
    next_lsn (wal s') = next_lsn (wal s) + 2 \<and> active_offset s' = active_offset s + of_nat (length v) \<and>
    segment_max_bytes s' = segment_max_bytes s \<and> next_free_id s' = next_free_id s"
proof -
  let ?n = "next_lsn (wal s)"
  obtain r1 s1 where o: "open_segment (active_id s) s = (r1, s1)" by force
  have "active_id s < next_free_id s" using inv by (simp add: inner_inv_def)
  from open_segment_ok [OF inv o this] obtain i d segs where o1: "r1 = Inr ()"
    "map_of (segments s1) (active_id s) = Some i" and s1: "s1 = s\<lparr>dir := d, segments := segs\<rparr>" by blast
  let ?s2 = "s1\<lparr>dir := write_file i (unat (active_offset s1)) v (dir s1)\<rparr>"
  have w: "write_value v s1 = (Inr (), ?s2)" using o1(2) by (simp add: write_value_def s1)
  have f: "record_size (Put key (of_nat (length v)) ?n) \<le> 4072"
    "record_size (AggDelta (deltas_for (rollup s) key (of_nat (length v)))) \<le> 4072" and n: "unat ?n + 3 < 2 ^ 64"
    using p by (simp_all add: plain_put_def put_fits_def record_size_def)
  obtain w1 where w1: "inner_append (Put key (of_nat (length v)) ?n) ?s2 = (Inr ?n, ?s2\<lparr>wal := w1\<rparr>)" "next_lsn w1 = ?n + 1"
    using inner_append_next [OF f(1), of ?s2] n by (auto simp: s1)
  have "unat (?n + 1) + 1 < 2 ^ 64" using n by (simp add: unat_word_ariths)
  then obtain w2 where w2: "inner_append (AggDelta (deltas_for (rollup s) key (of_nat (length v)))) (?s2\<lparr>wal := w1\<rparr>) =
      (Inr (?n + 1), ?s2\<lparr>wal := w2\<rparr>)" "next_lsn w2 = ?n + 2"
    using inner_append_next [OF f(2), of "?s2\<lparr>wal := w1\<rparr>"] w1(2) by (auto simp: s1)
  have no_seal: "\<not> active_offset s + of_nat (length v) > segment_max_bytes s" "\<not> (of_nat (length v) :: u64) > segment_max_bytes s"
    using p by (auto simp: plain_put_def)
  show ?thesis
    using o o1(1) w w1 w2 no_seal p
    by (auto simp: inner_stage_put_def stage_body_def op_bind_def op_basic Let_def s1 plain_put_def)
qed

section \<open>A put that nothing interrupts\<close>

lemma commit_next:
  assumes "inner_commit IoOk lsn s = (Inr (), s')" "unat (next_lsn (wal s)) + 1 < 2 ^ 64"
  shows "next_lsn (wal s') = next_lsn (wal s) + 1"
proof -
  have r: "record_size (Commit lsn) \<le> 4072" by (simp add: record_size_def)
  obtain w where w: "inner_append (Commit lsn) (fsync_dirty_segments s) = (Inr (next_lsn (wal s)), (fsync_dirty_segments s)\<lparr>wal := w\<rparr>)"
    "next_lsn w = next_lsn (wal s) + 1"
    using inner_append_next [OF r, of "fsync_dirty_segments s"] assms(2) by (auto simp: fsync_dirty_segments_def)
  obtain x where x: "sync IoOk w = (Inr (), x)" using sync_IoOk by blast
  then show ?thesis
    using assms(1) w sync_keeps [OF x] by (auto simp: inner_commit_def op_bind_def op_basic inner_sync_def Let_def)
qed

text \<open>The state of a store after an accepted put, with what the next commit will publish for its key.\<close>

definition staged_in :: "str \<Rightarrow> bytes \<Rightarrow> Lsn \<Rightarrow> Inner \<Rightarrow> bool" where
  "staged_in key v n s \<longleftrightarrow> inner_inv s \<and> pending s \<and>
    (\<exists>seg off i. map_of (index s) key = Some (seg, off, of_nat (length v), n) \<and> map_of (segments s) seg = Some i \<and>
       read_value (file_data (dir s) i) off (of_nat (length v)) = Inr v)"

lemma staged_in_stage:
  assumes "inner_inv s" "counters_ok s (length v)" "inner_stage_put key v s = (Inr sp, s')"
  shows "staged_in key v (object_id sp) s'"
  using stage_put_ok [OF assms] by (auto simp: staged_in_def update_conv')

lemma staged_in_wal: "staged_in key v n s \<Longrightarrow> staged_in key v n (s\<lparr>wal := w\<rparr>)"
  by (simp add: staged_in_def inner_inv_def index_ok_def protected_region_def)

lemma commit_visible:
  assumes st: "staged_in key v n (inner st)" and run: "commit IoOk lsn st = (r, st')"
  shows "r = Inr () \<and> inner_inv (inner st') \<and> get_upto st' key c = (if n > c then Inr None else Inr (Some v))"
proof -
  let ?s = "inner st"
  obtain s' where s': "inner_commit IoOk lsn ?s = (Inr (), s')" using commit_IoOk by blast
  have st': "st' = publish (st\<lparr>inner := s'\<rparr>)" "r = Inr ()"
    using run st s' by (auto simp: staged_in_def commit_def op_bind_def locked_def op_basic)
  have "inner_inv ?s" using st by (simp add: staged_in_def)
  then have "inner_inv s'" using commit_ok s' by blast
  moreover have "get_upto st' key c = (if n > c then Inr None else Inr (Some v))"
    using st commit_fields [OF s']
    by (auto simp: staged_in_def st' get_upto_def publish_def Snap_from_def read_snap_def fsync_dirty_ok)
  ultimately show ?thesis using st' by (simp add: publish_def)
qed

text \<open>The log position of an accepted put lies below the next free one.\<close>

lemma maybe_seal_next:
  assumes "seal_if b s = (Inr rs, s')" "unat (next_lsn (wal s)) + 1 < 2 ^ 64"
  shows "unat (next_lsn (wal s)) \<le> unat (next_lsn (wal s')) \<and> unat (next_lsn (wal s')) \<le> unat (next_lsn (wal s)) + 1"
proof (cases b)
  case True
  then obtain x l where "inner_append (SegmentSeal (active_id s) (next_free_id s)) (s\<lparr>next_free_id := next_free_id s + 1\<rparr>) = (Inr l, x)"
    "wal s' = wal x"
    using assms(1) by (auto simp: seal_active_record_def op_bind_Inr op_basic)
  then show ?thesis using append_next_Inr assms(2) by fastforce
qed (use assms in \<open>simp add: op_basic\<close>)

lemma stage_next:
  assumes run: "inner_stage_put key v s = (Inr sp, s')" and n: "unat (next_lsn (wal s)) + 5 < 2 ^ 64" and inv: "inner_inv s" "counters_ok s (length v)"
  shows "unat (object_id sp) < unat (next_lsn (wal s')) \<and> unat (next_lsn (wal s')) \<le> unat (next_lsn (wal s)) + 4"
proof -
  have "\<not> length v > 4294967295" using inv(2) by (simp add: counters_ok_def)
  obtain b rs0 s1 l rs1 s2 b2 rs2 where 1: "seal_if b s = (Inr rs0, s1)" and 2: "stage_body key v s1 = (Inr (l, rs1), s2)"
    and 3: "seal_if b2 s2 = (Inr rs2, s')" and sp: "object_id sp = l" "staged_records sp = rs0 @ rs1 @ rs2"
    by (rule stage_put_parts [OF run])
  have m1: "unat (next_lsn (wal s1)) \<le> unat (next_lsn (wal s)) + 1" using maybe_seal_next [OF 1] n by simp
  have "inner_inv s1"
    using 1 seal_ok [OF inv(1)] inv by (auto simp: op_bind_Inr op_basic counters_ok_def split: if_splits)
  from stage_body_run [OF this 2] obtain w1 w2 ds where
    a: "append_at (Put key (of_nat (length v)) l) l (wal s1) = Inr w1" "append_at (AggDelta ds) (next_lsn w1) w1 = Inr w2" "wal s2 = w2"
    by (auto simp: staged_state_def)
  have l: "l = next_lsn (wal s1)"
    using 2 by (auto simp: stage_body_def op_bind_Inr op_basic Let_def open_segment_def write_value_def split: option.splits prod.splits if_splits)
  have k: "unat (next_lsn (wal s1)) + 2 < 2 ^ 64" using m1 n by simp
  have w1: "unat (next_lsn w1) = unat l + 1" using append_at_next [of "Put key (of_nat (length v)) l" "wal s1" w1] a(1) k by (simp add: l)
  moreover have "unat (next_lsn (wal s2)) = unat (next_lsn w1) + 1" using append_at_next [OF a(2)] a(3) k w1 by (simp add: l)
  ultimately have "unat (next_lsn (wal s2)) = unat l + 2" by simp
  then show ?thesis using maybe_seal_next [OF 3] m1 n l sp by simp
qed

section \<open>Threads alone\<close>

text \<open>\<open>k\<close> steps of one put thread with nothing in between.\<close>

definition put_run :: "nat \<Rightarrow> put_pc \<times> Leader \<Rightarrow> put_pc \<times> Leader" where
  "put_run k = (\<lambda>(pc, ld). put_step IoOk False pc ld) ^^ k"

lemma put_run_simps: "put_run 0 x = x" "put_run (Suc k) (pc, ld) = put_run k (put_step IoOk False pc ld)"
  by (simp_all add: put_run_def funpow_Suc_right del: funpow.simps(2))

lemma stage_sync_send:
  assumes "stage_put key v (leader_store ld) = (Inr sp, st1)"
  shows "\<exists>ld3. put_run 3 (PutStage key v, ld) = (PutAwait (staged_records sp), ld3) \<and>
    leader_store ld3 = snd (sync_wal IoOk st1) \<and> quorum ld3 = quorum ld \<and> commit_index ld3 = commit_index ld \<and>
    map match_index (followers ld3) = map match_index (followers ld)"
proof -
  obtain st2 where "sync_wal IoOk st1 = (Inr (), st2)"
    using sync_IoOk [of "wal (inner st1)"] by (auto simp: sync_wal_def locked_def inner_sync_def)
  then show ?thesis using assms by (simp add: numeral_3_eq_3 put_run_simps send_batch_def enqueue_def)
qed

lemma await_commit_announce:
  assumes q: "quorum ld \<le> acks ld (batch_end_of rs)" and st: "staged_in key v n (inner (leader_store ld))"
    and n: "unat n < unat (next_lsn (wal (inner (leader_store ld))))" "unat (next_lsn (wal (inner (leader_store ld)))) + 1 < 2 ^ 64"
  shows "\<exists>ld'. put_run 4 (PutAwait rs, ld) = (PutAcked rs, ld') \<and> get_upto (leader_store ld') key (commit_index ld') = Inr (Some v)"
proof -
  let ?s = "inner (leader_store ld)"
  obtain st' where c: "commit IoOk (batch_end_of rs) (leader_store ld) = (Inr (), st')"
    using commit_visible [OF st] by (metis surj_pair)
  have "pending ?s" using st by (simp add: staged_in_def)
  then obtain s' where s': "inner_commit IoOk (batch_end_of rs) ?s = (Inr (), s')" "st' = publish (leader_store ld\<lparr>inner := s'\<rparr>)"
    using c commit_IoOk [of "batch_end_of rs" ?s] by (auto simp: commit_def op_bind_def locked_def op_basic)
  have "store_next_lsn st' - 1 = next_lsn (wal ?s)"
    using commit_next [OF s'(1) n(2)] by (simp add: s'(2) store_next_lsn_def publish_def)
  moreover have "\<not> n > next_lsn (wal ?s)" using n(1) by (simp add: word_less_nat_alt)
  ultimately have "get_upto st' key (store_next_lsn st' - 1) = Inr (Some v)" using commit_visible [OF st c] by simp
  then show ?thesis using q c by (simp add: eval_nat_numeral put_run_simps await_round_def send_batch_def)
qed

lemma commit_max_bytes: "inner_commit io lsn s = (r, s') \<Longrightarrow> segment_max_bytes s' = segment_max_bytes s"
  by (auto simp: inner_commit_def op_bind_def op_basic inner_sync_def fsync_dirty_segments_def Let_def
      split: prod.splits sum.splits dest!: inner_append_cases)

lemma solo_commit:
  assumes inv: "inner_inv (inner (leader_store ld))" and p: "plain_put key v (inner (leader_store ld))"
    and c: "counters_ok (inner (leader_store ld)) (length v)" and solo: "followers ld = []" "quorum ld = 1"
  shows "\<exists>ld'. put_run 5 (PutStage key v, ld) = (PutIndex (put_records key v (inner (leader_store ld))) (next_lsn (wal (inner (leader_store ld))) + 2), ld') \<and>
    followers ld' = [] \<and> quorum ld' = 1 \<and> inner_inv (inner (leader_store ld')) \<and>
    next_lsn (wal (inner (leader_store ld'))) = next_lsn (wal (inner (leader_store ld))) + 3 \<and>
    active_offset (inner (leader_store ld')) = active_offset (inner (leader_store ld)) + of_nat (length v) \<and>
    next_free_id (inner (leader_store ld')) = next_free_id (inner (leader_store ld)) \<and>
    segment_max_bytes (inner (leader_store ld')) = segment_max_bytes (inner (leader_store ld)) \<and>
    (\<forall>c. get_upto (leader_store ld') key c = (if next_lsn (wal (inner (leader_store ld))) > c then Inr None else Inr (Some v)))"
proof -
  let ?s = "inner (leader_store ld)" and ?rs = "put_records key v (inner (leader_store ld))"
  obtain s1 where s1: "inner_stage_put key v ?s = (Inr \<lparr>object_id = next_lsn (wal ?s), staged_records = ?rs\<rparr>, s1)"
    "next_lsn (wal s1) = next_lsn (wal ?s) + 2" "active_offset s1 = active_offset ?s + of_nat (length v)"
    "segment_max_bytes s1 = segment_max_bytes ?s" "next_free_id s1 = next_free_id ?s"
    using plain_put_runs [OF inv p] by blast
  obtain w where w: "sync IoOk (wal s1) = (Inr (), w)" using sync_IoOk by blast
  let ?st2 = "leader_store ld\<lparr>inner := s1\<lparr>wal := w\<rparr>\<rparr>"
  have st: "staged_in key v (next_lsn (wal ?s)) (inner ?st2)" using staged_in_stage [OF inv c s1(1)] by (simp add: staged_in_wal)
  obtain st3 where c3: "commit IoOk (batch_end_of ?rs) ?st2 = (Inr (), st3)" using commit_visible [OF st] by (metis surj_pair)
  obtain s3 where s3: "inner_commit IoOk (batch_end_of ?rs) (inner ?st2) = (Inr (), s3)" "st3 = publish (?st2\<lparr>inner := s3\<rparr>)"
    using c3 st commit_IoOk [of "batch_end_of ?rs" "inner ?st2"] by (auto simp: staged_in_def commit_def op_bind_def locked_def op_basic)
  have n: "unat (next_lsn w) + 1 < 2 ^ 64" using p sync_keeps [OF w] s1(2) by (simp add: plain_put_def unat_word_ariths)
  have n3: "next_lsn (wal s3) = next_lsn (wal ?s) + 3" using commit_next [OF s3(1)] n sync_keeps [OF w] s1(2) by simp
  have m3: "segment_max_bytes s3 = segment_max_bytes s1"
    using commit_max_bytes [OF s3(1)] by simp
  have run: "put_run 5 (PutStage key v, ld) = (PutIndex ?rs (next_lsn (wal ?s) + 2), ld\<lparr>leader_store := st3\<rparr>)"
    using s1(1) w c3 n3 solo
    by (simp add: eval_nat_numeral put_run_simps stage_put_def locked_def sync_wal_def inner_sync_def send_batch_def
        await_round_def acks_def s3(2) store_next_lsn_def publish_def)
  show ?thesis
    using run solo commit_visible [OF st c3] n3 m3 s1 commit_fields [OF s3(1)] by (simp add: s3(2) publish_def)
qed

text \<open>The same at the level of the system.\<close>

definition solo_steps :: "nat \<Rightarrow> nat \<Rightarrow> System \<Rightarrow> System" where
  "solo_steps k t = act (RunPut t IoOk False) ^^ k"

lemma solo_steps_reach: "sys_reach n tr y \<Longrightarrow> sys_reach n (tr @ replicate k (RunPut t IoOk False)) (solo_steps k t y)"
proof (induction k)
  case (Suc k)
  from sys_act [OF Suc.IH [OF Suc.prems], of "RunPut t IoOk False"] show ?case
    by (simp add: solo_steps_def replicate_append_same [symmetric])
qed (simp add: solo_steps_def)

lemma solo_steps_run:
  assumes "t < length (sys_puts y)" "put_run k (sys_puts y ! t, sys_leader y) = (pc, ld)"
  shows "sys_leader (solo_steps k t y) = ld \<and> sys_puts (solo_steps k t y) = (sys_puts y)[t := pc] \<and>
    (0 < k \<longrightarrow> pc = PutAcked rs \<longrightarrow> rs \<in> set (sys_acked (solo_steps k t y)))"
  using assms(2)
proof (induction k arbitrary: pc ld)
  case (Suc k)
  obtain pc1 ld1 where 1: "put_run k (sys_puts y ! t, sys_leader y) = (pc1, ld1)" by force
  then have "put_step IoOk False pc1 ld1 = (pc, ld)" using Suc.prems by (simp add: put_run_def)
  then show ?case using Suc.IH [OF 1] assms(1) by (auto simp: solo_steps_def run_put_def)
qed (use assms(1) in \<open>simp add: solo_steps_def put_run_def\<close>)

section \<open>A cluster of one node\<close>

definition one_node :: Config where
  "one_node = \<lparr>cfg_id = 0, cfg_addr = ''n0'', cfg_peers = [''n0''], cfg_role = 0\<rparr>"

lemma one_node_starts:
  "\<exists>ld. leader_new one_node (Some ''1000'') empty_disk None = Inr ld \<and> followers ld = [] \<and> quorum ld = 1 \<and> commit_index ld = 0 \<and>
    inner_inv (inner (leader_store ld)) \<and> active_offset (inner (leader_store ld)) = 0 \<and> next_free_id (inner (leader_store ld)) = 1 \<and>
    segment_max_bytes (inner (leader_store ld)) = 1000 \<and> next_lsn (wal (inner (leader_store ld))) = 1"
proof -
  have m: "store_options (Some ''1000'') = 1000"
    by (simp add: store_options_def parse_u64_def is_digit_def parse_digits_def)
  obtain st where o: "open_with_options empty_disk None 1000 = (Inr st, dir (inner st))" using open_empty by blast
  have s: "active_offset (inner st) = 0" "next_free_id (inner st) = 1" "segment_max_bytes (inner st) = 1000" "next_lsn (wal (inner st)) = 1"
    by (simp_all add: open_empty_inner [OF o] fresh_inner_def wal_open_None)
  have "inner_inv (inner st)" using store_inv_open [OF o] by (simp add: store_inv_def)
  then show ?thesis
    using o s by (simp add: leader_new_def one_node_def m and_then_def store_next_lsn_def quorum_size_def div_ceil_def)
qed

lemma small_put:
  assumes "key = [97] \<or> key = [98]" "active_offset s \<le> 10" "segment_max_bytes s = 1000" "next_lsn (wal s) \<le> 10" "next_free_id s = 1"
  shows "plain_put key [x] s \<and> counters_ok s (length [x])"
proof -
  have "prefixes_of [97] = [[]]" "prefixes_of [98] = [[]]" by code_simp+
  then have f: "put_fits s key [x]" using assms(1) by (auto simp: put_fits_def record_size_def deltas_for_def split: prod.split)
  have u: "unat (active_offset s) \<le> 10" "unat (next_lsn (wal s)) \<le> 10" using assms(2,4) by (simp_all add: word_le_nat_alt)
  then have "unat (active_offset s + 1) \<le> 11" by (simp add: unat_word_ariths)
  then have "active_offset s + 1 \<le> 1000" by (simp add: word_le_nat_alt)
  then show ?thesis using f u assms(3,5) by (simp add: plain_put_def counters_ok_def)
qed

text \<open>One put of the cluster of one node, from the start to its acknowledgement.\<close>

lemma put_run_add: "put_run (a + b) x = put_run b (put_run a x)"
  by (simp add: put_run_def add.commute [of a] funpow_add)

lemma put_run_ack: "put_run 2 (PutIndex rs cb, ld) = (PutAcked rs, send_batch [(cb, Commit (batch_end_of rs))] None cb (ld\<lparr>commit_index := cb\<rparr>))"
  by (simp add: numeral_2_eq_2 put_run_simps)

lemma put_step_not_stage: "put_step io late pc ld = (PutStage key v, ld') \<Longrightarrow> False"
  by (cases "(io, late, pc, ld)" rule: put_step.cases) (auto split: prod.splits sum.splits if_splits)

lemma solo_steps_healthy:
  assumes "healthy_reach y" "t < length (sys_puts y)" "healthy (RunPut t IoOk False) y"
  shows "healthy_reach (solo_steps k t y)"
proof (induction k)
  case (Suc k)
  obtain pc ld where r: "put_run k (sys_puts y ! t, sys_leader y) = (pc, ld)" by force
  have p: "sys_puts (solo_steps k t y) ! t = pc" "sys_leader (solo_steps k t y) = ld"
    using solo_steps_run [OF assms(2) r] assms(2) by simp_all
  have "healthy (RunPut t IoOk False) (solo_steps k t y)"
  proof (cases k)
    case 0
    then show ?thesis using assms(3) by (simp add: solo_steps_def)
  next
    case (Suc j)
    then have "pc \<noteq> PutStage key v" for key v
      using r put_step_not_stage by (auto simp: put_run_def split: prod.splits)
    then show ?thesis using p by (auto split: put_pc.split)
  qed
  from h_act [OF Suc.IH this] show ?case by (simp add: solo_steps_def)
qed (use assms(1) in \<open>simp add: solo_steps_def\<close>)

lemma one_node_put:
  "\<exists>y ds. sys_reach 1 (NewPut [97] [1] # replicate 7 (RunPut 0 IoOk False)) y \<and> healthy_reach y \<and>
     [(1, Put [97] 1 1), (2, AggDelta ds)] \<in> set (sys_acked y)"
proof -
  obtain ld where l: "leader_new one_node (Some ''1000'') empty_disk None = Inr ld" and f: "followers ld = []" "quorum ld = 1"
    and s: "inner_inv (inner (leader_store ld))" "active_offset (inner (leader_store ld)) = 0" "next_free_id (inner (leader_store ld)) = 1"
    "segment_max_bytes (inner (leader_store ld)) = 1000" "next_lsn (wal (inner (leader_store ld))) = 1"
    using one_node_starts by blast
  let ?y0 = "\<lparr>sys_leader = ld, sys_puts = [], sys_compacts = [], sys_acked = []\<rparr>"
  let ?y1 = "act (NewPut [97] [1]) ?y0" and ?rs = "put_records [97] [1] (inner (leader_store ld))"
  have "length (cfg_peers one_node) = 1" by (simp add: one_node_def)
  from sys_act [OF sys_start [OF l this], of "NewPut [97] [1]"] have r1: "sys_reach 1 [NewPut [97] [1]] ?y1" by simp
  have h1: "healthy_reach ?y1" using h_act [OF h_start [OF l], of "NewPut [97] [1]"] by simp
  have p: "plain_put [97] [1] (inner (leader_store ld))" "counters_ok (inner (leader_store ld)) (length [1 :: u8])"
    using small_put [of "[97]" "inner (leader_store ld)" 1] s by simp_all
  obtain ld5 where 5: "put_run 5 (PutStage [97] [1], ld) = (PutIndex ?rs (1 + 2), ld5)"
    using solo_commit [OF s(1) p f] s(5) by auto
  have "put_run (5 + 2) (PutStage [97] [1], ld) = (PutAcked ?rs, send_batch [(1 + 2, Commit (batch_end_of ?rs))] None (1 + 2) (ld5\<lparr>commit_index := 1 + 2\<rparr>))"
    unfolding put_run_add 5 by (rule put_run_ack)
  then have acked: "?rs \<in> set (sys_acked (solo_steps 7 0 ?y1))"
    using solo_steps_run [of 0 ?y1 7 "PutAcked ?rs" _ ?rs] by simp
  have "\<exists>sp st. stage_put [97] [1] (leader_store ld) = (Inr sp, st)"
    using plain_put_runs [OF s(1) p(1)] by (auto simp: stage_put_def locked_def)
  moreover have "utf8_valid [97]" by code_simp
  ultimately have "healthy (RunPut 0 IoOk False) ?y1" using p(2) s(3) by (simp add: room_def)
  then have "healthy_reach (solo_steps 7 0 ?y1)" using solo_steps_healthy [OF h1] by simp
  then show ?thesis using acked solo_steps_reach [OF r1, of 7 0] s(5) by auto
qed

section \<open>Properties\<close>

text \<open>
  C2. No put is acknowledged without a quorum: whatever the interleaving of put and compaction threads,
  reconnections, backfills, acknowledgements and simulated failures, for every put the leader has acknowledged there
  is a set of distinct followers, with the leader at least half of the configured nodes and more than half when
  their number is odd, each of which had sent an acknowledgement of the batch's last position or a later
  one.\<close>

theorem acked_put_has_quorum:
  assumes "sys_reach n tr y" and "n + 1 < 2 ^ 64" and "rs \<in> set (sys_acked y)" and "batch_end_of rs \<noteq> 0"
  shows "\<exists>q. q \<subseteq> {..<length (followers (sys_leader y))} \<and> n \<le> 2 * (1 + card q) \<and> (odd n \<longrightarrow> n < 2 * (1 + card q)) \<and>
    (\<forall>i \<in> q. \<exists>lsn. batch_end_of rs \<le> lsn \<and> Receive i (SyncAck lsn) \<in> set tr)"
proof -
  let ?fs = "followers (sys_leader y)" and ?e = "batch_end_of rs"
  let ?q = "{i. i < length ?fs \<and> match_index (?fs ! i) \<ge> ?e}"
  have "unat (quorum_size n) \<le> ack_count (sys_leader y) ?e"
    using sys_reach_inv [OF assms(1,2)] assms(3) unfolding quorum_inv_def by blast
  then have "div_ceil n 2 \<le> 1 + card ?q" using assms(2) by (simp add: unat_quorum_size ack_count_def length_filter_conv_card)
  then have "n \<le> 2 * (1 + card ?q)" "odd n \<longrightarrow> n < 2 * (1 + card ?q)" by (auto simp: div_ceil_def elim!: oddE split: if_splits)
  moreover have "\<exists>lsn. ?e \<le> lsn \<and> Receive i (SyncAck lsn) \<in> set tr" if "i \<in> ?q" for i
    using sys_reach_acks [OF assms(1), of i] that assms(4) by (auto simp: word_le_nat_alt unat_eq_0)
  ultimately show ?thesis by (intro exI [of _ ?q]) auto
qed

theorem acked_put_has_quorum_witness:
  "\<exists>(y :: System) rs q. rs \<in> set (sys_acked y) \<and> batch_end_of rs = 2 \<and> q \<subseteq> {..<length (followers (sys_leader y))} \<and> 1 < 2 * (1 + card q)"
proof -
  obtain y ds where y: "sys_reach 1 (NewPut [97] [1] # replicate 7 (RunPut 0 IoOk False)) y" "[(1, Put [97] 1 1), (2, AggDelta ds)] \<in> set (sys_acked y)"
    using one_node_put by blast
  have e: "batch_end_of [(1, Put [97] 1 1), (2, AggDelta ds)] = 2" by (simp add: batch_end_of_def)
  then have "batch_end_of [(1, Put [97] 1 1), (2, AggDelta ds)] \<noteq> 0" by simp
  from acked_put_has_quorum [OF y(1) _ y(2) this]
  obtain q where "q \<subseteq> {..<length (followers (sys_leader y))}" "1 < 2 * (1 + card q)" by auto
  then show ?thesis using y(2) e by blast
qed



text \<open>
  C35. The size of the leader's quorum, \<open>peers.len().div_ceil(2)\<close>, makes any two quorums share a node exactly when
  the number of nodes is odd: with an even number, two halves of the cluster are both quorums.\<close>

theorem quorums_meet_iff_odd:
  assumes "0 < n" and "n < 2 ^ 64"
  shows "(\<forall>q q'. node_quorum n q \<longrightarrow> node_quorum n q' \<longrightarrow> q \<inter> q' \<noteq> {}) \<longleftrightarrow> odd n"
proof (cases "odd n")
  case True
  then obtain k where k: "n = 2 * k + 1" by (rule oddE)
  then have "unat (of_nat k :: 63 word) = k" using assms(2) by (simp add: unat_of_nat)
  then show ?thesis using odd_cluster.quorums_meet [of "of_nat k"] True by (simp add: k)
next
  case False
  then obtain k where k: "n = 2 * k" by blast
  have "node_quorum n {..<k}" "node_quorum n {k..<n}"
    using assms(2) by (auto simp: node_quorum_def unat_quorum_size div_ceil_def k)
  moreover have "{..<k} \<inter> {k..<n} = {}" by auto
  ultimately show ?thesis using False by blast
qed

theorem quorums_meet_iff_odd_witness: "\<not> (\<forall>q q'. node_quorum 2 q \<longrightarrow> node_quorum 2 q' \<longrightarrow> q \<inter> q' \<noteq> {})"
  using quorums_meet_iff_odd [of 2] by simp

text \<open>
  C14. Read your writes: on every leader reached by puts, crashes and restarts, a put whose thread is not interrupted by
  other puts stages, syncs and sends its records; once a quorum has acknowledged them, whatever else has
  happened to the links, it commits and is acknowledged, and a GET of the key then replies with the
  value.\<close>

theorem put_then_get:
  assumes "healthy_reach y" and "counters_ok (inner (leader_store (sys_leader y))) (length v)"
    and "unat (next_lsn (leader_wal y)) + 5 < 2 ^ 64" and "stage_put key v (leader_store (sys_leader y)) = (Inr sp, st)"
  shows "\<exists>ld. put_run 3 (PutStage key v, sys_leader y) = (PutAwait (staged_records sp), ld) \<and>
    (\<forall>ld'. leader_store ld' = leader_store ld \<longrightarrow> quorum ld' \<le> acks ld' (batch_end_of (staged_records sp)) \<longrightarrow>
       (\<exists>ld''. put_run 4 (PutAwait (staged_records sp), ld') = (PutAcked (staged_records sp), ld'') \<and>
          fst (handle_client count (GetReq rid key) ld'') = Reply (GetOk rid (Some v))))"
proof -
  let ?s = "inner (leader_store (sys_leader y))"
  have inv: "inner_inv ?s"
    using healthy_reach_inv [OF assms(1)] by (auto simp: system_inv_def durable_inv_def leader_inv_def writer_inv_def)
  obtain s1 where s1: "inner_stage_put key v ?s = (Inr sp, s1)" "inner st = s1"
    using assms(4) by (auto simp: stage_put_def locked_def split: prod.splits)
  obtain w where w: "sync IoOk (wal s1) = (Inr (), w)" using sync_IoOk by blast
  obtain ld where ld: "put_run 3 (PutStage key v, sys_leader y) = (PutAwait (staged_records sp), ld)" "leader_store ld = snd (sync_wal IoOk st)"
    using stage_sync_send [OF assms(4)] by blast
  then have store: "inner (leader_store ld) = s1\<lparr>wal := w\<rparr>" using w s1(2) by (simp add: sync_wal_def locked_def inner_sync_def)
  have st: "staged_in key v (object_id sp) (inner (leader_store ld))"
    unfolding store by (intro staged_in_wal staged_in_stage [OF inv assms(2) s1(1)])
  note n = stage_next [OF s1(1) assms(3) inv assms(2)]
  have "\<exists>ld''. put_run 4 (PutAwait (staged_records sp), ld') = (PutAcked (staged_records sp), ld'') \<and>
      get_upto (leader_store ld'') key (commit_index ld'') = Inr (Some v)"
    if "leader_store ld' = leader_store ld" "quorum ld' \<le> acks ld' (batch_end_of (staged_records sp))" for ld'
    using that st n sync_keeps [OF w] assms(3) store by (intro await_commit_announce) auto
  then show ?thesis using ld(1) by (fastforce simp: handle_client_def)
qed

theorem put_then_get_witness:
  "\<exists>ld ld' rs. put_run 4 (PutAwait rs, ld) = (PutAcked rs, ld') \<and>
     fst (handle_client 0 (GetReq 5 [97]) ld') = Reply (GetOk 5 (Some [1]))"
proof -
  obtain ld where l: "leader_new one_node (Some ''1000'') empty_disk None = Inr ld" and f: "followers ld = []" "quorum ld = 1"
    and s: "inner_inv (inner (leader_store ld))" "active_offset (inner (leader_store ld)) = 0" "next_free_id (inner (leader_store ld)) = 1"
    "segment_max_bytes (inner (leader_store ld)) = 1000" "next_lsn (wal (inner (leader_store ld))) = 1"
    using one_node_starts by blast
  let ?y = "\<lparr>sys_leader = ld, sys_puts = [], sys_compacts = [], sys_acked = []\<rparr>"
  have p: "plain_put [97] [1] (inner (leader_store ld))" "counters_ok (inner (leader_store ld)) (length [1 :: u8])"
    using small_put [of "[97]" "inner (leader_store ld)" 1] s by simp_all
  obtain sp st where st: "stage_put [97] [1] (leader_store ld) = (Inr sp, st)"
    using plain_put_runs [OF s(1) p(1)] by (auto simp: stage_put_def locked_def)
  obtain ld3 where 3: "put_run 3 (PutStage [97] [1], ld) = (PutAwait (staged_records sp), ld3)" "quorum ld3 = quorum ld"
    "map match_index (followers ld3) = map match_index (followers ld)" using stage_sync_send [OF st] by blast
  have q: "quorum ld3 \<le> acks ld3 (batch_end_of (staged_records sp))" using 3(2,3) f by (simp add: acks_def)
  obtain ld' where "put_run 4 (PutAwait (staged_records sp), ld3) = (PutAcked (staged_records sp), ld')"
    "fst (handle_client 0 (GetReq 5 [97]) ld') = Reply (GetOk 5 (Some [1]))"
    using put_then_get [of ?y "[1]" "[97]" sp st 0 5] h_start [OF l] p(2) s(5) st 3(1) q by fastforce
  then show ?thesis by blast
qed

text \<open>
  C34. The visible state can go backwards: two puts of a cluster of one node commit in order, the second
  is acknowledged, and a GET returns its value; then the first thread stores its smaller
  commit index, and the same GET finds no value although the put was acknowledged.\<close>

theorem commit_index_regresses:
  "\<exists>tr y rs. sys_reach 1 tr y \<and> rs \<in> set (sys_acked y) \<and> (4, Put [98] 1 4) \<in> set rs \<and>
     fst (handle_client 0 (GetReq 7 [98]) (sys_leader y)) = Reply (GetOk 7 (Some [2])) \<and> commit_index (sys_leader y) = 6 \<and>
     fst (handle_client 0 (GetReq 7 [98]) (sys_leader (act (RunPut 0 IoOk False) y))) = Reply (GetOk 7 None) \<and>
     commit_index (sys_leader (act (RunPut 0 IoOk False) y)) = 3"
proof -
  obtain ld where l: "leader_new one_node (Some ''1000'') empty_disk None = Inr ld" and f: "followers ld = []" "quorum ld = 1"
    and s: "inner_inv (inner (leader_store ld))" "active_offset (inner (leader_store ld)) = 0" "next_free_id (inner (leader_store ld)) = 1"
    "segment_max_bytes (inner (leader_store ld)) = 1000" "next_lsn (wal (inner (leader_store ld))) = 1"
    using one_node_starts by blast
  let ?y0 = "\<lparr>sys_leader = ld, sys_puts = [PutStage [97] [1], PutStage [98] [2]], sys_compacts = [], sys_acked = []\<rparr>"
  have "length (cfg_peers one_node) = 1" by (simp add: one_node_def)
  from sys_act [OF sys_act [OF sys_start [OF l this], of "NewPut [97] [1]"], of "NewPut [98] [2]"]
  have r0: "sys_reach 1 [NewPut [97] [1], NewPut [98] [2]] ?y0" by simp
  let ?rA = "put_records [97] [1] (inner (leader_store ld))"
  have pA: "plain_put [97] [1] (inner (leader_store ld))" "counters_ok (inner (leader_store ld)) (length [1 :: u8])"
    using small_put [of "[97]" "inner (leader_store ld)" 1] s by simp_all
  obtain la where A: "put_run 5 (PutStage [97] [1], ld) = (PutIndex ?rA 3, la)" "followers la = []" "quorum la = 1"
    and sA: "inner_inv (inner (leader_store la))" "active_offset (inner (leader_store la)) = 1" "next_free_id (inner (leader_store la)) = 1"
    "segment_max_bytes (inner (leader_store la)) = 1000" "next_lsn (wal (inner (leader_store la))) = 4"
    using solo_commit [OF s(1) pA f] s by auto
  let ?rB = "put_records [98] [2] (inner (leader_store la))" and ?y1 = "solo_steps 5 0 ?y0"
  have y1: "sys_leader ?y1 = la" "sys_puts ?y1 = [PutIndex ?rA 3, PutStage [98] [2]]"
    using solo_steps_run [of 0 ?y0 5] A(1) by simp_all
  have pB: "plain_put [98] [2] (inner (leader_store la))" "counters_ok (inner (leader_store la)) (length [2 :: u8])"
    using small_put [of "[98]" "inner (leader_store la)" 2] sA by simp_all
  obtain lb where B: "put_run 5 (PutStage [98] [2], la) = (PutIndex ?rB 6, lb)"
    and g: "\<And>c. get_upto (leader_store lb) [98] c = (if 4 > c then Inr None else Inr (Some [2]))"
    using solo_commit [OF sA(1) pB A(2,3)] sA(5) by auto
  let ?lc = "send_batch [(6, Commit (batch_end_of ?rB))] None 6 (lb\<lparr>commit_index := 6\<rparr>)" and ?y2 = "solo_steps 7 1 ?y1"
  have "put_run (5 + 2) (PutStage [98] [2], la) = (PutAcked ?rB, ?lc)" unfolding put_run_add B by (rule put_run_ack)
  then have y2: "sys_leader ?y2 = ?lc" "sys_puts ?y2 = [PutIndex ?rA 3, PutAcked ?rB]" "?rB \<in> set (sys_acked ?y2)"
    using solo_steps_run [of 1 ?y1 7 "PutAcked ?rB" ?lc ?rB] y1 by simp_all
  have "sys_leader (act (RunPut 0 IoOk False) ?y2) = ?lc\<lparr>commit_index := 3\<rparr>" using y2(1,2) by (simp add: run_put_def)
  then show ?thesis
    using solo_steps_reach [OF solo_steps_reach [OF r0, of 5 0], of 7 1] y2 g sA(5)
    by (intro exI [of _ ?y2] exI [of _ ?rB] exI) (auto simp: handle_client_def send_batch_def)
qed

end
