(* ===== verification/Follower.thy ===== *)
theory Follower
  imports Replication
begin

text \<open>
  What a follower makes of the frames that its leader sends for puts and commits. The relation \<open>mirror\<close> says that the two stores agree on the
  contents of all files and on the maps, whatever part of it is synced, and each batch keeps it. A follower never forgets a put, so it may know
  more positions than the leader, and it does not count the segment numbers that the leader has used for compactions.
\<close>

section \<open>Equal stores\<close>

definition same_disk :: "disk \<Rightarrow> disk \<Rightarrow> bool" where
  "same_disk d e \<longleftrightarrow> (\<forall>n. lookup_file n d = lookup_file n e) \<and> map fdata (inodes d) = map fdata (inodes e)"

text \<open>The follower may still keep segments that a swap has retired.\<close>

definition mirror_at :: "(Lsn \<times> u64) list \<Rightarrow> Inner \<Rightarrow> Inner \<Rightarrow> bool" where
  "mirror_at rt s f \<longleftrightarrow> same_disk (dir s) (dir f) \<and> segments f = segments s \<and> index f = index s \<and> map_of (put_locations s) \<subseteq>\<^sub>m map_of (put_locations f) \<and>
    rollup f = rollup s \<and> active_id f = active_id s \<and> active_offset f = active_offset s \<and> sealed f = sealed s \<and>
    next_free_id f \<le> next_free_id s \<and> pending_swap f = None \<and> retired_segments f = rt"

abbreviation mirror :: "Inner \<Rightarrow> Inner \<Rightarrow> bool" where
  "mirror \<equiv> mirror_at []"

lemma same_disk_refl [simp]: "same_disk d d"
  by (simp add: same_disk_def)

lemma same_disk_trans: "same_disk a b \<Longrightarrow> same_disk b c \<Longrightarrow> same_disk a c"
  by (simp add: same_disk_def)

lemma same_disk_sym: "same_disk a b \<Longrightarrow> same_disk b a"
  by (simp add: same_disk_def)

lemma same_disk_length: "same_disk d e \<Longrightarrow> length (inodes e) = length (inodes d)"
  by (auto simp: same_disk_def dest: map_eq_imp_length_eq)

lemma same_disk_data: "same_disk d e \<Longrightarrow> file_data e i = file_data d i"
  using same_disk_length [of d e] by (auto simp: same_disk_def file_data_def) (metis nth_map)

lemma same_diskI:
  assumes "\<And>n. lookup_file n d = lookup_file n e" "length (inodes e) = length (inodes d)" "\<And>i. file_data e i = file_data d i"
  shows "same_disk d e"
proof -
  have "fdata (inodes d ! i) = fdata (inodes e ! i)" if "i < length (inodes d)" for i
    using assms(3) [of i] that assms(2) by (simp add: file_data_def)
  then show ?thesis using assms(1,2) by (auto simp: same_disk_def intro!: nth_equalityI)
qed

lemma same_disk_set: "same_disk d e \<Longrightarrow> same_disk (set_data i bs d) (set_data i bs e)"
  by (simp add: same_disk_def set_data_def map_update lookup_file_def)

lemma same_disk_write: "same_disk d e \<Longrightarrow> same_disk (write_file i off bs d) (write_file i off bs e)"
  by (simp add: write_file_def same_disk_data same_disk_set)

lemma same_disk_sync: "same_disk d (sync_data i d)"
  by (rule same_diskI) simp_all

lemma same_disk_fsync: "same_disk (dir s) (dir (fsync_dirty_segments s))"
proof -
  have "same_disk d (fold (\<lambda>sid d. case map_of segs sid of None \<Rightarrow> d | Some file \<Rightarrow> sync_data file d) ids d)" for ids segs d
  proof (induction ids arbitrary: d)
    case (Cons i ids)
    then show ?case using same_disk_trans [OF same_disk_sync Cons.IH] by (auto split: option.split)
  qed simp
  then show ?thesis by (simp add: fsync_dirty_segments_def)
qed

lemma same_disk_create:
  assumes "same_disk d e" "open_create n d = (i, d')"
  shows "\<exists>e'. open_create n e = (i, e') \<and> same_disk d' e'"
  using assms same_disk_length [OF assms(1)]
  by (auto simp: same_disk_def open_create_def lookup_file_def update_conv' split: option.splits)

lemma same_disk_remove: "same_disk d e \<Longrightarrow> same_disk (remove_file n d) (remove_file n e)"
  by (simp add: same_disk_def remove_file_def lookup_file_def delete_conv')

lemma map_le_update: "map_of xs \<subseteq>\<^sub>m map_of ys \<Longrightarrow> map_of (AList.update k v xs) \<subseteq>\<^sub>m map_of (AList.update k v ys)"
  by (simp add: map_le_def update_conv')

lemma mirror_open:
  assumes "mirror s f" "open_segment sid s = (Inr (), s')"
  shows "\<exists>f'. open_segment sid f = (Inr (), f') \<and> mirror s' f' \<and> wal f' = wal f \<and> applied_upto f' = applied_upto f \<and>
    last_commit_block f' = last_commit_block f \<and> wal s' = wal s"
proof -
  obtain i d where i: "open_create (seg_name sid) (dir s) = (i, d)" by force
  moreover obtain e where "open_create (seg_name sid) (dir f) = (i, e)" "same_disk d e"
    using same_disk_create [OF _ i] assms(1) by (auto simp: mirror_at_def)
  ultimately show ?thesis using assms by (auto simp: open_segment_def mirror_at_def split: if_splits)
qed

lemma mirror_write:
  assumes "mirror s f" "write_value v s = (Inr (), s')"
  shows "\<exists>f'. write_value v f = (Inr (), f') \<and> mirror s' f' \<and> wal f' = wal f \<and> applied_upto f' = applied_upto f \<and>
    last_commit_block f' = last_commit_block f \<and> wal s' = wal s"
  using assms by (auto simp: write_value_def mirror_at_def same_disk_write split: option.splits)

section \<open>Records\<close>

definition follow :: "bytes option \<Rightarrow> entry list \<Rightarrow> (Inner, unit) op" where
  "follow v = op_for (\<lambda>(lsn, rec). inner_apply_record lsn rec (if is_put rec then v else None))"

text \<open>Positions are kept, the commit block is not moved by other records than commits.\<close>

definition followed :: "Inner \<Rightarrow> Inner \<Rightarrow> entry list \<Rightarrow> Inner \<Rightarrow> bool" where
  "followed s f rs f' \<longleftrightarrow> mirror s f' \<and> last_commit_block f' = last_commit_block f \<and>
    applied_upto f' = fold (\<lambda>(l, r) a. max a l) rs (applied_upto f)"

lemma followed_mirror: "followed s f rs f' \<Longrightarrow> mirror s f'"
  by (simp add: followed_def)

lemma append_at_fits: "record_size rec \<le> 4072 \<Longrightarrow> \<exists>w. inner_append_at rec l s = (Inr (), s\<lparr>wal := w\<rparr>)"
  by (auto simp: inner_append_at_def append_at_eq)

lemma inner_append_size: "inner_append rec s = (Inr l, s') \<Longrightarrow> record_size rec \<le> 4072"
  by (auto simp: inner_append_Inr append_at_eq split: if_splits)

lemma mirror_wal [simp]: "mirror_at rt (s\<lparr>wal := w\<rparr>) f = mirror_at rt s f" "mirror_at rt s (f\<lparr>wal := w\<rparr>) = mirror_at rt s f"
  "mirror_at rt s (f\<lparr>applied_upto := a\<rparr>) = mirror_at rt s f" "mirror_at rt (s\<lparr>pending := p\<rparr>) f = mirror_at rt s f"
  "mirror_at rt s (f\<lparr>pending := p\<rparr>) = mirror_at rt s f"
  by (simp_all add: mirror_at_def)

lemma follow_seal:
  assumes m: "mirror s f" and run: "seal_active_record s = (Inr e, s')" and n: "unat (next_free_id s) + 1 < 2 ^ 64"
  shows "\<exists>f'. follow v [e] f = (Inr (), f') \<and> followed s' f [e] f'"
proof -
  let ?rec = "SegmentSeal (active_id s) (next_free_id s)"
  obtain x where x: "inner_append ?rec (s\<lparr>next_free_id := next_free_id s + 1\<rparr>) = (Inr (next_lsn (wal s)), x)" and e: "e = (next_lsn (wal s), ?rec)"
    and s': "s' = x\<lparr>pending := True, sealed := sealed x @ [active_id s], active_id := next_free_id s, active_offset := 0\<rparr>"
    using run by (auto simp: seal_active_record_def op_bind_Inr op_basic inner_append_Inr)
  then obtain w where w: "x = s\<lparr>next_free_id := next_free_id s + 1, wal := w\<rparr>" by (auto simp: inner_append_Inr)
  have "next_free_id f \<le> next_free_id s + 1" using m max_Suc_word [OF n] by (simp add: mirror_at_def max_def split: if_splits)
  note mx = this
  have "record_size ?rec \<le> 4072" using inner_append_size [OF x] .
  from append_at_fits [OF this, of "next_lsn (wal s)" "f\<lparr>applied_upto := max (applied_upto f) (next_lsn (wal s))\<rparr>"] obtain w' where
    "inner_append_at ?rec (next_lsn (wal s)) (f\<lparr>applied_upto := max (applied_upto f) (next_lsn (wal s))\<rparr>) =
      (Inr (), f\<lparr>applied_upto := max (applied_upto f) (next_lsn (wal s)), wal := w'\<rparr>)" by auto
  then show ?thesis
    using m mx by (auto simp: follow_def e inner_apply_record_def op_bind_def op_basic Let_def is_put_def mirror_at_def followed_def s' w)
qed

lemma follow_append: "follow v (xs @ ys) f = op_bind (follow v xs) (\<lambda>_. follow v ys) f"
  by (induction xs arbitrary: f) (auto simp: follow_def op_bind_def op_basic split: prod.splits sum.splits)

lemma followed_append: "followed s1 f rs f1 \<Longrightarrow> followed s2 f1 qs f2 \<Longrightarrow> followed s2 f (rs @ qs) f2"
  by (simp add: followed_def)

lemma follow_agg:
  assumes m: "mirror s f" and fits: "record_size (AggDelta ds) \<le> 4072"
  shows "\<exists>f'. follow v [(l, AggDelta ds)] f = (Inr (), f') \<and> followed s f [(l, AggDelta ds)] f'"
proof -
  obtain w where "inner_append_at (AggDelta ds) l (f\<lparr>applied_upto := max (applied_upto f) l\<rparr>) = (Inr (), f\<lparr>applied_upto := max (applied_upto f) l, wal := w\<rparr>)"
    using append_at_fits [OF fits] by auto
  then show ?thesis
    using m by (simp add: follow_def inner_apply_record_def op_bind_def op_basic Let_def is_put_def followed_def mirror_at_def)
qed

lemma follow_put:
  assumes m: "mirror s f" and o: "open_segment (active_id s) s = (Inr (), s1)" and w: "write_value v s1 = (Inr (), s2)"
    and fits: "record_size (Put key (of_nat (length v)) l) \<le> 4072" and len: "length v < 2 ^ 32"
    and s': "s' = s2\<lparr>index := AList.update key (active_id s2, active_offset s2, of_nat (length v), l) (index s2),
        put_locations := AList.update l (key, active_id s2, active_offset s2, of_nat (length v)) (put_locations s2),
        rollup := rollup_record key (of_nat (length v)) (rollup s2), active_offset := active_offset s2 + of_nat (length v)\<rparr>"
  shows "\<exists>f'. follow (Some v) [(l, Put key (of_nat (length v)) l)] f = (Inr (), f') \<and> followed s' f [(l, Put key (of_nat (length v)) l)] f'"
proof -
  let ?f = "f\<lparr>applied_upto := max (applied_upto f) l\<rparr>"
  have "mirror s ?f" using m by simp
  from mirror_open [OF this o] obtain f1 where f1: "open_segment (active_id s) ?f = (Inr (), f1)" "mirror s1 f1"
    "applied_upto f1 = max (applied_upto f) l" "last_commit_block f1 = last_commit_block f" by auto
  from mirror_write [OF f1(2) w] obtain f2 where f2: "write_value v f1 = (Inr (), f2)" "mirror s2 f2"
    "applied_upto f2 = max (applied_upto f) l" "last_commit_block f2 = last_commit_block f" using f1 by auto
  obtain w' where "inner_append_at (Put key (of_nat (length v)) l) l f2 = (Inr (), f2\<lparr>wal := w'\<rparr>)" using append_at_fits [OF fits] by blast
  moreover have "active_id f = active_id s" "length v = unat (of_nat (length v) :: u32)" using m len by (simp_all add: mirror_at_def unat_of_nat)
  ultimately show ?thesis
    using f1 f2 by (auto simp: follow_def inner_apply_record_def op_bind_def op_basic Let_def is_put_def followed_def s' mirror_at_def map_le_update)
qed

lemma follow_body:
  assumes m: "mirror s f" and run: "stage_body key v s = (Inr (l, rs), s')" and len: "length v < 2 ^ 32"
  shows "\<exists>f'. follow (Some v) rs f = (Inr (), f') \<and> followed s' f rs f'"
proof -
  let ?p = "Put key (of_nat (length v)) l"
  obtain s1 s2 s3 s4 a ds where o: "open_segment (active_id s) s = (Inr (), s1)" and w: "write_value v s1 = (Inr (), s2)"
    and a1: "inner_append ?p s2 = (Inr l, s3)" and a2: "inner_append (AggDelta ds) s3 = (Inr a, s4)" and rs: "rs = [(l, ?p), (a, AggDelta ds)]"
    and s': "s' = s4\<lparr>index := AList.update key (active_id s4, active_offset s4, of_nat (length v), l) (index s4),
        put_locations := AList.update l (key, active_id s4, active_offset s4, of_nat (length v)) (put_locations s4),
        rollup := rollup_record key (of_nat (length v)) (rollup s4), active_offset := active_offset s4 + of_nat (length v),
        dirty_segments := List.insert (active_id s4) (dirty_segments s4), pending := True\<rparr>" by (rule stage_body_parts [OF run])
  let ?s = "s2\<lparr>index := AList.update key (active_id s2, active_offset s2, of_nat (length v), l) (index s2),
        put_locations := AList.update l (key, active_id s2, active_offset s2, of_nat (length v)) (put_locations s2),
        rollup := rollup_record key (of_nat (length v)) (rollup s2), active_offset := active_offset s2 + of_nat (length v)\<rparr>"
  from follow_put [OF m o w inner_append_size [OF a1] len refl] obtain f1 where
    f1: "follow (Some v) [(l, ?p)] f = (Inr (), f1)" "followed ?s f [(l, ?p)] f1" by blast
  have "mirror ?s f1" using f1(2) by (simp add: followed_def)
  from follow_agg [OF this inner_append_size [OF a2], of "Some v" a] obtain f2 where
    f2: "follow (Some v) [(a, AggDelta ds)] f1 = (Inr (), f2)" "followed ?s f1 [(a, AggDelta ds)] f2" by blast
  have "followed ?s f rs f2" using followed_append [OF f1(2) f2(2)] by (simp add: rs)
  then have "followed s' f rs f2" using a1 a2 by (auto simp: followed_def mirror_at_def s' inner_append_Inr)
  moreover have "follow (Some v) rs f = (Inr (), f2)"
    using follow_append [of "Some v" "[(l, ?p)]" "[(a, AggDelta ds)]" f] f1(1) f2(1) by (simp add: rs op_bind_def)
  ultimately show ?thesis by blast
qed

lemma follow_maybe_seal:
  assumes m: "mirror s f" and run: "seal_if b s = (Inr rs, s')"
    and n: "unat (next_free_id s) + 1 < 2 ^ 64"
  shows "\<exists>f'. follow v rs f = (Inr (), f') \<and> followed s' f rs f'"
proof (cases b)
  case True
  then obtain e where "seal_active_record s = (Inr e, s')" "rs = [e]" using run by (auto simp: op_bind_Inr op_basic)
  then show ?thesis using follow_seal [OF m _ n] by simp
qed (use m run in \<open>auto simp: op_basic follow_def followed_def\<close>)

lemma follow_stage:
  assumes m: "mirror s f" and inv: "inner_inv s" and r: "counters_ok s (length v)" and run: "inner_stage_put key v s = (Inr sp, s')"
  shows "\<exists>f'. follow (Some v) (staged_records sp) f = (Inr (), f') \<and> followed s' f (staged_records sp) f'"
proof -
  have v: "\<not> length v > 4294967295" "length v < 2 ^ 32" and n: "unat (next_free_id s) + 2 < 2 ^ 64" using r by (simp_all add: counters_ok_def)
  obtain b rs0 s1 l rs1 s2 b2 rs2 where 1: "seal_if b s = (Inr rs0, s1)" and 2: "stage_body key v s1 = (Inr (l, rs1), s2)"
    and 3: "seal_if b2 s2 = (Inr rs2, s')" and sp: "object_id sp = l" "staged_records sp = rs0 @ rs1 @ rs2"
    by (rule stage_put_parts [OF run])
  obtain f1 where f1: "follow (Some v) rs0 f = (Inr (), f1)" "followed s1 f rs0 f1" using follow_maybe_seal [OF m 1] n by auto
  obtain f2 where f2: "follow (Some v) rs1 f1 = (Inr (), f2)" "followed s2 f1 rs1 f2"
    using follow_body [OF followed_mirror [OF f1(2)] 2 v(2)] by blast
  have "inner_inv s1 \<and> unat (next_free_id s1) \<le> unat (next_free_id s) + 1"
    using 1 seal_ok [OF inv] n inv by (auto simp: op_bind_Inr op_basic split: if_splits)
  moreover have "next_free_id s2 = next_free_id s1" if "inner_inv s1" using stage_body_run [OF that 2] by (auto simp: staged_state_def)
  ultimately have "unat (next_free_id s2) + 1 < 2 ^ 64" using n by auto
  then obtain f3 where f3: "follow (Some v) rs2 f2 = (Inr (), f3)" "followed s' f2 rs2 f3"
    using follow_maybe_seal [OF followed_mirror [OF f2(2)] 3] by blast
  have "followed s' f (staged_records sp) f3" unfolding sp by (intro followed_append [OF f1(2)] followed_append [OF f2(2)] f3(2))
  then show ?thesis using f1 f2 f3 by (auto simp: sp follow_append op_bind_def)
qed

lemma commit_maps:
  assumes "inner_commit io lsn s = (r, s')"
  shows "dir s' = dir (fsync_dirty_segments s) \<and> put_locations s' = put_locations s \<and> rollup s' = rollup s \<and> sealed s' = sealed s"
  using assms
  by (auto simp: inner_commit_def op_bind_def op_basic inner_sync_def fsync_dirty_segments_def Let_def
      split: prod.splits sum.splits dest!: inner_append_cases)

lemma mirror_commit:
  assumes m: "mirror_at rt s f" and run: "inner_commit io lsn s = (Inr (), s')"
  shows "mirror_at rt s' f"
  using m commit_maps [OF run] commit_fields [OF run] same_disk_trans [OF same_disk_sym [OF same_disk_fsync], of s "dir f"]
  by (simp add: mirror_at_def)

lemma follow_commit:
  assumes m: "mirror_at rt s f"
  shows "\<exists>f'. follow v [(l, Commit lsn)] f = (Inr (), f') \<and> mirror_at rt s f' \<and> applied_upto f' = max (applied_upto f) l \<and>
    last_commit_block f' = max (last_commit_block f) l"
proof -
  have "record_size (Commit lsn) \<le> 4072" by (simp add: record_size_def)
  from append_at_fits [OF this, of l "f\<lparr>applied_upto := max (applied_upto f) l\<rparr>"] obtain w where
    w: "inner_append_at (Commit lsn) l (f\<lparr>applied_upto := max (applied_upto f) l\<rparr>) = (Inr (), f\<lparr>applied_upto := max (applied_upto f) l, wal := w\<rparr>)"
    by auto
  then show ?thesis
    using m by (simp add: follow_def inner_apply_record_def op_bind_def op_basic Let_def is_put_def mirror_at_def)
qed

section \<open>Positions\<close>

lemma upt_join: "a \<le> b \<Longrightarrow> b \<le> c \<Longrightarrow> [a..<b] @ [b..<c] = [a..<c]"
  using upt_add_eq_append [of a b "c - b"] by simp

lemma maybe_seal_lsns:
  assumes "seal_if b s = (Inr rs, s')" "unat (next_lsn (wal s)) + 1 < 2 ^ 64"
  shows "map (unat \<circ> fst) rs = [unat (next_lsn (wal s))..<unat (next_lsn (wal s'))] \<and> unat (next_lsn (wal s')) \<le> unat (next_lsn (wal s)) + 1 \<and>
    unat (next_lsn (wal s)) \<le> unat (next_lsn (wal s')) \<and> list_all (\<lambda>(l, r). \<not> is_commit r) rs"
proof (cases b)
  case True
  then obtain e where e: "seal_active_record s = (Inr e, s')" "rs = [e]" using assms(1) by (auto simp: op_bind_Inr op_basic)
  then show ?thesis using seal_next [OF e(1) assms(2)] by (simp add: is_commit_def)
qed (use assms in \<open>simp add: op_basic\<close>)

lemma body_lsns:
  assumes "stage_body key v s = (Inr (l, rs), s')" "unat (next_lsn (wal s)) + 2 < 2 ^ 64"
  shows "map (unat \<circ> fst) rs = [unat (next_lsn (wal s))..<unat (next_lsn (wal s'))] \<and> unat (next_lsn (wal s')) = unat (next_lsn (wal s)) + 2 \<and>
    list_all (\<lambda>(l, r). \<not> is_commit r) rs"
  using stage_body_next [OF assms] by (auto simp: is_commit_def is_put_def upt_conv_Cons)

lemma stage_lsns:
  assumes run: "inner_stage_put key v s = (Inr sp, s')" and n: "unat (next_lsn (wal s)) + 5 < 2 ^ 64" and c: "counters_ok s (length v)"
  shows "map (unat \<circ> fst) (staged_records sp) = [unat (next_lsn (wal s))..<unat (next_lsn (wal s'))] \<and>
    unat (next_lsn (wal s)) < unat (next_lsn (wal s')) \<and> list_all (\<lambda>(l, r). \<not> is_commit r) (staged_records sp)"
proof -
  have "\<not> length v > 4294967295" using c by (simp add: counters_ok_def)
  obtain b rs0 s1 l rs1 s2 b2 rs2 where 1: "seal_if b s = (Inr rs0, s1)" and 2: "stage_body key v s1 = (Inr (l, rs1), s2)"
    and 3: "seal_if b2 s2 = (Inr rs2, s')" and sp: "object_id sp = l" "staged_records sp = rs0 @ rs1 @ rs2"
    by (rule stage_put_parts [OF run])
  have m0: "map (unat \<circ> fst) rs0 = [unat (next_lsn (wal s))..<unat (next_lsn (wal s1))]" "unat (next_lsn (wal s1)) \<le> unat (next_lsn (wal s)) + 1"
    "unat (next_lsn (wal s)) \<le> unat (next_lsn (wal s1))" "list_all (\<lambda>(l, r). \<not> is_commit r) rs0" using maybe_seal_lsns [OF 1] n by auto
  then have m1: "map (unat \<circ> fst) rs1 = [unat (next_lsn (wal s1))..<unat (next_lsn (wal s2))]" "unat (next_lsn (wal s2)) = unat (next_lsn (wal s1)) + 2"
    "list_all (\<lambda>(l, r). \<not> is_commit r) rs1" using body_lsns [OF 2] n by auto
  then have m2: "map (unat \<circ> fst) rs2 = [unat (next_lsn (wal s2))..<unat (next_lsn (wal s'))]" "unat (next_lsn (wal s2)) \<le> unat (next_lsn (wal s'))"
    "list_all (\<lambda>(l, r). \<not> is_commit r) rs2" using maybe_seal_lsns [OF 3] m0 n by auto
  have "[unat (next_lsn (wal s))..<unat (next_lsn (wal s'))] = map (unat \<circ> fst) rs0 @ map (unat \<circ> fst) rs1 @ map (unat \<circ> fst) rs2"
    unfolding m0(1) m1(1) m2(1) using m0(3) m1(2) m2(2) by (simp only: upt_join le_add1 order_trans [OF _ le_add1])
  then show ?thesis using m0 m1 m2 by (simp add: sp)
qed

lemma fold_max_last:
  "rs \<noteq> [] \<Longrightarrow> sorted_wrt (<) (map fst rs) \<Longrightarrow> (\<forall>l \<in> fst ` set rs. (a :: Lsn) < l) \<Longrightarrow> fold (\<lambda>(l, r) a. max a l) rs a = fst (last rs)"
proof (induction rs arbitrary: a)
  case (Cons e rs)
  then have "max a (fst e) = fst e" by (simp add: max_def less_imp_le)
  then show ?case using Cons by (cases "rs = []") (auto simp: case_prod_beta)
qed simp

lemma lsns_sorted:
  fixes rs :: "entry list"
  assumes "map (unat \<circ> fst) rs = [m..<n]"
  shows "sorted_wrt (<) (map fst rs)" and "l \<in> fst ` set rs \<Longrightarrow> m \<le> unat l \<and> unat l < n"
    and "m < n \<Longrightarrow> rs \<noteq> [] \<and> unat (fst (last rs)) = n - 1"
proof -
  have "sorted_wrt (<) (map unat (map fst rs))" using assms by (simp add: comp_def)
  then show "sorted_wrt (<) (map fst rs)" by (simp add: sorted_wrt_map word_less_nat_alt)
  have "unat ` fst ` set rs = {m..<n}" using assms by (metis image_comp set_map set_upt)
  then show "l \<in> fst ` set rs \<Longrightarrow> m \<le> unat l \<and> unat l < n" by fastforce
  assume m: "m < n"
  have "length rs = n - m" using arg_cong [OF assms, of length] by simp
  then have ne: "rs \<noteq> []" using m by auto
  then have "unat (fst (last rs)) = last (map (unat \<circ> fst) rs)" by (simp add: last_map)
  then show "rs \<noteq> [] \<and> unat (fst (last rs)) = n - 1" using ne m assms by simp
qed

section \<open>Frames\<close>

text \<open>The records of a batch that contains no commit arrive one by one; each is newer than the follower's last commit.\<close>

lemma open_segment_keeps: "open_segment sid s = (r, s') \<Longrightarrow> last_commit_block s' = last_commit_block s"
  by (auto simp: open_segment_def split: if_splits prod.splits)

lemma write_value_keeps: "write_value v s = (r, s') \<Longrightarrow> last_commit_block s' = last_commit_block s"
  by (auto simp: write_value_def split: option.splits)

lemma append_at_keeps: "inner_append_at rec l s = (r, s') \<Longrightarrow> last_commit_block s' = last_commit_block s"
  by (auto simp: inner_append_at_def split: sum.splits)

lemma finalize_keeps: "finalize_pending_swap s = (r, s') \<Longrightarrow> last_commit_block s' = last_commit_block s"
proof -
  have "last_commit_block (fold (remap_entry new) es x) = last_commit_block x" for new es x
    by (induction es arbitrary: x) (simp_all add: remap_entry_def Let_def split: option.split)
  then show "finalize_pending_swap s = (r, s') \<Longrightarrow> ?thesis" by (auto simp: finalize_pending_swap_def Let_def split: option.splits sum.splits)
qed

lemma apply_remaps_keeps: "apply_remaps sw es s = (r, s') \<Longrightarrow> last_commit_block s' = last_commit_block s"
proof (induction sw es s rule: apply_remaps.induct)
  case (2 sw e es s)
  then show ?case by (auto split: option.splits if_splits sum.splits)
qed auto

lemma apply_record_keeps:
  assumes run: "inner_apply_record l r d f = (Inr (), f')" and r: "\<not> is_commit r"
  shows "last_commit_block f' = last_commit_block f"
proof (cases r)
  case (SegmentSwap old new)
  obtain s1 where a: "finalize_pending_swap (f\<lparr>applied_upto := max (applied_upto f) l\<rparr>) = (Inr (), s1)"
    using run by (auto simp: SegmentSwap inner_apply_record_def Let_def op_bind_Inr)
  moreover obtain i e where "open_truncate (tmp_name new) (dir s1) = (i, e)" by force
  ultimately obtain s2 where "inner_append_at (SegmentSwap old new) l (s1\<lparr>dir := e\<rparr>) = (Inr (), s2)" "last_commit_block f' = last_commit_block s2"
    using run by (auto simp: SegmentSwap inner_apply_record_def Let_def op_bind_Inr op_basic)
  then show ?thesis using append_at_keeps finalize_keeps [OF a] by fastforce
next
  case (SegmentRemap new es)
  obtain s1 sw where a: "inner_append_at (SegmentRemap new es) l (f\<lparr>applied_upto := max (applied_upto f) l\<rparr>) = (Inr (), s1)" "pending_swap s1 = Some sw"
    and "\<exists>s2. apply_remaps sw es (s1\<lparr>pending_swap := None\<rparr>) = (Inr (), s2) \<and> f' = s2\<lparr>pending := True\<rparr>"
    using run by (auto simp: SegmentRemap inner_apply_record_def Let_def op_bind_Inr op_basic split: option.splits if_splits)
  then show ?thesis using append_at_keeps [OF a(1)] by (auto dest: apply_remaps_keeps)
qed (use run r in \<open>auto simp: is_commit_def inner_apply_record_def Let_def op_bind_Inr op_basic split: option.splits if_splits
        dest!: open_segment_keeps write_value_keeps append_at_keeps\<close>)

lemma apply_appends:
  assumes "follow v rs (inner st) = (Inr (), f)" "\<forall>(l, r) \<in> set rs. last_commit_block (inner st) < l \<and> \<not> is_commit r"
  shows "apply_frames (map (\<lambda>(l, r). Append l r (if is_put r then v else None)) rs @ rest) st = apply_frames rest (st\<lparr>inner := f\<rparr>)"
  using assms
proof (induction rs arbitrary: st)
  case (Cons e rs)
  obtain l r where e: "e = (l, r)" by force
  obtain f1 where f1: "inner_apply_record l r (if is_put r then v else None) (inner st) = (Inr (), f1)" "follow v rs f1 = (Inr (), f)"
    using Cons.prems(1) by (auto simp: follow_def e op_bind_Inr)
  let ?st = "st\<lparr>inner := f1\<rparr>"
  have "last_commit_block f1 = last_commit_block (inner st)"
    using apply_record_keeps [OF f1(1)] Cons.prems(2) by (simp add: e)
  then have "apply_frames (map (\<lambda>(l, r). Append l r (if is_put r then v else None)) rs @ rest) ?st = apply_frames rest (?st\<lparr>inner := f\<rparr>)"
    using Cons.IH [of ?st] f1(2) Cons.prems(2) by simp
  moreover have "apply_frame IoOk (Append l r (if is_put r then v else None)) st = ((None, True), ?st)"
    using f1(1) Cons.prems(2) by (auto simp: apply_frame_def apply_record_def locked_def store_last_commit_block_def e not_le)
  ultimately show ?case by (simp add: e)
next
  case Nil
  then have "st\<lparr>inner := f\<rparr> = st" by (simp add: follow_def op_basic)
  then show ?case by simp
qed

text \<open>
  A barrier completes a pending swap, makes everything durable, removes the retired segments whose swap is committed, and publishes.
\<close>

abbreviation (input) committed_swaps :: "Lsn \<Rightarrow> (Lsn \<times> u64) list \<Rightarrow> (Lsn \<times> u64) list" where
  "committed_swaps c rt \<equiv> filter (\<lambda>(l, old). l \<le> c) rt"

definition unlink :: "(Lsn \<times> u64) list \<Rightarrow> Inner \<Rightarrow> Inner" where
  "unlink rt s = s\<lparr>dir := fold (\<lambda>(l, old). remove_file (seg_name old)) rt (dir s)\<rparr>"

lemma unlink_Nil [simp]: "unlink [] s = s"
  by (simp add: unlink_def)

lemma same_disk_unlink: "same_disk d e \<Longrightarrow> same_disk (fold (\<lambda>(l, old). remove_file (seg_name old)) rt d) (fold (\<lambda>(l, old). remove_file (seg_name old)) rt e)"
  by (induction rt arbitrary: d e) (auto simp: same_disk_remove)

lemma barrier_frame:
  assumes fin: "finalize_pending_swap (inner st) = (Inr (), f)" and m: "mirror_at rt s f" and up: "applied_upto f = applied_upto (inner st)"
  shows "\<exists>st'. apply_frame IoOk (SyncBarrier e) st = ((Some (SyncAck (applied_upto (inner st))), True), st') \<and>
    mirror_at (filter (\<lambda>(l, old). \<not> l \<le> last_commit_block f) rt) (unlink (committed_swaps (last_commit_block f) rt) s) (inner st') \<and>
    snap st' = Snap_from (inner st') \<and> last_commit_block (inner st') = last_commit_block f \<and> applied_upto (inner st') = applied_upto (inner st)"
proof -
  obtain w where w: "sync IoOk (wal (fsync_dirty_segments f)) = (Inr (), w)" using sync_IoOk by blast
  let ?g = "(remove_committed_retired_segments (f\<lparr>dir := dir (fsync_dirty_segments f), wal := w\<rparr>))\<lparr>dirty_segments := []\<rparr>"
  have "sync_all IoOk st = (Inr (), publish (st\<lparr>inner := ?g\<rparr>))"
    using fin w by (simp add: sync_all_def op_bind_def locked_def op_basic inner_sync_def fsync_dirty_segments_def)
  moreover have "same_disk (dir s) (dir (fsync_dirty_segments f))" using m same_disk_trans [OF _ same_disk_fsync] by (simp add: mirror_at_def)
  then have "mirror_at (filter (\<lambda>(l, old). \<not> l \<le> last_commit_block f) rt) (unlink (committed_swaps (last_commit_block f) rt) s) ?g"
    using m by (simp add: mirror_at_def remove_committed_retired_segments_def Let_def unlink_def same_disk_unlink)
  ultimately show ?thesis
    using up by (simp add: apply_frame_def store_applied_upto_def publish_def Snap_from_def remove_committed_retired_segments_def Let_def)
qed

lemma finalize_mirror: "mirror_at rt s f \<Longrightarrow> finalize_pending_swap f = (Inr (), f)"
  by (simp add: finalize_pending_swap_def mirror_at_def)

lemma barrier_mirror:
  assumes m: "mirror s (inner st)"
  shows "\<exists>st'. apply_frame IoOk (SyncBarrier e) st = ((Some (SyncAck (applied_upto (inner st))), True), st') \<and> mirror s (inner st') \<and>
    snap st' = Snap_from (inner st') \<and> last_commit_block (inner st') = last_commit_block (inner st) \<and> applied_upto (inner st') = applied_upto (inner st)"
  using barrier_frame [OF finalize_mirror [OF m] m refl, of e] by simp

end
