(* ===== verification/FollowerCompaction.thy ===== *)
theory FollowerCompaction
  imports Follower CompactionReads
begin

text \<open>
  What a follower makes of the records of a compaction. It copies the values from its own old segment to a temporary file, which the next barrier renames
  and puts in the maps; the old file is removed at the first barrier after the commit.
\<close>

section \<open>Copying\<close>

text \<open>The follower \<open>x\<close> has started from \<open>f\<close> and has copied the entries \<open>es\<close>; \<open>g\<close> gives the values of the puts.\<close>

definition swapping :: "u64 \<Rightarrow> (Lsn \<Rightarrow> bytes) \<Rightarrow> RemapEntry list \<Rightarrow> Inner \<Rightarrow> Inner \<Rightarrow> bool" where
  "swapping new g es f x \<longleftrightarrow> segments x = segments f \<and> index x = index f \<and> put_locations x = put_locations f \<and> rollup x = rollup f \<and>
    active_id x = active_id f \<and> active_offset x = active_offset f \<and> sealed x = sealed f \<and> next_free_id x = next_free_id f \<and>
    retired_segments x = retired_segments f \<and> last_commit_block x = last_commit_block f \<and>
    (\<forall>n. lookup_file n (dir x) = (if n = tmp_name new then Some (length (inodes (dir f))) else lookup_file n (dir f))) \<and>
    length (inodes (dir x)) = Suc (length (inodes (dir f))) \<and>
    (\<forall>j. file_data (dir x) j = (if j = length (inodes (dir f)) then entry_data g es [] else file_data (dir f) j))"

abbreviation swap_of :: "Lsn \<Rightarrow> u64 \<Rightarrow> u64 \<Rightarrow> Inner \<Rightarrow> RemapEntry list \<Rightarrow> PendingSwap" where
  "swap_of p old new f es \<equiv> \<lparr>ps_lsn = p, ps_old = old, ps_new = new, ps_file = length (inodes (dir f)), ps_entries = es\<rparr>"

lemma swapping_simps [simp]: "swapping new g es f (x\<lparr>wal := w\<rparr>) = swapping new g es f x" "swapping new g es f (x\<lparr>pending := b\<rparr>) = swapping new g es f x"
  "swapping new g es f (x\<lparr>pending_swap := q\<rparr>) = swapping new g es f x" "swapping new g es f (x\<lparr>applied_upto := a\<rparr>) = swapping new g es f x"
  by (simp_all add: swapping_def)

text \<open>An entry can be copied if the follower knows its put at the same length in the old segment and can read it.\<close>

definition copyable :: "u64 \<Rightarrow> (Lsn \<Rightarrow> bytes) \<Rightarrow> Inner \<Rightarrow> RemapEntry \<Rightarrow> bool" where
  "copyable old g f e \<longleftrightarrow> (\<exists>k q i. map_of (put_locations f) (re_lsn e) = Some (k, old, q, re_len e) \<and> map_of (segments f) old = Some i \<and>
    i < length (inodes (dir f)) \<and> read_value (file_data (dir f) i) q (re_len e) = Inr (g (re_lsn e)))"

lemma swapping_write:
  assumes "swapping new g es f x"
  shows "swapping new g (es @ [e]) f (x\<lparr>dir := write_file (length (inodes (dir f))) (unat (re_offset e)) (g (re_lsn e)) (dir x)\<rparr>)"
  using assms by (auto simp: swapping_def file_data_write_file)

lemma apply_remaps_ok:
  assumes "swapping new g es f x" "\<forall>e \<in> set es'. copyable old g f e"
  shows "\<exists>x'. apply_remaps (swap_of p old new f es) es' x = (Inr (), x') \<and> swapping new g (es @ es') f x' \<and>
    pending_swap x' = Some (swap_of p old new f (es @ es')) \<and> applied_upto x' = applied_upto x"
  using assms
proof (induction es' arbitrary: es x)
  case (Cons e es')
  obtain k q i where src: "map_of (put_locations f) (re_lsn e) = Some (k, old, q, re_len e)" "map_of (segments f) old = Some i"
    "i < length (inodes (dir f))" "read_value (file_data (dir f) i) q (re_len e) = Inr (g (re_lsn e))"
    using Cons.prems(2) by (auto simp: copyable_def)
  have "file_data (dir x) i = file_data (dir f) i" using Cons.prems(1) src(3) by (simp add: swapping_def)
  moreover have "put_locations x = put_locations f" "segments x = segments f" using Cons.prems(1) by (simp_all add: swapping_def)
  moreover note Cons.IH [OF swapping_write [OF Cons.prems(1), of e]]
  ultimately show ?case using src Cons.prems(2) by simp
qed simp

lemma follow_remap:
  assumes x: "swapping new g es f x" "pending_swap x = Some (swap_of p old new f es)" and c: "\<forall>e \<in> set es'. copyable old g f e"
    and fits: "record_size (SegmentRemap new es') \<le> 4072"
  shows "\<exists>x'. follow None [(l, SegmentRemap new es')] x = (Inr (), x') \<and> swapping new g (es @ es') f x' \<and>
    pending_swap x' = Some (swap_of p old new f (es @ es')) \<and> applied_upto x' = max (applied_upto x) l"
proof -
  obtain w where w: "inner_append_at (SegmentRemap new es') l (x\<lparr>applied_upto := max (applied_upto x) l\<rparr>) = (Inr (), x\<lparr>applied_upto := max (applied_upto x) l, wal := w\<rparr>)"
    using append_at_fits [OF fits] by auto
  let ?x = "x\<lparr>applied_upto := max (applied_upto x) l, wal := w, pending_swap := None\<rparr>"
  have "swapping new g es f ?x" using x(1) by simp
  from apply_remaps_ok [OF this c, of p] obtain x' where
    "apply_remaps (swap_of p old new f es) es' ?x = (Inr (), x')" "swapping new g (es @ es') f x'"
    "pending_swap x' = Some (swap_of p old new f (es @ es'))" "applied_upto x' = max (applied_upto x) l" by auto
  then show ?thesis using w x(2) by (simp add: follow_def inner_apply_record_def op_bind_def op_basic Let_def is_put_def)
qed

lemma follow_remaps:
  assumes "swapping new g es f x" "pending_swap x = Some (swap_of p old new f es)" "\<forall>e \<in> set (concat chunks). copyable old g f e"
    "map snd rs = map (SegmentRemap new) chunks" "\<forall>rec \<in> snd ` set rs. record_size rec \<le> 4072"
  shows "\<exists>x'. follow None rs x = (Inr (), x') \<and> swapping new g (es @ concat chunks) f x' \<and>
    pending_swap x' = Some (swap_of p old new f (es @ concat chunks)) \<and> applied_upto x' = fold (\<lambda>(l, r) a. max a l) rs (applied_upto x)"
  using assms
proof (induction rs arbitrary: es x chunks)
  case Nil
  then show ?case by (simp add: follow_def op_basic)
next
  case (Cons e rs)
  obtain l c cs where e: "e = (l, SegmentRemap new c)" "chunks = c # cs" "map snd rs = map (SegmentRemap new) cs"
    using Cons.prems(4) by (cases chunks; cases e) auto
  from follow_remap [OF Cons.prems(1,2), of c l] obtain x1 where x1: "follow None [e] x = (Inr (), x1)" "swapping new g (es @ c) f x1"
    "pending_swap x1 = Some (swap_of p old new f (es @ c))" "applied_upto x1 = max (applied_upto x) l"
    using Cons.prems(3,5) by (auto simp: e)
  from Cons.IH [OF x1(2,3) _ e(3)] obtain x2 where "follow None rs x1 = (Inr (), x2)" "swapping new g (es @ concat chunks) f x2"
    "pending_swap x2 = Some (swap_of p old new f (es @ concat chunks))" "applied_upto x2 = fold (\<lambda>(l, r) a. max a l) rs (applied_upto x1)"
    using Cons.prems(3,5) by (auto simp: e(2))
  then show ?case using x1(1,4) follow_append [of None "[e]" rs x] by (auto simp: op_bind_def e(1))
qed

lemma follow_swap:
  assumes "lookup_file (tmp_name new) (dir f) = None" "pending_swap f = None"
  shows "\<exists>x. follow None [(p, SegmentSwap old new)] f = (Inr (), x) \<and> swapping new g [] f x \<and> pending_swap x = Some (swap_of p old new f []) \<and>
    applied_upto x = max (applied_upto f) p"
proof -
  obtain i d where d: "open_truncate (tmp_name new) (dir f) = (i, d)" by force
  note t = open_tmp [OF assms(1) d]
  have fits: "record_size (SegmentSwap old new) \<le> 4072" by (simp add: record_size_def)
  obtain w where w: "inner_append_at (SegmentSwap old new) p (f\<lparr>applied_upto := max (applied_upto f) p, dir := d\<rparr>) =
      (Inr (), f\<lparr>applied_upto := max (applied_upto f) p, dir := d, wal := w\<rparr>)"
    using append_at_fits [OF fits, of p "f\<lparr>applied_upto := max (applied_upto f) p, dir := d\<rparr>"] by auto
  have "swapping new g [] f (f\<lparr>applied_upto := max (applied_upto f) p, dir := d, wal := w, pending_swap := Some (swap_of p old new f []), pending := True\<rparr>)"
    using t by (simp add: swapping_def)
  then show ?thesis
    using w d t(1) assms(2) by (simp add: follow_def inner_apply_record_def finalize_pending_swap_def op_bind_def op_basic Let_def is_put_def)
qed

section \<open>The swap\<close>

text \<open>The leader's maps after \<open>compact_commit\<close>, with the old file still there.\<close>

definition swapped :: "CompactStage \<Rightarrow> Inner \<Rightarrow> Inner" where
  "swapped cs s = (inner_compact_commit cs s)\<lparr>dir := dir s\<rparr>"

lemma compact_commit_swapped: "inner_compact_commit cs s = unlink [(p, cs_old_id cs)] (swapped cs s)"
proof -
  obtain ix pl where "fold (remap_entry (cs_new_id cs)) (cs_entries cs) s = s\<lparr>index := ix, put_locations := pl\<rparr>" using remap_fold_other by blast
  then show ?thesis by (simp add: unlink_def swapped_def inner_compact_commit_def Let_def)
qed

lemma remap_fold_le:
  "map_of (put_locations s) \<subseteq>\<^sub>m map_of (put_locations f) \<Longrightarrow>
    map_of (put_locations (fold (remap_entry new) es s)) \<subseteq>\<^sub>m map_of (put_locations (fold (remap_entry new) es f))"
proof (induction es arbitrary: s f)
  case (Cons e es)
  have "map_of (put_locations (remap_entry new e s)) \<subseteq>\<^sub>m map_of (put_locations (remap_entry new e f))"
    using map_le_update [OF Cons.prems] by (simp add: remap_entry_eq)
  from Cons.IH [OF this] show ?case by simp
qed simp

lemma map_le_deletes: "map_of xs \<subseteq>\<^sub>m m \<Longrightarrow> map_of (fold AList.delete ds xs) \<subseteq>\<^sub>m m"
  by (auto simp: map_le_def fold_delete dom_def)

lemma mirror_swapped:
  assumes m: "mirror_at rt s f" and cs: "cs_file cs = i"
    and y: "fold (remap_entry (cs_new_id cs)) (cs_entries cs) f = t"
  shows "mirror_at (rt @ [r]) (swapped cs s) (t\<lparr>segments := AList.update (cs_new_id cs) i (AList.delete (cs_old_id cs) (segments t)),
    sealed := filter (\<lambda>i. i \<noteq> cs_old_id cs) (sealed t) @ [cs_new_id cs], retired_segments := retired_segments t @ [r]\<rparr>)"
proof -
  let ?u = "fold (remap_entry (cs_new_id cs)) (cs_entries cs) s"
  obtain ix pl where u: "?u = s\<lparr>index := ix, put_locations := pl\<rparr>" using remap_fold_other by blast
  obtain ix' pl' where t: "t = f\<lparr>index := ix', put_locations := pl'\<rparr>" using remap_fold_other y by blast
  have "index ?u = index t" using remap_fold_index [of s f] m y by (simp add: mirror_at_def)
  then have "ix' = ix" by (simp add: u t)
  moreover have "map_of pl \<subseteq>\<^sub>m map_of pl'" using remap_fold_le [of s f "cs_new_id cs" "cs_entries cs"] m y by (simp add: mirror_at_def u t)
  ultimately show ?thesis
    using m map_le_deletes by (simp add: mirror_at_def swapped_def inner_compact_commit_def Let_def u cs t)
qed

text \<open>Completing the swap: the follower has what the leader will have, and keeps the old file.\<close>

lemma finalize_ok:
  assumes m: "mirror s f" and x: "swapping (cs_new_id cs) g (cs_entries cs) f x" "pending_swap x = Some (swap_of p (cs_old_id cs) (cs_new_id cs) f (cs_entries cs))"
    and cs: "cs_file cs = length (inodes (dir s))"
    and tmp: "lookup_file (tmp_name (cs_new_id cs)) (dir s) = None"
    and s1: "s1 = s\<lparr>next_free_id := n, dir := d, wal := w, pending := b\<rparr>" "next_free_id s \<le> n"
    and d: "\<And>z. lookup_file z d = (if z = seg_name (cs_new_id cs) then Some (length (inodes (dir s))) else lookup_file z (dir s))"
      "length (inodes d) = Suc (length (inodes (dir s)))" "\<And>j. j \<noteq> length (inodes (dir s)) \<Longrightarrow> file_data d j = file_data (dir s) j"
      "file_data d (length (inodes (dir s))) = entry_data g (cs_entries cs) []"
  shows "\<exists>y. finalize_pending_swap x = (Inr (), y) \<and> mirror_at [(p, cs_old_id cs)] (swapped cs s1) y \<and> applied_upto y = applied_upto x \<and>
    last_commit_block y = last_commit_block f"
proof -
  let ?new = "cs_new_id cs" and ?i = "length (inodes (dir f))"
  have sd: "same_disk (dir s) (dir f)" using m by (simp add: mirror_at_def)
  note len = same_disk_length [OF sd]
  have "lookup_file (tmp_name ?new) (dir x) = Some ?i" using x(1) by (simp add: swapping_def)
  from rename_tmp [OF this] obtain d' where ren: "rename_file (tmp_name ?new) (seg_name ?new) (sync_data ?i (dir x)) = Inr d'"
    and look: "\<And>z. lookup_file z d' = (if z = seg_name ?new then Some ?i else if z = tmp_name ?new then None else lookup_file z (dir x))"
    and d': "length (inodes d') = length (inodes (dir x))" "\<And>j. file_data d' j = file_data (dir x) j" by blast
  have "same_disk d d'"
  proof (rule same_diskI)
    show "lookup_file z d = lookup_file z d'" for z
      using sd tmp x(1) by (auto simp: look d(1) len swapping_def same_disk_def)
    show "length (inodes d') = length (inodes d)" using x(1) by (simp add: d'(1) d(2) len swapping_def)
    show "file_data d' j = file_data d j" for j using x(1) d(3,4) same_disk_data [OF sd] by (simp add: d'(2) len swapping_def)
  qed
  moreover define f1 where "f1 = x\<lparr>pending_swap := None, dir := d'\<rparr>"
  ultimately have "mirror_at [] s1 f1" using m x(1) s1(2) by (auto simp: s1(1) mirror_at_def swapping_def)
  moreover define t where "t = fold (remap_entry ?new) (cs_entries cs) f1"
  ultimately have y: "mirror_at [(p, cs_old_id cs)] (swapped cs s1) (t\<lparr>segments := AList.update ?new (cs_file cs) (AList.delete (cs_old_id cs) (segments t)),
      sealed := filter (\<lambda>i. i \<noteq> cs_old_id cs) (sealed t) @ [?new], retired_segments := retired_segments t @ [(p, cs_old_id cs)]\<rparr>)"
    using mirror_swapped [OF _ refl, of "[]" s1 f1 cs t] by simp
  have "open_existing (seg_name ?new) d' = Inr (cs_file cs)" by (simp add: open_existing_def look cs len)
  then have run: "finalize_pending_swap x = (Inr (), t\<lparr>segments := AList.update ?new (cs_file cs) (AList.delete (cs_old_id cs) (segments t)),
      sealed := filter (\<lambda>i. i \<noteq> cs_old_id cs) (sealed t) @ [?new], retired_segments := retired_segments t @ [(p, cs_old_id cs)]\<rparr>)"
    using ren x(2) by (simp add: finalize_pending_swap_def Let_def f1_def t_def)
  obtain ix pl where "t = f1\<lparr>index := ix, put_locations := pl\<rparr>" using remap_fold_other t_def by blast
  then have "applied_upto t = applied_upto x" "last_commit_block t = last_commit_block f" using x(1) by (simp_all add: f1_def swapping_def)
  then show ?thesis using run y by simp
qed

section \<open>The records of a compaction\<close>

lemma compaction_lsns:
  assumes w: "append_at rec (next_lsn (wal s)) (wal s) = Inr w" and r: "remap_records new es rs (next_lsn w) to" and le: "next_lsn w \<le> to"
    and n: "unat to + 1 < 2 ^ 64"
  shows "map (unat \<circ> fst) ((next_lsn (wal s), rec) # rs) = [unat (next_lsn (wal s))..<unat to]" "unat (next_lsn (wal s)) < unat to"
proof -
  have le: "unat (next_lsn w) \<le> unat to" "unat (next_lsn (wal s)) \<le> unat (next_lsn w)" using le append_at_mono [OF w] by (simp_all add: word_le_nat_alt)
  have "unat (next_lsn w) = unat (next_lsn (wal s)) + 1" using append_at_next [OF w] le n by simp
  then show "map (unat \<circ> fst) ((next_lsn (wal s), rec) # rs) = [unat (next_lsn (wal s))..<unat to]" "unat (next_lsn (wal s)) < unat to"
    using r n le by (simp_all add: remap_records_def upt_conv_Cons)
qed

lemma kept_values:
  assumes inv: "maps_inv vals s" and old: "map_of (segments s) old = Some oldf" and k: "(l, key, q, k) \<in> set (keep_list s h old)"
  shows "read_value (file_data (dir s) oldf) q k = Inr (snd (vals l))"
  using k maps_invD(4) [OF inv, of l "(key, old, q, k)"] old by (auto simp: in_keep_list [OF maps_invD(2) [OF inv]] located_def holds_put_def)

lemma kept_copyable:
  assumes m: "mirror s f" and inv: "maps_inv vals s" and old: "map_of (segments s) old = Some oldf"
    and nf: "new_file s (keep_list s h old) oldf d es" and e: "e \<in> set es"
  shows "copyable old (\<lambda>l. snd (vals l)) f e"
proof -
  note d = maps_invD [OF inv]
  obtain q where q: "(re_lsn e, re_key e, q, re_len e) \<in> set (keep_list s h old)" using new_fileD(8) [OF nf e] by blast
  then have pl: "map_of (put_locations s) (re_lsn e) = Some (re_key e, old, q, re_len e)" using in_keep_list [OF d(2)] by blast
  have "oldf < length (inodes (dir s))" using d(1) inner_inv_segment [OF d(1) old] by (auto simp: inner_inv_def disk_ok_def)
  moreover have sd: "same_disk (dir s) (dir f)" and seg: "segments f = segments s" and le: "map_of (put_locations s) \<subseteq>\<^sub>m map_of (put_locations f)"
    using m by (simp_all add: mirror_at_def)
  moreover have "map_of (put_locations f) (re_lsn e) = Some (re_key e, old, q, re_len e)" using le pl by (auto simp: map_le_def dom_def)
  ultimately show ?thesis
    using kept_values [OF inv old q] old same_disk_length [OF sd] same_disk_data [OF sd, of oldf] unfolding copyable_def seg by fastforce
qed

lemma follow_compaction:
  assumes m: "mirror s f" and inv: "maps_inv vals s" and n: "unat (next_free_id s) + 1 < 2 ^ 64" "length (put_locations s) \<le> 2 ^ 32"
    and run: "inner_compact_stage h s = Some (Inr (Some cs), s1)" and n1: "unat (next_lsn (wal s1)) + 1 < 2 ^ 64"
  shows "(\<exists>x y. follow None (cs_records cs) f = (Inr (), x) \<and> finalize_pending_swap x = (Inr (), y) \<and>
      mirror_at [(next_lsn (wal s), cs_old_id cs)] (swapped cs s1) y \<and> applied_upto x = fold (\<lambda>(l, r) a. max a l) (cs_records cs) (applied_upto f) \<and>
      applied_upto y = applied_upto x \<and> last_commit_block y = last_commit_block f) \<and>
    map (unat \<circ> fst) (cs_records cs) = [unat (next_lsn (wal s))..<unat (next_lsn (wal s1))] \<and> unat (next_lsn (wal s)) < unat (next_lsn (wal s1)) \<and>
    list_all (\<lambda>(l, r). \<not> is_commit r) (cs_records cs) \<and> pending s1"
proof -
  obtain old where c: "choose_segment s h = Some old" using run by (auto simp: inner_compact_stage_def split: option.splits)
  let ?new = "next_free_id s" and ?p = "next_lsn (wal s)" and ?g = "\<lambda>l. snd (vals l)"
  obtain cs' oldf d w rs where "(Inr (Some cs) :: StoreError + CompactStage option) = Inr (Some cs')"
    and old: "map_of (segments s) old = Some oldf" and nf': "new_file s (keep_list s h old) oldf d (cs_entries cs')"
    and w: "append_at (SegmentSwap old ?new) ?p (wal s) = Inr w"
    and loop': "remap_loop ?new (cs_entries cs') (s\<lparr>next_free_id := ?new + 1, dir := d, wal := w, pending := True\<rparr>) = Some (Inr rs, s1)"
    and cs': "cs_old_id cs' = old" "cs_new_id cs' = ?new" "cs_file cs' = length (inodes (dir s))" "cs_records cs' = (?p, SegmentSwap old ?new) # rs"
    by (rule compact_stage_parts [OF inv n(2) run c])
  then have "cs' = cs" by simp
  note nf = nf' [unfolded this] and loop = loop' [unfolded this] and cs = cs' [unfolded this]
  obtain w' where s1: "s1 = s\<lparr>next_free_id := ?new + 1, dir := d, wal := w', pending := True\<rparr>" and le: "next_lsn w \<le> next_lsn (wal s1)"
    using remap_loop_frame [OF loop] by auto
  have rr: "remap_records ?new (cs_entries cs) rs (next_lsn w) (next_lsn (wal s1))" using remap_loop_log [OF loop] by simp
  then obtain chunks where ch: "map snd rs = map (SegmentRemap ?new) chunks" "concat chunks = cs_entries cs" "\<forall>rec \<in> snd ` set rs. record_size rec \<le> 4072"
    by (auto simp: remap_records_def)
  have cp: "\<forall>e \<in> set (concat chunks). copyable old ?g f e" unfolding ch(2) using kept_copyable [OF m inv old nf] by blast
  have tmp: "lookup_file (tmp_name ?new) (dir s) = None" "lookup_file (tmp_name ?new) (dir f) = None" "pending_swap f = None"
    using m maps_invD(8) [OF inv] by (simp_all add: mirror_at_def same_disk_def)
  obtain x0 where x0: "follow None [(?p, SegmentSwap old ?new)] f = (Inr (), x0)" "swapping ?new ?g [] f x0" "pending_swap x0 = Some (swap_of ?p old ?new f [])"
    "applied_upto x0 = max (applied_upto f) ?p" using follow_swap [OF tmp(2,3)] by blast
  obtain x where x: "follow None rs x0 = (Inr (), x)" "swapping ?new ?g (cs_entries cs) f x" "pending_swap x = Some (swap_of ?p old ?new f (cs_entries cs))"
    "applied_upto x = fold (\<lambda>(l, r) a. max a l) rs (applied_upto x0)" using follow_remaps [OF x0(2,3) cp ch(1,3)] by (auto simp: ch(2))
  have fd: "file_data d (length (inodes (dir s))) = entry_data ?g (cs_entries cs) []" by (rule new_fileD(9) [OF nf]) (rule kept_values [OF inv old])
  have nid: "?new \<le> ?new + 1" using n(1) by (simp add: word_le_nat_alt unat_add_small)
  obtain y where "finalize_pending_swap x = (Inr (), y)" "mirror_at [(?p, old)] (swapped cs s1) y" "applied_upto y = applied_upto x"
    "last_commit_block y = last_commit_block f"
    using finalize_ok [OF m _ _ cs(3) _ s1 nid _ new_fileD(2) [OF nf] _ fd, unfolded cs(1,2), OF x(2,3) tmp(1) new_fileD(1,3) [OF nf]] by blast
  moreover have "follow None (cs_records cs) f = (Inr (), x)" using follow_append [of None "[(?p, SegmentSwap old ?new)]" rs f] x0(1) x(1) by (simp add: cs(4) op_bind_def)
  moreover have "applied_upto x = fold (\<lambda>(l, r) a. max a l) (cs_records cs) (applied_upto f)" using x(4) x0(4) by (simp add: cs(4))
  moreover have "\<not> is_commit rec" if "rec \<in> snd ` set rs" for rec
    using that arg_cong [OF ch(1), of set] by (auto simp: is_commit_def)
  then have "list_all (\<lambda>(l, r). \<not> is_commit r) (cs_records cs)" by (force simp: cs(4) list_all_iff is_commit_def)
  moreover note compaction_lsns [OF w rr le n1]
  ultimately show ?thesis by (simp add: cs s1)
qed

text \<open>Committing on the leader in between changes nothing of this.\<close>

lemma remap_fold_puts: "put_locations s = put_locations s' \<Longrightarrow> put_locations (fold (remap_entry new) es s) = put_locations (fold (remap_entry new) es s')"
proof (induction es arbitrary: s s')
  case (Cons e es)
  have "put_locations (remap_entry new e s) = put_locations (remap_entry new e s')" using Cons.prems by (simp add: remap_entry_eq)
  from Cons.IH [OF this] show ?case by simp
qed simp

lemma swapped_cong:
  assumes m: "mirror_at rt (swapped cs s) f" and s: "index s' = index s" "put_locations s' = put_locations s" "segments s' = segments s" "sealed s' = sealed s"
    "rollup s' = rollup s" "active_id s' = active_id s" "active_offset s' = active_offset s" "next_free_id s' = next_free_id s"
    and d: "same_disk (dir s) (dir s')"
  shows "mirror_at rt (swapped cs s') f"
proof -
  let ?t = "fold (remap_entry (cs_new_id cs)) (cs_entries cs)"
  obtain ix pl ix' pl' where t: "?t s = s\<lparr>index := ix, put_locations := pl\<rparr>" "?t s' = s'\<lparr>index := ix', put_locations := pl'\<rparr>"
    using remap_fold_other by meson
  have "index (?t s') = index (?t s)" "put_locations (?t s') = put_locations (?t s)" by (rule remap_fold_index [OF s(1)], rule remap_fold_puts [OF s(2)])
  then have "ix' = ix" "pl' = pl" by (simp_all add: t)
  then show ?thesis
    using m s same_disk_trans [OF same_disk_sym [OF d]] by (simp add: mirror_at_def swapped_def inner_compact_commit_def Let_def t)
qed

end
