(* ===== verification/Convergence.thy ===== *)
theory Convergence
  imports FollowerCompaction
begin

text \<open>
  A leader and a follower that receives all of its frames in order: through puts, commits and compactions the follower keeps a
  copy of the leader's files and maps.
\<close>

section \<open>Batches\<close>

lemma apply_batch:
  assumes run: "follow v rs (inner fo) = (Inr (), x)" and fin: "finalize_pending_swap x = (Inr (), y)" and m: "mirror_at rt s y"
    and up: "applied_upto x = fold (\<lambda>(l, r) a. max a l) rs (applied_upto (inner fo))" "applied_upto y = applied_upto x"
    and lcb: "last_commit_block y = last_commit_block (inner fo)"
    and lsns: "map (unat \<circ> fst) rs = [a..<b]" "a < b" "list_all (\<lambda>(l, r). \<not> is_commit r) rs"
    and below: "unat (last_commit_block (inner fo)) < a" "unat (applied_upto (inner fo)) < a" "\<forall>(l, old) \<in> set rt. a \<le> unat l"
  shows "\<exists>fo'. (\<forall>rest. apply_frames (batch_frames rs v (batch_end_of rs) @ rest) fo = (case apply_frames rest fo' of (out, st) \<Rightarrow> (SyncAck (batch_end_of rs) # out, st))) \<and>
    mirror_at rt s (inner fo') \<and>
    snap fo' = Snap_from (inner fo') \<and> last_commit_block (inner fo') = last_commit_block (inner fo) \<and> unat (applied_upto (inner fo')) = b - 1"
proof -
  have above: "last_commit_block (inner fo) < l" "applied_upto (inner fo) < l" if "l \<in> fst ` set rs" for l
    using lsns_sorted(2) [OF lsns(1) that] below(1,2) by (simp_all add: word_less_nat_alt)
  have last: "rs \<noteq> []" "unat (fst (last rs)) = b - 1" using lsns_sorted(3) [OF lsns(1,2)] by simp_all
  have acked: "applied_upto x = batch_end_of rs"
    using fold_max_last [OF last(1) lsns_sorted(1) [OF lsns(1)]] above(2) by (simp add: up(1) batch_end_of_def)
  have "\<forall>(l, r) \<in> set rs. last_commit_block (inner fo) < l \<and> \<not> is_commit r" using above(1) lsns(3) by (force simp: list_all_iff)
  note frames = apply_appends [OF run this]
  have "\<not> l \<le> last_commit_block y" if "(l, old) \<in> set rt" for l old using that below(1,3) by (auto simp: lcb word_le_nat_alt)
  then have rt: "filter (\<lambda>(l, old). \<not> l \<le> last_commit_block y) rt = rt" "filter (\<lambda>(l, old). l \<le> last_commit_block y) rt = []"
    by (auto simp: filter_id_conv filter_empty_conv)
  have "finalize_pending_swap (inner (fo\<lparr>inner := x\<rparr>)) = (Inr (), y)" "applied_upto y = applied_upto (inner (fo\<lparr>inner := x\<rparr>))"
    using fin up(2) by simp_all
  from barrier_frame [OF this(1) m this(2), of "batch_end_of rs", unfolded rt unlink_Nil] obtain fo' where
    b: "apply_frame IoOk (SyncBarrier (batch_end_of rs)) (fo\<lparr>inner := x\<rparr>) = ((Some (SyncAck (batch_end_of rs)), True), fo')"
      "mirror_at rt s (inner fo')" "snap fo' = Snap_from (inner fo')" "last_commit_block (inner fo') = last_commit_block y"
      "applied_upto (inner fo') = batch_end_of rs" by (auto simp: acked)
  have "apply_frames (batch_frames rs v (batch_end_of rs) @ rest) fo = (case apply_frames rest fo' of (out, st) \<Rightarrow> (SyncAck (batch_end_of rs) # out, st))" for rest
    using frames [of "SyncBarrier (batch_end_of rs) # rest"] b(1) by (simp add: batch_frames_def)
  then show ?thesis using b(2-5) lcb last(2) unfolding batch_end_of_def by (intro exI [of _ fo']) simp
qed

abbreviation put_frames :: "StagedPut \<Rightarrow> bytes \<Rightarrow> Frame list" where
  "put_frames sp v \<equiv> batch_frames (staged_records sp) (Some v) (batch_end_of (staged_records sp))"

abbreviation commit_frames :: "Lsn \<Rightarrow> Lsn \<Rightarrow> Frame list" where
  "commit_frames block lsn \<equiv> batch_frames [(block, Commit lsn)] None block"

abbreviation compact_frames :: "CompactStage \<Rightarrow> Frame list" where
  "compact_frames cs \<equiv> batch_frames (cs_records cs) None (batch_end_of (cs_records cs))"

lemma apply_commit:
  assumes m: "mirror_at rt s (inner fo)" and below: "last_commit_block (inner fo) < b" "applied_upto (inner fo) < b" "\<forall>(l, old) \<in> set rt. l \<le> b"
  shows "\<exists>fo'. (\<forall>rest. apply_frames (commit_frames b lsn @ rest) fo = (case apply_frames rest fo' of (out, st) \<Rightarrow> (SyncAck b # out, st))) \<and>
    mirror (unlink rt s) (inner fo') \<and> snap fo' = Snap_from (inner fo') \<and> last_commit_block (inner fo') = b \<and> applied_upto (inner fo') = b"
proof -
  let ?f = "inner fo"
  have mx: "max (applied_upto ?f) b = b" "max (last_commit_block ?f) b = b" using below(1,2) by (simp_all add: max_def less_imp_le)
  from follow_commit [OF m, of None b lsn] obtain f where f: "follow None [(b, Commit lsn)] ?f = (Inr (), f)" "mirror_at rt s f"
    "applied_upto f = b" "last_commit_block f = b" unfolding mx by blast
  have 1: "apply_frame IoOk (Append b (Commit lsn) None) fo = ((None, True), fo\<lparr>inner := f\<rparr>)"
    using f(1) below(1) by (auto simp: follow_def op_bind_Inr op_basic is_put_def apply_frame_def apply_record_def locked_def
        store_last_commit_block_def not_le)
  have rt: "filter (\<lambda>(l, old). \<not> l \<le> b) rt = []" "filter (\<lambda>(l, old). l \<le> b) rt = rt" using below(3) by (auto simp: filter_id_conv filter_empty_conv)
  have "finalize_pending_swap (inner (fo\<lparr>inner := f\<rparr>)) = (Inr (), f)" using finalize_mirror [OF f(2)] by simp
  from barrier_frame [OF this f(2), of b, unfolded f(4) rt] f(3,4) obtain fo' where
    "apply_frame IoOk (SyncBarrier b) (fo\<lparr>inner := f\<rparr>) = ((Some (SyncAck b), True), fo')" "mirror (unlink rt s) (inner fo')"
    "snap fo' = Snap_from (inner fo')" "last_commit_block (inner fo') = b" "applied_upto (inner fo') = b" by auto
  then show ?thesis using 1 by (intro exI [of _ fo']) (simp add: batch_frames_def is_put_def)
qed

section \<open>Replicated stores\<close>

text \<open>
  A leader with what its follower has received. In \<open>rep_compact\<close> no put comes between the steps of the compaction.
\<close>

definition compact_cycle :: "Lsn \<Rightarrow> Store \<Rightarrow> CompactStage \<Rightarrow> Lsn \<Rightarrow> Store \<Rightarrow> bool" where
  "compact_cycle h ld cs block ld' \<longleftrightarrow> (\<exists>ld1 ld2 ld3. compact_stage h ld = Some (Inr (Some cs), ld1) \<and> sync_wal IoOk ld1 = (Inr (), ld2) \<and>
    commit IoOk (batch_end_of (cs_records cs)) ld2 = (Inr (), ld3) \<and> block = store_next_lsn ld3 - 1 \<and> unat (store_next_lsn ld1) + 5 < 2 ^ 64 \<and>
    compact_commit cs ld3 = (Inr (cs_freed cs), ld'))"

inductive replicated :: "Store \<Rightarrow> Store \<Rightarrow> bool" where
  rep_open: "open_with_options empty_disk None m = (Inr ld, d) \<Longrightarrow> open_with_options empty_disk None m' = (Inr fo, d') \<Longrightarrow> replicated ld fo"
| rep_put: "replicated ld fo \<Longrightarrow> counters_ok (inner ld) (length v) \<Longrightarrow> unat (store_next_lsn ld) + 5 < 2 ^ 64 \<Longrightarrow>
    stage_put key v ld = (Inr sp, ld') \<Longrightarrow> apply_frames (put_frames sp v) fo = (replies, fo') \<Longrightarrow> replicated ld' fo'"
| rep_sync: "replicated ld fo \<Longrightarrow> sync_wal IoOk ld = (r, ld') \<Longrightarrow> replicated ld' fo"
| rep_commit: "replicated ld fo \<Longrightarrow> pending (inner ld) \<Longrightarrow> unat (store_next_lsn ld) + 5 < 2 ^ 64 \<Longrightarrow> commit IoOk lsn ld = (Inr (), ld') \<Longrightarrow>
    apply_frames (commit_frames (store_next_lsn ld' - 1) lsn) fo = (replies, fo') \<Longrightarrow> replicated ld' fo'"
| rep_compact: "replicated ld fo \<Longrightarrow> unat (next_free_id (inner ld)) + 1 < 2 ^ 64 \<Longrightarrow> length (put_locations (inner ld)) \<le> 2 ^ 32 \<Longrightarrow>
    compact_cycle h ld cs block ld' \<Longrightarrow> apply_frames (compact_frames cs @ commit_frames block (batch_end_of (cs_records cs))) fo = (replies, fo') \<Longrightarrow>
    replicated ld' fo'"

definition replicas_ok :: "Store \<Rightarrow> Store \<Rightarrow> bool" where
  "replicas_ok ld fo \<longleftrightarrow> (\<exists>vals. comp_inv vals {} (inner ld)) \<and> mirror (inner ld) (inner fo) \<and> snap fo = Snap_from (inner fo) \<and>
    unat (last_commit_block (inner fo)) < unat (store_next_lsn ld) \<and> unat (applied_upto (inner fo)) < unat (store_next_lsn ld) \<and>
    (pending (inner ld) \<or> snap ld = Snap_from (inner ld))"

lemma replicas_okD:
  assumes "replicas_ok ld fo"
  shows "inner_inv (inner ld)" "mirror (inner ld) (inner fo)" "unat (last_commit_block (inner fo)) < unat (next_lsn (wal (inner ld)))"
    "unat (applied_upto (inner fo)) < unat (next_lsn (wal (inner ld)))" "snap fo = Snap_from (inner fo)"
  using assms comp_inv_inner by (auto simp: replicas_ok_def store_next_lsn_def)

lemma replicate_put:
  assumes ok: "replicas_ok ld fo" and c: "counters_ok (inner ld) (length v)" and n: "unat (store_next_lsn ld) + 5 < 2 ^ 64"
    and run: "stage_put key v ld = (Inr sp, ld')"
  shows "\<exists>fo'. apply_frames (put_frames sp v) fo = ([SyncAck (batch_end_of (staged_records sp))], fo') \<and> replicas_ok ld' fo'"
proof -
  note r = replicas_okD [OF ok]
  obtain s' where s': "inner_stage_put key v (inner ld) = (Inr sp, s')" "ld' = ld\<lparr>inner := s'\<rparr>"
    using run by (auto simp: stage_put_def locked_def split: prod.splits)
  obtain f' where f': "follow (Some v) (staged_records sp) (inner fo) = (Inr (), f')" "followed s' (inner fo) (staged_records sp) f'"
    using follow_stage [OF r(2,1) c s'(1)] by blast
  have lsns: "map (unat \<circ> fst) (staged_records sp) = [unat (next_lsn (wal (inner ld)))..<unat (next_lsn (wal s'))]"
    "unat (next_lsn (wal (inner ld))) < unat (next_lsn (wal s'))" "list_all (\<lambda>(l, r). \<not> is_commit r) (staged_records sp)"
    using stage_lsns [OF s'(1) _ c] n by (auto simp: store_next_lsn_def)
  have f: "mirror s' f'" "last_commit_block f' = last_commit_block (inner fo)"
    "applied_upto f' = fold (\<lambda>(l, r) a. max a l) (staged_records sp) (applied_upto (inner fo))" using f'(2) by (simp_all add: followed_def)
  obtain fo' where fo': "\<forall>rest. apply_frames (put_frames sp v @ rest) fo = (case apply_frames rest fo' of (out, st) \<Rightarrow> (SyncAck (batch_end_of (staged_records sp)) # out, st))"
    "mirror s' (inner fo')"
    "snap fo' = Snap_from (inner fo')" "last_commit_block (inner fo') = last_commit_block (inner fo)" "unat (applied_upto (inner fo')) = unat (next_lsn (wal s')) - 1"
    using apply_batch [OF f'(1) finalize_mirror [OF f(1)] f(1,3) refl f(2) lsns r(3,4)] by auto
  obtain vals' where "comp_inv vals' {} s'"
    using ok stage_put_comp [OF _ c _ s'(1)] n by (auto simp: replicas_ok_def store_next_lsn_def)
  moreover have "pending s'" using stage_put_ok [OF r(1) c s'(1)] by simp
  ultimately have "replicas_ok ld' fo'" using fo'(2-5) lsns(2) r(3) by (auto simp: replicas_ok_def s'(2) store_next_lsn_def)
  then show ?thesis using fo'(1) [THEN spec, of "[]"] by auto
qed

lemma replicate_commit:
  assumes ok: "replicas_ok ld fo" and p: "pending (inner ld)" and n: "unat (store_next_lsn ld) + 5 < 2 ^ 64"
    and run: "commit IoOk lsn ld = (Inr (), ld')"
  shows "\<exists>fo'. apply_frames (commit_frames (store_next_lsn ld' - 1) lsn) fo = ([SyncAck (store_next_lsn ld' - 1)], fo') \<and> replicas_ok ld' fo' \<and>
    \<not> pending (inner ld')"
proof -
  let ?b = "next_lsn (wal (inner ld))"
  note r = replicas_okD [OF ok]
  obtain s' where s': "inner_commit IoOk lsn (inner ld) = (Inr (), s')" "ld' = publish (ld\<lparr>inner := s'\<rparr>)"
    using run p commit_IoOk [of lsn "inner ld"] by (auto simp: commit_def op_bind_def locked_def op_basic)
  have nx: "next_lsn (wal s') = ?b + 1" using commit_next [OF s'(1)] n by (simp add: store_next_lsn_def)
  then have block: "store_next_lsn ld' - 1 = ?b" by (simp add: s'(2) publish_def store_next_lsn_def)
  have u: "unat (?b + 1) = unat ?b + 1" using n by (simp add: unat_word_ariths store_next_lsn_def)
  have np: "\<not> pending s'" using s'(1) by (auto simp: inner_commit_def op_bind_Inr op_basic Let_def)
  obtain fo' where fo': "\<forall>rest. apply_frames (commit_frames ?b lsn @ rest) fo = (case apply_frames rest fo' of (out, st) \<Rightarrow> (SyncAck ?b # out, st))" "mirror s' (inner fo')" "snap fo' = Snap_from (inner fo')"
    "last_commit_block (inner fo') = ?b" "applied_upto (inner fo') = ?b"
    using apply_commit [OF mirror_commit [OF r(2) s'(1)], of ?b lsn] r(3,4) by (auto simp: word_less_nat_alt)
  obtain vals where "comp_inv vals {} s'" using ok inner_commit_comp [OF _ s'(1)] by (auto simp: replicas_ok_def)
  then have "replicas_ok ld' fo'"
    using fo'(2-5) u nx by (auto simp: replicas_ok_def s'(2) publish_def Snap_from_def store_next_lsn_def)
  moreover have "\<not> pending (inner ld')" using np by (simp add: s'(2) publish_def)
  ultimately show ?thesis unfolding block using fo'(1) [THEN spec, of "[]"] by auto
qed

text \<open>The steps of the leader.\<close>

lemma cycle_pending:
  assumes ok: "replicas_ok ld fo" and n: "unat (next_free_id (inner ld)) + 1 < 2 ^ 64" "length (put_locations (inner ld)) \<le> 2 ^ 32"
    and run: "inner_compact_stage h (inner ld) = Some (Inr (Some cs), s)" "unat (next_lsn (wal s)) + 5 < 2 ^ 64"
  shows "pending s"
proof -
  obtain vals where c: "comp_inv vals {} (inner ld)" using ok by (auto simp: replicas_ok_def)
  show ?thesis using follow_compaction [OF replicas_okD(2) [OF ok] comp_inv_maps [OF c] n run(1)] run(2) by simp
qed

lemma compact_cycle_parts:
  assumes cyc: "compact_cycle h ld cs block ld'" and p: "\<And>s. inner_compact_stage h (inner ld) = Some (Inr (Some cs), s) \<Longrightarrow> unat (next_lsn (wal s)) + 5 < 2 ^ 64 \<Longrightarrow> pending s"
  obtains s1 w s3 where "inner_compact_stage h (inner ld) = Some (Inr (Some cs), s1)" "inner_sync IoOk s1 = (Inr (), s1\<lparr>wal := w\<rparr>)" "next_lsn w = next_lsn (wal s1)"
    "inner_commit IoOk (batch_end_of (cs_records cs)) (s1\<lparr>wal := w\<rparr>) = (Inr (), s3)" "block = next_lsn (wal s3) - 1" "unat (next_lsn (wal s1)) + 5 < 2 ^ 64"
    "inner ld' = inner_compact_commit cs s3" "snap ld' = Snap_from (inner ld')" "\<not> pending s3"
proof -
  obtain ld1 ld2 ld3 where 1: "compact_stage h ld = Some (Inr (Some cs), ld1)" and 2: "sync_wal IoOk ld1 = (Inr (), ld2)"
    and 3: "commit IoOk (batch_end_of (cs_records cs)) ld2 = (Inr (), ld3)" and b: "block = store_next_lsn ld3 - 1"
    and n: "unat (store_next_lsn ld1) + 5 < 2 ^ 64" and 4: "compact_commit cs ld3 = (Inr (cs_freed cs), ld')"
    using cyc by (auto simp: compact_cycle_def)
  obtain s1 where s1: "inner_compact_stage h (inner ld) = Some (Inr (Some cs), s1)" "ld1 = ld\<lparr>inner := s1\<rparr>" using 1 by (auto simp: compact_stage_def)
  obtain w where w: "inner_sync IoOk s1 = (Inr (), s1\<lparr>wal := w\<rparr>)" "next_lsn w = next_lsn (wal s1)" "ld2 = ld\<lparr>inner := s1\<lparr>wal := w\<rparr>\<rparr>"
    using 2 sync_IoOk [of "wal s1"] sync_keeps [of IoOk "wal s1"] by (auto simp: sync_wal_def locked_def inner_sync_def s1(2))
  obtain s3 where s3: "inner_commit IoOk (batch_end_of (cs_records cs)) (s1\<lparr>wal := w\<rparr>) = (Inr (), s3)" "ld3 = publish (ld2\<lparr>inner := s3\<rparr>)"
    using 3 p [OF s1(1)] n commit_IoOk [of "batch_end_of (cs_records cs)" "s1\<lparr>wal := w\<rparr>"] by (auto simp: commit_def op_bind_def locked_def op_basic w(3) s1(2) store_next_lsn_def)
  have np: "\<not> pending s3" using s3(1) by (auto simp: inner_commit_def op_bind_Inr op_basic Let_def)
  show thesis
    by (rule that [OF s1(1) w(1,2) s3(1) _ _ _ _ np])
      (use b n 4 in \<open>auto simp: s3(2) s1(2) publish_def store_next_lsn_def compact_commit_def Snap_from_def\<close>)
qed

lemma cycle_leader:
  assumes c: "comp_inv vals {} s" and n: "unat (next_free_id s) + 1 < 2 ^ 64" "length (put_locations s) \<le> 2 ^ 32"
    and run: "inner_compact_stage h s = Some (Inr (Some cs), s1)" "inner_sync io s1 = (r, s2)" "inner_commit io' l s2 = (r', s3)"
  shows "comp_inv vals {} (inner_compact_commit cs s3)" "index_lsn (inner_compact_commit cs s3) = index_lsn s"
    "wal (inner_compact_commit cs s3) = wal s3" "pending (inner_compact_commit cs s3) = pending s3"
proof -
  have 1: "comp_inv vals {cs} s1" "file_added s s1" using compact_stage_comp [OF c run(1) n] by auto
  then have 3: "comp_inv vals {cs} s3" by (intro inner_commit_comp [OF _ run(3)] inner_sync_comp [OF _ run(2)])
  then show "comp_inv vals {} (inner_compact_commit cs s3)" using compact_commit_comp(1) [of vals "{cs}" s3 cs] by simp
  have st: "stage_inv vals s3 cs" using 3 by (simp add: comp_inv_def)
  note f = compact_commit_fields [OF comp_inv_maps [OF 3] st]
  have "index s3 = index s" using 1(2) commit_fields [OF run(3)] run(2) by (auto simp: file_added_def inner_sync_def split: prod.splits)
  then show "index_lsn (inner_compact_commit cs s3) = index_lsn s" using f(1) by (auto simp: index_lsn_def fun_eq_iff)
  show "wal (inner_compact_commit cs s3) = wal s3" "pending (inner_compact_commit cs s3) = pending s3" using f(6) by auto
qed

lemma replicate_compact:
  assumes ok: "replicas_ok ld fo" and n: "unat (next_free_id (inner ld)) + 1 < 2 ^ 64" "length (put_locations (inner ld)) \<le> 2 ^ 32"
    and cyc: "compact_cycle h ld cs block ld'"
  shows "\<exists>fo'. apply_frames (compact_frames cs @ commit_frames block (batch_end_of (cs_records cs))) fo =
      ([SyncAck (batch_end_of (cs_records cs)), SyncAck block], fo') \<and> replicas_ok ld' fo' \<and> \<not> pending (inner ld')"
proof -
  note r = replicas_okD [OF ok]
  obtain vals where c: "comp_inv vals {} (inner ld)" using ok by (auto simp: replicas_ok_def)
  note fc = follow_compaction [OF r(2) comp_inv_maps [OF c] n]
  let ?p = "next_lsn (wal (inner ld))" and ?be = "batch_end_of (cs_records cs)"
  obtain s1 w s3 where s1: "inner_compact_stage h (inner ld) = Some (Inr (Some cs), s1)" and w: "inner_sync IoOk s1 = (Inr (), s1\<lparr>wal := w\<rparr>)" "next_lsn w = next_lsn (wal s1)"
    and s3: "inner_commit IoOk ?be (s1\<lparr>wal := w\<rparr>) = (Inr (), s3)" and b: "block = next_lsn (wal s3) - 1" and n1: "unat (next_lsn (wal s1)) + 5 < 2 ^ 64"
    and ld': "inner ld' = inner_compact_commit cs s3" "snap ld' = Snap_from (inner ld')" "\<not> pending s3"
    by (rule compact_cycle_parts [OF cyc cycle_pending [OF ok n]])
  let ?b = "next_lsn (wal s1)"
  obtain x y where x: "follow None (cs_records cs) (inner fo) = (Inr (), x)" "finalize_pending_swap x = (Inr (), y)"
      "mirror_at [(?p, cs_old_id cs)] (swapped cs s1) y" "applied_upto x = fold (\<lambda>(l, r) a. max a l) (cs_records cs) (applied_upto (inner fo))"
      "applied_upto y = applied_upto x" "last_commit_block y = last_commit_block (inner fo)"
    and lsns: "map (unat \<circ> fst) (cs_records cs) = [unat ?p..<unat ?b]" "unat ?p < unat ?b" "list_all (\<lambda>(l, r). \<not> is_commit r) (cs_records cs)"
    using fc [OF s1] n1 by auto
  obtain fo1 where fo1: "\<forall>rest. apply_frames (compact_frames cs @ rest) fo = (case apply_frames rest fo1 of (out, st) \<Rightarrow> (SyncAck ?be # out, st))"
    "mirror_at [(?p, cs_old_id cs)] (swapped cs s1) (inner fo1)" "last_commit_block (inner fo1) = last_commit_block (inner fo)" "unat (applied_upto (inner fo1)) = unat ?b - 1"
    using apply_batch [OF x(1-6) lsns r(3,4)] by auto
  note cm = commit_maps [OF s3] commit_fields [OF s3]
  have "mirror_at [(?p, cs_old_id cs)] (swapped cs s3) (inner fo1)"
    by (rule swapped_cong [OF fo1(2)]) (use cm same_disk_fsync [of "s1\<lparr>wal := w\<rparr>"] in simp_all)
  moreover have "last_commit_block (inner fo1) < ?b" "applied_upto (inner fo1) < ?b" "?p \<le> ?b"
    using fo1(3,4) r(3) lsns(2) by (simp_all add: word_less_nat_alt word_le_nat_alt)
  ultimately obtain fo2 where fo2: "\<forall>rest. apply_frames (commit_frames ?b ?be @ rest) fo1 = (case apply_frames rest fo2 of (out, st) \<Rightarrow> (SyncAck ?b # out, st))" "mirror (inner ld') (inner fo2)"
    "snap fo2 = Snap_from (inner fo2)" "last_commit_block (inner fo2) = ?b" "applied_upto (inner fo2) = ?b"
    using apply_commit [of "[(?p, cs_old_id cs)]" "swapped cs s3" fo1 ?b ?be] unfolding ld'(1) compact_commit_swapped [of cs s3 ?p] by auto
  have nx: "next_lsn (wal s3) = ?b + 1" using commit_next [OF s3] w(2) n1 by simp
  note ldr = cycle_leader [OF c n s1 w(1) s3, folded ld'(1)]
  have "unat (?b + 1) = unat ?b + 1" using n1 by (simp add: unat_word_ariths)
  then have "replicas_ok ld' fo2 \<and> \<not> pending (inner ld')" using fo2(2-5) ld'(2,3) nx ldr by (auto simp: replicas_ok_def store_next_lsn_def)
  moreover have "block = ?b" by (simp add: b nx)
  ultimately show ?thesis using fo1(1) fo2(1) [THEN spec, of "[]"] by simp
qed

lemma replicas_open:
  assumes "open_with_options empty_disk None m = (Inr ld, d)" "open_with_options empty_disk None m' = (Inr fo, d')"
  shows "replicas_ok ld fo"
proof -
  note o = open_empty_inner [OF assms(1)] open_empty_inner [OF assms(2)]
  have "\<exists>vals. comp_inv vals {} (inner ld)" using compacting_inv_open [OF assms(1)] by (simp add: compacting_inv_def)
  then show ?thesis
    unfolding replicas_ok_def by (simp add: o mirror_at_def store_next_lsn_def fresh_inner_def wal_open_None)
qed

lemma replicas_sync:
  assumes "replicas_ok ld fo" "sync_wal IoOk ld = (r, ld')"
  shows "replicas_ok ld' fo"
proof -
  obtain w where w: "sync IoOk (wal (inner ld)) = (Inr (), w)" using sync_IoOk by blast
  then have ld': "ld' = ld\<lparr>inner := (inner ld)\<lparr>wal := w\<rparr>\<rparr>" using assms(2) by (auto simp: sync_wal_def locked_def inner_sync_def)
  have "inner_sync IoOk (inner ld) = (Inr (), (inner ld)\<lparr>wal := w\<rparr>)" using w by (simp add: inner_sync_def)
  then have "comp_inv vals {} ((inner ld)\<lparr>wal := w\<rparr>)" if "comp_inv vals {} (inner ld)" for vals by (rule inner_sync_comp [OF that])
  then show ?thesis using assms(1) sync_keeps [OF w] by (auto simp: replicas_ok_def store_next_lsn_def ld' Snap_from_def)
qed

lemma replicated_ok: "replicated ld fo \<Longrightarrow> replicas_ok ld fo"
proof (induction rule: replicated.induct)
  case (rep_open m ld d m' fo d')
  then show ?case by (rule replicas_open)
next
  case (rep_put ld fo v key sp ld' replies fo')
  then show ?case using replicate_put [OF rep_put.IH rep_put.hyps(2-4)] by auto
next
  case (rep_sync ld fo r ld')
  then show ?case using replicas_sync by blast
next
  case (rep_commit ld fo lsn ld' replies fo')
  then show ?case using replicate_commit [OF rep_commit.IH rep_commit.hyps(2-4)] by auto
next
  case (rep_compact ld fo h cs block ld' replies fo')
  then show ?case using replicate_compact [OF rep_compact.IH rep_compact.hyps(2-4)] by auto
qed

lemma mirror_reads:
  assumes "mirror (inner ld) (inner fo)" "snap fo = Snap_from (inner fo)"
  shows "store_get fo key = store_get (publish ld) key" "capacity fo pre = capacity (publish ld) pre"
  using assms same_disk_data [of "dir (inner ld)" "dir (inner fo)"]
  by (auto simp: store_get_def capacity_def publish_def Snap_from_def read_snap_def mirror_at_def split: option.split)

text \<open>A compaction changes nothing of what the leader reads.\<close>

lemma cycle_reads:
  assumes ok: "replicas_ok ld fo" and n: "unat (next_free_id (inner ld)) + 1 < 2 ^ 64" "length (put_locations (inner ld)) \<le> 2 ^ 32"
    and cyc: "compact_cycle h ld cs block ld'"
  shows "store_get (publish ld') k = store_get (publish ld) k"
proof -
  obtain vals where c: "comp_inv vals {} (inner ld)" using ok by (auto simp: replicas_ok_def)
  obtain s1 w s3 where run: "inner_compact_stage h (inner ld) = Some (Inr (Some cs), s1)" "inner_sync IoOk s1 = (Inr (), s1\<lparr>wal := w\<rparr>)"
    "inner_commit IoOk (batch_end_of (cs_records cs)) (s1\<lparr>wal := w\<rparr>) = (Inr (), s3)" and ld': "inner ld' = inner_compact_commit cs s3"
    by (rule compact_cycle_parts [OF cyc cycle_pending [OF ok n]])
  note l = cycle_leader [OF c n run, folded ld']
  have pub: "publish st = publish (st\<lparr>inner := inner st\<rparr>)" for st by simp
  show ?thesis unfolding pub [of ld] pub [of ld'] read_published [OF comp_inv_maps [OF c]] read_published [OF comp_inv_maps [OF l(1)]] l(2) by simp
qed

section \<open>Example\<close>

text \<open>Every leader that has only put and committed has a follower that received its frames.\<close>

lemma commit_mono:
  assumes "commit IoOk lsn st = (r, st')"
  shows "r = Inr () \<and> next_lsn (wal (inner st)) \<le> next_lsn (wal (inner st'))"
proof (cases "pending (inner st)")
  case True
  obtain s where s: "inner_commit IoOk lsn (inner st) = (Inr (), s)" using commit_IoOk by blast
  then have "r = Inr ()" "inner st' = s" using assms True by (auto simp: commit_def op_bind_def locked_def op_basic publish_def)
  moreover have "next_lsn (wal (inner st)) \<le> next_lsn (wal s)" by (rule inner_commit_mono(1) [OF s])
  ultimately show ?thesis by simp
qed (use assms in \<open>simp add: commit_def\<close>)

lemma committed_replicated:
  assumes ih: "unat (store_next_lsn st) + 5 < 2 ^ 64 \<Longrightarrow> \<exists>fo. replicated st fo" and run: "commit IoOk lsn st = (r, st')" and n: "unat (store_next_lsn st') + 5 < 2 ^ 64"
  shows "\<exists>fo. replicated st' fo"
proof -
  have m: "commit IoOk lsn st = (Inr (), st')" "unat (store_next_lsn st) + 5 < 2 ^ 64"
    using run commit_mono [OF run] n by (simp_all add: store_next_lsn_def word_le_nat_alt)
  then obtain fo where fo: "replicated st fo" using ih by blast
  show ?thesis
  proof (cases "pending (inner st)")
    case True
    then show ?thesis using rep_commit [OF fo _ m(2,1)] by (metis surj_pair)
  qed (use run fo in \<open>auto simp: commit_def\<close>)
qed

lemma plain_replicated: "plain_run st \<Longrightarrow> unat (store_next_lsn st) + 5 < 2 ^ 64 \<Longrightarrow> \<exists>fo. replicated st fo"
proof (induction rule: plain_run.induct)
  case (plain_open m st d)
  then show ?case using rep_open by blast
next
  case (plain_put st v key sp st')
  have "counters_ok (inner st) (length v)" using plain_put.hyps(2) by (simp add: room_def)
  then show ?case using plain_put rep_put by (metis surj_pair)
next
  case (plain_commit st lsn r st')
  then show ?case using committed_replicated by blast
next
  case (plain_flush st r st')
  then consider "st' = st" | "commit IoOk (next_lsn (wal (inner st)) - 1) st = (r, st')" by (auto simp: flush_def split: if_splits)
  then show ?case using committed_replicated [OF plain_flush.IH] plain_flush.IH plain_flush.prems by cases blast+
next
  case (plain_sync_wal st r st')
  then have "store_next_lsn st' = store_next_lsn st" by (auto simp: sync_wal_def locked_def inner_sync_def store_next_lsn_def split: prod.splits dest!: sync_keeps)
  then obtain fo where "replicated st fo" using plain_sync_wal.IH plain_sync_wal.prems by auto
  then show ?case using rep_sync plain_sync_wal.hyps(2) by blast
qed

text \<open>The example of \<open>CompactionReads\<close> goes through a whole compaction.\<close>

lemma stage_next_lsn:
  assumes inv: "maps_inv vals s" and n: "length (put_locations s) \<le> 2 ^ 32" and k: "\<forall>(l, k, p) \<in> set (put_locations s). length k < 4040"
    and c: "choose_segment s h = Some old" and run: "inner_compact_stage h s = Some (r, s1)"
  shows "unat (next_lsn (wal s1)) \<le> unat (next_lsn (wal s)) + 1 + length (keep_list s h old)"
proof -
  obtain cs oldf d w rs where "r = Inr (Some cs)" and nf: "new_file s (keep_list s h old) oldf d (cs_entries cs)"
    and w: "append_at (SegmentSwap old (next_free_id s)) (next_lsn (wal s)) (wal s) = Inr w"
    and loop: "remap_loop (next_free_id s) (cs_entries cs) (s\<lparr>next_free_id := next_free_id s + 1, dir := d, wal := w, pending := True\<rparr>) = Some (Inr rs, s1)"
    by (rule compact_stage_parts [OF inv n run c])
  have "22 + length (re_key e) \<le> remap_budget" if e: "e \<in> set (cs_entries cs)" for e
    by (rule kept_key_fits [OF inv k new_fileD(8) [OF nf e]])
  from remap_loop_ends [OF this, of "cs_entries cs" "next_free_id s"] have "length rs \<le> length (cs_entries cs)"
    using loop by (metis Pair_inject option.inject sum.inject(2))
  moreover have "unat (next_lsn (wal s1)) \<le> unat (next_lsn w) + length rs" using remap_loop_log [OF loop] by (simp add: remap_records_def)
  ultimately show ?thesis using append_at_le [OF w] new_fileD(10) [OF nf] by simp
qed

lemma example_cycle:
  "\<exists>ld fo cs block ld'. replicated ld fo \<and> next_free_id (inner ld) = 3 \<and> length (put_locations (inner ld)) = 3 \<and> compact_cycle 3 ld cs block ld'"
proof -
  obtain st cs st1 where e: "plain_run st" "compacting {} st" "choose_segment (inner st) 3 = Some 0" "next_free_id (inner st) = 3"
    "put_locations (inner st) = [(1, [98], 0, 0, 0), (3, [97], 0, 0, 2), (6, [97], 1, 0, 2)]"
    "compact_stage 3 st = Some (Inr (Some cs), st1)" "next_lsn (wal (inner st)) = 9" using example_staged by blast
  obtain vals where "comp_inv vals {} (inner st)" using compacting_inv [OF e(2)] by (auto simp: compacting_inv_def)
  then have m: "maps_inv vals (inner st)" by (rule comp_inv_maps)
  obtain s1 where s1: "inner_compact_stage 3 (inner st) = Some (Inr (Some cs), s1)" "st1 = st\<lparr>inner := s1\<rparr>" using e(6) by (auto simp: compact_stage_def)
  have "length (keep_list (inner st) 3 0) \<le> 3" by (simp add: keep_list_def e(5))
  then have n: "unat (store_next_lsn st1) + 5 < 2 ^ 64"
    using stage_next_lsn [OF m _ _ e(3) s1(1)] e(5,7) by (auto simp: s1(2) store_next_lsn_def)
  obtain st2 where 2: "sync_wal IoOk st1 = (Inr (), st2)" using sync_IoOk [of "wal (inner st1)"] by (auto simp: sync_wal_def locked_def inner_sync_def)
  obtain st3 where 3: "commit IoOk (batch_end_of (cs_records cs)) st2 = (Inr (), st3)" using commit_mono by (metis surj_pair)
  obtain fo where "replicated st fo" using plain_replicated [OF e(1)] e(7) by (auto simp: store_next_lsn_def)
  moreover have "compact_cycle 3 st cs (store_next_lsn st3 - 1) (snd (compact_commit cs st3))"
    unfolding compact_cycle_def using e(6) 2 3 n by (intro exI [of _ st1] exI [of _ st2] exI [of _ st3]) (simp add: compact_commit_def)
  ultimately show ?thesis using e(4,5) by force
qed

section \<open>Property\<close>

text \<open>
  C7. Followers converge: let a leader and a follower start empty, and let the follower receive in order the
  frames that the leader sends for its puts, commits and compactions. Then the follower reads, for every key and every prefix, exactly what the leader
  reads when nothing is staged, and what the leader would publish otherwise. It accepts every further batch
  without an error, acknowledges exactly the last position of the batch, and then serves the new value. It follows every compaction that the leader carries
  out: it acknowledges the batch and its commit, has the leader's segments and no other file than the leader, and reads what it read before.\<close>

theorem follower_converges:
  assumes "replicated ld fo"
  shows "(\<not> pending (inner ld) \<longrightarrow> (\<forall>k. store_get fo k = store_get ld k) \<and> (\<forall>pre. capacity fo pre = capacity ld pre)) \<and>
    (\<forall>k. store_get fo k = store_get (publish ld) k) \<and>
    (\<forall>key v sp ld'. counters_ok (inner ld) (length v) \<longrightarrow> unat (store_next_lsn ld) + 5 < 2 ^ 64 \<longrightarrow> stage_put key v ld = (Inr sp, ld') \<longrightarrow>
       (\<exists>fo'. apply_frames (put_frames sp v) fo = ([SyncAck (batch_end_of (staged_records sp))], fo') \<and> store_get fo' key = Inr (Some v))) \<and>
    (\<forall>h cs block ld'. unat (next_free_id (inner ld)) + 1 < 2 ^ 64 \<longrightarrow> length (put_locations (inner ld)) \<le> 2 ^ 32 \<longrightarrow> compact_cycle h ld cs block ld' \<longrightarrow>
       (\<exists>fo'. apply_frames (compact_frames cs @ commit_frames block (batch_end_of (cs_records cs))) fo =
           ([SyncAck (batch_end_of (cs_records cs)), SyncAck block], fo') \<and>
         segments (inner fo') = segments (inner ld') \<and> (\<forall>n. lookup_file n (dir (inner fo')) = lookup_file n (dir (inner ld'))) \<and>
         (\<forall>k. store_get fo' k = store_get fo k)))"
proof (intro conjI allI impI)
  have ok: "replicas_ok ld fo" using replicated_ok [OF assms] .
  note pub = mirror_reads [OF replicas_okD(2,5) [OF ok]]
  show "store_get fo k = store_get (publish ld) k" for k by (rule pub(1))
  have "publish ld = ld" if "\<not> pending (inner ld)" using ok that by (simp add: replicas_ok_def publish_def)
  then show "store_get fo k = store_get ld k" "capacity fo pre = capacity ld pre" if "\<not> pending (inner ld)" for k pre
    using pub that by simp_all
  show "\<exists>fo'. apply_frames (put_frames sp v) fo = ([SyncAck (batch_end_of (staged_records sp))], fo') \<and> store_get fo' key = Inr (Some v)"
    if c: "counters_ok (inner ld) (length v)" and n: "unat (store_next_lsn ld) + 5 < 2 ^ 64" and run: "stage_put key v ld = (Inr sp, ld')" for key v sp ld'
  proof -
    obtain fo' where fo': "apply_frames (put_frames sp v) fo = ([SyncAck (batch_end_of (staged_records sp))], fo')" "replicas_ok ld' fo'"
      using replicate_put [OF ok c n run] by blast
    from staged_in_stage [OF replicas_okD(1) [OF ok] c, of key sp "inner ld'"] run have "staged_in key v (object_id sp) (inner ld')"
      by (auto simp: stage_put_def locked_def split: prod.splits)
    then have "store_get (publish ld') key = Inr (Some v)"
      by (auto simp: staged_in_def store_get_def publish_def Snap_from_def read_snap_def)
    then show ?thesis using fo'(1) mirror_reads(1) [OF replicas_okD(2,5) [OF fo'(2)]] by auto
  qed
  show "\<exists>fo'. apply_frames (compact_frames cs @ commit_frames block (batch_end_of (cs_records cs))) fo =
           ([SyncAck (batch_end_of (cs_records cs)), SyncAck block], fo') \<and>
         segments (inner fo') = segments (inner ld') \<and> (\<forall>n. lookup_file n (dir (inner fo')) = lookup_file n (dir (inner ld'))) \<and>
         (\<forall>k. store_get fo' k = store_get fo k)"
    if n: "unat (next_free_id (inner ld)) + 1 < 2 ^ 64" "length (put_locations (inner ld)) \<le> 2 ^ 32" and cyc: "compact_cycle h ld cs block ld'" for h cs block ld'
  proof -
    obtain fo' where fo': "apply_frames (compact_frames cs @ commit_frames block (batch_end_of (cs_records cs))) fo =
      ([SyncAck (batch_end_of (cs_records cs)), SyncAck block], fo')" "replicas_ok ld' fo'"
      using replicate_compact [OF ok n cyc] by blast
    have "store_get (publish ld') k = store_get (publish ld) k" for k by (rule cycle_reads [OF ok n cyc])
    then show ?thesis
      using fo' replicas_okD(2) [OF fo'(2)] mirror_reads(1) [OF replicas_okD(2,5) [OF fo'(2)]] pub(1) by (auto simp: mirror_at_def same_disk_def)
  qed
qed

theorem follower_converges_witness:
  "(\<exists>ld fo sp v fo'. replicated ld fo \<and> apply_frames (put_frames sp v) fo = ([SyncAck (batch_end_of (staged_records sp))], fo') \<and>
     store_get fo' [97, 47, 98] = Inr (Some v) \<and> v = [1, 2]) \<and>
   (\<exists>ld fo cs block ld' fo'. replicated ld fo \<and> compact_cycle 3 ld cs block ld' \<and>
     apply_frames (compact_frames cs @ commit_frames block (batch_end_of (cs_records cs))) fo = ([SyncAck (batch_end_of (cs_records cs)), SyncAck block], fo') \<and>
     segments (inner fo') = segments (inner ld') \<and> (\<forall>k. store_get fo' k = store_get fo k))"
proof -
  obtain ld sp ld' where e: "counters_ok (inner ld) (length [1, 2 :: u8])" "stage_put [97, 47, 98] [1, 2] ld = (Inr sp, ld')"
    "open_with_options empty_disk None 1000 = (Inr ld, dir (inner ld))" using example_put by blast
  have r: "replicated ld ld" by (rule rep_open [OF e(3) e(3)])
  have "store_next_lsn ld = 1" by (simp add: store_next_lsn_def open_empty_inner [OF e(3)] fresh_inner_def wal_open_None)
  then have "\<exists>fo'. apply_frames (put_frames sp [1, 2]) ld = ([SyncAck (batch_end_of (staged_records sp))], fo') \<and> store_get fo' [97, 47, 98] = Inr (Some [1, 2])"
    using follower_converges [OF r] e(1,2) by fastforce
  moreover obtain ld2 fo2 cs block ld3 where c: "replicated ld2 fo2" "next_free_id (inner ld2) = 3" "length (put_locations (inner ld2)) = 3" "compact_cycle 3 ld2 cs block ld3"
    using example_cycle by blast
  then have "\<exists>fo'. apply_frames (compact_frames cs @ commit_frames block (batch_end_of (cs_records cs))) fo2 = ([SyncAck (batch_end_of (cs_records cs)), SyncAck block], fo') \<and>
     segments (inner fo') = segments (inner ld3) \<and> (\<forall>k. store_get fo' k = store_get fo2 k)"
    using follower_converges [OF c(1)] by fastforce
  ultimately show ?thesis using r c(1,4) by blast
qed

end
