(* ===== verification/Reconnection.thy ===== *)
theory Reconnection
  imports Convergence
begin

text \<open>
  What a follower misses when its connection breaks. The writer thread takes a frame from the queue before it sends it, and after a reconnection the leader
  sends what is committed and what is still in the queue: a frame of a put that is not committed yet and was taken from
  the queue is sent to nobody again.
\<close>

lemma backfill_nothing: "ci < from \<Longrightarrow> backfill_appends st from ci es = Some []"
  by (induction es) (auto simp: not_less)

text \<open>A put that seals no segment consists of two records.\<close>

lemma two_records:
  assumes run: "stage_put key v st = (Inr sp, st')" and two: "length (staged_records sp) = 2" and n: "unat (store_next_lsn st) + 5 < 2 ^ 64"
  obtains l a ds where "staged_records sp = [(l, Put key (of_nat (length v)) l), (a, AggDelta ds)]" "l = store_next_lsn st" "unat a = unat l + 1"
    "record_size (AggDelta ds) \<le> 4072" "object_id sp = l" "record_size (Put key (of_nat (length v)) l) \<le> 4072"
proof -
  obtain s' where s': "inner_stage_put key v (inner st) = (Inr sp, s')" using run by (auto simp: stage_put_def locked_def split: prod.splits)
  obtain b rs0 s1 l rs1 s2 b2 rs2 where p: "seal_if b (inner st) = (Inr rs0, s1)" "stage_body key v s1 = (Inr (l, rs1), s2)"
    "seal_if b2 s2 = (Inr rs2, s')" "staged_records sp = rs0 @ rs1 @ rs2" "object_id sp = l" by (rule stage_put_parts [OF s'])
  obtain s3 s4 s5 s6 a ds where "inner_append (Put key (of_nat (length v)) l) s4 = (Inr l, s5)" "inner_append (AggDelta ds) s5 = (Inr a, s6)" and rs1: "rs1 = [(l, Put key (of_nat (length v)) l), (a, AggDelta ds)]"
    by (rule stage_body_parts [OF p(2)])
  then have size: "record_size (AggDelta ds) \<le> 4072" "record_size (Put key (of_nat (length v)) l) \<le> 4072" using inner_append_size by blast+
  have rs: "rs0 = []" "rs2 = []" using two by (simp_all add: p(4) rs1)
  then have s1: "s1 = inner st" using p(1) by (auto simp: op_bind_Inr op_basic split: if_splits)
  have "l = store_next_lsn st \<and> unat a = unat l + 1"
    using stage_body_next [OF p(2)] n by (auto simp: s1 store_next_lsn_def rs1)
  then show thesis using that p(4,5) rs rs1 size by simp
qed

text \<open>The follower takes the second record without the first.\<close>

lemma follower_skips:
  assumes ok: "replicas_ok ld fo" and size: "record_size (AggDelta ds) \<le> 4072" and a: "store_last_commit_block fo < a" "applied_upto (inner fo) < a"
  shows "\<exists>fo'. apply_frames [SyncBarrier ci, Append a (AggDelta ds) None, SyncBarrier a] fo = ([SyncAck (applied_upto (inner fo)), SyncAck a], fo') \<and>
    (\<forall>k. store_get fo' k = store_get fo k)"
proof -
  have m: "mirror (inner ld) (inner fo)" "snap fo = Snap_from (inner fo)" using ok by (simp_all add: replicas_ok_def)
  obtain f1 where f1: "apply_frame IoOk (SyncBarrier ci) fo = ((Some (SyncAck (applied_upto (inner fo))), True), f1)" "mirror (inner ld) (inner f1)"
    "last_commit_block (inner f1) = last_commit_block (inner fo)" "applied_upto (inner f1) = applied_upto (inner fo)"
    using barrier_mirror [OF m(1), of ci] by blast
  obtain w where w: "inner_append_at (AggDelta ds) a ((inner f1)\<lparr>applied_upto := a\<rparr>) = (Inr (), (inner f1)\<lparr>applied_upto := a, wal := w\<rparr>)"
    using append_at_fits [OF size, of a "(inner f1)\<lparr>applied_upto := a\<rparr>"] by auto
  let ?f2 = "f1\<lparr>inner := (inner f1)\<lparr>applied_upto := a, wal := w, pending := True\<rparr>\<rparr>"
  have "max (applied_upto (inner f1)) a = a" using a(2) f1(4) by (auto simp: max_def)
  then have f2: "apply_frame IoOk (Append a (AggDelta ds) None) f1 = ((None, True), ?f2)"
    using a(1) f1(3) w by (simp add: apply_frame_def apply_record_def locked_def inner_apply_record_def op_bind_def op_basic store_last_commit_block_def Let_def)
  have m2: "mirror (inner ld) (inner ?f2)" using f1(2) by simp
  obtain f3 where f3: "apply_frame IoOk (SyncBarrier a) ?f2 = ((Some (SyncAck a), True), f3)" "mirror (inner ld) (inner f3)" "snap f3 = Snap_from (inner f3)"
    using barrier_mirror [OF m2, of a] by auto
  have "store_get f3 k = store_get fo k" for k using mirror_reads(1) [OF f3(2,3)] mirror_reads(1) [OF m] by simp
  then show ?thesis using f1(1) f2 f3(1) by simp
qed

section \<open>Property\<close>

text \<open>
  C38. A lost frame is acknowledged: a follower that has every commit loses its connection when the frame of a new put has been taken
  from its queue. After the reconnection it receives the remaining frames of the batch, acknowledges the end of the
  batch, and so counts for the quorum of the put, but its store is as before: the value is not there.\<close>

theorem lost_frame_is_acknowledged:
  assumes "replicated (leader_store ld) fo" and "unat (store_next_lsn (leader_store ld)) + 5 < 2 ^ 64"
    and "commit_index ld = store_last_commit_block fo"
    and "i < length (followers ld)" and "fqueue (followers ld ! i) = []" and "link_id (followers ld ! i) \<notin> set (failed ld)"
    and "stage_put key v (leader_store ld) = (Inr sp, st)" and "length (staged_records sp) = 2" and "sync_wal io st = (Inr (), st1)"
  shows "\<exists>ld1 ld2 ld3 replies fo'. put_step io late (PutSend (staged_records sp) v) (ld\<lparr>leader_store := st1\<rparr>) = (PutAwait (staged_records sp), ld1) \<and>
    writer_pop i ld1 = (Some (Append (object_id sp) (Put key (of_nat (length v)) (object_id sp)) (Some v)), ld2) \<and>
    dial_connect i (store_last_commit_block fo + 1) (dial_disconnect i ld2) = ld3 \<and>
    apply_frames (fqueue (followers ld3 ! i)) fo = (replies, fo') \<and>
    match_index (followers (fold (dial_receive i) replies ld3) ! i) \<ge> batch_end_of (staged_records sp) \<and>
    (\<forall>k. store_get fo' k = store_get fo k)"
proof -
  have ok: "replicas_ok (leader_store ld) fo" using replicated_ok [OF assms(1)] .
  obtain l a ds where rs: "staged_records sp = [(l, Put key (of_nat (length v)) l), (a, AggDelta ds)]" and l: "l = store_next_lsn (leader_store ld)"
    "unat a = unat l + 1" and size: "record_size (AggDelta ds) \<le> 4072" and oid: "object_id sp = l" by (rule two_records [OF assms(7,8,2)])
  let ?ci = "store_last_commit_block fo"
  have ci: "?ci < l" "applied_upto (inner fo) < l" using ok l by (simp_all add: replicas_ok_def word_less_nat_alt store_last_commit_block_def)
  have la: "l < a" using l(2) by (simp add: word_less_nat_alt)
  have "unat ?ci + 1 < 2 ^ 64" using ci(1) unsigned_less [of l, where ?'a = nat] by (simp add: word_less_nat_alt)
  then have below: "?ci < ?ci + 1" by (simp add: word_less_nat_alt unat_add_small)
  let ?f = "followers ld ! i" and ?q = "[Append a (AggDelta ds) None, SyncBarrier a]"
  define ld1 where "ld1 = send_batch (staged_records sp) (Some v) a (ld\<lparr>leader_store := st1\<rparr>)"
  define ld2 where "ld2 = update_link i (\<lambda>f. f\<lparr>fqueue := ?q\<rparr>) ld1"
  define ld3 where "ld3 = dial_connect i (?ci + 1) (dial_disconnect i ld2)"
  have f1: "followers ld1 ! i = ?f\<lparr>fqueue := Append l (Put key (of_nat (length v)) l) (Some v) # ?q\<rparr>"
    using assms(4,5) by (simp add: ld1_def send_batch_def enqueue_def batch_frames_def rs is_put_def)
  have len: "length (followers ld1) = length (followers ld)" by (simp add: ld1_def send_batch_def)
  have send: "put_step io late (PutSend (staged_records sp) v) (ld\<lparr>leader_store := st1\<rparr>) = (PutAwait (staged_records sp), ld1)"
    by (simp add: ld1_def batch_end_of_def rs)
  have pop: "writer_pop i ld1 = (Some (Append l (Put key (of_nat (length v)) l) (Some v)), ld2)"
    using assms(4) by (simp add: writer_pop_def f1 len ld2_def)
  have f2: "followers ld2 ! i = ?f\<lparr>fqueue := ?q\<rparr>" "length (followers ld2) = length (followers ld)" "commit_index ld2 = ?ci" "failed ld2 = failed ld"
    using assms(3,4) f1 len by (simp_all add: ld2_def update_link_def) (simp_all add: ld1_def send_batch_def)
  have f3: "followers ld3 ! i = ?f\<lparr>alive := True, fqueue := SyncBarrier ?ci # ?q\<rparr>" "length (followers ld3) = length (followers ld)"
    using assms(4,6) f2 backfill_nothing [OF below] ci la
    by (simp_all add: ld3_def dial_connect_def dial_disconnect_def update_link_def handle_backfill_def backfill_read_def backfill_install_def
        above_commit_def)
  have q3: "fqueue (followers ld3 ! i) = [SyncBarrier ?ci, Append a (AggDelta ds) None, SyncBarrier a]" by (simp add: f3(1))
  obtain fo' where fo': "apply_frames (fqueue (followers ld3 ! i)) fo = ([SyncAck (applied_upto (inner fo)), SyncAck a], fo')"
    "\<forall>k. store_get fo' k = store_get fo k"
    using follower_skips [OF ok size less_trans [OF ci(1) la] less_trans [OF ci(2) la], of ?ci] unfolding q3 by blast
  have "match_index (followers (fold (dial_receive i) [SyncAck (applied_upto (inner fo)), SyncAck a] ld3) ! i) \<ge> a"
    using assms(4) f3 by (simp add: dial_receive_def update_link_def Let_def)
  then show ?thesis using send pop fo' rs oid ld3_def by (auto simp: batch_end_of_def)
qed

theorem lost_frame_is_acknowledged_witness:
  "\<exists>st fo sp i replies fo' ld3. apply_frames (fqueue (followers ld3 ! i)) fo = (replies, fo') \<and>
     match_index (followers (fold (dial_receive i) replies ld3) ! i) \<ge> batch_end_of (staged_records sp) \<and>
     (\<exists>st'. stage_put [97, 47, 98] [1, 2] st = (Inr sp, st')) \<and> replicated st fo \<and> store_get fo' [97, 47, 98] = Inr None"
proof -
  obtain st sp st' where e: "counters_ok (inner st) (length [1, 2 :: u8])" "stage_put [97, 47, 98] [1, 2] st = (Inr sp, st')"
    "open_with_options empty_disk None 1000 = (Inr st, dir (inner st))" using example_put by blast
  have s: "active_offset (inner st) = 0" "segment_max_bytes (inner st) = 1000" "store_next_lsn st = 1" "store_last_commit_block st = 0" "index (inner st) = []"
    by (simp_all add: store_next_lsn_def store_last_commit_block_def open_empty_inner [OF e(3)] fresh_inner_def wal_open_None)
  have i: "inner_inv (inner st)" using store_inv_open [OF e(3)] by (simp add: store_inv_def)
  obtain s' where s': "inner_stage_put [97, 47, 98] [1, 2] (inner st) = (Inr sp, s')" using e(2) by (auto simp: stage_put_def locked_def split: prod.splits)
  obtain l rs s2 es where b: "stage_body [97, 47, 98] [1, 2] (inner st) = (Inr (l, rs), s2)" "seal_if (segment_max_bytes s2 < 2) s2 = (Inr es, s')"
    "staged_records sp = rs @ es" using s' s(1) by (auto simp: inner_stage_put_def op_bind_Inr op_basic)
  have "segment_max_bytes s2 = 1000" using stage_body_ok [OF i _ _ b(1)] s(1,2) by simp
  then have "es = []" using b(2) by (simp add: op_basic)
  moreover have "length rs = 2" using stage_body_next [OF b(1)] s(3) by (auto simp: store_next_lsn_def)
  ultimately have two: "length (staged_records sp) = 2" using b(3) by simp
  obtain w where "sync IoOk (wal (inner st')) = (Inr (), w)" using sync_IoOk by blast
  then have st1: "sync_wal IoOk st' = (Inr (), st'\<lparr>inner := (inner st')\<lparr>wal := w\<rparr>\<rparr>)" by (simp add: sync_wal_def locked_def inner_sync_def)
  define ld where "ld = \<lparr>leader_store = st, commit_index = 0, followers = [new_link (1, [])], failed = [], quorum = 1\<rparr>"
  have r: "replicated (leader_store ld) st" using rep_open [OF e(3) e(3)] by (simp add: ld_def)
  have "store_get st [97, 47, 98] = Inr None" using open_empty_inner(2) [OF e(3)] s(5) by (simp add: store_get_def Snap_from_def)
  moreover have "\<exists>ld1 ld2 ld3 replies fo'. put_step IoOk False (PutSend (staged_records sp) [1, 2]) (ld\<lparr>leader_store := st'\<lparr>inner := (inner st')\<lparr>wal := w\<rparr>\<rparr>\<rparr>) =
      (PutAwait (staged_records sp), ld1) \<and>
    writer_pop 0 ld1 = (Some (Append (object_id sp) (Put [97, 47, 98] (of_nat (length [1, 2 :: u8])) (object_id sp)) (Some [1, 2])), ld2) \<and>
    dial_connect 0 (store_last_commit_block st + 1) (dial_disconnect 0 ld2) = ld3 \<and> apply_frames (fqueue (followers ld3 ! 0)) st = (replies, fo') \<and>
    match_index (followers (fold (dial_receive 0) replies ld3) ! 0) \<ge> batch_end_of (staged_records sp) \<and> (\<forall>k. store_get fo' k = store_get st k)"
    by (rule lost_frame_is_acknowledged [OF r, where st = st']) (use e(2) two st1 s in \<open>simp_all add: ld_def new_link_def\<close>)
  moreover have "replicated st st" by (rule rep_open [OF e(3) e(3)])
  ultimately show ?thesis using e(2) by (elim exE conjE) (intro exI conjI, assumption+, simp)
qed

end
