(* ===== verification/Overtaking.thy ===== *)
theory Overtaking
  imports Reconnection
begin

text \<open>
  Two puts at a time. A thread that has staged a put gives the store lock back before it queues the frames, so the frames of a later put can be queued, acknowledged and
  committed first; the follower then takes the frames of the earlier put for old ones.
\<close>

section \<open>The second put alone\<close>

text \<open>The follower takes the records of a put at whatever position, and writes the value at its own end of the active segment.\<close>

lemma follow_alone:
  assumes m: "mirror s f" and inv: "inner_inv s" and v: "length v < 2 ^ 32"
    and fits: "record_size (Put key (of_nat (length v)) l) \<le> 4072" "record_size (AggDelta ds) \<le> 4072"
  shows "\<exists>s' f'. follow (Some v) [(l, Put key (of_nat (length v)) l), (a, AggDelta ds)] f = (Inr (), f') \<and>
    followed s' f [(l, Put key (of_nat (length v)) l), (a, AggDelta ds)] f' \<and> store_get (publish (st\<lparr>inner := s'\<rparr>)) key = Inr (Some v) \<and>
    (\<forall>k. k \<noteq> key \<longrightarrow> store_get (publish (st\<lparr>inner := s'\<rparr>)) k = store_get (publish (st\<lparr>inner := s\<rparr>)) k)"
proof -
  obtain s1 s2 i d segs where o: "open_segment (active_id s) s = (Inr (), s1)" "s1 = s\<lparr>dir := d, segments := segs\<rparr>"
    and w: "write_value v s1 = (Inr (), s2)" "s2 = s1\<lparr>dir := write_file i (unat (active_offset s)) v d\<rparr>" "safe_step s s2"
    and seg: "map_of segs (active_id s) = Some i" "\<forall>x j. map_of (segments s) x = Some j \<longrightarrow> map_of segs x = Some j"
    and rd: "read_value (file_data (dir s2) i) (active_offset s) (of_nat (length v)) = Inr v"
    by (rule value_written [OF inv v])
  define s' where "s' = s2\<lparr>index := AList.update key (active_id s2, active_offset s2, of_nat (length v), l) (index s2),
        put_locations := AList.update l (key, active_id s2, active_offset s2, of_nat (length v)) (put_locations s2),
        rollup := rollup_record key (of_nat (length v)) (rollup s2), active_offset := active_offset s2 + of_nat (length v)\<rparr>"
  have fields: "dir s' = dir s2" "segments s' = segs" "index s' = AList.update key (active_id s, active_offset s, of_nat (length v), l) (index s)"
    by (simp_all add: s'_def w(2) o(2))
  have "store_get (publish (st\<lparr>inner := s'\<rparr>)) k = store_get (publish (st\<lparr>inner := s\<rparr>)) k" if k: "k \<noteq> key" for k
  proof (cases "map_of (index s) k")
    case (Some p)
    obtain sg off len ln where p: "p = (sg, off, len, ln)" by (metis prod_cases4)
    obtain j where j: "map_of (segments s) sg = Some j" "protected_region s j off len"
      using inv Some unfolding inner_inv_def index_ok_def p by blast
    then have "read_value (file_data (dir s2) j) off len = read_value (file_data (dir s) j) off len" using w(3) by (simp add: safe_step_def)
    then show ?thesis using j seg(2) Some k by (simp add: store_get_def publish_def Snap_from_def read_snap_def fields update_conv' p)
  qed (use k in \<open>simp add: store_get_def publish_def Snap_from_def fields update_conv'\<close>)
  moreover have "store_get (publish (st\<lparr>inner := s'\<rparr>)) key = Inr (Some v)"
    using rd seg(1) by (simp add: store_get_def publish_def Snap_from_def read_snap_def fields update_conv')
  moreover obtain f1 where f1: "follow (Some v) [(l, Put key (of_nat (length v)) l)] f = (Inr (), f1)" "followed s' f [(l, Put key (of_nat (length v)) l)] f1"
    using follow_put [OF m o(1) w(1) fits(1) v s'_def] by blast
  obtain f2 where f2: "follow (Some v) [(a, AggDelta ds)] f1 = (Inr (), f2)" "followed s' f1 [(a, AggDelta ds)] f2"
    using follow_agg [OF followed_mirror [OF f1(2)] fits(2)] by blast
  have "follow (Some v) [(l, Put key (of_nat (length v)) l), (a, AggDelta ds)] f = (Inr (), f2)"
    using follow_append [of "Some v" "[(l, Put key (of_nat (length v)) l)]" "[(a, AggDelta ds)]" f] f1(1) f2(1) by (simp add: op_bind_def)
  ultimately show ?thesis using followed_append [OF f1(2) f2(2)] by auto
qed

text \<open>Frames up to the last commit are skipped.\<close>

lemma skip_old: "\<forall>(l, r) \<in> set rs. l \<le> last_commit_block (inner st) \<Longrightarrow>
    apply_frames (map (\<lambda>(l, r). Append l r (if is_put r then v else None)) rs @ rest) st = apply_frames rest st"
  by (induction rs) (auto simp: apply_frame_def store_last_commit_block_def split: prod.split)

lemma acks_antimono:
  assumes "length (followers ld) + 1 < 2 ^ 64" "l \<le> l'"
  shows "acks ld l' \<le> acks ld l"
proof -
  have "length (filter (\<lambda>f. match_index f \<ge> l') fs) \<le> length (filter (\<lambda>f. match_index f \<ge> l) fs)" for fs
    using assms(2) by (induction fs) auto
  then show ?thesis using acks_count [OF assms(1)] by (simp add: word_le_nat_alt ack_count_def)
qed

lemma overtaken_frames:
  assumes ok: "replicas_ok ld fo" and rb: "rb = [(l, Put key (of_nat (length v)) l), (a, AggDelta ds)]" and v: "length v < 2 ^ 32"
    and fits: "record_size (Put key (of_nat (length v)) l) \<le> 4072" "record_size (AggDelta ds) \<le> 4072"
    and l: "unat (store_next_lsn ld) \<le> unat l" "unat a = unat l + 1" "unat b = unat l + 2" and old: "\<forall>(l, r) \<in> set ra. l \<le> b"
  shows "\<exists>fo'. apply_frames (batch_frames rb (Some v) (batch_end_of rb) @ commit_frames b c @ batch_frames ra va e) fo = ([SyncAck (batch_end_of rb), SyncAck b, SyncAck b], fo') \<and>
    store_get fo' key = Inr (Some v) \<and> (\<forall>k. k \<noteq> key \<longrightarrow> store_get fo' k = store_get fo k)"
proof -
  note r = replicas_okD [OF ok]
  obtain s' x where x: "follow (Some v) rb (inner fo) = (Inr (), x)" "followed s' (inner fo) rb x"
    and get: "store_get (publish (ld\<lparr>inner := s'\<rparr>)) key = Inr (Some v)"
      "\<And>k. k \<noteq> key \<Longrightarrow> store_get (publish (ld\<lparr>inner := s'\<rparr>)) k = store_get (publish (ld\<lparr>inner := inner ld\<rparr>)) k"
    unfolding rb using follow_alone [OF r(2,1) v fits, of a ld] by blast
  have fx: "mirror s' x" "last_commit_block x = last_commit_block (inner fo)" "applied_upto x = fold (\<lambda>(l, r) a. max a l) rb (applied_upto (inner fo))"
    using x(2) by (simp_all add: followed_def)
  have lsns: "map (unat \<circ> fst) rb = [unat l..<unat l + 2]" "unat l < unat l + 2" "list_all (\<lambda>(l, r). \<not> is_commit r) rb"
    using l(2) by (simp_all add: rb is_commit_def upt_rec)
  have below: "unat (last_commit_block (inner fo)) < unat l" "unat (applied_upto (inner fo)) < unat l" using r(3,4) l(1) by (simp_all add: store_next_lsn_def)
  obtain fo1 where fo1: "\<forall>rest. apply_frames (batch_frames rb (Some v) (batch_end_of rb) @ rest) fo = (case apply_frames rest fo1 of (out, st) \<Rightarrow> (SyncAck (batch_end_of rb) # out, st))"
    "mirror s' (inner fo1)" "last_commit_block (inner fo1) = last_commit_block (inner fo)" "unat (applied_upto (inner fo1)) = unat l + 1"
    using apply_batch [OF x(1) finalize_mirror [OF fx(1)] fx(1,3) refl fx(2) lsns below] by auto
  have "last_commit_block (inner fo1) < b" "applied_upto (inner fo1) < b" using fo1(3,4) below l(3) by (simp_all add: word_less_nat_alt)
  then obtain fo2 where fo2: "\<forall>rest. apply_frames (commit_frames b c @ rest) fo1 = (case apply_frames rest fo2 of (out, st) \<Rightarrow> (SyncAck b # out, st))"
    "mirror s' (inner fo2)" "last_commit_block (inner fo2) = b" "applied_upto (inner fo2) = b"
    using apply_commit [OF fo1(2), of b c] by auto
  obtain fo3 where fo3: "apply_frame IoOk (SyncBarrier e) fo2 = ((Some (SyncAck b), True), fo3)" "mirror s' (inner fo3)" "snap fo3 = Snap_from (inner fo3)"
    using barrier_mirror [OF fo2(2), of e] fo2(4) by auto
  have "apply_frames (batch_frames ra va e) fo2 = ([SyncAck b], fo3)" using skip_old [of ra fo2] old fo2(3) fo3(1) by (simp add: batch_frames_def)
  then have "apply_frames (batch_frames rb (Some v) (batch_end_of rb) @ commit_frames b c @ batch_frames ra va e) fo = ([SyncAck (batch_end_of rb), SyncAck b, SyncAck b], fo3)"
    using fo1(1) fo2(1) by simp
  moreover have "store_get fo3 k = store_get (publish (ld\<lparr>inner := s'\<rparr>)) k" for k using mirror_reads(1) [of "ld\<lparr>inner := s'\<rparr>" fo3] fo3(2,3) by simp
  moreover have "store_get fo k = store_get (publish (ld\<lparr>inner := inner ld\<rparr>)) k" for k using mirror_reads(1) [OF r(2,5)] by simp
  ultimately show ?thesis using get by auto
qed

text \<open>The order in which the threads queue their frames is the order in the queue of each follower.\<close>

lemma queued_in_order:
  assumes "i < length (followers x)" "fqueue (followers x ! i) = []"
  shows "fqueue (followers (snd (put_step io late (PutSend ra va) (snd (put_step io late (PutAnnounce rb b) (snd (put_step io late (PutSend rb vb) x)))))) ! i) =
    batch_frames rb (Some vb) (batch_end_of rb) @ commit_frames b (batch_end_of rb) @ batch_frames ra (Some va) (batch_end_of ra)"
  using assms by (simp add: send_batch_def enqueue_def)

text \<open>The leader: positions, and what it reads after the commit of the second put.\<close>

lemma staged_two:
  assumes run: "stage_put key v st = (Inr sp, st')" and c: "counters_ok (inner st) (length v)" and two: "length (staged_records sp) = 2"
    and n: "unat (store_next_lsn st) + 5 < 2 ^ 64"
  shows "unat (store_next_lsn st') = unat (store_next_lsn st) + 2"
proof -
  obtain s' where s': "inner_stage_put key v (inner st) = (Inr sp, s')" "st' = st\<lparr>inner := s'\<rparr>" using run by (auto simp: stage_put_def locked_def split: prod.splits)
  have l: "map (unat \<circ> fst) (staged_records sp) = [unat (next_lsn (wal (inner st)))..<unat (next_lsn (wal s'))]"
    using stage_lsns [OF s'(1) _ c] n by (simp add: store_next_lsn_def)
  have "unat (next_lsn (wal s')) - unat (next_lsn (wal (inner st))) = 2" using arg_cong [OF l, of length] two by simp
  then show ?thesis by (simp add: store_next_lsn_def s'(2))
qed

lemma committed_pair:
  assumes inv: "inner_inv (inner ld)" and c: "counters_ok (inner ld) (length va)" "counters_ok (inner ld1) (length vb)"
    and run: "stage_put ka va ld = (Inr pa, ld1)" "stage_put kb vb ld1 = (Inr pb, ld2)" "commit IoOk (store_next_lsn ld2 - 1) ld2 = (r, ld3)"
    and ne: "ka \<noteq> kb" and n: "unat (store_next_lsn ld2) + 1 < 2 ^ 64"
  shows "store_get ld3 ka = Inr (Some va)" "store_get ld3 kb = Inr (Some vb)" "store_next_lsn ld3 - 1 = store_next_lsn ld2"
proof -
  obtain s1 where s1: "inner_stage_put ka va (inner ld) = (Inr pa, s1)" "ld1 = ld\<lparr>inner := s1\<rparr>" using run(1) by (auto simp: stage_put_def locked_def split: prod.splits)
  obtain s2 where s2: "inner_stage_put kb vb s1 = (Inr pb, s2)" "ld2 = ld1\<lparr>inner := s2\<rparr>" using run(2) s1(2) by (auto simp: stage_put_def locked_def split: prod.splits)
  have i1: "inner_inv (inner ld1)" using stage_put_ok [OF inv c(1) s1(1)] by (simp add: s1(2))
  have p: "pending (inner ld2)" using stage_put_ok [OF i1 c(2), of kb] s2 s1(2) by fastforce
  have "staged_in ka va (object_id pa) (inner ld1)" using staged_in_stage [OF inv c(1) s1(1)] by (simp add: s1(2))
  then have "store_get (publish ld1) ka = Inr (Some va)" by (auto simp: staged_in_def store_get_def publish_def Snap_from_def read_snap_def)
  then show "store_get ld3 ka = Inr (Some va)" "store_get ld3 kb = Inr (Some vb)"
    using flush_reads_back [OF i1 c(2) run(2)] p run(3) ne by (auto simp: flush_def store_next_lsn_def)
  obtain s3 where s3: "inner_commit IoOk (store_next_lsn ld2 - 1) (inner ld2) = (Inr (), s3)" using commit_IoOk by blast
  then have "inner ld3 = s3" using run(3) p by (auto simp: commit_def op_bind_def locked_def op_basic publish_def)
  then show "store_next_lsn ld3 - 1 = store_next_lsn ld2" using commit_next [OF s3] n by (simp add: store_next_lsn_def)
qed

section \<open>Property\<close>

text \<open>
  C39. An overtaken put is acknowledged and skipped: a leader stages two puts, and the thread of the second one queues its frames, gets its acknowledgements,
  commits and announces the commit before the thread of the first one queues its own frames. Every follower that counts for the second put counts for the first
  one already. A follower with everything before takes the second put, and then skips the frames of the first one without an error and acknowledges
  again: it does not have the value that the leader has.\<close>

theorem overtaken_put_is_skipped:
  assumes "replicated ld fo" and "unat (store_next_lsn ld) + 12 < 2 ^ 64" and "counters_ok (inner ld) (length va)" and "counters_ok (inner ld1) (length vb)"
    and "stage_put ka va ld = (Inr pa, ld1)" and "length (staged_records pa) = 2" and "stage_put kb vb ld1 = (Inr pb, ld2)" and "length (staged_records pb) = 2"
    and "ka \<noteq> kb" and "commit IoOk (batch_end_of (staged_records pb)) ld2 = (Inr (), ld3)"
    and "i < length (followers x)" and "length (followers x) + 1 < 2 ^ 64" and "fqueue (followers x ! i) = []"
  shows "\<exists>fo'. apply_frames (fqueue (followers (snd (put_step io late (PutSend (staged_records pa) va) (snd (put_step io late
          (PutAnnounce (staged_records pb) (store_next_lsn ld3 - 1)) (snd (put_step io late (PutSend (staged_records pb) vb) x)))))) ! i)) fo =
        ([SyncAck (batch_end_of (staged_records pb)), SyncAck (store_next_lsn ld3 - 1), SyncAck (store_next_lsn ld3 - 1)], fo') \<and>
      acks x (batch_end_of (staged_records pb)) \<le> acks x (batch_end_of (staged_records pa)) \<and>
      store_get ld3 ka = Inr (Some va) \<and> store_get ld3 kb = Inr (Some vb) \<and>
      store_get fo' kb = Inr (Some vb) \<and> (\<forall>k. k \<noteq> kb \<longrightarrow> store_get fo' k = store_get fo k)"
proof -
  have ok: "replicas_ok ld fo" using replicated_ok [OF assms(1)] .
  note inv = replicas_okD(1) [OF ok]
  have n: "unat (store_next_lsn ld) + 5 < 2 ^ 64" using assms(2) by simp
  obtain la aa da where ra: "staged_records pa = [(la, Put ka (of_nat (length va)) la), (aa, AggDelta da)]" "la = store_next_lsn ld" "unat aa = unat la + 1"
    by (rule two_records [OF assms(5,6) n])
  have nx: "unat (store_next_lsn ld1) = unat la + 2" using staged_two [OF assms(5,3,6) n] ra(2) by simp
  have n1: "unat (store_next_lsn ld1) + 5 < 2 ^ 64" using nx assms(2) ra(2) by simp
  obtain lb ab db where rb: "staged_records pb = [(lb, Put kb (of_nat (length vb)) lb), (ab, AggDelta db)]" "lb = store_next_lsn ld1" "unat ab = unat lb + 1"
    and fits: "record_size (AggDelta db) \<le> 4072" "record_size (Put kb (of_nat (length vb)) lb) \<le> 4072" by (rule two_records [OF assms(7,8) n1])
  have nx2: "unat (store_next_lsn ld2) = unat lb + 2" using staged_two [OF assms(7,4,8) n1] rb(2) by simp
  have "unat (store_next_lsn ld2) + 1 < 2 ^ 64" "store_next_lsn ld2 - 1 = ab"
    using nx2 nx ra(2) rb(2,3) assms(2) by (simp_all add: word_unat_eq_iff unat_sub word_le_nat_alt)
  moreover from this(2) have "commit IoOk (store_next_lsn ld2 - 1) ld2 = (Inr (), ld3)" using assms(10) by (simp add: rb(1) batch_end_of_def)
  ultimately have leader: "store_get ld3 ka = Inr (Some va)" "store_get ld3 kb = Inr (Some vb)" "store_next_lsn ld3 - 1 = store_next_lsn ld2"
    using committed_pair [OF inv assms(3,4,5,7) _ assms(9)] by blast+
  have v: "length vb < 2 ^ 32" using assms(4) by (simp add: counters_ok_def)
  have "unat (store_next_lsn ld) \<le> unat lb" "\<forall>(l, r) \<in> set (staged_records pa). l \<le> store_next_lsn ld2"
    using nx nx2 ra rb(2) by (simp_all add: word_le_nat_alt)
  from overtaken_frames [OF ok rb(1) v fits(2,1) this(1) rb(3) nx2 this(2)] obtain fo' where
    "apply_frames (put_frames pb vb @ commit_frames (store_next_lsn ld2) (batch_end_of (staged_records pb)) @ put_frames pa va) fo =
      ([SyncAck (batch_end_of (staged_records pb)), SyncAck (store_next_lsn ld2), SyncAck (store_next_lsn ld2)], fo')"
    "store_get fo' kb = Inr (Some vb)" "\<forall>k. k \<noteq> kb \<longrightarrow> store_get fo' k = store_get fo k" by blast
  moreover have "batch_end_of (staged_records pa) \<le> batch_end_of (staged_records pb)"
    using ra rb nx by (simp add: batch_end_of_def word_le_nat_alt)
  ultimately show ?thesis unfolding queued_in_order [OF assms(11,13)] leader(3) using leader(1,2) acks_antimono [OF assms(12)] by blast
qed

theorem overtaken_put_is_skipped_witness:
  "\<exists>ld fo ld3 x fo' (pa :: StagedPut) (pb :: StagedPut). replicated ld fo \<and> length (followers x) = 1 \<and>
     apply_frames (fqueue (followers (snd (put_step IoOk False (PutSend (staged_records pa) [1]) (snd (put_step IoOk False
          (PutAnnounce (staged_records pb) (store_next_lsn ld3 - 1)) (snd (put_step IoOk False (PutSend (staged_records pb) [2]) x)))))) ! 0)) fo =
       ([SyncAck (batch_end_of (staged_records pb)), SyncAck (store_next_lsn ld3 - 1), SyncAck (store_next_lsn ld3 - 1)], fo') \<and>
     store_get ld3 [97] = Inr (Some [1]) \<and> store_get fo' [97] = Inr None \<and> store_get fo' [98] = Inr (Some [2])"
proof -
  obtain st where op: "open_with_options empty_disk None 1000 = (Inr st, dir (inner st))" using open_empty by blast
  have s: "active_offset (inner st) = 0" "segment_max_bytes (inner st) = 1000" "next_free_id (inner st) = 1" "next_lsn (wal (inner st)) = 1" "index (inner st) = []"
    by (simp_all add: open_empty_inner [OF op] fresh_inner_def wal_open_None)
  have i: "inner_inv (inner st)" using store_inv_open [OF op] by (simp add: store_inv_def)
  have a: "plain_put [97] [1] (inner st)" "counters_ok (inner st) (length [1 :: u8])" using small_put [of "[97]" "inner st" 1] s by simp_all
  obtain pa s1 where 1: "inner_stage_put [97] [1] (inner st) = (Inr pa, s1)" "length (staged_records pa) = 2"
    "next_lsn (wal s1) = 3" "active_offset s1 = 1" "segment_max_bytes s1 = 1000" "next_free_id s1 = 1"
    using plain_put_runs [OF i a(1)] s by auto
  have i1: "inner_inv s1" using stage_put_ok [OF i a(2) 1(1)] by simp
  have b: "plain_put [98] [2] s1" "counters_ok s1 (length [2 :: u8])" using small_put [of "[98]" s1 2] 1(3-6) by simp_all
  obtain pb s2 where 2: "inner_stage_put [98] [2] s1 = (Inr pb, s2)" "length (staged_records pb) = 2" using plain_put_runs [OF i1 b(1)] by auto
  let ?ld1 = "st\<lparr>inner := s1\<rparr>" and ?ld2 = "st\<lparr>inner := s2\<rparr>"
  have run: "stage_put [97] [1] st = (Inr pa, ?ld1)" "stage_put [98] [2] ?ld1 = (Inr pb, ?ld2)" using 1(1) 2(1) by (simp_all add: stage_put_def locked_def)
  obtain ld3 where c: "commit IoOk (batch_end_of (staged_records pb)) ?ld2 = (Inr (), ld3)" using commit_mono by (metis surj_pair)
  define x where "x = \<lparr>leader_store = st, commit_index = 0, followers = [new_link (1, [])], failed = [], quorum = 2\<rparr>"
  have r: "replicated st st" by (rule rep_open [OF op op])
  have none: "store_get st [97] = Inr None" using open_empty_inner(2) [OF op] s(5) by (simp add: store_get_def Snap_from_def)
  have h: "unat (store_next_lsn st) + 12 < 2 ^ 64" "counters_ok (inner ?ld1) (length [2 :: u8])" "[97 :: u8] \<noteq> [98]" "0 < length (followers x)"
    "length (followers x) + 1 < 2 ^ 64" "fqueue (followers x ! 0) = []"
    using b(2) s(4) by (simp_all add: x_def new_link_def store_next_lsn_def)
  from overtaken_put_is_skipped [OF r h(1) a(2) h(2) run(1) 1(2) run(2) 2(2) h(3) c h(4-6), of IoOk False]
  obtain fo' where fo': "apply_frames (fqueue (followers (snd (put_step IoOk False (PutSend (staged_records pa) [1]) (snd (put_step IoOk False
          (PutAnnounce (staged_records pb) (store_next_lsn ld3 - 1)) (snd (put_step IoOk False (PutSend (staged_records pb) [2]) x)))))) ! 0)) st =
       ([SyncAck (batch_end_of (staged_records pb)), SyncAck (store_next_lsn ld3 - 1), SyncAck (store_next_lsn ld3 - 1)], fo')"
    "store_get ld3 [97] = Inr (Some [1])" "store_get fo' [98] = Inr (Some [2])" "\<forall>k. k \<noteq> [98] \<longrightarrow> store_get fo' k = store_get st k" by blast
  have "store_get fo' [97] = Inr None" "length (followers x) = 1" using fo'(4) none by (simp_all add: x_def)
  then show ?thesis
    using r fo'(1-3) by blast
qed

end
