(* ===== verification/Backlog.thy ===== *)
theory Backlog
  imports Convergence
begin

text \<open>
  What a follower knows when its log is a part of the leader's log. Positions and locations of all puts are functions of the log; applying the next
  record, a barrier, and a restart after the process was killed keep a follower in step with its log.
\<close>

section \<open>Positions\<close>

definition puts_of :: "entry list \<Rightarrow> (Lsn \<times> put_loc) list" where
  "puts_of lg = snd (fold (\<lambda>e (l, ps). (lay_step e l, case snd e of
     Put key len stripe \<Rightarrow> AList.update (fst e) (key, l_act l, l_off l, len) ps | _ \<Rightarrow> ps)) lg (layout0, []))"

definition log_end :: "entry list \<Rightarrow> Lsn" where
  "log_end lg = fold (\<lambda>e a. max a (fst e)) lg 0"

definition commit_end :: "entry list \<Rightarrow> Lsn" where
  "commit_end lg = fold (\<lambda>e a. if is_commit (snd e) then max a (fst e) else a) lg 0"

text \<open>The records of a log are numbered from 1.\<close>

definition numbered :: "entry list \<Rightarrow> bool" where
  "numbered lg \<longleftrightarrow> map (unat \<circ> fst) lg = [1..<Suc (length lg)]"

lemma puts_of_Nil [simp]: "puts_of [] = []"
  by (simp add: puts_of_def)

lemma puts_of_snoc [simp]:
  "puts_of (lg @ [e]) = (case snd e of
     Put key len stripe \<Rightarrow> AList.update (fst e) (key, l_act (layout_of lg), l_off (layout_of lg), len) (puts_of lg) | _ \<Rightarrow> puts_of lg)"
proof -
  have "fst (fold (\<lambda>e (l, ps). (lay_step e l, case snd e of
     Put key len stripe \<Rightarrow> AList.update (fst e) (key, l_act l, l_off l, len) ps | _ \<Rightarrow> ps)) lg (l, ps)) = fold lay_step lg l" for l ps
    by (induction lg arbitrary: l ps) simp_all
  then show ?thesis by (auto simp: puts_of_def layout_of_def case_prod_beta split: Record.split)
qed

lemma ends_simps [simp]: "log_end [] = 0" "log_end (lg @ [e]) = max (log_end lg) (fst e)"
  "commit_end [] = 0" "commit_end (lg @ [e]) = (if is_commit (snd e) then max (commit_end lg) (fst e) else commit_end lg)"
  by (simp_all add: log_end_def commit_end_def)

lemma numbered_Nil [simp]: "numbered []"
  by (simp add: numbered_def)

lemma numbered_snoc: "numbered (lg @ [e]) \<longleftrightarrow> numbered lg \<and> unat (fst e) = Suc (length lg)"
  by (auto simp: numbered_def)

lemma numbered_prefix: "numbered (xs @ ys) \<Longrightarrow> numbered xs"
  by (induction ys rule: rev_induct) (simp_all add: numbered_snoc flip: append_assoc)

lemma numbered_bounds: "numbered lg \<Longrightarrow> l \<in> fst ` set lg \<Longrightarrow> 1 \<le> unat l \<and> unat l \<le> length lg"
  using lsns_sorted(2) [of lg 1 "Suc (length lg)" l] by (simp add: numbered_def)

lemma numbered_suffix:
  assumes "numbered (xs @ ys)" "l \<in> fst ` set ys"
  shows "length xs < unat l \<and> unat l \<le> length (xs @ ys)"
proof -
  have "map (unat \<circ> fst) ys = [Suc (length xs)..<Suc (length (xs @ ys))]"
    using arg_cong [OF assms(1) [unfolded numbered_def], of "drop (length xs)"] by (simp add: drop_map del: upt_Suc)
  from lsns_sorted(2) [OF this assms(2)] show ?thesis by simp
qed

lemma numbered_new: "numbered (lg @ [e]) \<Longrightarrow> x \<in> fst ` set lg \<Longrightarrow> x < fst e"
  using numbered_bounds [of lg x] by (simp add: numbered_snoc word_less_nat_alt)

lemma log_end_numbered: "numbered lg \<Longrightarrow> unat (log_end lg) = length lg"
proof (induction lg rule: rev_induct)
  case (snoc e lg)
  then have "log_end lg \<le> fst e" by (simp add: numbered_snoc word_le_nat_alt)
  then show ?case using snoc by (simp add: numbered_snoc max_def)
qed simp

lemma commit_end_numbered: "numbered lg \<Longrightarrow> unat (commit_end lg) = length (committed_prefix lg)"
proof (induction lg rule: rev_induct)
  case (snoc e lg)
  have "length (committed_prefix lg) \<le> length lg" using committed_prefix_split [of lg] by (metis length_append le_add1)
  then have "commit_end lg \<le> fst e" using snoc by (simp add: numbered_snoc word_le_nat_alt)
  then show ?case using snoc by (auto simp: numbered_snoc max_def committed_prefix_snoc)
qed simp

text \<open>Where the puts of a log are.\<close>

lemma puts_of_dom: "map_of (puts_of lg) l = Some p \<Longrightarrow> l \<in> fst ` set lg"
  by (induction lg arbitrary: l p rule: rev_induct) (auto simp: update_conv' split: Record.splits if_splits)

lemma puts_of_append:
  assumes "numbered (xs @ ys)" "map_of (puts_of xs) l = Some p"
  shows "map_of (puts_of (xs @ ys)) l = Some p"
  using assms
proof (induction ys rule: rev_induct)
  case (snoc y ys)
  then have n: "numbered ((xs @ ys) @ [y])" and p: "map_of (puts_of (xs @ ys)) l = Some p" using numbered_prefix by (simp_all flip: append_assoc)
  have "l \<noteq> fst y" using numbered_new [OF n puts_of_dom [OF p]] by auto
  then have "map_of (puts_of ((xs @ ys) @ [y])) l = Some p" unfolding puts_of_snoc using p by (auto simp: update_conv' split: Record.split)
  then show ?case by simp
qed simp

lemma puts_of_put:
  assumes "numbered lg" "(l, Put k len st) \<in> set lg"
  shows "\<exists>seg off. map_of (puts_of lg) l = Some (k, seg, off, len)"
proof -
  obtain xs ys where lg: "lg = (xs @ [(l, Put k len st)]) @ ys" using split_list [OF assms(2)] by auto
  have "map_of (puts_of (xs @ [(l, Put k len st)])) l = Some (k, l_act (layout_of xs), l_off (layout_of xs), len)" by (simp add: update_conv')
  from puts_of_append [OF _ this, of ys] show ?thesis using assms(1) lg by auto
qed

lemma index_puts: "numbered lg \<Longrightarrow> map_of (l_index (layout_of lg)) k = Some (seg, off, len, l) \<Longrightarrow> map_of (puts_of lg) l = Some (k, seg, off, len)"
proof (induction lg arbitrary: k seg off len l rule: rev_induct)
  case (snoc e lg)
  have n: "numbered lg" using snoc.prems(1) by (simp add: numbered_snoc)
  have old: "map_of (puts_of lg) l = Some (k, seg, off, len) \<and> l \<noteq> fst e" if "map_of (l_index (layout_of lg)) k = Some (seg, off, len, l)"
    using snoc.IH [OF n that] numbered_new [OF snoc.prems(1) puts_of_dom] by fastforce
  then show ?case using snoc.prems(2) by (cases "snd e") (auto simp: lay_step_def update_conv' split: if_splits)
qed (simp add: layout0_def)

lemma puts_in_layout:
  "good_log lg \<Longrightarrow> map_of (puts_of lg) l = Some (k, seg, off, len) \<Longrightarrow> \<exists>t. map_of (l_len (layout_of lg)) seg = Some t \<and> unat off + unat len \<le> unat t"
proof (induction arbitrary: l k seg off len rule: good_log.induct)
  case (good_snoc lg e)
  have le: "lens_le (layout_of lg) (layout_of (lg @ [e]))" using lay_step_ok [OF layout_ok_good [OF good_snoc.hyps(1)] good_snoc.hyps(2)] by simp
  have old: ?case if "map_of (puts_of lg) l = Some (k, seg, off, len)"
    using good_snoc.IH [OF that] le unfolding lens_le_def by (meson order_trans)
  show ?case
  proof (cases "snd e")
    case (Put key n st)
    have "unat (l_off (layout_of lg) + ucast n) = unat (l_off (layout_of lg)) + unat n"
      using good_snoc.hyps(2) by (simp add: Put good_entry_def unat_add_small)
    then show ?thesis using old good_snoc.prems by (auto simp: Put update_conv' lay_step_def split: if_splits)
  qed (use old good_snoc.prems in auto)
qed simp

lemma puts_segment: "good_log lg \<Longrightarrow> map_of (puts_of lg) l = Some (k, seg, off, len) \<Longrightarrow> seg \<in> used_ids (layout_of lg)"
  using puts_in_layout by (fastforce simp: used_ids_def)

section \<open>The state of a log\<close>

definition backs :: "put_values \<Rightarrow> entry list \<Rightarrow> Inner \<Rightarrow> bool" where
  "backs vals lg s \<longleftrightarrow> put_locations s = puts_of lg \<and> (\<forall>l p. map_of (puts_of lg) l = Some p \<longrightarrow> located vals s p l)"

lemma backsD: "backs vals lg s \<Longrightarrow> map_of (puts_of lg) l = Some p \<Longrightarrow> located vals s p l"
  unfolding backs_def by blast

text \<open>Of the log \<open>flog @ blog\<close> of a follower the first part is in the file and synced, the rest is still in the buffer.\<close>

definition synced_log :: "Wal \<Rightarrow> entry list \<Rightarrow> entry list \<Rightarrow> bool" where
  "synced_log w flog blog \<longleftrightarrow> wal_inv w \<and> wal_holds w flog blog \<and> durable_log w = committed_prefix flog"

definition follower_log :: "put_values \<Rightarrow> entry list \<Rightarrow> entry list \<Rightarrow> Inner \<Rightarrow> bool" where
  "follower_log vals flog blog s \<longleftrightarrow> writer_inv (flog @ blog) s \<and> synced_log (wal s) flog blog \<and>
    lens_ok {} (layout_of (committed_prefix flog)) s \<and> backs vals (flog @ blog) s \<and> pending_swap s = None \<and> retired_segments s = [] \<and>
    applied_upto s = log_end (flog @ blog) \<and> last_commit_block s = commit_end (flog @ blog)"

lemma synced_log_append:
  assumes "synced_log w flog blog" "entry_ok (l, rec)"
  shows "\<exists>w'. append_at rec l w = Inr w' \<and> synced_log w' flog (blog @ [(l, rec)])"
proof -
  have r: "record_utf8 rec" "record_size rec \<le> 4072" using assms(2) by (simp_all add: entry_ok_def)
  obtain w' where w': "append_at rec l w = Inr w'" using r(2) by (simp add: append_at_eq)
  have i: "wal_inv w" "wal_holds w flog blog" using assms(1) by (simp_all add: synced_log_def)
  have "wal_inv w'" using wal_step_inv [OF i(1) step_append [OF w' r(1)]] by blast
  then show ?thesis using append_at_holds [OF i(2) w' r(1)] w' assms(1) by (simp add: synced_log_def durable_log_def)
qed

lemma synced_log_sync:
  assumes "synced_log w flog blog" "sync IoOk w = (Inr (), w')"
  shows "synced_log w' (flog @ blog) []"
proof -
  have i: "wal_inv w" "wal_holds w flog blog" "durable_log w = committed_prefix flog" using assms(1) by (simp_all add: synced_log_def)
  then have "wal_has w (flog @ blog)" by (auto simp: wal_has_def)
  note s = wal_has_sync [OF this assms(2)]
  have "dirty w \<or> blog = []" using i(2) by (auto simp: wal_holds_def)
  then have "durable_log w' = committed_prefix (flog @ blog)" using s(2) i(3) by auto
  then show ?thesis using s(1) sync_holds(1) [OF i(2) assms(2)] by (simp add: synced_log_def wal_has_def)
qed

lemma synced_log_lost:
  assumes "synced_log w flog blog"
  shows "wal_has (w\<lparr>wal_buf := [], dirty := False\<rparr>) flog"
proof -
  have i: "wal_inv w" "wal_holds w flog blog" "durable_log w = committed_prefix flog" using assms by (simp_all add: synced_log_def)
  obtain slog tail where s: "fsynced (wal_file w) = log_bytes slog @ tail" "list_all entry_ok slog" "scan_blocks tail = []"
    using i(1) unfolding wal_inv_def by blast
  have "prefix (committed_prefix slog) flog" using durable_log_eq [OF s] i(3) committed_prefix_split [of flog] by (metis prefixI)
  moreover have h: "wal_holds (w\<lparr>wal_buf := [], dirty := False\<rparr>) flog []" using i(2) by (simp add: wal_holds_def)
  ultimately have "wal_inv (w\<lparr>wal_buf := [], dirty := False\<rparr>)" unfolding wal_inv_def using s
    by (intro exI [of _ flog] exI [of _ "[]"] exI [of _ slog] exI [of _ tail]) simp
  then show ?thesis using h by (auto simp: wal_has_def)
qed

lemma wal_holds_has: "synced_log w flog blog \<Longrightarrow> wal_has w (flog @ blog)"
  by (auto simp: synced_log_def wal_has_def)

text \<open>Only the values of the log's own positions matter.\<close>

lemma backs_vals:
  assumes "backs vals lg s" "\<And>l. l \<in> fst ` set lg \<Longrightarrow> vals' l = vals l"
  shows "backs vals' lg s"
proof -
  have "located vals' s p l" if "map_of (puts_of lg) l = Some p" "located vals s p l" for l p
    using located_safe [OF that(2) safe_step_refl, where vals' = vals'] assms(2) [OF puts_of_dom [OF that(1)]] by simp
  then show ?thesis using assms(1) by (simp add: backs_def)
qed

lemma follower_log_vals: "follower_log vals flog blog s \<Longrightarrow> (\<And>l. l \<in> fst ` set (flog @ blog) \<Longrightarrow> vals' l = vals l) \<Longrightarrow> follower_log vals' flog blog s"
  using backs_vals [of vals "flog @ blog" s vals'] by (simp add: follower_log_def)

section \<open>Applying the next record\<close>

text \<open>The locations of a put that is recorded, and of a seal.\<close>

lemma backs_put:
  assumes b: "backs vals lg s" and f: "follows (layout_of lg) s" and safe: "safe_step s s'"
    and segs: "\<And>x j. map_of (segments s) x = Some j \<Longrightarrow> map_of (segments s') x = Some j"
    and p: "put_locations s' = AList.update l (key, active_id s, active_offset s, len) (put_locations s)"
    and new: "map_of (segments s') (active_id s) = Some i" "protected_region s' i (active_offset s) len"
      "read_value (file_data (dir s') i) (active_offset s) len = Inr v"
    and vals: "vals l = (key, v)"
  shows "backs vals (lg @ [(l, Put key len st)]) s'"
proof -
  have "located vals s' (key, active_id s, active_offset s, len) l" using new vals by (simp add: located_def holds_put_def)
  moreover have "located vals s' q x" if "map_of (puts_of lg) x = Some q" for x q
    using located_safe [OF backsD [OF b that] safe segs, where vals' = vals] by simp
  ultimately show ?thesis using b p f by (auto simp: backs_def follows_def update_conv' split: if_splits)
qed

lemma backs_seal:
  assumes b: "backs vals lg s" and inv: "inner_inv s" and g: "good_log lg" "active_id s' \<notin> used_ids (layout_of lg)"
    and s': "dir s' = dir s" "segments s' = segments s" "put_locations s' = put_locations s"
  shows "backs vals (lg @ [(l, SegmentSeal x y)]) s'"
proof -
  have "located vals s' p l" if p: "map_of (puts_of lg) l = Some p" for l p
  proof -
    obtain k seg off len where q: "p = (k, seg, off, len)" by (metis prod_cases4)
    obtain i where i: "map_of (segments s) seg = Some i" "protected_region s i off len" "read_value (file_data (dir s) i) off len = Inr (snd (vals l))"
      "fst (vals l) = k" using backsD [OF b p] by (auto simp: located_def holds_put_def q)
    have "seg \<noteq> active_id s'" using puts_segment [OF g(1), of l k seg] p g(2) q by auto
    then show ?thesis using protected_elsewhere [OF inv i(1,2), of s'] i s' by (simp add: q located_def holds_put_def)
  qed
  then show ?thesis using b s' by (simp add: backs_def)
qed

text \<open>A record that follows in the leader's log, with the value that the leader sends.\<close>

abbreviation sent_value :: "put_values \<Rightarrow> Lsn \<Rightarrow> Record \<Rightarrow> bytes option" where
  "sent_value vals l rec \<equiv> (if is_put rec then Some (snd (vals l)) else None)"

definition next_record :: "put_values \<Rightarrow> entry list \<Rightarrow> entry \<Rightarrow> bool" where
  "next_record vals lg e \<longleftrightarrow> numbered (lg @ [e]) \<and> entry_ok e \<and> good_entry (layout_of lg) (snd e) \<and>
    (case snd e of Put k len st \<Rightarrow> fst (vals (fst e)) = k \<and> length (snd (vals (fst e))) = unat len
     | SegmentSeal a b \<Rightarrow> unat b + 1 \<le> 10 ^ 8 | _ \<Rightarrow> True)"

lemma follower_log_snoc:
  "follower_log vals flog (blog @ [e]) s \<longleftrightarrow> writer_inv ((flog @ blog) @ [e]) s \<and> synced_log (wal s) flog (blog @ [e]) \<and>
    lens_ok {} (layout_of (committed_prefix flog)) s \<and> backs vals ((flog @ blog) @ [e]) s \<and> pending_swap s = None \<and> retired_segments s = [] \<and>
    applied_upto s = max (log_end (flog @ blog)) (fst e) \<and>
    last_commit_block s = (if is_commit (snd e) then max (commit_end (flog @ blog)) (fst e) else commit_end (flog @ blog))"
  unfolding follower_log_def append_assoc [symmetric] ends_simps by simp

lemma apply_next_put:
  assumes f: "follower_log vals flog blog s" and e: "next_record vals (flog @ blog) (l, Put k len st)"
  shows "\<exists>s'. inner_apply_record l (Put k len st) (Some (snd (vals l))) s = (Inr (), s') \<and> follower_log vals flog (blog @ [(l, Put k len st)]) s'"
proof -
  define v where "v = snd (vals l)"
  let ?lg = "flog @ blog" and ?e = "(l, Put k len st)" and ?s = "s\<lparr>applied_upto := max (applied_upto s) l\<rparr>"
  have w: "writer_inv ?lg s" and sy: "synced_log (wal s) flog blog" and b: "backs vals ?lg s" using f by (simp_all add: follower_log_def)
  have inv: "inner_inv ?s" and fo: "follows (layout_of ?lg) ?s" and W: "writer_inv ?lg ?s"
    using w inner_inv_same [of s ?s] by (simp_all add: writer_inv_def follows_def lens_ok_def)
  have ve: "vals l = (k, v)" "length v = unat len" "unat (l_off (layout_of ?lg)) + unat len < 2 ^ 64" "entry_ok ?e"
    using e by (auto simp: next_record_def v_def good_entry_def prod_eq_iff)
  have len: "len = of_nat (length v)" by (simp add: ve(2))
  have v: "length v < 2 ^ 32" "unat (active_offset ?s) + length v < 2 ^ 64"
    using ve(2,3) unsigned_less [of len, where ?'a = nat] fo by (simp_all add: follows_def)
  obtain i d segs where o: "open_segment (active_id ?s) ?s = (Inr (), ?s\<lparr>dir := d, segments := segs\<rparr>)" "opened ?s [active_id ?s] d segs"
      "map_of segs (active_id ?s) = Some i"
    and wr: "write_value v (?s\<lparr>dir := d, segments := segs\<rparr>) = (Inr (), ?s\<lparr>dir := write_file i (unat (active_offset ?s)) v d, segments := segs\<rparr>)"
    using active_opened [OF inv, of v] by blast
  obtain x where x: "append_at (Put k len st) l (wal s) = Inr x" "synced_log x flog (blog @ [?e])" using synced_log_append [OF sy ve(4)] by blast
  define s' where "s' = ?s\<lparr>dir := write_file i (unat (active_offset s)) v d, segments := segs, wal := x,
    index := AList.update k (active_id s, active_offset s, len, l) (index s),
    put_locations := AList.update l (k, active_id s, active_offset s, len) (put_locations s),
    rollup := rollup_record k (of_nat (length v)) (rollup s), active_offset := active_offset s + of_nat (length v),
    dirty_segments := List.insert (active_id s) (dirty_segments s), pending := True\<rparr>"
  have run: "inner_apply_record l (Put k len st) (Some v) s = (Inr (), s')"
    using o(1) wr x(1) ve(2) by (simp add: inner_apply_record_def op_bind_def op_basic inner_append_at_def s'_def)
  have st: "staged_state k v l ?s d segs i x s'" by (simp add: staged_state_def s'_def len)
  have rec: "inner_inv s' \<and> safe_step ?s s' \<and> (\<forall>y j. map_of (segments ?s) y = Some j \<longrightarrow> map_of (segments s') y = Some j) \<and>
    (\<exists>i. map_of (segments s') (active_id ?s) = Some i \<and> protected_region s' i (active_offset ?s) (of_nat (length v)) \<and>
       read_value (file_data (dir s') i) (active_offset ?s) (of_nat (length v)) = Inr v)"
    by (rule value_recorded [OF inv v o(1) wr, where key = k and l = l]) (simp_all add: s'_def len)
  have cp: "prefix (committed_prefix flog) ?lg" using committed_prefix_split [of flog] by (metis prefixI append_assoc)
  have "lens_ok {} (layout_of (committed_prefix flog)) ?s" using f by (simp add: follower_log_def lens_ok_def)
  from staged_writer [OF W v o st _ cp this, of st] rec have wi: "writer_inv (?lg @ [?e]) s' \<and> lens_ok {} (layout_of (committed_prefix flog)) s'"
    by (simp add: len)
  have b': "backs vals ?lg ?s" using b by (simp add: backs_def located_def holds_put_def protected_region_def)
  obtain j where j: "map_of (segments s') (active_id ?s) = Some j" "protected_region s' j (active_offset ?s) len"
    "read_value (file_data (dir s') j) (active_offset ?s) len = Inr v" using rec by (auto simp: len)
  have "backs vals (?lg @ [?e]) s'" by (rule backs_put [OF b' fo _ _ _ j ve(1)]) (use rec in \<open>auto simp: s'_def\<close>)
  moreover have "pending_swap s' = None \<and> retired_segments s' = [] \<and> applied_upto s' = max (log_end ?lg) l \<and> last_commit_block s' = commit_end ?lg \<and> wal s' = x"
    using f by (simp add: follower_log_def s'_def)
  ultimately have "follower_log vals flog (blog @ [?e]) s'" unfolding follower_log_snoc using wi x(2) by (simp add: is_commit_def)
  then show ?thesis using run by (auto simp: v_def)
qed

lemma apply_next_seal:
  assumes f: "follower_log vals flog blog s" and e: "next_record vals (flog @ blog) (l, SegmentSeal a b)"
  shows "\<exists>s'. inner_apply_record l (SegmentSeal a b) None s = (Inr (), s') \<and> follower_log vals flog (blog @ [(l, SegmentSeal a b)]) s'"
proof -
  let ?lg = "flog @ blog" and ?e = "(l, SegmentSeal a b)"
  have w: "writer_inv ?lg s" and sy: "synced_log (wal s) flog blog" and bk: "backs vals ?lg s" using f by (simp_all add: follower_log_def)
  have g: "good_entry (layout_of ?lg) (SegmentSeal a b)" "unat b + 1 \<le> 10 ^ 8" "entry_ok ?e" using e by (simp_all add: next_record_def)
  have a: "a = active_id s" and b: "b \<notin> used_ids (layout_of ?lg)" using g(1) w by (simp_all add: good_entry_def writer_inv_def follows_def)
  have n: "unat (next_free_id s) \<le> 10 ^ 8" "unat (b + 1) = unat b + 1" using w g(2) by (simp_all add: writer_inv_def unat_add_small)
  obtain x where x: "append_at (SegmentSeal a b) l (wal s) = Inr x" "synced_log x flog (blog @ [?e])" using synced_log_append [OF sy g(3)] by blast
  define s' where "s' = s\<lparr>applied_upto := max (applied_upto s) l, wal := x, sealed := sealed s @ [active_id s], active_id := b, active_offset := 0,
    next_free_id := max (next_free_id s) (b + 1), pending := True\<rparr>"
  have run: "inner_apply_record l (SegmentSeal a b) None s = (Inr (), s')"
    using x(1) a by (simp add: inner_apply_record_def op_bind_def op_basic inner_append_at_def s'_def)
  have "writer_inv (?lg @ [?e]) s'"
    by (rule sealed_writer [OF w g(1)]) (use n g(2) in \<open>auto simp: s'_def max_def word_less_nat_alt word_le_nat_alt\<close>)
  moreover have "backs vals (?lg @ [?e]) s'"
    by (rule backs_seal [OF bk]) (use w b in \<open>simp_all add: s'_def writer_inv_def\<close>)
  moreover have "lens_ok {} (layout_of (committed_prefix flog)) s'" using f by (simp add: follower_log_def lens_ok_def s'_def)
  ultimately have "follower_log vals flog (blog @ [?e]) s'"
    unfolding follower_log_snoc using x(2) f by (simp add: is_commit_def follower_log_def s'_def)
  then show ?thesis using run by blast
qed

text \<open>Aggregates and commits only reach the log and the counters.\<close>

lemma apply_next_idle:
  assumes f: "follower_log vals flog blog s" and e: "next_record vals (flog @ blog) (l, rec)" and rec: "rec = AggDelta ds \<or> rec = Commit c"
  shows "\<exists>s'. inner_apply_record l rec None s = (Inr (), s') \<and> follower_log vals flog (blog @ [(l, rec)]) s'"
proof -
  let ?lg = "flog @ blog" and ?e = "(l, rec)"
  have w: "writer_inv ?lg s" and sy: "synced_log (wal s) flog blog" and bk: "backs vals ?lg s" using f by (simp_all add: follower_log_def)
  obtain x where x: "append_at rec l (wal s) = Inr x" "synced_log x flog (blog @ [?e])"
    using synced_log_append [OF sy] e by (auto simp: next_record_def)
  define s' where "s' = (let s1 = s\<lparr>applied_upto := max (applied_upto s) l, wal := x, pending := True\<rparr> in
    if is_commit rec then s1\<lparr>committed_lsn := max (committed_lsn s) c, last_commit_block := max (last_commit_block s) l\<rparr> else s1)"
  have run: "inner_apply_record l rec None s = (Inr (), s')"
    using x(1) rec by (auto simp: inner_apply_record_def op_bind_def op_basic inner_append_at_def s'_def is_commit_def)
  have s': "dir s' = dir s" "segments s' = segments s" "index s' = index s" "rollup s' = rollup s" "active_id s' = active_id s" "active_offset s' = active_offset s"
    "next_free_id s' = next_free_id s" "put_locations s' = put_locations s" "dirty_segments s' = dirty_segments s" "wal s' = x"
    "pending_swap s' = pending_swap s" "retired_segments s' = retired_segments s" "applied_upto s' = max (applied_upto s) l"
    "last_commit_block s' = (if is_commit rec then max (last_commit_block s) l else last_commit_block s)" by (simp_all add: s'_def Let_def)
  have "inner_inv s'" using w inner_inv_same [of s s'] s' by (simp add: writer_inv_def)
  then have "writer_inv ?lg s'" using w by (simp add: writer_inv_def follows_def lens_ok_def s')
  then have "writer_inv (?lg @ [?e]) s'"
    using rec by (subst writer_inv_idle) (auto simp: lay_step_def [of ?e] good_entry_def)
  moreover have "backs vals (?lg @ [?e]) s'"
    using bk rec s' unfolding backs_def puts_of_snoc by (auto simp: located_def holds_put_def protected_region_def)
  moreover have "lens_ok {} (layout_of (committed_prefix flog)) s'" using f by (simp add: follower_log_def lens_ok_def s')
  ultimately have "follower_log vals flog (blog @ [?e]) s'"
    unfolding follower_log_snoc using x(2) f by (simp add: follower_log_def s')
  then show ?thesis using run by blast
qed

lemma apply_next:
  assumes f: "follower_log vals flog blog s" and e: "next_record vals (flog @ blog) (l, rec)"
  shows "\<exists>s'. inner_apply_record l rec (sent_value vals l rec) s = (Inr (), s') \<and> follower_log vals flog (blog @ [(l, rec)]) s'"
proof (cases rec)
  case (Put k len st)
  then show ?thesis using apply_next_put [OF f] e by (simp add: is_put_def)
next
  case (SegmentSeal a b)
  then show ?thesis using apply_next_seal [OF f] e by (simp add: is_put_def)
next
  case (AggDelta ds)
  then show ?thesis using apply_next_idle [OF f e] by (simp add: is_put_def)
next
  case (Commit c)
  then show ?thesis using apply_next_idle [OF f e] by (simp add: is_put_def)
qed (use e in \<open>simp_all add: next_record_def good_entry_def\<close>)

section \<open>Frames\<close>

lemma lens_ok_prefix:
  assumes "good_log (xs @ ys)" "lens_ok U (layout_of (xs @ ys)) s"
  shows "lens_ok U (layout_of xs) s"
  unfolding lens_ok_def
proof (intro allI impI)
  fix sid t assume t: "map_of (l_len (layout_of xs)) sid = Some t" "t \<noteq> 0"
  obtain t' where t': "map_of (l_len (layout_of (xs @ ys))) sid = Some t'" "unat t \<le> unat t'" using lens_le_append [OF assms(1)] t(1) unfolding lens_le_def by blast
  then have "t' \<noteq> 0" using t(2) by (auto simp: unat_eq_0)
  then obtain i where i: "map_of (segments s) sid = Some i" "unat t' \<le> length (file_data (dir s) i)" "sid \<in> U \<or> synced_to (dir s) i (unat t')"
    using assms(2) t'(1) unfolding lens_ok_def by blast
  have "take m xs = take m ys \<Longrightarrow> n \<le> m \<Longrightarrow> take n xs = take n ys" for m n and xs ys :: bytes by (metis min.absorb1 take_take)
  then have "synced_to (dir s) i (unat t)" if "synced_to (dir s) i (unat t')" using that t'(2) unfolding synced_to_def by (meson order_trans)
  then show "\<exists>i. map_of (segments s) sid = Some i \<and> unat t \<le> length (file_data (dir s) i) \<and> (sid \<in> U \<or> synced_to (dir s) i (unat t))"
    using i t'(2) by auto
qed

lemma backs_same:
  "backs vals lg s \<Longrightarrow> put_locations s' = put_locations s \<Longrightarrow> segments s' = segments s \<Longrightarrow> active_id s' = active_id s \<Longrightarrow> active_offset s' = active_offset s \<Longrightarrow>
    (\<And>n. lookup_file n (dir s') = lookup_file n (dir s)) \<Longrightarrow> length (inodes (dir s')) = length (inodes (dir s)) \<Longrightarrow>
    (\<And>i. file_data (dir s') i = file_data (dir s) i) \<Longrightarrow> backs vals lg s'"
  by (simp add: backs_def located_def holds_put_def protected_region_def)

text \<open>Syncing the dirty segments makes the bytes of the whole log durable.\<close>

lemma fsync_log:
  assumes f: "follower_log vals flog blog s"
  shows "writer_inv (flog @ blog) (fsync_dirty_segments s) \<and> lens_ok {} (layout_of (flog @ blog)) (fsync_dirty_segments s) \<and>
    backs vals (flog @ blog) (fsync_dirty_segments s)"
proof -
  let ?s = "fsync_dirty_segments s"
  have w: "writer_inv (flog @ blog) s" and b: "backs vals (flog @ blog) s" using f by (simp_all add: follower_log_def)
  have l: "lens_ok {} (layout_of (flog @ blog)) ?s" using fsync_lens [of "set (dirty_segments s)" _ s] w by (simp add: writer_inv_def)
  have ok: "inner_inv ?s" using same_files_ok [of s ?s] w fsync_dirty_ok by (simp add: writer_inv_def fsync_dirty_eq)
  have "writer_inv (flog @ blog) ?s"
    using w ok lens_ok_mono [OF l] by (simp add: writer_inv_def fsync_dirty_eq sync_segs_simps follows_def ids_below_def)
  moreover have "backs vals (flog @ blog) ?s"
    by (rule backs_same [OF b]) (simp_all add: fsync_dirty_ok, simp_all add: fsync_dirty_eq)
  ultimately show ?thesis using l by blast
qed

lemma barrier_log:
  assumes f: "follower_log vals flog blog (inner fo)"
  shows "\<exists>fo'. apply_frame IoOk (SyncBarrier e) fo = ((Some (SyncAck (log_end (flog @ blog))), True), fo') \<and>
    follower_log vals (flog @ blog) [] (inner fo') \<and> snap fo' = Snap_from (inner fo')"
proof -
  let ?s = "inner fo" and ?f = "fsync_dirty_segments (inner fo)"
  have sw: "pending_swap ?s = None" "retired_segments ?s = []" "applied_upto ?s = log_end (flog @ blog)" "last_commit_block ?s = commit_end (flog @ blog)"
    "synced_log (wal ?s) flog blog" using f by (simp_all add: follower_log_def)
  obtain w where w: "sync IoOk (wal ?s) = (Inr (), w)" using sync_IoOk by blast
  let ?g = "?s\<lparr>wal := w, dir := dir ?f, retired_segments := [], dirty_segments := []\<rparr>"
  have "sync_all IoOk fo = (Inr (), publish (fo\<lparr>inner := ?g\<rparr>))"
    using sw(1,2) w by (simp add: sync_all_def op_bind_def locked_def op_basic inner_sync_def finalize_pending_swap_def remove_committed_retired_segments_def
        fsync_dirty_segments_def)
  then have run: "apply_frame IoOk (SyncBarrier e) fo = ((Some (SyncAck (log_end (flog @ blog))), True), publish (fo\<lparr>inner := ?g\<rparr>))"
    using sw(3) by (simp add: apply_frame_def store_applied_upto_def publish_def fsync_dirty_eq)
  note fs = fsync_log [OF f]
  have "inner_inv ?g" using fs inner_inv_same [of ?f ?g] by (simp add: writer_inv_def fsync_dirty_eq)
  then have "writer_inv (flog @ blog) ?g" using fs by (simp add: writer_inv_def follows_def lens_ok_def fsync_dirty_eq)
  moreover have "lens_ok {} (layout_of (committed_prefix (flog @ blog))) ?g"
  proof -
    obtain r where r: "flog @ blog = committed_prefix (flog @ blog) @ r" using committed_prefix_split by metis
    have "lens_ok {} (layout_of (committed_prefix (flog @ blog) @ r)) ?g" "good_log (committed_prefix (flog @ blog) @ r)"
      using fs r by (simp_all add: lens_ok_def writer_inv_def fsync_dirty_eq)
    then show ?thesis using lens_ok_prefix by blast
  qed
  moreover have "backs vals (flog @ blog) ?g" using fs backs_same [of vals _ ?f ?g] by (simp add: fsync_dirty_eq)
  ultimately have "follower_log vals (flog @ blog) [] ?g"
    using synced_log_sync [OF sw(5) w] sw by (simp add: follower_log_def)
  then show ?thesis using run by (simp add: publish_def Snap_from_def)
qed

lemma append_log:
  assumes f: "follower_log vals flog blog (inner fo)" and e: "next_record vals (flog @ blog) (l, rec)"
  shows "\<exists>fo'. apply_frame IoOk (Append l rec (sent_value vals l rec)) fo = ((None, True), fo') \<and> follower_log vals flog (blog @ [(l, rec)]) (inner fo')"
proof -
  have n: "numbered (flog @ blog)" "unat l = Suc (length (flog @ blog))" using e by (simp_all add: next_record_def numbered_snoc flip: append_assoc)
  have "length (committed_prefix (flog @ blog)) \<le> length (flog @ blog)" using committed_prefix_split [of "flog @ blog"] by (metis length_append le_add1)
  then have "last_commit_block (inner fo) < l" using f n commit_end_numbered [OF n(1)] by (simp add: follower_log_def word_less_nat_alt)
  then show ?thesis
    using apply_next [OF f e] by (auto simp: apply_frame_def store_last_commit_block_def apply_record_def locked_def)
qed

section \<open>Restarts\<close>

text \<open>
  The process is killed between two frames, when the buffer of the log is lost, or in a barrier, when the segments are synced and any part of
  the buffer may have reached the file.
\<close>

definition killed :: "Inner \<Rightarrow> disk \<Rightarrow> bytes \<Rightarrow> bool" where
  "killed s d bs \<longleftrightarrow> crash_disk (dir s) d \<and> crash_outcome (wal_file (wal s)) [] bs \<or>
    crash_disk (dir (fsync_dirty_segments s)) d \<and> crash_outcome (wal_file (wal s)) (wal_buf (wal s)) bs"

text \<open>What recovery makes of the counters and locations.\<close>

lemma replay_step:
  "put_locations (rs_inner (replay_record e r)) = (case snd e of Put key len st \<Rightarrow>
     AList.update (fst e) (key, active_id (rs_inner r), active_offset (rs_inner r), len) (put_locations (rs_inner r)) | _ \<Rightarrow> put_locations (rs_inner r)) \<and>
   applied_upto (rs_inner (replay_record e r)) = max (applied_upto (rs_inner r)) (fst e) \<and>
   last_commit_block (rs_inner (replay_record e r)) =
     (if is_commit (snd e) then max (last_commit_block (rs_inner r)) (fst e) else last_commit_block (rs_inner r)) \<and>
   pending_swap (rs_inner (replay_record e r)) = pending_swap (rs_inner r) \<and> retired_segments (rs_inner (replay_record e r)) = retired_segments (rs_inner r) \<and>
   wal (rs_inner (replay_record e r)) = wal (rs_inner r)"
  by (cases e; cases "snd e") (simp_all add: replay_record_def Let_def is_commit_def)

lemma replay_fields:
  fixes d m w lg
  defines "r \<equiv> fold replay_record lg \<lparr>rs_inner = fresh_inner d m w, rs_committed = [], rs_swap_pairs = [], rs_remaps = []\<rparr>"
  shows "put_locations (rs_inner r) = puts_of lg \<and> applied_upto (rs_inner r) = log_end lg \<and> last_commit_block (rs_inner r) = commit_end lg \<and>
    pending_swap (rs_inner r) = None \<and> retired_segments (rs_inner r) = [] \<and> wal (rs_inner r) = w"
  unfolding r_def
proof (induction lg rule: rev_induct)
  case (snoc e lg)
  then show ?case using replay_layout(3,4) [of lg d m w] by (simp add: replay_step split: Record.split)
qed (simp add: fresh_inner_def)

lemma open_segment_fields:
  "open_segment sid s = (r, s') \<Longrightarrow> put_locations s' = put_locations s \<and> applied_upto s' = applied_upto s \<and> last_commit_block s' = last_commit_block s \<and>
    pending_swap s' = pending_swap s \<and> retired_segments s' = retired_segments s \<and> wal s' = wal s"
  by (auto simp: open_segment_def split: if_splits prod.splits)

lemma open_segments_fields:
  "op_for open_segment ids s = (r, s') \<Longrightarrow> put_locations s' = put_locations s \<and> applied_upto s' = applied_upto s \<and> last_commit_block s' = last_commit_block s \<and>
    pending_swap s' = pending_swap s \<and> retired_segments s' = retired_segments s \<and> wal s' = wal s"
proof (induction ids arbitrary: s)
  case (Cons i ids)
  obtain x s1 where 1: "open_segment i s = (x, s1)" by force
  show ?case
  proof (cases x)
    case (Inl e)
    then show ?thesis using Cons.prems 1 open_segment_fields [OF 1] by (simp add: op_bind_def)
  next
    case (Inr u)
    then have "op_for open_segment ids s1 = (r, s')" using Cons.prems 1 by (simp add: op_bind_def)
    from Cons.IH [OF this] show ?thesis using open_segment_fields [OF 1] by simp
  qed
qed (simp add: op_basic)

lemma recover_fields:
  assumes good: "good_log c" and run: "recover c (fresh_inner d m w) = (Inr (), s')"
  shows "put_locations s' = puts_of c \<and> applied_upto s' = log_end c \<and> last_commit_block s' = commit_end c \<and>
    pending_swap s' = None \<and> retired_segments s' = [] \<and> wal s' = w"
proof -
  define r where "r = fold replay_record c \<lparr>rs_inner = fresh_inner d m w, rs_committed = [], rs_swap_pairs = [], rs_remaps = []\<rparr>"
  have "rs_swap_pairs r = []" using good_no_swaps [OF good] by (simp add: r_def)
  then obtain committed where "fit_files committed [] (rs_inner r) = (Inr (), s')"
    using run unfolding recover_eq Let_def r_def [symmetric] by (auto split: if_splits)
  then have "\<exists>ids d n. op_for open_segment ids ((rs_inner r)\<lparr>dir := d, next_free_id := n\<rparr>) = (Inr (), s')"
    by (auto simp: fit_files_def Let_def split: option.splits prod.splits sum.splits)
  then show ?thesis using replay_fields [of c d m w, folded r_def] open_segments_fields by fastforce
qed

lemma open_recover:
  assumes "open_with_options d (Some f) m = (Inr st, d')"
  shows "recover (committed_prefix (scan (Some (fdata f)))) (fresh_inner d m (wal_open (Some f))) = (Inr (), inner st)"
  using assms by (auto simp: open_with_options_def replay_eq Let_def split: prod.splits sum.splits)

lemma backs_recovered:
  assumes b: "backs vals lg s0" and lg: "prefix c lg" "numbered lg" and st: "stable c s0" and crash: "crash_disk (dir s0) d"
    and r: "recovered (layout_of c) d s" and p: "put_locations s = puts_of c"
  shows "backs vals c s"
proof -
  have g: "good_log c" "lens_ok {} (layout_of c) s0" "inner_inv s0" using st by (simp_all add: stable_def)
  have "located vals s q l" if q: "map_of (puts_of c) l = Some q" for l q
  proof -
    obtain k seg off len where qe: "q = (k, seg, off, len)" by (metis prod_cases4)
    obtain ys where "lg = c @ ys" using lg(1) by (auto elim: prefixE)
    then have "map_of (puts_of lg) l = Some q" using puts_of_append [OF _ q] lg(2) by simp
    then obtain j where j: "map_of (segments s0) seg = Some j" "read_value (file_data (dir s0) j) off len = Inr (snd (vals l))" "fst (vals l) = k"
      using backsD [OF b] by (fastforce simp: qe located_def holds_put_def)
    obtain t where t: "map_of (l_len (layout_of c)) seg = Some t" "unat off + unat len \<le> unat t" using puts_in_layout [OF g(1)] q qe by blast
    obtain i where i: "map_of (segments s) seg = Some i" "protected_region s i off len" using recovered_region [OF r layout_ok_good [OF g(1)] t] by blast
    show ?thesis using recovered_value [OF g(2,3) crash r t i(1) j(1)] i j by (simp add: qe located_def holds_put_def)
  qed
  then show ?thesis using p by (simp add: backs_def)
qed

lemma reopened_log:
  assumes f: "backs vals lg s0" and lg: "prefix c lg" "numbered lg" and st: "stable c s0" and crash: "crash_disk (dir s0) d"
    and bs: "bs = log_bytes rl @ tail" "list_all entry_ok rl" "scan_blocks tail = []" "committed_prefix rl = c"
  shows "\<exists>s. open_with_options d (Some \<lparr>fdata = bs, fsynced = bs\<rparr>) m = (Inr \<lparr>inner = s, snap = Snap_from s\<rparr>, dir s) \<and> follower_log vals c [] s"
proof -
  let ?f = "\<lparr>fdata = bs, fsynced = bs\<rparr>"
  have g: "good_log c" using st by (simp add: stable_def)
  obtain s where op: "open_with_options d (Some ?f) m = (Inr \<lparr>inner = s, snap = Snap_from s\<rparr>, dir s)"
    and r: "recovered (layout_of c) d s" and l: "leader_inv c \<lparr>inner = s, snap = Snap_from s\<rparr>" using open_after_crash [OF st crash bs] by blast
  have "scan (Some (fdata ?f)) = rl" using bs scan_log [OF bs(2)] by (simp add: scan_def)
  then have "recover c (fresh_inner d m (wal_open (Some ?f))) = (Inr (), s)" using open_recover [OF op] bs(4) by simp
  note fl = recover_fields [OF g this]
  have "wal_holds (wal s) c []" using open_holds(1) [of ?f rl tail] bs fl by simp
  moreover have "committed_prefix c = c" using bs(4) by auto
  moreover have "wal_inv (wal s)" "writer_inv c s" "durable_log (wal s) = committed_prefix c" "lens_ok {} (layout_of (committed_prefix c)) s"
    using l by (simp_all add: leader_inv_def wal_has_def)
  moreover have "backs vals c s" using backs_recovered [OF f lg st crash r] fl by blast
  ultimately have "follower_log vals c [] s" using fl by (simp add: follower_log_def synced_log_def)
  then show ?thesis using op by blast
qed

lemma restart_log:
  assumes f: "follower_log vals flog blog s" and n: "numbered (flog @ blog)" and k: "killed s d bs"
  shows "\<exists>c s'. open_with_options d (Some \<lparr>fdata = bs, fsynced = bs\<rparr>) m = (Inr \<lparr>inner = s', snap = Snap_from s'\<rparr>, dir s') \<and>
    prefix c (flog @ blog) \<and> committed_prefix c = c \<and> follower_log vals c [] s'"
proof -
  let ?lg = "flog @ blog"
  have w: "writer_inv ?lg s" and sy: "synced_log (wal s) flog blog" and b: "backs vals ?lg s"
    and l: "lens_ok {} (layout_of (committed_prefix flog)) s" using f by (simp_all add: follower_log_def)
  have "\<exists>c s0 rl tail. prefix c ?lg \<and> stable c s0 \<and> backs vals ?lg s0 \<and> crash_disk (dir s0) d \<and> bs = log_bytes rl @ tail \<and> list_all entry_ok rl \<and>
      scan_blocks tail = [] \<and> committed_prefix rl = c"
    using k unfolding killed_def
  proof (elim disjE conjE)
    assume crash: "crash_disk (dir s) d" "crash_outcome (wal_file (wal s)) [] bs"
    let ?w = "(wal s)\<lparr>wal_buf := [], dirty := False\<rparr>"
    have "wal_has ?w flog" by (rule synced_log_lost [OF sy])
    moreover have dur: "durable_log ?w = committed_prefix flog" using sy by (simp add: synced_log_def durable_log_def)
    ultimately obtain rl tail where rl: "bs = log_bytes rl @ tail" "list_all entry_ok rl" "scan_blocks tail = []"
      "prefix (committed_prefix flog) (committed_prefix rl)" "prefix (committed_prefix rl) (committed_prefix flog)"
      using wal_has_crash [of ?w flog bs] crash(2) by auto
    then have "committed_prefix rl = committed_prefix flog" by (simp add: prefix_order.antisym)
    moreover have p: "prefix (committed_prefix flog) ?lg" using committed_prefix_split [of flog] by (metis prefixI append_assoc)
    ultimately show ?thesis using stable_prefix [OF w p l] b crash(1) rl(1-3) by blast
  next
    assume crash: "crash_disk (dir (fsync_dirty_segments s)) d" "crash_outcome (wal_file (wal s)) (wal_buf (wal s)) bs"
    obtain rl tail where rl: "bs = log_bytes rl @ tail" "list_all entry_ok rl" "scan_blocks tail = []" "prefix (committed_prefix rl) (committed_prefix ?lg)"
      using wal_has_crash [OF wal_holds_has [OF sy] crash(2)] by blast
    have "prefix (committed_prefix ?lg) ?lg" using committed_prefix_split [of ?lg] by (metis prefixI)
    with rl(4) have p: "prefix (committed_prefix rl) ?lg" by (rule prefix_order.trans)
    note fs = fsync_log [OF f]
    have "lens_ok {} (layout_of (committed_prefix rl)) (fsync_dirty_segments s)"
      using p fs lens_ok_prefix unfolding writer_inv_def by (metis prefixE)
    then show ?thesis using stable_prefix [OF _ p] fs p crash(1) rl(1-3) by blast
  qed
  then show ?thesis using reopened_log [of vals ?lg] n committed_prefix_idem by metis
qed

end
