(* ===== verification/CatchUp.thy ===== *)
theory CatchUp
  imports Backlog
begin

text \<open>
  A follower that is killed and started again. The leader's own log holds everything that it has sent: after a restart the follower asks for the records
  behind its last commit block, and the leader reads them and their values back.
\<close>

section \<open>The leader's log\<close>

definition leader_log :: "put_values \<Rightarrow> entry list \<Rightarrow> Store \<Rightarrow> bool" where
  "leader_log vals lg st \<longleftrightarrow> leader_inv lg st \<and> backs vals lg (inner st) \<and> numbered lg \<and> unat (store_next_lsn st) = Suc (length lg) \<and>
    (pending (inner st) \<or> snap st = Snap_from (inner st) \<and> committed_prefix lg = lg)"

lemma numbered_append:
  assumes "numbered lg" "map (unat \<circ> fst) rs = [Suc (length lg)..<m]" "Suc (length lg) \<le> m"
  shows "numbered (lg @ rs)" "m = Suc (length (lg @ rs))"
proof -
  have "length rs = m - Suc (length lg)" using arg_cong [OF assms(2), of length] by simp
  then show m: "m = Suc (length (lg @ rs))" using assms(3) by simp
  have "[1..<Suc (length lg)] @ [Suc (length lg)..<m] = [1..<m]" using assms(3) by (intro upt_join) simp_all
  then show "numbered (lg @ rs)" unfolding numbered_def using assms(1,2) m by (simp add: numbered_def)
qed

lemma seal_if_backs:
  assumes b: "backs vals lg s" and inv: "inner_inv s" and n: "unat (next_free_id s) + 1 < 2 ^ 64" and run: "seal_if x s = (Inr rs, s')"
  shows "backs vals (lg @ rs) s'"
proof -
  have ok: "safe_step s s'" "segments s' = segments s" using seal_if_ok [OF inv n run] by auto
  have p: "put_locations s' = put_locations s \<and> puts_of (lg @ rs) = puts_of lg"
    using run by (cases x) (auto simp: op_bind_Inr op_basic seal_active_record_def inner_append_Inr)
  have "located vals s' q l" if "map_of (puts_of lg) l = Some q" for l q
    using located_safe [OF backsD [OF b that] ok(1), where vals' = vals] ok(2) by simp
  then show ?thesis using b p by (simp add: backs_def)
qed

lemma stage_body_backs:
  assumes b: "backs vals lg s" and f: "follows (layout_of lg) s" and inv: "inner_inv s"
    and v: "length v < 2 ^ 32" "unat (active_offset s) + length v < 2 ^ 64" and run: "stage_body key v s = (Inr (l, rs), s')" and l: "l \<notin> fst ` set lg"
  shows "backs (vals(l := (key, v))) (lg @ rs) s'"
proof -
  let ?vals = "vals(l := (key, v))" and ?n = "of_nat (length v) :: u32"
  obtain s1 s2 s3 s4 a ds where "open_segment (active_id s) s = (Inr (), s1)" "write_value v s1 = (Inr (), s2)"
    "inner_append (Put key ?n l) s2 = (Inr l, s3)" "inner_append (AggDelta ds) s3 = (Inr a, s4)" and rs: "rs = [(l, Put key ?n l), (a, AggDelta ds)]"
    by (rule stage_body_parts [OF run])
  note ok = stage_body_ok [OF inv v run]
  have i': "inner_inv s'" and "map_of (index s') key = Some (active_id s, active_offset s, ?n, l)" using ok by (simp_all add: update_conv')
  then obtain i where i: "map_of (segments s') (active_id s) = Some i" "protected_region s' i (active_offset s) ?n"
    unfolding inner_inv_def index_ok_def by blast
  have b': "backs ?vals lg s" by (rule backs_vals [OF b]) (use l in auto)
  have s': "safe_step s s'" "\<And>x j. map_of (segments s) x = Some j \<Longrightarrow> map_of (segments s') x = Some j"
    "read_value (file_data (dir s') i) (active_offset s) ?n = Inr v" using ok i(1) by auto
  note s' = s' stage_body_fields(7) [OF inv run refl]
  have "backs ?vals (lg @ [(l, Put key ?n l)]) s'" by (rule backs_put [OF b' f s'(1,2) _ i s'(3)]) (simp_all add: s'(4))
  moreover have "puts_of (lg @ rs) = puts_of (lg @ [(l, Put key ?n l)])"
    using puts_of_snoc [of "lg @ [(l, Put key ?n l)]" "(a, AggDelta ds)"] by (simp add: rs)
  ultimately show ?thesis by (simp add: backs_def)
qed

lemma stage_put_backs:
  assumes inv: "leader_inv lg st" and b: "backs vals lg (inner st)" and r: "room (inner st) v" and key: "utf8_valid key"
    and n: "unat (store_next_lsn st) + 5 < 2 ^ 64" "\<forall>l \<in> fst ` set lg. l < store_next_lsn st" and run: "inner_stage_put key v (inner st) = (Inr sp, s')"
  shows "backs (vals(object_id sp := (key, v))) (lg @ staged_records sp) s' \<and> object_id sp \<notin> fst ` set lg \<and>
    (\<forall>(l, rec) \<in> set (staged_records sp). is_put rec \<longrightarrow> l = object_id sp)"
proof -
  let ?s = "inner st" and ?c = "committed_prefix lg"
  have w: "writer_inv lg ?s" "wal_has (wal ?s) lg" "lens_ok {} (layout_of ?c) ?s" using inv by (simp_all add: leader_inv_def)
  have p: "prefix ?c lg" using committed_prefix_split [of lg] by (metis prefixI)
  have i: "inner_inv ?s" using w(1) by (simp add: writer_inv_def)
  have v: "length v < 2 ^ 32" "unat (active_offset ?s) + length v < 2 ^ 64" and nf: "unat (next_free_id ?s) + 1 \<le> 10 ^ 8" "unat (next_free_id ?s) + 1 < 2 ^ 64"
    using r by (simp_all add: room_def counters_ok_def)
  obtain x rs0 s1 l rs1 s2 x2 rs2 where 1: "seal_if x ?s = (Inr rs0, s1)" and 2: "stage_body key v s1 = (Inr (l, rs1), s2)"
    and 3: "seal_if x2 s2 = (Inr rs2, s')" and sp: "object_id sp = l" "staged_records sp = rs0 @ rs1 @ rs2"
    by (rule stage_put_parts [OF run])
  note m = maybe_seal [OF 1 nf(1) i, of ?c lg]
  have w1: "writer_inv (lg @ rs0) s1" using m w p by (simp add: logs_def)
  have i1: "inner_inv s1" and v1: "unat (active_offset s1) + length v < 2 ^ 64" and n1: "unat (next_free_id s1) \<le> unat (next_free_id ?s) + 1" using m v by auto
  have nl: "next_lsn (wal ?s) \<le> next_lsn (wal s1)" "unat (next_lsn (wal s1)) \<le> unat (next_lsn (wal ?s)) + 1"
    using maybe_seal_lsns [OF 1] n(1) by (simp_all add: store_next_lsn_def word_le_nat_alt)
  have rs0: "\<forall>e \<in> set rs0. \<not> is_put (snd e) \<and> fst e < next_lsn (wal s1)" using 1 n(1) seal_next [of ?s _ s1] by (auto simp: op_bind_Inr op_basic is_put_def store_next_lsn_def word_less_nat_alt split: if_splits)
  have rs2: "\<forall>e \<in> set rs2. \<not> is_put (snd e)" using 3 by (auto simp: op_bind_Inr op_basic seal_active_record_def inner_append_Inr is_put_def split: if_splits)
  have l: "l = next_lsn (wal s1)" "\<exists>a ds. rs1 = [(l, Put key (of_nat (length v)) l), (a, AggDelta ds)]" using stage_body_next [OF 2] n(1) nl(2) by (auto simp: store_next_lsn_def)
  have new: "l \<notin> fst ` set (lg @ rs0)" using n(2) nl(1) rs0 by (auto simp: l(1) store_next_lsn_def)
  have "backs vals (lg @ rs0) s1" by (rule seal_if_backs [OF b i nf(2) 1])
  from stage_body_backs [OF this _ i1 v(1) v1 2 new] w1 have b2: "backs (vals(l := (key, v))) ((lg @ rs0) @ rs1) s2" by (simp add: writer_inv_def)
  have "inner_inv s2" "unat (next_free_id s2) + 1 < 2 ^ 64" using stage_body_ok [OF i1 v(1) v1 2] n1 nf by auto
  from seal_if_backs [OF b2 this 3] have "backs (vals(l := (key, v))) (lg @ staged_records sp) s'" by (simp add: sp)
  moreover have "\<forall>(l', rec) \<in> set (staged_records sp). is_put rec \<longrightarrow> l' = l" using rs0 rs2 l(2) by (auto simp: sp is_put_def)
  ultimately show ?thesis using new unfolding sp(1) by auto
qed

lemma leader_log_new:
  assumes "open_with_options empty_disk None m = (Inr st, d)"
  shows "leader_log vals [] st"
  using leader_open_new [OF assms] open_empty_inner [OF assms]
  by (simp add: leader_log_def backs_def fresh_inner_def store_next_lsn_def wal_open_None)

lemma leader_log_put:
  assumes L: "leader_log vals lg st" and r: "room (inner st) v" and key: "utf8_valid key" and n: "unat (store_next_lsn st) + 5 < 2 ^ 64"
    and run: "stage_put key v st = (Inr sp, st')"
  shows "leader_log (vals(object_id sp := (key, v))) (lg @ staged_records sp) st' \<and> object_id sp \<notin> fst ` set lg \<and>
    (\<forall>(l, rec) \<in> set (staged_records sp). is_put rec \<longrightarrow> l = object_id sp)"
proof -
  have inv: "leader_inv lg st" and b: "backs vals lg (inner st)" and num: "numbered lg" "unat (store_next_lsn st) = Suc (length lg)"
    using L by (simp_all add: leader_log_def)
  obtain s' where s': "inner_stage_put key v (inner st) = (Inr sp, s')" "st' = st\<lparr>inner := s'\<rparr>"
    using run by (auto simp: stage_put_def locked_def split: prod.splits)
  have c: "counters_ok (inner st) (length v)" using r by (simp add: room_def)
  have "inner_inv (inner st)" using inv by (simp add: leader_inv_def writer_inv_def)
  then have p: "pending s'" using stage_put_ok [OF _ c s'(1)] by simp
  have "\<forall>l \<in> fst ` set lg. l < store_next_lsn st" using numbered_bounds [OF num(1)] num(2) by (auto simp: word_less_nat_alt less_Suc_eq_le)
  note bk = stage_put_backs [OF inv b r key n this s'(1)]
  have "map (unat \<circ> fst) (staged_records sp) = [Suc (length lg)..<unat (next_lsn (wal s'))]" "Suc (length lg) \<le> unat (next_lsn (wal s'))"
    using stage_lsns [OF s'(1) _ c] n num(2) by (simp_all add: store_next_lsn_def)
  note na = numbered_append [OF num(1) this]
  show ?thesis using leader_stage [OF inv r key run] bk na p by (simp add: leader_log_def s'(2) store_next_lsn_def)
qed

lemma commit_not_pending: "commit IoOk lsn st = (Inr (), st') \<Longrightarrow> pending (inner st) \<Longrightarrow> \<not> pending (inner st')"
  by (auto simp: commit_def op_bind_Inr locked_def op_basic inner_commit_def Let_def publish_def split: prod.splits)

lemma leader_log_commit:
  assumes L: "leader_log vals lg st" and p: "pending (inner st)" and n: "unat (store_next_lsn st) + 5 < 2 ^ 64" and run: "commit IoOk lsn st = (Inr (), st')"
  shows "leader_log vals (lg @ [(store_next_lsn st' - 1, Commit lsn)]) st'"
proof -
  have inv: "leader_inv lg st" and b: "backs vals lg (inner st)" and num: "numbered lg" "unat (store_next_lsn st) = Suc (length lg)"
    using L by (simp_all add: leader_log_def)
  obtain s' where s': "inner_commit IoOk lsn (inner st) = (Inr (), s')" "st' = publish (st\<lparr>inner := s'\<rparr>)"
    using run p commit_IoOk [of lsn "inner st"] by (auto simp: commit_def op_bind_def locked_def op_basic)
  have nx: "next_lsn (wal s') = store_next_lsn st + 1" using commit_next [OF s'(1)] n by (simp add: store_next_lsn_def)
  have u: "unat (store_next_lsn st + 1) = unat (store_next_lsn st) + 1" using n by (simp add: unat_word_ariths)
  let ?e = "(store_next_lsn st, Commit lsn)"
  have l: "leader_inv (lg @ [?e]) st'" using leader_commit [OF inv run p] by (auto simp: store_next_lsn_def)
  have "puts_of (lg @ [?e]) = puts_of lg" by simp
  moreover have "backs vals lg s'"
    by (rule backs_same [OF b]) (use commit_maps [OF s'(1)] commit_fields [OF s'(1)] fsync_dirty_ok [where s = "inner st"] in simp_all)
  ultimately have "backs vals (lg @ [?e]) (inner st')" by (simp add: backs_def s'(2) publish_def)
  moreover have "committed_prefix (lg @ [?e]) = lg @ [?e]" by (simp add: committed_prefix_snoc is_commit_def)
  moreover have "store_next_lsn st' = store_next_lsn st + 1" using nx by (simp add: s'(2) publish_def store_next_lsn_def)
  ultimately show ?thesis using l num u by (simp add: leader_log_def numbered_snoc s'(2) publish_def Snap_from_def)
qed

lemma leader_log_sync:
  assumes L: "leader_log vals lg st" and run: "sync_wal IoOk st = (r, st')"
  shows "leader_log vals lg st'"
proof -
  obtain w where w: "sync IoOk (wal (inner st)) = (Inr (), w)" using sync_IoOk by blast
  have st': "st' = st\<lparr>inner := (inner st)\<lparr>wal := w\<rparr>\<rparr>" using run w by (auto simp: sync_wal_def locked_def inner_sync_def)
  have "leader_inv lg st'" using leader_sync_wal [OF _ run] L by (simp add: leader_log_def)
  moreover have "backs vals lg (inner st')" using L backs_same [of vals lg "inner st" "inner st'"] by (simp add: leader_log_def st')
  ultimately show ?thesis using L sync_keeps [OF w] by (simp add: leader_log_def st' store_next_lsn_def Snap_from_def)
qed

text \<open>Every record of the leader's log can be applied by a follower that has the records before it.\<close>

lemma read_value_length: "read_value data off len = Inr v \<Longrightarrow> length v = unat len"
  by (auto simp: read_value_def split: if_splits)

lemma leader_next:
  assumes L: "leader_log vals (xs @ e # ys) st"
  shows "next_record vals xs e"
proof -
  let ?lg = "xs @ e # ys"
  have w: "writer_inv ?lg (inner st)" and h: "wal_has (wal (inner st)) ?lg" and b: "backs vals ?lg (inner st)" and num: "numbered ?lg"
    using L by (simp_all add: leader_log_def leader_inv_def)
  have split: "?lg = (xs @ [e]) @ ys" by simp
  have g: "good_log (xs @ [e])" using w good_log_prefix unfolding writer_inv_def split by blast
  obtain fl bl where "?lg = fl @ bl" "list_all entry_ok (fl @ bl)" using h by (auto simp: wal_has_def wal_holds_def)
  then have "entry_ok e" by (metis list.pred_inject(2) list_all_append)
  moreover have "numbered (xs @ [e])" using num numbered_prefix unfolding split by blast
  moreover have "fst (vals (fst e)) = k \<and> length (snd (vals (fst e))) = unat len" if e: "snd e = Put k len s" for k len s
  proof -
    have "(fst e, Put k len s) \<in> set ?lg" using e by (cases e) simp
    from puts_of_put [OF num this] obtain seg off where "map_of (puts_of ?lg) (fst e) = Some (k, seg, off, len)" by blast
    from backsD [OF b this] show ?thesis by (auto simp: located_def holds_put_def dest: read_value_length)
  qed
  moreover have "unat y + 1 \<le> 10 ^ 8" if "snd e = SegmentSeal x y" for x y
  proof -
    have "y \<in> used_ids (layout_of (xs @ [e]))" using that by (simp add: lay_step_def used_ids_def)
    moreover have "used_ids (layout_of (xs @ [e])) \<subseteq> used_ids (layout_of ?lg)" using w used_ids_mono unfolding writer_inv_def split by blast
    ultimately have "y < next_free_id (inner st)" "unat (next_free_id (inner st)) \<le> 10 ^ 8" using w unfolding writer_inv_def ids_below_def by blast+
    then show ?thesis by (simp add: word_less_nat_alt)
  qed
  ultimately show ?thesis using g by (auto simp: next_record_def good_log_snoc split: Record.split)
qed

section \<open>Backfilling\<close>

abbreviation append_frame :: "put_values \<Rightarrow> entry \<Rightarrow> Frame" where
  "append_frame vals e \<equiv> Append (fst e) (snd e) (sent_value vals (fst e) (snd e))"

lemma backfill_skips: "\<forall>l \<in> fst ` set xs. l < from \<Longrightarrow> backfill_appends st from ci (xs @ ys) = backfill_appends st from ci ys"
  by (induction xs) auto

lemma backfill_range:
  "\<forall>e \<in> set es. from \<le> fst e \<and> fst e \<le> ci \<and> (is_put (snd e) \<longrightarrow> value_at st (fst e) = Inr (snd (vals (fst e)))) \<Longrightarrow>
    backfill_appends st from ci es = Some (map (append_frame vals) es)"
  by (induction es) (auto simp: not_less)

text \<open>With nothing staged, the whole log is in the file and every value can be read.\<close>

lemma leader_log_read:
  assumes L: "leader_log vals lg st" and np: "\<not> pending (inner st)"
  shows "scan_wal st = lg" "(l, rec) \<in> set lg \<Longrightarrow> is_put rec \<Longrightarrow> value_at st l = Inr (snd (vals l))"
proof -
  have cp: "committed_prefix lg = lg" and sn: "snap st = Snap_from (inner st)" and h: "wal_has (wal (inner st)) lg" and b: "backs vals lg (inner st)"
    and d: "durable_log (wal (inner st)) = committed_prefix lg" and num: "numbered lg" using L np by (auto simp: leader_log_def leader_inv_def)
  have e: "scan_blocks [] = []" by (rule scan_short) (simp add: SV_BLOCK_SIZE_def)
  obtain fl bl where f: "wal_holds (wal (inner st)) fl bl" "lg = fl @ bl" using h by (auto simp: wal_has_def)
  obtain fl' bl' slog tail where s: "wal_holds (wal (inner st)) fl' bl'" "fsynced (wal_file (wal (inner st))) = log_bytes slog @ tail" "list_all entry_ok slog"
    "scan_blocks tail = []" "prefix (committed_prefix slog) fl'" using h unfolding wal_has_def wal_inv_def by blast
  have scan: "scan_wal st = x" if "wal_holds (wal (inner st)) x y" for x y
    using that scan_log [of x "[]"] e by (simp add: scan_wal_def scan_def wal_holds_def)
  then have "fl' = fl" using f(1) s(1) by metis
  then have "prefix lg fl" using s(5) durable_log_eq [OF s(2-4)] d cp by simp
  then have "fl = lg" using f(2) by (simp add: prefix_def)
  then show "scan_wal st = lg" using scan [OF f(1)] by simp
  assume l: "(l, rec) \<in> set lg" "is_put rec"
  obtain k len s where "rec = Put k len s" using l(2) by (auto simp: is_put_def split: Record.splits)
  then obtain seg off where p: "map_of (puts_of lg) l = Some (k, seg, off, len)" using puts_of_put [OF num] l(1) by blast
  have "put_locations (inner st) = puts_of lg" using b by (simp add: backs_def)
  then show "value_at st l = Inr (snd (vals l))"
    using p backsD [OF b p] by (auto simp: located_def holds_put_def value_at_def sn Snap_from_def read_snap_def)
qed

lemma backfill_log:
  assumes L: "leader_log vals (c @ r) st" and np: "\<not> pending (inner st)" and c: "committed_prefix c = c"
  shows "backfill_appends st (commit_end c + 1) (store_next_lsn st - 1) (scan_wal st) = Some (map (append_frame vals) r)"
proof -
  have num: "numbered (c @ r)" "unat (store_next_lsn st) = Suc (length (c @ r))" using L by (simp_all add: leader_log_def)
  have lt: "length (c @ r) + 1 < 2 ^ 64" using num(2) unsigned_less [of "store_next_lsn st", where ?'a = nat] by simp
  have u: "unat (commit_end c + 1) = Suc (length c)" using commit_end_numbered [OF numbered_prefix [OF num(1)]] c lt by (simp add: unat_add_small)
  have ci: "unat (store_next_lsn st - 1) = length (c @ r)" using num(2) by (subst unat_minus_one) auto
  have skip: "\<forall>l \<in> fst ` set c. l < commit_end c + 1"
    using numbered_bounds [OF numbered_prefix [OF num(1)]] u by (auto simp: word_less_nat_alt less_Suc_eq_le)
  have "Suc (length c) \<le> unat (fst e) \<and> unat (fst e) \<le> length (c @ r)" if "e \<in> set r" for e
    using numbered_suffix [OF num(1), of "fst e"] that by (simp add: Suc_le_eq)
  then have "\<forall>e \<in> set r. commit_end c + 1 \<le> fst e \<and> fst e \<le> store_next_lsn st - 1 \<and> (is_put (snd e) \<longrightarrow> value_at st (fst e) = Inr (snd (vals (fst e))))"
    using u ci leader_log_read(2) [OF L np, of "fst e" "snd e" for e] by (simp add: word_le_nat_alt)
  from backfill_range [OF this] show ?thesis unfolding leader_log_read(1) [OF L np] backfill_skips [OF skip] .
qed

section \<open>A follower and its restarts\<close>

text \<open>
  A leader's store, the frames that wait for the follower, if it is connected, and the follower's store. The follower takes the frames one by one, may be killed and
  started at any time, and comes back when the leader has no put under way: the leader then sends what its log has behind the follower's last commit
  block.
\<close>

inductive fed :: "Store \<Rightarrow> Frame list option \<Rightarrow> Store \<Rightarrow> bool" where
  fed_open: "open_with_options empty_disk None m = (Inr ld, d) \<Longrightarrow> open_with_options empty_disk None m' = (Inr fo, d') \<Longrightarrow> fed ld (Some []) fo"
| fed_put: "fed ld q fo \<Longrightarrow> room (inner ld) v \<Longrightarrow> utf8_valid key \<Longrightarrow> unat (store_next_lsn ld) + 5 < 2 ^ 64 \<Longrightarrow>
    stage_put key v ld = (Inr sp, ld') \<Longrightarrow> fed ld' (map_option (\<lambda>q. q @ put_frames sp v) q) fo"
| fed_sync: "fed ld q fo \<Longrightarrow> sync_wal IoOk ld = (r, ld') \<Longrightarrow> fed ld' q fo"
| fed_commit: "fed ld q fo \<Longrightarrow> pending (inner ld) \<Longrightarrow> unat (store_next_lsn ld) + 5 < 2 ^ 64 \<Longrightarrow> commit IoOk lsn ld = (Inr (), ld') \<Longrightarrow>
    fed ld' (map_option (\<lambda>q. q @ commit_frames (store_next_lsn ld' - 1) lsn) q) fo"
| fed_take: "fed ld (Some (frame # q)) fo \<Longrightarrow> apply_frame IoOk frame fo = (reply, fo') \<Longrightarrow> fed ld (Some q) fo'"
| fed_kill: "fed ld q fo \<Longrightarrow> killed (inner fo) d bs \<Longrightarrow> open_with_options d (Some \<lparr>fdata = bs, fsynced = bs\<rparr>) m = (Inr fo', d') \<Longrightarrow> fed ld None fo'"
| fed_connect: "fed ld None fo \<Longrightarrow> \<not> pending (inner ld) \<Longrightarrow>
    backfill_appends ld (store_last_commit_block fo + 1) (store_next_lsn ld - 1) (scan_wal ld) = Some frames \<Longrightarrow>
    fed ld (Some (frames @ [SyncBarrier (store_next_lsn ld - 1)])) fo"

text \<open>The records that a queue carries, with the values that belong to them.\<close>

inductive carries :: "put_values \<Rightarrow> Frame list \<Rightarrow> entry list \<Rightarrow> bool" for vals where
  carries_Nil: "carries vals [] []"
| carries_append: "carries vals q rs \<Longrightarrow> carries vals (append_frame vals e # q) (e # rs)"
| carries_barrier: "carries vals q rs \<Longrightarrow> carries vals (SyncBarrier l # q) rs"

lemma carries_ConsE:
  assumes "carries vals (frame # q) rs"
  obtains (appended) e rs' where "rs = e # rs'" "frame = append_frame vals e" "carries vals q rs'"
  | (barrier) l where "frame = SyncBarrier l" "carries vals q rs"
  using assms by (cases rule: carries.cases) auto

lemma carries_join: "carries vals p rs \<Longrightarrow> carries vals q rs' \<Longrightarrow> carries vals (p @ q) (rs @ rs')"
  by (induction rule: carries.induct) (simp_all add: carries.intros)

lemma carries_appends: "carries vals (map (append_frame vals) rs @ [SyncBarrier l]) rs"
proof (induction rs)
  case (Cons e rs)
  show ?case using carries_append [OF Cons.IH, of e] by simp
qed (auto intro: carries.intros)

lemma carries_vals: "carries vals q rs \<Longrightarrow> (\<And>l. l \<in> fst ` set rs \<Longrightarrow> vals' l = vals l) \<Longrightarrow> carries vals' q rs"
proof (induction rule: carries.induct)
  case (carries_append q rs e)
  then have "append_frame vals e = append_frame vals' e" "carries vals' q rs" by simp_all
  then show ?case using carries.carries_append by metis
qed (auto intro: carries.intros)

lemma carries_batch:
  assumes "\<forall>(l, rec) \<in> set rs. is_put rec \<longrightarrow> v = Some (snd (vals l))"
  shows "carries vals (batch_frames rs v end) rs"
proof -
  have "map (\<lambda>(l, rec). Append l rec (if is_put rec then v else None)) rs = map (append_frame vals) rs" using assms by auto
  then show ?thesis unfolding batch_frames_def using carries_appends [of vals rs "end"] by (simp only:)
qed

definition fed_inv :: "Store \<Rightarrow> Frame list option \<Rightarrow> Store \<Rightarrow> bool" where
  "fed_inv ld q fo \<longleftrightarrow> (\<exists>vals flog blog rs. leader_log vals (flog @ blog @ rs) ld \<and> follower_log vals flog blog (inner fo) \<and>
    (case q of None \<Rightarrow> blog = [] \<and> committed_prefix flog = flog | Some q \<Rightarrow> carries vals q rs))"

lemma fed_invI:
  "leader_log vals (flog @ blog @ rs) ld \<Longrightarrow> follower_log vals flog blog (inner fo) \<Longrightarrow>
    case q of None \<Rightarrow> blog = [] \<and> committed_prefix flog = flog | Some q \<Rightarrow> carries vals q rs \<Longrightarrow> fed_inv ld q fo"
  unfolding fed_inv_def by blast

lemma follower_log_new:
  assumes "open_with_options empty_disk None m = (Inr st, d)"
  shows "follower_log vals [] [] (inner st)"
proof -
  have l: "leader_inv [] st" by (rule leader_open_new [OF assms])
  have w: "wal (inner st) = wal_open None" using open_empty_inner(1) [OF assms] by (simp add: fresh_inner_def)
  have "wal_holds (wal_open None) [] []" by (simp add: wal_holds_def wal_open_None)
  then have "synced_log (wal (inner st)) [] []" using l by (simp add: synced_log_def w leader_inv_def)
  then show ?thesis using l open_empty_inner(1) [OF assms] by (simp add: follower_log_def leader_inv_def backs_def fresh_inner_def)
qed

lemma fed_inv_put:
  assumes f: "fed_inv ld q fo" and r: "room (inner ld) v" and key: "utf8_valid key" and n: "unat (store_next_lsn ld) + 5 < 2 ^ 64"
    and run: "stage_put key v ld = (Inr sp, ld')"
  shows "fed_inv ld' (map_option (\<lambda>q. q @ put_frames sp v) q) fo"
proof -
  obtain vals flog blog rs where L: "leader_log vals (flog @ blog @ rs) ld" and F: "follower_log vals flog blog (inner fo)"
    and q: "case q of None \<Rightarrow> blog = [] \<and> committed_prefix flog = flog | Some q \<Rightarrow> carries vals q rs" using f by (auto simp: fed_inv_def)
  let ?vals = "vals(object_id sp := (key, v))"
  note p = leader_log_put [OF L r key n run]
  have L': "leader_log ?vals (flog @ blog @ rs @ staged_records sp) ld'" using p by simp
  have new: "object_id sp \<notin> fst ` set (flog @ blog @ rs)" using p by blast
  have keep: "?vals l = vals l" if "l \<in> fst ` set (flog @ blog @ rs)" for l using new that by (metis fun_upd_other)
  have F': "follower_log ?vals flog blog (inner fo)" by (rule follower_log_vals [OF F keep]) auto
  have "carries ?vals (put_frames sp v) (staged_records sp)" using p by (intro carries_batch) auto
  moreover have "carries ?vals q' rs" if "carries vals q' rs" for q' by (rule carries_vals [OF that keep]) auto
  ultimately show ?thesis using q by (intro fed_invI [OF L' F']) (auto intro: carries_join split: option.splits)
qed

lemma fed_inv_take:
  assumes f: "fed_inv ld (Some (frame # q)) fo" and run: "apply_frame IoOk frame fo = (reply, fo')"
  shows "fed_inv ld (Some q) fo'"
proof -
  obtain vals flog blog rs where L: "leader_log vals (flog @ blog @ rs) ld" and F: "follower_log vals flog blog (inner fo)"
    and q: "carries vals (frame # q) rs" using f by (auto simp: fed_inv_def)
  from q show ?thesis
  proof (cases rule: carries_ConsE)
    case (appended e rs')
    have L': "leader_log vals ((flog @ blog) @ e # rs') ld" using L appended(1) by simp
    from append_log [OF F, of "fst e" "snd e"] leader_next [OF L'] have "follower_log vals flog (blog @ [e]) (inner fo')"
      using run appended(2) by auto
    then show ?thesis using L' appended(3) by (intro fed_invI [of vals flog "blog @ [e]" rs']) simp_all
  next
    case (barrier l)
    have "follower_log vals (flog @ blog) [] (inner fo')" using barrier_log [OF F, of l] run barrier(1) by auto
    then show ?thesis using L barrier(2) by (intro fed_invI [of vals "flog @ blog" "[]" rs]) simp_all
  qed
qed

lemma fed_inv_kill:
  assumes f: "fed_inv ld q fo" and k: "killed (inner fo) d bs"
  shows "\<exists>s. open_with_options d (Some \<lparr>fdata = bs, fsynced = bs\<rparr>) m = (Inr \<lparr>inner = s, snap = Snap_from s\<rparr>, dir s) \<and>
    fed_inv ld None \<lparr>inner = s, snap = Snap_from s\<rparr>"
proof -
  obtain vals flog blog rs where L: "leader_log vals ((flog @ blog) @ rs) ld" and F: "follower_log vals flog blog (inner fo)" using f by (auto simp: fed_inv_def)
  have "numbered (flog @ blog)" using L numbered_prefix unfolding leader_log_def by blast
  from restart_log [OF F this k, of m] obtain c s where
    op: "open_with_options d (Some \<lparr>fdata = bs, fsynced = bs\<rparr>) m = (Inr \<lparr>inner = s, snap = Snap_from s\<rparr>, dir s)"
    and c: "prefix c (flog @ blog)" "committed_prefix c = c" "follower_log vals c [] s" by blast
  obtain r where "flog @ blog = c @ r" using c(1) by (auto elim: prefixE)
  then have "leader_log vals (c @ r @ rs) ld" using L by simp
  then have "fed_inv ld None \<lparr>inner = s, snap = Snap_from s\<rparr>"
    using c by (intro fed_invI [of vals c "[]" "r @ rs"]) simp_all
  then show ?thesis using op by blast
qed

lemma fed_inv_connect:
  assumes f: "fed_inv ld None fo" and np: "\<not> pending (inner ld)"
  shows "\<exists>frames. backfill_appends ld (store_last_commit_block fo + 1) (store_next_lsn ld - 1) (scan_wal ld) = Some frames \<and>
    fed_inv ld (Some (frames @ [SyncBarrier (store_next_lsn ld - 1)])) fo"
proof -
  obtain vals c rs where L: "leader_log vals (c @ rs) ld" and F: "follower_log vals c [] (inner fo)" and c: "committed_prefix c = c"
    using f by (auto simp: fed_inv_def)
  have "store_last_commit_block fo = commit_end c" using F by (simp add: follower_log_def store_last_commit_block_def)
  then show ?thesis using backfill_log [OF L np c] L F carries_appends
    by (intro exI [of _ "map (append_frame vals) rs"] conjI fed_invI [of vals c "[]" rs]) simp_all
qed

lemma fed_invariant: "fed ld q fo \<Longrightarrow> fed_inv ld q fo"
proof (induction rule: fed.induct)
  case (fed_open m ld d m' fo d')
  have "leader_log vals [] ld" "follower_log vals [] [] (inner fo)" for vals
    using leader_log_new [OF fed_open.hyps(1)] follower_log_new [OF fed_open.hyps(2)] by blast+
  then show ?case by (intro fed_invI [of undefined "[]" "[]" "[]"]) (simp_all add: carries_Nil)
next
  case (fed_put ld q fo v key sp ld')
  then show ?case using fed_inv_put by blast
next
  case (fed_sync ld q fo r ld')
  then show ?case using leader_log_sync unfolding fed_inv_def by blast
next
  case (fed_commit ld q fo lsn ld')
  obtain vals flog blog rs where L: "leader_log vals (flog @ blog @ rs) ld" and F: "follower_log vals flog blog (inner fo)"
    and q: "case q of None \<Rightarrow> blog = [] \<and> committed_prefix flog = flog | Some q \<Rightarrow> carries vals q rs" using fed_commit.IH by (auto simp: fed_inv_def)
  let ?e = "(store_next_lsn ld' - 1, Commit lsn)"
  have L': "leader_log vals (flog @ blog @ rs @ [?e]) ld'" using leader_log_commit [OF L fed_commit.hyps(2-4)] by simp
  have "carries vals (commit_frames (store_next_lsn ld' - 1) lsn) [?e]" by (rule carries_batch) (simp add: is_put_def)
  then show ?case using q by (intro fed_invI [OF L' F]) (auto intro: carries_join split: option.splits)
next
  case (fed_take ld frame q fo reply fo')
  then show ?case using fed_inv_take by blast
next
  case (fed_kill ld q fo d bs m fo' d')
  then show ?case using fed_inv_kill [of ld q fo d bs m] by auto
next
  case (fed_connect ld fo frames)
  then show ?case using fed_inv_connect [of ld fo] by auto
qed

text \<open>A follower that takes everything ends at the leader's log.\<close>

lemma apply_backlog:
  assumes "leader_log vals (flog @ blog @ rs) ld" "follower_log vals flog blog (inner fo)"
  shows "\<exists>fo'. apply_frames (map (append_frame vals) rs @ [SyncBarrier e]) fo = ([SyncAck (log_end (flog @ blog @ rs))], fo') \<and>
    follower_log vals (flog @ blog @ rs) [] (inner fo') \<and> snap fo' = Snap_from (inner fo')"
  using assms
proof (induction rs arbitrary: blog fo)
  case Nil
  then show ?case using barrier_log [of vals flog blog fo e] by auto
next
  case (Cons x rs)
  have "next_record vals (flog @ blog) x" using leader_next [of vals "flog @ blog" x rs ld] Cons.prems(1) by simp
  then obtain fo1 where 1: "apply_frame IoOk (append_frame vals x) fo = ((None, True), fo1)" "follower_log vals flog (blog @ [x]) (inner fo1)"
    using append_log [OF Cons.prems(2), of "fst x" "snd x"] by auto
  show ?case using Cons.IH [OF _ 1(2)] Cons.prems(1) 1(1) by auto
qed

lemma log_reads:
  assumes b: "backs vals lg (inner st)" and w: "writer_inv lg (inner st)" and n: "numbered lg" and s: "snap st = Snap_from (inner st)"
  shows "store_get st k = Inr (map_option (\<lambda>(seg, off, len, l). snd (vals l)) (map_of (l_index (layout_of lg)) k))"
    and "capacity st pre = rollup_get (l_rollup (layout_of lg)) pre"
proof -
  have f: "index (inner st) = l_index (layout_of lg)" "rollup (inner st) = l_rollup (layout_of lg)" using w by (simp_all add: writer_inv_def follows_def)
  show "capacity st pre = rollup_get (l_rollup (layout_of lg)) pre" by (simp add: capacity_def s Snap_from_def f)
  show "store_get st k = Inr (map_option (\<lambda>(seg, off, len, l). snd (vals l)) (map_of (l_index (layout_of lg)) k))"
  proof (cases "map_of (l_index (layout_of lg)) k")
    case None
    then show ?thesis by (simp add: store_get_def s Snap_from_def f)
  next
    case (Some p)
    obtain seg off len l where p: "p = (seg, off, len, l)" by (metis prod_cases4)
    have "map_of (puts_of lg) l = Some (k, seg, off, len)" using index_puts [OF n] Some p by simp
    from backsD [OF b this] show ?thesis
      using Some by (auto simp: store_get_def s Snap_from_def f p located_def holds_put_def read_snap_def)
  qed
qed

lemma caught_up_reads:
  assumes L: "leader_log vals lg ld" and np: "\<not> pending (inner ld)" and F: "follower_log vals lg [] (inner fo)" and s: "snap fo = Snap_from (inner fo)"
  shows "store_get fo k = store_get ld k" "capacity fo pre = capacity ld pre"
proof -
  have l: "backs vals lg (inner ld)" "writer_inv lg (inner ld)" "numbered lg" "snap ld = Snap_from (inner ld)"
    using L np by (auto simp: leader_log_def leader_inv_def)
  have f: "backs vals lg (inner fo)" "writer_inv lg (inner fo)" using F by (simp_all add: follower_log_def)
  show "store_get fo k = store_get ld k" "capacity fo pre = capacity ld pre"
    unfolding log_reads [OF l] log_reads [OF f l(3) s] by simp_all
qed

lemma catch_up:
  assumes f: "fed_inv ld None fo" and np: "\<not> pending (inner ld)"
  shows "\<exists>frames fo'. backfill_appends ld (store_last_commit_block fo + 1) (store_next_lsn ld - 1) (scan_wal ld) = Some frames \<and>
    apply_frames (frames @ [SyncBarrier (store_next_lsn ld - 1)]) fo = ([SyncAck (store_next_lsn ld - 1)], fo') \<and>
    (\<forall>k. store_get fo' k = store_get ld k) \<and> (\<forall>pre. capacity fo' pre = capacity ld pre)"
proof -
  obtain vals c rs where L: "leader_log vals (c @ [] @ rs) ld" and F: "follower_log vals c [] (inner fo)" and c: "committed_prefix c = c"
    using f by (auto simp: fed_inv_def)
  have "store_last_commit_block fo = commit_end c" using F by (simp add: follower_log_def store_last_commit_block_def)
  then have b: "backfill_appends ld (store_last_commit_block fo + 1) (store_next_lsn ld - 1) (scan_wal ld) = Some (map (append_frame vals) rs)"
    using backfill_log [OF _ np c, of vals rs] L by simp
  have num: "numbered (c @ rs)" "unat (store_next_lsn ld) = Suc (length (c @ rs))" using L by (simp_all add: leader_log_def)
  have "unat (store_next_lsn ld - 1) = length (c @ rs)" using num(2) by (subst unat_minus_one) auto
  then have "log_end (c @ rs) = store_next_lsn ld - 1" using log_end_numbered [OF num(1)] by (simp add: word_unat_eq_iff)
  with apply_backlog [OF L F, of "store_next_lsn ld - 1"] obtain fo' where
    a: "apply_frames (map (append_frame vals) rs @ [SyncBarrier (store_next_lsn ld - 1)]) fo = ([SyncAck (store_next_lsn ld - 1)], fo')"
    and fo': "follower_log vals (c @ rs) [] (inner fo')" "snap fo' = Snap_from (inner fo')" by auto
  have L': "leader_log vals (c @ rs) ld" using L by simp
  show ?thesis using b a caught_up_reads [OF L' np fo'] by blast
qed

section \<open>Property\<close>

text \<open>
  C8. A killed follower catches up: let a follower receive the frames of its leader's puts and commits, with any number of kills and restarts on the way, and kill it once
  more, between two frames or in the middle of a barrier. Its store opens again. When the leader has no put under way, the connection that follows brings the follower everything that it misses: the
  leader finds all records behind the follower's last commit block with their values, the follower applies them without an error, acknowledges the leader's commit index, counts
  as committed up to it, and returns for every key and every prefix what the leader returns.\<close>

theorem killed_follower_catches_up:
  assumes "fed (leader_store ld) q fo" and "\<not> pending (inner (leader_store ld))" and "commit_index ld = store_next_lsn (leader_store ld) - 1"
    and "i < length (followers ld)" and "link_id (followers ld ! i) \<notin> set (failed ld)" and "killed (inner fo) d bs"
  shows "\<exists>fo1 from frames ld1 fo2. open_with_options d (Some \<lparr>fdata = bs, fsynced = bs\<rparr>) max_bytes = (Inr fo1, dir (inner fo1)) \<and>
    need_from fo1 = NeedFrom from \<and> dial_connect i from ld = ld1 \<and>
    fqueue (followers ld1 ! i) = frames @ filter (above_commit (commit_index ld)) (fqueue (followers ld ! i)) \<and>
    apply_frames frames fo1 = ([SyncAck (commit_index ld)], fo2) \<and>
    match_index (followers (dial_receive i (SyncAck (commit_index ld)) ld1) ! i) \<ge> commit_index ld \<and>
    committed_through (followers (dial_receive i (SyncAck (commit_index ld)) ld1) ! i) = commit_index ld \<and>
    (\<forall>k. store_get fo2 k = store_get (leader_store ld) k) \<and> (\<forall>pre. capacity fo2 pre = capacity (leader_store ld) pre)"
proof -
  obtain s where op: "open_with_options d (Some \<lparr>fdata = bs, fsynced = bs\<rparr>) max_bytes = (Inr \<lparr>inner = s, snap = Snap_from s\<rparr>, dir s)"
    and inv: "fed_inv (leader_store ld) None \<lparr>inner = s, snap = Snap_from s\<rparr>"
    using fed_inv_kill [OF fed_invariant [OF assms(1)] assms(6), of max_bytes] by blast
  let ?fo = "\<lparr>inner = s, snap = Snap_from s\<rparr>" and ?ci = "commit_index ld"
  obtain fs fo2 where b: "backfill_appends (leader_store ld) (store_last_commit_block ?fo + 1) ?ci (scan_wal (leader_store ld)) = Some fs"
    and a: "apply_frames (fs @ [SyncBarrier ?ci]) ?fo = ([SyncAck ?ci], fo2)"
      "\<forall>k. store_get fo2 k = store_get (leader_store ld) k" "\<forall>pre. capacity fo2 pre = capacity (leader_store ld) pre"
    using catch_up [OF inv assms(2)] assms(3) by auto
  define ld1 where "ld1 = dial_connect i (store_last_commit_block ?fo + 1) ld"
  have f1: "followers ld1 ! i = (followers ld ! i)\<lparr>fqueue := (fs @ [SyncBarrier ?ci]) @ filter (above_commit ?ci) (fqueue (followers ld ! i)), alive := True\<rparr>"
    "length (followers ld1) = length (followers ld)" "commit_index ld1 = ?ci"
    using assms(4,5) b by (simp_all add: ld1_def dial_connect_def handle_backfill_def backfill_read_def backfill_install_def update_link_def)
  have "match_index (followers (dial_receive i (SyncAck ?ci) ld1) ! i) \<ge> ?ci \<and> committed_through (followers (dial_receive i (SyncAck ?ci) ld1) ! i) = ?ci"
    using assms(4) f1 by (simp add: dial_receive_def update_link_def Let_def)
  then show ?thesis using op a f1(1) ld1_def
    by (intro exI [of _ ?fo] exI [of _ "store_last_commit_block ?fo + 1"] exI [of _ "fs @ [SyncBarrier ?ci]"] exI [of _ ld1] exI [of _ fo2]) (simp add: need_from_def)
qed

theorem killed_follower_catches_up_witness:
  "\<exists>(ld :: Leader) q fo d bs fo1 frames fo2. fed (leader_store ld) q fo \<and> killed (inner fo) d bs \<and>
     open_with_options d (Some \<lparr>fdata = bs, fsynced = bs\<rparr>) 1000 = (Inr fo1, dir (inner fo1)) \<and> store_get fo [97, 47, 98] = Inr None \<and>
     apply_frames frames fo1 = ([SyncAck (commit_index ld)], fo2) \<and> store_get fo2 [97, 47, 98] = Inr (Some [1, 2])"
proof -
  obtain st sp st1 where e: "store_reachable st" "counters_ok (inner st) (length [1, 2 :: u8])" "stage_put [97, 47, 98] [1, 2] st = (Inr sp, st1)" "pending (inner st1)"
    "open_with_options empty_disk None 1000 = (Inr st, dir (inner st))" "next_free_id (inner st) = 1" using example_put by blast
  have s: "store_next_lsn st = 1" "index (inner st) = []"
    by (simp_all add: store_next_lsn_def open_empty_inner [OF e(5)] fresh_inner_def wal_open_None)
  have i: "inner_inv (inner st)" using store_inv_open [OF e(5)] by (simp add: store_inv_def)
  have r: "room (inner st) [1, 2]" using e(2,6) by (simp add: room_def)
  have u: "utf8_valid [97, 47, 98]" by simp
  have f1: "fed st1 (Some (put_frames sp [1, 2])) st" using fed_put [OF fed_open [OF e(5,5)] r u _ e(3)] s(1) by simp
  obtain st2 where fl: "flush IoOk st1 = (Inr (), st2)" "store_get st2 [97, 47, 98] = Inr (Some [1, 2])"
    using flush_reads_back [OF _ e(2,3)] store_reachable_inv [OF e(1)] unfolding store_inv_def by blast
  let ?l = "next_lsn (wal (inner st1)) - 1"
  have c: "commit IoOk ?l st1 = (Inr (), st2)" using fl(1) e(4) by (simp add: flush_def)
  obtain s1 where s1: "inner_stage_put [97, 47, 98] [1, 2] (inner st) = (Inr sp, s1)" "st1 = st\<lparr>inner := s1\<rparr>"
    using e(3) by (auto simp: stage_put_def locked_def split: prod.splits)
  have "unat (store_next_lsn st1) + 5 < 2 ^ 64"
    using stage_next [OF s1(1) _ i e(2)] s(1) by (simp add: s1(2) store_next_lsn_def)
  from fed_commit [OF f1 e(4) this c] obtain q where f2: "fed st2 q st" by blast
  have np: "\<not> pending (inner st2)" by (rule commit_not_pending [OF c e(4)])
  define ld where "ld = \<lparr>leader_store = st2, commit_index = store_next_lsn st2 - 1, followers = [new_link (1, [])], failed = [], quorum = 1\<rparr>"
  let ?d = "lose_unsynced (dir (inner st))" and ?bs = "fsynced (wal_file (wal (inner st)))"
  have k: "killed (inner st) ?d ?bs" using crash_lose_unsynced by (simp add: killed_def crash_outcome_def)
  have "store_get st [97, 47, 98] = Inr None" using open_empty_inner(2) [OF e(5)] s(2) by (simp add: store_get_def Snap_from_def)
  moreover have "fed (leader_store ld) q st" using f2 by (simp add: ld_def)
  moreover from killed_follower_catches_up [OF this, of 0 ?d ?bs 1000] k np obtain fo1 frames fo2 where
    "open_with_options ?d (Some \<lparr>fdata = ?bs, fsynced = ?bs\<rparr>) 1000 = (Inr fo1, dir (inner fo1))"
    "apply_frames frames fo1 = ([SyncAck (commit_index ld)], fo2)" "\<forall>k. store_get fo2 k = store_get (leader_store ld) k" by (auto simp: ld_def)
  ultimately show ?thesis using k fl(2)
    by (intro exI [of _ ld] exI [of _ q] exI [of _ st] exI [of _ ?d] exI [of _ ?bs] exI [of _ fo1] exI [of _ frames] exI [of _ fo2]) (simp add: ld_def)
qed

end
