(* ===== verification/Repetition.thy ===== *)
theory Repetition
  imports CatchUp
begin

text \<open>
  A follower that loses its connection but keeps running. It asks for the records behind its last commit block, also for those that it has applied
  already and whose commit it has not seen, and applies them a second time.
\<close>

section \<open>Records that come again\<close>

lemma keeps_active:
  "open_segment sid s = (r1, s') \<Longrightarrow> active_id s' = active_id s \<and> last_commit_block s' = last_commit_block s"
  "write_value v s = (r2, s') \<Longrightarrow> active_id s' = active_id s \<and> last_commit_block s' = last_commit_block s"
  "inner_append_at rec l s = (r3, s') \<Longrightarrow> active_id s' = active_id s \<and> last_commit_block s' = last_commit_block s"
  by (auto simp: open_segment_def write_value_def inner_append_at_def split: if_splits option.splits sum.splits prod.splits)

lemma apply_keeps_active:
  assumes run: "inner_apply_record l rec d s = (r, s')" and rec: "is_put rec \<or> rec = AggDelta ds"
  shows "active_id s' = active_id s \<and> last_commit_block s' = last_commit_block s"
proof -
  consider k len st where "rec = Put k len st" | "rec = AggDelta ds" using rec by (cases rec) (auto simp: is_put_def)
  then show ?thesis
    using run by cases (auto simp: inner_apply_record_def Let_def op_bind_def op_basic split: option.splits if_splits prod.splits sum.splits
        dest!: keeps_active)
qed

lemma repeated_seal:
  assumes "\<forall>e \<in> set xs. last_commit_block (inner fo) < fst e \<and> (is_put (snd e) \<or> (\<exists>ds. snd e = AggDelta ds))"
    and "last_commit_block (inner fo) < l" "active_id (inner fo) \<noteq> a"
  shows "\<exists>fo'. apply_frames (map (append_frame vals) xs @ Append l (SegmentSeal a b) d # rest) fo = ([], fo') \<and>
    active_id (inner fo') = active_id (inner fo) \<and> last_commit_block (inner fo') = last_commit_block (inner fo)"
  using assms
proof (induction xs arbitrary: fo)
  case Nil
  then have "\<not> l \<le> last_commit_block (inner fo)" by simp
  then show ?case
    using Nil.prems(3) by (simp add: apply_frame_def store_last_commit_block_def apply_record_def locked_def inner_apply_record_def)
next
  case (Cons x xs)
  let ?d = "sent_value vals (fst x) (snd x)"
  obtain r s where run: "inner_apply_record (fst x) (snd x) ?d (inner fo) = (r, s)" by force
  have k: "active_id s = active_id (inner fo)" "last_commit_block s = last_commit_block (inner fo)"
    using apply_keeps_active [OF run] Cons.prems(1) by auto
  have new: "\<not> fst x \<le> store_last_commit_block fo" using Cons.prems(1) by (simp add: store_last_commit_block_def not_le)
  show ?case
  proof (cases r)
    case (Inl e)
    then show ?thesis using run k new by (simp add: apply_frame_def apply_record_def locked_def)
  next
    case (Inr u)
    have "apply_frame IoOk (append_frame vals x) fo = ((None, True), fo\<lparr>inner := s\<rparr>)"
      using Inr run new by (simp add: apply_frame_def apply_record_def locked_def)
    then show ?thesis using Cons.IH [of "fo\<lparr>inner := s\<rparr>"] Cons.prems k by auto
  qed
qed

text \<open>A segment that was sealed never becomes active again.\<close>

lemma sealed_stays:
  assumes "good_log (xs @ (l, SegmentSeal a b) # ys)"
  shows "l_act (layout_of (xs @ (l, SegmentSeal a b) # ys)) \<noteq> a \<and> a \<in> used_ids (layout_of (xs @ (l, SegmentSeal a b) # ys))"
  using assms
proof (induction ys rule: rev_induct)
  case Nil
  then have "a = l_act (layout_of xs)" "b \<notin> used_ids (layout_of xs)" by (simp_all add: good_log_snoc good_entry_def)
  then show ?case by (auto simp: lay_step_def used_ids_def update_conv')
next
  case (snoc y ys)
  let ?lg = "xs @ (l, SegmentSeal a b) # ys"
  have g: "good_log ?lg" "good_entry (layout_of ?lg) (snd y)" using snoc.prems good_log_snoc [of ?lg y] by simp_all
  have "layout_of (?lg @ [y]) = lay_step y (layout_of ?lg)" by (rule layout_of_snoc)
  moreover have "l_act (lay_step y (layout_of ?lg)) \<noteq> a" using snoc.IH [OF g(1)] g(2) by (cases "snd y") (auto simp: lay_step_def good_entry_def)
  ultimately show ?case using snoc.IH [OF g(1)] used_ids_step [OF g(2)] by auto
qed

text \<open>The first seal of a list.\<close>

definition is_seal :: "Record \<Rightarrow> bool" where
  "is_seal rec = (case rec of SegmentSeal a b \<Rightarrow> True | _ \<Rightarrow> False)"

lemma first_seal:
  assumes "(l, SegmentSeal a b) \<in> set r"
  obtains xs l' a' b' ys where "r = xs @ (l', SegmentSeal a' b') # ys" "\<forall>e \<in> set xs. \<not> is_seal (snd e)"
proof -
  have "\<exists>e \<in> set r. is_seal (snd e)" using assms by (force simp: is_seal_def)
  from split_list_first_propE [OF this] obtain xs e ys where r: "r = xs @ e # ys" "is_seal (snd e)" "\<forall>e \<in> set xs. \<not> is_seal (snd e)" by metis
  then show thesis using that by (cases e; cases "snd e") (auto simp: is_seal_def)
qed

lemma good_log_records:
  assumes "good_log (xs @ ys)" "e \<in> set ys"
  shows "\<exists>l. good_entry l (snd e)"
proof -
  obtain us vs where "ys = us @ e # vs" using assms(2) by (meson split_list)
  then have "good_log ((xs @ us) @ [e])" using assms(1) good_log_prefix [of "(xs @ us) @ [e]" vs] by simp
  then show ?thesis unfolding good_log_snoc by blast
qed

text \<open>What the leader sends to a follower that has records without their commit.\<close>

lemma backfill_again:
  assumes L: "leader_log vals ((flog @ blog) @ rs) ld" and np: "\<not> pending (inner ld)" and F: "follower_log vals flog blog (inner fo)"
  obtains c r where "flog @ blog = c @ r" "list_all (\<lambda>e. \<not> is_commit (snd e)) r" "unat (store_last_commit_block fo) = length c"
    "backfill_appends ld (store_last_commit_block fo + 1) (store_next_lsn ld - 1) (scan_wal ld) = Some (map (append_frame vals) (r @ rs))"
proof -
  let ?c = "committed_prefix (flog @ blog)"
  obtain r where r: "flog @ blog = ?c @ r" "list_all (\<lambda>e. \<not> is_commit (snd e)) r" using committed_prefix_split by metis
  have n: "numbered (flog @ blog)" using L numbered_prefix unfolding leader_log_def by blast
  then have nc: "numbered ?c" using r(1) numbered_prefix by metis
  have u: "unat (commit_end (flog @ blog)) = length ?c" by (rule commit_end_numbered [OF n])
  moreover have "unat (commit_end ?c) = length ?c" using commit_end_numbered [OF nc] by simp
  ultimately have "commit_end (flog @ blog) = commit_end ?c" by (simp add: word_unat_eq_iff)
  then have lcb: "store_last_commit_block fo = commit_end ?c" using F by (simp add: follower_log_def store_last_commit_block_def)
  have "leader_log vals (?c @ r @ rs) ld" using L r(1) by (metis append_assoc)
  from backfill_log [OF this np] lcb have
    "backfill_appends ld (store_last_commit_block fo + 1) (store_next_lsn ld - 1) (scan_wal ld) = Some (map (append_frame vals) (r @ rs))" by simp
  then show thesis using that r lcb commit_end_numbered [OF nc] by simp
qed

text \<open>The connections of one follower process: it may be connected again and again, and each time the queue starts with the same frames.\<close>

inductive retried :: "Frame list \<Rightarrow> Store \<Rightarrow> Store \<Rightarrow> bool" for frames fo where
  retried_first: "retried frames fo fo"
| retried_again: "retried frames fo fo1 \<Longrightarrow> apply_frames (frames @ rest) fo1 = (replies, fo2) \<Longrightarrow> retried frames fo fo2"

lemma stuck:
  assumes L: "leader_log vals ((flog @ blog) @ rs) ld" and np: "\<not> pending (inner ld)" and F: "follower_log vals flog blog (inner fo)"
    and seal: "(l, SegmentSeal a b) \<in> set (scan_wal ld)" "store_last_commit_block fo < l" "l \<le> store_applied_upto fo"
  shows "\<exists>frames. backfill_appends ld (store_last_commit_block fo + 1) (store_next_lsn ld - 1) (scan_wal ld) = Some frames \<and>
    (\<forall>fo' rest. active_id (inner fo') = active_id (inner fo) \<and> last_commit_block (inner fo') = last_commit_block (inner fo) \<longrightarrow>
      (\<exists>fo''. apply_frames (frames @ rest) fo' = ([], fo'') \<and> active_id (inner fo'') = active_id (inner fo) \<and>
        last_commit_block (inner fo'') = last_commit_block (inner fo)))"
proof -
  have lg: "writer_inv ((flog @ blog) @ rs) (inner ld)" "numbered ((flog @ blog) @ rs)" using L by (simp_all add: leader_log_def leader_inv_def)
  then have g: "good_log (flog @ blog)" using good_log_prefix unfolding writer_inv_def by blast
  have num: "numbered (flog @ blog)" using lg(2) by (rule numbered_prefix)
  obtain c r where r: "flog @ blog = c @ r" "list_all (\<lambda>e. \<not> is_commit (snd e)) r" "unat (store_last_commit_block fo) = length c"
    and b: "backfill_appends ld (store_last_commit_block fo + 1) (store_next_lsn ld - 1) (scan_wal ld) = Some (map (append_frame vals) (r @ rs))"
    by (rule backfill_again [OF L np F])
  have "(l, SegmentSeal a b) \<in> set r"
  proof -
    have "(l, SegmentSeal a b) \<in> set (c @ r @ rs)" using seal(1) leader_log_read(1) [OF L np] r(1) by (metis append_assoc)
    moreover have "unat l \<le> length (c @ r)" using seal(3) F log_end_numbered [OF num] r(1) by (simp add: follower_log_def store_applied_upto_def word_le_nat_alt)
    moreover have "length (c @ r) < unat x" if "x \<in> fst ` set rs" for x using numbered_suffix [OF lg(2) that] r(1) by simp
    moreover have "unat x \<le> length c" if "x \<in> fst ` set c" for x
      using numbered_bounds [OF numbered_prefix [of c r] that] num r(1) by simp
    ultimately show ?thesis using seal(2) r(3) by (force simp: word_less_nat_alt)
  qed
  then obtain xs l' a' b' ys where s: "r = xs @ (l', SegmentSeal a' b') # ys" "\<forall>e \<in> set xs. \<not> is_seal (snd e)" by (rule first_seal)
  have act: "active_id (inner fo) \<noteq> a'"
    using sealed_stays [of "c @ xs" l' a' b' ys] g F r(1) s(1) by (auto simp: follower_log_def writer_inv_def follows_def)
  have xs: "is_put (snd e) \<or> (\<exists>ds. snd e = AggDelta ds)" if "e \<in> set xs" for e
  proof -
    have "\<not> is_seal (snd e)" "\<not> is_commit (snd e)" "e \<in> set r" using that s r(2) by (auto simp: list_all_iff)
    moreover from this obtain l where "good_entry l (snd e)" using good_log_records [of c r e] g r(1) by auto
    ultimately show ?thesis by (cases "snd e") (auto simp: good_entry_def is_seal_def is_put_def is_commit_def)
  qed
  have new: "\<forall>e \<in> set xs. last_commit_block (inner fo) < fst e" "last_commit_block (inner fo) < l'"
    using numbered_suffix [of c r] num r(1,3) s(1) by (auto simp: word_less_nat_alt store_last_commit_block_def)
  have "\<exists>fo''. apply_frames (map (append_frame vals) (r @ rs) @ rest) fo' = ([], fo'') \<and> active_id (inner fo'') = active_id (inner fo) \<and>
        last_commit_block (inner fo'') = last_commit_block (inner fo)"
    if "active_id (inner fo') = active_id (inner fo)" "last_commit_block (inner fo') = last_commit_block (inner fo)" for fo' rest
    using repeated_seal [of xs fo' l' a' vals b' None "map (append_frame vals) (ys @ rs) @ rest"] new xs act that
    by (simp add: s(1) is_put_def [of "SegmentSeal a' b'"])
  then show ?thesis using b by blast
qed

text \<open>A connected follower accepts every frame that waits for it.\<close>

lemma fed_frame_kept:
  assumes "fed ld (Some (frame # q)) fo"
  shows "\<exists>reply fo'. apply_frame IoOk frame fo = ((reply, True), fo')"
proof -
  obtain vals flog blog rs where L: "leader_log vals (flog @ blog @ rs) ld" and F: "follower_log vals flog blog (inner fo)"
    and q: "carries vals (frame # q) rs" using fed_invariant [OF assms] by (auto simp: fed_inv_def)
  from q show ?thesis
  proof (cases rule: carries_ConsE)
    case (appended e rs')
    then have "next_record vals (flog @ blog) e" using leader_next [of vals "flog @ blog" e rs' ld] L by simp
    then show ?thesis using append_log [OF F, of "fst e" "snd e"] appended(2) by auto
  next
    case (barrier l)
    then show ?thesis using barrier_log [OF F, of l] by auto
  qed
qed

lemma fed_frames: "fed ld (Some (p @ q)) fo \<Longrightarrow> apply_frames p fo = (out, fo') \<Longrightarrow> fed ld (Some q) fo'"
proof (induction p arbitrary: fo out)
  case (Cons frame p)
  obtain reply fo1 where 1: "apply_frame IoOk frame fo = ((reply, True), fo1)" using fed_frame_kept Cons.prems(1) by fastforce
  have "fed ld (Some (p @ q)) fo1" using fed_take [OF _ 1] Cons.prems(1) by simp
  then show ?case using Cons.IH [of fo1] Cons.prems(2) 1 by (auto simp: Let_def split: prod.splits)
qed simp

section \<open>Property\<close>

text \<open>
  C40. A repeated seal stops a follower: let a follower that keeps running lose its connection when it has applied the record that seals a segment and not yet the commit of that
  batch, and let the leader commit the batch. The leader then sends the batch again, the follower refuses the seal because it has another active segment already, and closes the connection without an
  acknowledgement. It asks for the same records on every later connection and refuses them each time, whatever else the leader has to send.\<close>

theorem repeated_seal_stops_follower:
  assumes "fed (leader_store ld) (Some q) fo" and "\<not> pending (inner (leader_store ld))" and "commit_index ld = store_next_lsn (leader_store ld) - 1"
    and "i < length (followers ld)" and "link_id (followers ld ! i) \<notin> set (failed ld)" and "need_from fo = NeedFrom from"
    and "(l, SegmentSeal a b) \<in> set (scan_wal (leader_store ld))" and "store_last_commit_block fo < l" and "l \<le> store_applied_upto fo"
  shows "\<exists>frames. fqueue (followers (dial_connect i from ld) ! i) =
      frames @ SyncBarrier (commit_index ld) # filter (above_commit (commit_index ld)) (fqueue (followers ld ! i)) \<and>
    (\<forall>fo' rest. retried frames fo fo' \<longrightarrow> need_from fo' = NeedFrom from \<and> fst (apply_frames (frames @ rest) fo') = [])"
proof -
  obtain vals flog blog rs where L: "leader_log vals ((flog @ blog) @ rs) (leader_store ld)" and F: "follower_log vals flog blog (inner fo)"
    using fed_invariant [OF assms(1)] by (auto simp: fed_inv_def)
  obtain frames where b: "backfill_appends (leader_store ld) (store_last_commit_block fo + 1) (commit_index ld) (scan_wal (leader_store ld)) = Some frames"
    and s: "\<And>fo' rest. active_id (inner fo') = active_id (inner fo) \<Longrightarrow> last_commit_block (inner fo') = last_commit_block (inner fo) \<Longrightarrow>
      \<exists>fo''. apply_frames (frames @ rest) fo' = ([], fo'') \<and> active_id (inner fo'') = active_id (inner fo) \<and>
        last_commit_block (inner fo'') = last_commit_block (inner fo)"
    using stuck [OF L assms(2) F assms(7-9)] unfolding assms(3) by blast
  have from_eq: "from = store_last_commit_block fo + 1" using assms(6) by (simp add: need_from_def)
  have inv: "active_id (inner fo') = active_id (inner fo) \<and> last_commit_block (inner fo') = last_commit_block (inner fo)" if "retried frames fo fo'" for fo'
    using that
  proof (induction rule: retried.induct)
    case (retried_again fo1 rest replies fo2)
    then show ?case using s [of fo1 rest] by auto
  qed simp
  then have "need_from fo' = NeedFrom from \<and> fst (apply_frames (frames @ rest) fo') = []" if "retried frames fo fo'" for fo' rest
    using that s [of fo' rest] from_eq by (auto simp: need_from_def store_last_commit_block_def)
  moreover have "fqueue (followers (dial_connect i from ld) ! i) =
      frames @ SyncBarrier (commit_index ld) # filter (above_commit (commit_index ld)) (fqueue (followers ld ! i))"
    using assms(4,5) b by (simp add: from_eq dial_connect_def handle_backfill_def backfill_read_def backfill_install_def update_link_def)
  ultimately show ?thesis by blast
qed

text \<open>An example: with segments of one byte, every put seals the segment behind its value.\<close>

lemma example_seal:
  "\<exists>st sp st1 vals l a b. leader_log vals [] st \<and> fed st (Some []) st \<and> counters_ok (inner st) (length [1, 2 :: u8]) \<and>
     stage_put [97, 47, 98] [1, 2] st = (Inr sp, st1) \<and> pending (inner st1) \<and> room (inner st) [1, 2] \<and> store_next_lsn st = 1 \<and> inner_inv (inner st) \<and>
     open_with_options empty_disk None 1 = (Inr st, dir (inner st)) \<and> (l, SegmentSeal a b) \<in> set (staged_records sp)"
proof -
  obtain st sp st1 where e: "counters_ok (inner st) (length [1, 2 :: u8])" "stage_put [97, 47, 98] [1, 2] st = (Inr sp, st1)" "pending (inner st1)"
    "open_with_options empty_disk None 1 = (Inr st, dir (inner st))" "next_free_id (inner st) = 1" using example_put [of 1] by blast
  have s: "active_offset (inner st) = 0" "segment_max_bytes (inner st) = 1" "store_next_lsn st = 1"
    by (simp_all add: store_next_lsn_def open_empty_inner [OF e(4)] fresh_inner_def wal_open_None)
  have i: "inner_inv (inner st)" using store_inv_open [OF e(4)] by (simp add: store_inv_def)
  obtain s' where s': "inner_stage_put [97, 47, 98] [1, 2] (inner st) = (Inr sp, s')" using e(2) by (auto simp: stage_put_def locked_def split: prod.splits)
  obtain l rs s2 es where b: "stage_body [97, 47, 98] [1, 2] (inner st) = (Inr (l, rs), s2)" "seal_if (segment_max_bytes s2 < 2) s2 = (Inr es, s')"
    "staged_records sp = rs @ es" using s' s(1) by (auto simp: inner_stage_put_def op_bind_Inr op_basic)
  have "segment_max_bytes s2 = 1" using stage_body_ok [OF i _ _ b(1)] s(1,2) by simp
  then obtain e' where "seal_active_record s2 = (Inr e', s')" "es = [e']" using b(2) by (auto simp: op_bind_Inr op_basic)
  then have "(next_lsn (wal s2), SegmentSeal (active_id s2) (next_free_id s2)) \<in> set (staged_records sp)"
    using b(3) by (auto simp: seal_active_record_def op_bind_Inr op_basic inner_append_Inr)
  moreover have "room (inner st) [1, 2]" using e(1,5) by (simp add: room_def)
  ultimately show ?thesis using leader_log_new [OF e(4)] fed_open [OF e(4,4)] e s(3) i by blast
qed

theorem repeated_seal_stops_follower_witness:
  "\<exists>(ld :: Leader) q fo frames. fed (leader_store ld) (Some q) fo \<and> store_get (leader_store ld) [97, 47, 98] = Inr (Some [1, 2]) \<and>
     fqueue (followers (dial_connect 0 1 ld) ! 0) = frames @ [SyncBarrier (commit_index ld)] \<and>
     (\<forall>fo' rest. retried frames fo fo' \<longrightarrow> need_from fo' = NeedFrom 1 \<and> fst (apply_frames (frames @ rest) fo') = [])"
proof -
  obtain st sp st1 vals l a b where e: "leader_log vals [] st" "fed st (Some []) st" "counters_ok (inner st) (length [1, 2 :: u8])"
    "stage_put [97, 47, 98] [1, 2] st = (Inr sp, st1)" "pending (inner st1)" "room (inner st) [1, 2]" "store_next_lsn st = 1" "inner_inv (inner st)"
    "open_with_options empty_disk None 1 = (Inr st, dir (inner st))" "(l, SegmentSeal a b) \<in> set (staged_records sp)" using example_seal by metis
  let ?rs = "staged_records sp" and ?vals = "vals(object_id sp := ([97, 47, 98], [1, 2]))"
  have u: "utf8_valid [97, 47, 98]" "unat (store_next_lsn st) + 5 < 2 ^ 64" using e(7) by simp_all
  note p = leader_log_put [OF e(1,6) u e(4)]
  have L: "leader_log ?vals ([] @ [] @ ?rs) st1" using p by simp
  have "map (append_frame ?vals) ?rs @ [SyncBarrier (batch_end_of ?rs)] = put_frames sp [1, 2]" using p by (auto simp: batch_frames_def)
  with apply_backlog [OF L follower_log_new [OF e(9)], of "batch_end_of ?rs"] obtain fo where
    fo: "apply_frames (put_frames sp [1, 2]) st = ([SyncAck (log_end ?rs)], fo)" "follower_log ?vals ?rs [] (inner fo)" by auto
  have "fed st1 (Some (put_frames sp [1, 2])) st" using fed_put [OF e(2,6) u e(4)] by simp
  then have f1: "fed st1 (Some []) fo" using fed_frames [of st1 "put_frames sp [1, 2]" "[]" st] fo(1) by simp
  obtain st2 where fl: "flush IoOk st1 = (Inr (), st2)" "store_get st2 [97, 47, 98] = Inr (Some [1, 2])"
    using flush_reads_back [OF e(8,3,4)] by blast
  let ?l = "next_lsn (wal (inner st1)) - 1"
  have c: "commit IoOk ?l st1 = (Inr (), st2)" using fl(1) e(5) by (simp add: flush_def)
  obtain s1 where s1: "inner_stage_put [97, 47, 98] [1, 2] (inner st) = (Inr sp, s1)" "st1 = st\<lparr>inner := s1\<rparr>"
    using e(4) by (auto simp: stage_put_def locked_def split: prod.splits)
  have n: "unat (store_next_lsn st1) + 5 < 2 ^ 64" using stage_next [OF s1(1) _ e(8,3)] e(7) by (simp add: s1(2) store_next_lsn_def)
  have f2: "fed st2 (Some (commit_frames (store_next_lsn st2 - 1) ?l)) fo" using fed_commit [OF f1 e(5) n c] by simp
  have L2: "leader_log ?vals (?rs @ [(store_next_lsn st2 - 1, Commit ?l)]) st2" using leader_log_commit [OF _ e(5) n c] L by simp
  have np: "\<not> pending (inner st2)" by (rule commit_not_pending [OF c e(5)])
  have num: "numbered ?rs" using L by (simp add: leader_log_def)
  have "list_all (\<lambda>(l, r). \<not> is_commit r) ?rs" using stage_lsns [OF s1(1) _ e(3)] u(2) by (simp add: store_next_lsn_def)
  then have "committed_prefix ?rs = []" using committed_prefix_append [of ?rs "[]"] by (simp add: case_prod_unfold)
  then have "unat (store_last_commit_block fo) = 0" using fo(2) commit_end_numbered [OF num] by (simp add: follower_log_def store_last_commit_block_def)
  then have lcb: "store_last_commit_block fo = 0" by (simp add: unat_eq_0)
  have "l \<in> fst ` set ?rs" using e(10) by force
  then have l: "store_last_commit_block fo < l" "l \<le> store_applied_upto fo"
    using numbered_bounds [OF num, of l] lcb fo(2) log_end_numbered [OF num] by (auto simp: word_less_nat_alt word_le_nat_alt follower_log_def store_applied_upto_def)
  have seal: "(l, SegmentSeal a b) \<in> set (scan_wal st2)" using leader_log_read(1) [OF L2 np] e(10) by simp
  define ld where "ld = \<lparr>leader_store = st2, commit_index = store_next_lsn st2 - 1, followers = [new_link (1, [])], failed = [], quorum = 1\<rparr>"
  have "fed (leader_store ld) (Some (commit_frames (store_next_lsn st2 - 1) ?l)) fo" using f2 by (simp add: ld_def)
  moreover have "need_from fo = NeedFrom 1" using lcb by (simp add: need_from_def)
  moreover from repeated_seal_stops_follower [OF calculation(1) _ _ _ _ calculation(2), of 0 l a b] obtain frames where
    "fqueue (followers (dial_connect 0 1 ld) ! 0) = frames @ [SyncBarrier (commit_index ld)]"
    "\<forall>fo' rest. retried frames fo fo' \<longrightarrow> need_from fo' = NeedFrom 1 \<and> fst (apply_frames (frames @ rest) fo') = []"
    using np seal l by (auto simp: ld_def new_link_def)
  moreover have "store_get (leader_store ld) [97, 47, 98] = Inr (Some [1, 2])" using fl(2) by (simp add: ld_def)
  ultimately show ?thesis by blast
qed

end
