(* ===== verification/View.thy ===== *)
theory View
  imports Store
begin

text \<open>
  The lock-free read handle \<open>StoreView\<close> of \<^verbatim>\<open>crates/shardvault-core/src/segment.rs\<close>: it shares the snapshot cell with the store. A
  read loads the snapshot once; the files it reads from are those of the directory at that moment. The last
  section shows that a read through the handle is a read of the store.
\<close>

definition view_file :: "Snap \<Rightarrow> u64 \<Rightarrow> StoreError + nat" where
  "view_file sn seg = (case map_of (snap_files sn) seg of
     None \<Rightarrow> Inl (Corrupt (''segment '' @ seg_name seg @ '' not open'')) | Some file \<Rightarrow> Inr file)"

definition view_get :: "disk \<Rightarrow> Snap \<Rightarrow> str \<Rightarrow> StoreError + bytes option" where
  "view_get d sn key = (case map_of (snap_index sn) key of
     None \<Rightarrow> Inr None
   | Some (seg, offset, len, lsn) \<Rightarrow> and_then (view_file sn seg) (\<lambda>file.
       and_then (read_value (file_data d file) offset len) (\<lambda>v. Inr (Some v))))"

definition view_get_upto :: "disk \<Rightarrow> Snap \<Rightarrow> str \<Rightarrow> Lsn \<Rightarrow> StoreError + bytes option" where
  "view_get_upto d sn key committed = (case map_of (snap_index sn) key of
     None \<Rightarrow> Inr None
   | Some (seg, offset, len, lsn) \<Rightarrow>
       if lsn > committed then Inr None
       else and_then (view_file sn seg) (\<lambda>file.
         and_then (read_value (file_data d file) offset len) (\<lambda>v. Inr (Some v))))"

definition view_capacity :: "Snap \<Rightarrow> str \<Rightarrow> Aggregate" where
  "view_capacity sn pre = rollup_get (snap_rollup sn) pre"

definition view_keys_with_prefix :: "Snap \<Rightarrow> str \<Rightarrow> (str \<times> u32) list" where
  "view_keys_with_prefix sn pre =
    sort_keys (map (\<lambda>(k, seg, off, len, lsn). (k, len))
      (filter (\<lambda>(k, seg, off, len, lsn). under_prefix pre k)
        (filter (\<lambda>(k, seg, off, len, lsn). lsn \<le> snap_committed sn) (snap_index sn))))"

definition read_view :: "Store \<Rightarrow> Snap" where
  "read_view st = snap st"

section \<open>Reading through the handle\<close>

lemma view_get_store: "view_get (dir (inner st)) (read_view st) key = store_get st key"
  by (auto simp: view_get_def read_view_def store_get_def read_snap_def view_file_def and_then_def split: option.splits)

lemma view_get_upto_store: "view_get_upto (dir (inner st)) (read_view st) key c = get_upto st key c"
  by (auto simp: view_get_upto_def read_view_def get_upto_def read_snap_def view_file_def and_then_def split: option.splits)

lemma view_capacity_store: "view_capacity (read_view st) pre = capacity st pre"
  by (simp add: view_capacity_def read_view_def capacity_def)

lemma view_keys_store: "view_keys_with_prefix (read_view st) pre = keys_with_prefix st pre"
  by (simp add: view_keys_with_prefix_def read_view_def keys_with_prefix_def)

text \<open>The position bound only hides values: what a bounded read returns is what the unbounded one returns.\<close>

lemma view_get_upto_cases:
  "view_get_upto d sn key c = Inr None \<or> view_get_upto d sn key c = view_get d sn key"
  by (auto simp: view_get_upto_def view_get_def split: option.splits)

end
