(* ===== verification/NodeMain.thy ===== *)
theory NodeMain
  imports Node CrashRecovery
begin

text \<open>
  The node's command line, \<^verbatim>\<open>crates/shardvault-node/src/main.rs\<close>: parsing of the arguments, the choice of a role, and the
  verification of a store. Arguments are ASCII strings; leaving through \<open>usage\<close> is \<open>None\<close>. The report is the value
  that is printed as JSON.
\<close>

section \<open>Arguments\<close>

record Args =
  verify_mode :: bool
  arg_id :: "u64 option"
  arg_peers :: "string list option"
  arg_addr :: "string option"
  arg_dir :: "string option"
  arg_role :: "u8 option"

definition no_args :: Args where
  "no_args = \<lparr>verify_mode = False, arg_id = None, arg_peers = None, arg_addr = None, arg_dir = None, arg_role = None\<rparr>"

definition is_white :: "char \<Rightarrow> bool" where
  "is_white c \<longleftrightarrow> (of_char c :: nat) = 32 \<or> 9 \<le> (of_char c :: nat) \<and> (of_char c :: nat) \<le> 13"

definition trim :: "string \<Rightarrow> string" where
  "trim s = rev (dropWhile is_white (rev (dropWhile is_white s)))"

definition parse_role :: "string \<Rightarrow> u8 option" where
  "parse_role v = (if v = ''leader'' then Some ROLE_LEADER else if v = ''follower'' then Some ROLE_FOLLOWER else None)"

text \<open>A flag that takes a value; the value that does not parse ends in \<open>usage\<close>.\<close>

definition parse_flag :: "string \<Rightarrow> string \<Rightarrow> Args \<Rightarrow> Args option" where
  "parse_flag arg v a =
    (if arg = ''--id'' then map_option (\<lambda>n. a\<lparr>arg_id := Some n\<rparr>) (parse_u64 v)
     else if arg = ''--peers'' then Some (a\<lparr>arg_peers := Some (map trim (split_on (CHR '','') v))\<rparr>)
     else if arg = ''--addr'' then Some (a\<lparr>arg_addr := Some v\<rparr>)
     else if arg = ''--dir'' then Some (a\<lparr>arg_dir := Some v\<rparr>)
     else if arg = ''--role'' then map_option (\<lambda>r. a\<lparr>arg_role := Some r\<rparr>) (parse_role v)
     else None)"

fun parse_args :: "string list \<Rightarrow> Args \<Rightarrow> Args option" where
  "parse_args [] a = Some a"
| "parse_args (arg # rest) a =
    (if arg = ''--verify'' then parse_args rest (a\<lparr>verify_mode := True\<rparr>)
     else (case rest of [] \<Rightarrow> None | v # rest' \<Rightarrow> Option.bind (parse_flag arg v a) (parse_args rest')))"

datatype start = Verify string | Run Config string

definition main_args :: "string list \<Rightarrow> start option" where
  "main_args args = do {
     a \<leftarrow> parse_args args no_args;
     if verify_mode a then map_option Verify (arg_dir a)
     else do {
       i \<leftarrow> arg_id a;
       peers \<leftarrow> arg_peers a;
       d \<leftarrow> arg_dir a;
       role \<leftarrow> arg_role a;
       addr \<leftarrow> (case arg_addr a of Some addr \<Rightarrow> Some addr
         | None \<Rightarrow> if unat i < length peers then Some (peers ! unat i) else None);
       Some (Run \<lparr>cfg_id = i, cfg_addr = addr, cfg_peers = peers, cfg_role = role\<rparr> d) } }"

datatype node_start = RunLeader | RunFollower | InvalidInput string

definition node_run :: "Config \<Rightarrow> node_start" where
  "node_run cfg = (if cfg_role cfg = ROLE_LEADER then RunLeader
     else if cfg_role cfg = ROLE_FOLLOWER then RunFollower
     else InvalidInput (''unknown role '' @ show_nat (unat (cfg_role cfg))))"

section \<open>Verification of a store\<close>

definition hex_digit :: "nat \<Rightarrow> char" where
  "hex_digit n = (if n < 10 then char_of (48 + n) else char_of (87 + n))"

definition hex8 :: "u32 \<Rightarrow> string" where
  "hex8 w = map (\<lambda>i. hex_digit (unat w div 16 ^ i mod 16)) [7, 6, 5, 4, 3, 2, 1, 0]"

record key_report =
  kr_key :: str
  kr_len :: u32
  kr_crc :: string

record verify_report =
  vr_committed_lsn :: Lsn
  vr_keys :: "key_report list"
  vr_object_count :: u64
  vr_byte_count :: u64

definition show_str :: "str \<Rightarrow> string" where
  "show_str s = map (\<lambda>b. char_of (unat b)) s"

fun verify_keys :: "Store \<Rightarrow> Lsn \<Rightarrow> (str \<times> u32) list \<Rightarrow> key_report list \<Rightarrow> string + key_report list" where
  "verify_keys st committed [] ks = Inr ks"
| "verify_keys st committed ((key, len) # rest) ks = (case get_upto st key committed of
     Inr (Some v) \<Rightarrow> verify_keys st committed rest (ks @ [\<lparr>kr_key = key, kr_len = len, kr_crc = hex8 (crc32c v)\<rparr>])
   | Inr None \<Rightarrow> Inl (''verify: committed key vanished: '' @ show_str key)
   | Inl e \<Rightarrow> Inl (''verify: read failed for '' @ show_str key @ '': '' @ store_error_msg e))"

text \<open>\<open>Inl\<close> is the message and exit code 1, \<open>Inr\<close> the report and exit code 0.\<close>

definition verify :: "disk \<Rightarrow> os_file option \<Rightarrow> string + verify_report" where
  "verify d wal_log = (case fst (store_open d wal_log) of
     Inl e \<Rightarrow> Inl (''verify failed: '' @ store_error_msg e)
   | Inr st \<Rightarrow>
       let committed = store_committed_lsn st in
       and_then (verify_keys st committed (committed_keys st) []) (\<lambda>keys.
         let agg = capacity st [] in
         Inr \<lparr>vr_committed_lsn = committed, vr_keys = keys, vr_object_count = object_count agg, vr_byte_count = byte_count agg\<rparr>))"

section \<open>Reading what is listed\<close>

lemma distinct_index: "distinct (map fst (l_index (layout_of lg)))"
proof (induction lg rule: rev_induct)
  case (snoc e lg)
  then show ?case by (cases "snd e") (auto simp: lay_step_def distinct_update)
qed (simp add: layout0_def)

lemma committed_key_reads:
  assumes ok: "index_ok (inner st) (snap_files (snap st)) (snap_index (snap st))" and d: "distinct (map fst (snap_index (snap st)))"
    and k: "(key, len) \<in> set (committed_keys st)"
  shows "\<exists>v. get_upto st key (store_committed_lsn st) = Inr (Some v) \<and> store_get st key = Inr (Some v) \<and> len = of_nat (length v)"
proof -
  from k obtain seg off lsn where e: "(key, seg, off, len, lsn) \<in> set (snap_index (snap st))" "lsn \<le> snap_committed (snap st)"
    by (auto simp: committed_keys_def)
  then have m: "map_of (snap_index (snap st)) key = Some (seg, off, len, lsn)" using d by (simp add: map_of_is_SomeI)
  with ok obtain i where i: "map_of (snap_files (snap st)) seg = Some i" "protected_region (inner st) i off len"
    unfolding index_ok_def by blast
  then obtain v where v: "read_value (file_data (dir (inner st)) i) off len = Inr v" "length v = unat len"
    by (cases "len = 0") (auto simp: read_value_def protected_region_def word_neq_0_conv unat_gt_0)
  then have "of_nat (length v) = len" by simp
  then show ?thesis
    using m i(1) v(1) e(2) by (auto simp: get_upto_def store_get_def read_snap_def store_committed_lsn_def)
qed

lemma verify_keys_ok:
  assumes "\<And>key len. (key, len) \<in> set kls \<Longrightarrow> \<exists>v. get_upto st key c = Inr (Some v) \<and> store_get st key = Inr (Some v) \<and> len = of_nat (length v)"
  shows "\<exists>krs. verify_keys st c kls ks = Inr (ks @ krs) \<and> map (\<lambda>r. (kr_key r, kr_len r)) krs = kls \<and>
    (\<forall>r \<in> set krs. \<exists>v. store_get st (kr_key r) = Inr (Some v) \<and> kr_len r = of_nat (length v) \<and> kr_crc r = hex8 (crc32c v))"
  using assms
proof (induction kls arbitrary: ks)
  case (Cons kl kls)
  obtain key len where kl: "kl = (key, len)" by force
  obtain v where v: "get_upto st key c = Inr (Some v)" "store_get st key = Inr (Some v)" "len = of_nat (length v)"
    using Cons.prems [of key len] kl by auto
  let ?r = "\<lparr>kr_key = key, kr_len = len, kr_crc = hex8 (crc32c v)\<rparr>"
  obtain krs where "verify_keys st c kls (ks @ [?r]) = Inr ((ks @ [?r]) @ krs)" "map (\<lambda>r. (kr_key r, kr_len r)) krs = kls"
    "\<forall>r \<in> set krs. \<exists>v. store_get st (kr_key r) = Inr (Some v) \<and> kr_len r = of_nat (length v) \<and> kr_crc r = hex8 (crc32c v)"
    using Cons.IH [of "ks @ [?r]"] Cons.prems by auto
  then show ?case using v by (intro exI [of _ "?r # krs"]) (simp add: kl)
qed simp

section \<open>Property\<close>



end
