(* ===== verification/Svctl.thy ===== *)
theory Svctl
  imports Node
begin

text \<open>
  The control client, \<^verbatim>\<open>crates/shardvault-node/src/bin/svctl.rs\<close>: the request each command sends and what it does with the
  reply. The parsing of the command line belongs to the clap package; a command is its result. A run ends
  with lines on the standard output, with a message and exit code 1, or in a panic.
\<close>

section \<open>Commands\<close>

datatype Cmd =
    CmdPut str bytes
  | CmdGet str
  | CmdLs str
  | CmdCapacity str
  | CmdNodeStatus
  | CmdSimulateFailure u64

record Client =
  next_id :: u64

definition client_connect :: Client where
  "client_connect = \<lparr>next_id = 1\<rparr>"

definition client_req :: "Client \<Rightarrow> u64 \<times> Client" where
  "client_req c = (next_id c, c\<lparr>next_id := next_id c + 1\<rparr>)"

text \<open>A printed line is text, or the lossy decoding of a value.\<close>

datatype line = Text string | Lossy bytes

datatype outcome = Printed "line list" | ExitFailure string | Panicked

definition show_bytes :: "bytes \<Rightarrow> string" where
  "show_bytes s = map (\<lambda>b. char_of (unat b)) s"

definition pad_left :: "nat \<Rightarrow> string \<Rightarrow> string" where
  "pad_left n s = replicate (n - length s) (CHR '' '') @ s"

definition show_word :: "'a::len word \<Rightarrow> string" where
  "show_word w = show_nat (unat w)"

definition client_put :: "u64 \<Rightarrow> Frame \<Rightarrow> outcome" where
  "client_put i reply = (case reply of
     PutOk rid \<Rightarrow> if rid = i then Printed [Text ''ack''] else Panicked
   | PutErr rid msg \<Rightarrow> if rid = i then ExitFailure (''svctl: put rejected: '' @ msg) else Panicked
   | _ \<Rightarrow> Panicked)"

definition client_get :: "u64 \<Rightarrow> Frame \<Rightarrow> bytes option option" where
  "client_get i reply = (case reply of GetOk rid v \<Rightarrow> if rid = i then Some v else None | _ \<Rightarrow> None)"

definition client_list :: "u64 \<Rightarrow> Frame \<Rightarrow> (str \<times> u32) list option" where
  "client_list i reply = (case reply of ListOk rid keys \<Rightarrow> if rid = i then Some keys else None | _ \<Rightarrow> None)"

definition client_capacity :: "u64 \<Rightarrow> Frame \<Rightarrow> ((u64 \<times> u64) \<times> (u64 \<times> u64)) option" where
  "client_capacity i reply = (case reply of
     CapacityOk rid aggregate brute \<Rightarrow> if rid = i then Some (aggregate, brute) else None | _ \<Rightarrow> None)"

definition client_status :: "Frame \<Rightarrow> (u64 \<times> (u64 \<times> u64) list) option" where
  "client_status reply = (case reply of StatusOk ci matches \<Rightarrow> Some (ci, matches) | _ \<Rightarrow> None)"

definition client_simulate_failure :: "Frame \<Rightarrow> unit option" where
  "client_simulate_failure reply = (case reply of SimulateFailureDone \<Rightarrow> Some () | _ \<Rightarrow> None)"

definition printed :: "('a \<Rightarrow> line list) \<Rightarrow> 'a option \<Rightarrow> outcome" where
  "printed f r = (case r of None \<Rightarrow> Panicked | Some x \<Rightarrow> Printed (f x))"

definition put_request :: "str \<Rightarrow> bytes \<Rightarrow> Client \<Rightarrow> Frame \<times> Client" where
  "put_request key value c = (let (i, c) = client_req c in (PutReq i key value, c))"

definition get_request :: "str \<Rightarrow> Client \<Rightarrow> Frame \<times> Client" where
  "get_request key c = (let (i, c) = client_req c in (GetReq i key, c))"

definition list_request :: "str \<Rightarrow> Client \<Rightarrow> Frame \<times> Client" where
  "list_request pre c = (let (i, c) = client_req c in (ListReq i pre, c))"

definition capacity_request :: "str \<Rightarrow> Client \<Rightarrow> Frame \<times> Client" where
  "capacity_request pre c = (let (i, c) = client_req c in (CapacityReq i pre, c))"

definition status_request :: "Client \<Rightarrow> Frame \<times> Client" where
  "status_request c = (StatusReq, c)"

definition simulate_failure_request :: "u64 \<Rightarrow> Client \<Rightarrow> Frame \<times> Client" where
  "simulate_failure_request node c = (SimulateFailure node, c)"

lemmas requests = put_request_def get_request_def list_request_def capacity_request_def status_request_def
  simulate_failure_request_def client_req_def

fun cmd_request :: "Cmd \<Rightarrow> Client \<Rightarrow> Frame \<times> Client" where
  "cmd_request (CmdPut key value) c = put_request key value c"
| "cmd_request (CmdGet key) c = get_request key c"
| "cmd_request (CmdLs pre) c = list_request pre c"
| "cmd_request (CmdCapacity pre) c = capacity_request pre c"
| "cmd_request CmdNodeStatus c = status_request c"
| "cmd_request (CmdSimulateFailure node) c = simulate_failure_request node c"

definition capacity_lines :: "(u64 \<times> u64) \<times> (u64 \<times> u64) \<Rightarrow> line list" where
  "capacity_lines r = (let ((agg_c, agg_b), (brute_c, brute_b)) = r in
    [Text ''prefix    objects bytes'',
     Text (''rollup    '' @ pad_left 7 (show_word agg_c) @ '' '' @ pad_left 8 (show_word agg_b)),
     Text (''recount   '' @ pad_left 7 (show_word brute_c) @ '' '' @ pad_left 8 (show_word brute_b)),
     Text (if (agg_c, agg_b) = (brute_c, brute_b) then ''OK: rollup matches brute-force recount''
           else ''MISMATCH: rollup disagrees with recount'')])"

definition status_lines :: "u64 \<times> (u64 \<times> u64) list \<Rightarrow> line list" where
  "status_lines r = (let (ci, matches) = r in Text (''commit_index: '' @ show_word ci) #
     map (\<lambda>(i, m). Text (''  follower '' @ show_word i @ '': match_index '' @ show_word m)) matches)"

fun cmd_outcome :: "Cmd \<Rightarrow> u64 \<Rightarrow> Frame \<Rightarrow> outcome" where
  "cmd_outcome (CmdPut key value) i reply = client_put i reply"
| "cmd_outcome (CmdGet key) i reply =
    printed (\<lambda>v. case v of Some value \<Rightarrow> [Lossy value] | None \<Rightarrow> [Text ''(none)'']) (client_get i reply)"
| "cmd_outcome (CmdLs pre) i reply =
    printed (map (\<lambda>(key, len). Text (show_bytes key @ [CHR 0x09] @ show_word len))) (client_list i reply)"
| "cmd_outcome (CmdCapacity pre) i reply = printed capacity_lines (client_capacity i reply)"
| "cmd_outcome CmdNodeStatus i reply = printed status_lines (client_status reply)"
| "cmd_outcome (CmdSimulateFailure node) i reply =
    printed (\<lambda>_. [Text (''marked follower '' @ show_word node @ '' as failed on the leader'')]) (client_simulate_failure reply)"

section \<open>Against the leader\<close>

text \<open>The leader's answer to a request; a put is answered when its thread ends with \<open>pc\<close>.\<close>

definition leader_answer :: "u64 \<Rightarrow> put_pc \<Rightarrow> Leader \<Rightarrow> Frame \<Rightarrow> Frame option" where
  "leader_answer syncs pc ld frame = (case fst (handle_client syncs frame ld) of
     Reply r \<Rightarrow> Some r
   | StartPut rid key value \<Rightarrow> put_response rid pc
   | _ \<Rightarrow> None)"

definition final_pc :: "put_pc \<Rightarrow> bool" where
  "final_pc pc \<longleftrightarrow> put_response 0 pc \<noteq> None"

text \<open>What a command is meant to show of the leader.\<close>

definition intended :: "Cmd \<Rightarrow> put_pc \<Rightarrow> Leader \<Rightarrow> outcome" where
  "intended cmd pc ld = (case cmd of
     CmdPut key value \<Rightarrow> (case pc of PutFailed msg \<Rightarrow> ExitFailure (''svctl: put rejected: '' @ msg) | _ \<Rightarrow> Printed [Text ''ack''])
   | CmdGet key \<Rightarrow> (case get_upto (leader_store ld) key (commit_index ld) of
       Inr (Some v) \<Rightarrow> Printed [Lossy v] | _ \<Rightarrow> Printed [Text ''(none)''])
   | CmdLs pre \<Rightarrow> Printed (map (\<lambda>(key, len). Text (show_bytes key @ [CHR 0x09] @ show_word len)) (keys_with_prefix (leader_store ld) pre))
   | CmdCapacity pre \<Rightarrow>
       (let agg = capacity (leader_store ld) pre; ks = keys_with_prefix (leader_store ld) pre
        in Printed (capacity_lines ((object_count agg, byte_count agg), (of_nat (length ks), sum_list (map (\<lambda>(k, len). ucast len) ks)))))
   | CmdNodeStatus \<Rightarrow> Printed (status_lines (commit_index ld, map (\<lambda>f. (link_id f, match_index f)) (followers ld)))
   | CmdSimulateFailure node \<Rightarrow> Printed [Text (''marked follower '' @ show_word node @ '' as failed on the leader'')])"

lemma recount_fold:
  "fold (\<lambda>(k, len) (c, b). (c + 1, b + ucast len)) ks (c, b) =
    (c + of_nat (length ks) :: u64, b + sum_list (map (\<lambda>(k, len :: u32). ucast len) ks) :: u64)"
  by (induction ks arbitrary: c b) (auto simp: algebra_simps)

lemma leader_answers:
  "leader_answer n pc ld (PutReq i key v) = put_response i pc"
  "leader_answer n pc ld (GetReq i key) = Some (GetOk i (case get_upto (leader_store ld) key (commit_index ld) of Inr v \<Rightarrow> v | Inl e \<Rightarrow> None))"
  "leader_answer n pc ld (ListReq i pre) = Some (ListOk i (keys_with_prefix (leader_store ld) pre))"
  "leader_answer n pc ld (CapacityReq i pre) = Some (CapacityOk i
     (object_count (capacity (leader_store ld) pre), byte_count (capacity (leader_store ld) pre))
     (of_nat (length (keys_with_prefix (leader_store ld) pre)), sum_list (map (\<lambda>(k, len). ucast len) (keys_with_prefix (leader_store ld) pre))))"
  "leader_answer n pc ld StatusReq = Some (StatusOk (commit_index ld) (map (\<lambda>f. (link_id f, match_index f)) (followers ld)))"
  "leader_answer n pc ld (SimulateFailure node) = Some SimulateFailureDone"
  by (simp_all add: leader_answer_def handle_client_def Let_def recount_fold)

section \<open>Property\<close>



end
