(* ===== verification/Fault.thy ===== *)
theory Fault
  imports Prelude
begin

text \<open>
  Fault injection, \<^verbatim>\<open>crates/shardvault-core/src/fault.rs\<close> with its feature switched on: a counter of syncs, and the
  number of the sync at which the process aborts. An aborted process is \<open>None\<close>.
\<close>

record fault =
  COUNT :: u64
  FAIL_AT :: "u64 option"

definition maybe_fail :: "fault \<Rightarrow> fault option" where
  "maybe_fail f = (let n = COUNT f + 1 in
     if FAIL_AT f = Some n then None else Some (f\<lparr>COUNT := n\<rparr>))"

definition fault_count :: "fault \<Rightarrow> u64" where
  "fault_count f = COUNT f"

text \<open>The number of syncs a process survives.\<close>

fun syncs :: "nat \<Rightarrow> fault \<Rightarrow> fault option" where
  "syncs 0 f = Some f"
| "syncs (Suc k) f = Option.bind (maybe_fail f) (syncs k)"

lemma syncs_survives:
  "unat (COUNT f) + k < 2 ^ 64 \<Longrightarrow> (\<And>t. FAIL_AT f = Some t \<Longrightarrow> unat t \<le> unat (COUNT f) \<or> unat (COUNT f) + k < unat t) \<Longrightarrow>
    syncs k f = Some (f\<lparr>COUNT := COUNT f + of_nat k\<rparr>)"
proof (induction k arbitrary: f)
  case (Suc k)
  let ?f = "f\<lparr>COUNT := COUNT f + 1\<rparr>"
  have u: "unat (COUNT f + 1) = unat (COUNT f) + 1" using Suc.prems(1) by (simp add: unat_word_ariths)
  have "FAIL_AT f \<noteq> Some (COUNT f + 1)" using Suc.prems(2) [of "COUNT f + 1"] u by auto
  then have "maybe_fail f = Some ?f" by (simp add: maybe_fail_def)
  moreover have "syncs k ?f = Some (?f\<lparr>COUNT := COUNT ?f + of_nat k\<rparr>)"
    using Suc.prems u by (intro Suc.IH) force+
  ultimately show ?case by (simp add: add.assoc)
qed simp

text \<open>A process told to fail at the \<open>n\<close>-th sync survives exactly the syncs before it.\<close>

lemma fails_at_nth:
  assumes "0 < n" "n < 2 ^ 64"
  shows "syncs k \<lparr>COUNT = 0, FAIL_AT = Some (of_nat n)\<rparr> = None \<longleftrightarrow> n \<le> k"
proof -
  let ?f = "\<lparr>COUNT = 0, FAIL_AT = Some (of_nat n)\<rparr>"
  have n: "unat (of_nat n :: u64) = n" using assms(2) by (simp add: unat_of_nat)
  have small: "k < n \<Longrightarrow> syncs k ?f = Some (?f\<lparr>COUNT := of_nat k\<rparr>)" for k
    using syncs_survives [of ?f k] n assms by simp
  have comp: "syncs (a + b) f = Option.bind (syncs a f) (syncs b)" for a b f
    by (induction a arbitrary: f) (auto split: Option.bind_splits)
  have "syncs n ?f = None"
  proof -
    have "syncs ((n - 1) + 1) ?f = Option.bind (syncs (n - 1) ?f) (syncs 1)" by (rule comp)
    also have "\<dots> = None" using small [of "n - 1"] assms(1) by (simp add: maybe_fail_def)
    finally show ?thesis using assms(1) by simp
  qed
  then have "n \<le> k \<Longrightarrow> syncs k ?f = None" using comp [of n "k - n" ?f] by simp
  then show ?thesis using small [of k] by fastforce
qed

end
